(* ===== verification/Go_Prelude.thy ===== *)
theory Go_Prelude
  imports Main "HOL-Library.Word" "HOL-Library.Multiset" "HOL-Library.Monad_Syntax"
begin

section \<open>Shared vocabulary of the development\<close>

text \<open>
  This theory holds what the component theories share: the result type for Go code that may
  return, panic, throw or park, the collections of rewrite rules the components fill, and
  generic lemmas on lists and options that several components use.
\<close>

subsection \<open>Results of Go code\<close>

text \<open>
  Go code ends in one of four ways that the models tell apart: it returns a value, it panics
  (a Go-level panic with its message), it throws (the runtime's fatal error), or it parks the
  calling goroutine, whose remaining code then runs when some other goroutine readies it.
\<close>

datatype 'a outcome =
    Ret 'a
  | Panic string
  | Throw string
  | Park

type_synonym byte = "8 word"

named_theorems frame_simps \<open>what an operation leaves unchanged\<close>
named_theorems repr_intros \<open>introduction rules for representation predicates\<close>

subsection \<open>Lists\<close>

lemma hd_conv_nth0: "xs \<noteq> [] \<Longrightarrow> hd xs = xs ! 0"
  by (cases xs) auto

lemma take_Suc_nth: "i < length xs \<Longrightarrow> take (Suc i) xs = take i xs @ [xs ! i]"
  by (rule take_Suc_conv_app_nth)

lemma drop_nth_Cons: "i < length xs \<Longrightarrow> drop i xs = xs ! i # drop (Suc i) xs"
  by (rule Cons_nth_drop_Suc [symmetric])

end
