(* ===== verification/Chan_Waitq.thy ===== *)
theory Chan_Waitq
  imports Go_Prelude
begin

section \<open>Sudogs and the wait queues of channels (runtime/chan.go, runtime/select.go)\<close>

text \<open>
  A goroutine that blocks on a channel is represented there by a sudog. The sudogs waiting on
  one end of a channel form a doubly linked list with a first and a last pointer (\<open>waitq\<close>).
  Sudogs live in a store indexed by their addresses; the links are addresses in that store, so
  the model keeps the aliasing of the Go code: changing a sudog changes it in every queue.
  A queue is abstracted to the list of the addresses on it (\<open>wq_repr\<close>).
\<close>

subsection \<open>State\<close>

type_synonym sgid = nat \<comment> \<open>the address of a sudog\<close>
type_synonym gid = nat \<comment> \<open>the address of a goroutine descriptor\<close>
type_synonym chid = nat \<comment> \<open>the address of a channel\<close>
type_synonym ptr = nat \<comment> \<open>the address of a value on some goroutine's stack or in the heap\<close>

record sudog =
  sg_g :: gid
  sg_next :: "sgid option"
  sg_prev :: "sgid option"
  sg_elem :: "ptr option"
  isSelect :: bool
  success :: bool
  waitlink :: "sgid option"
  sg_c :: "chid option"

record waitq =
  wq_first :: "sgid option"
  wq_last :: "sgid option"

datatype gstatus = Grunning | Gwaiting | Grunnable

record goroutine =
  g_status :: gstatus
  g_param :: "sgid option"
  g_waiting :: "sgid option"
  selectDone :: nat
  activeStackChans :: bool
  parkingOnChan :: bool

type_synonym sg_store = "sgid \<Rightarrow> sudog"
type_synonym g_store = "gid \<Rightarrow> goroutine"

subsection \<open>Operations\<close>

definition set_next :: "sgid \<Rightarrow> sgid option \<Rightarrow> sg_store \<Rightarrow> sg_store" where
  "set_next i v h = h(i := (h i)\<lparr>sg_next := v\<rparr>)"

definition set_prev :: "sgid \<Rightarrow> sgid option \<Rightarrow> sg_store \<Rightarrow> sg_store" where
  "set_prev i v h = h(i := (h i)\<lparr>sg_prev := v\<rparr>)"

definition enqueue :: "sg_store \<Rightarrow> waitq \<Rightarrow> sgid \<Rightarrow> sg_store \<times> waitq" where
  "enqueue h q sgp =
     (let h = set_next sgp None h in
      case wq_last q of
        None \<Rightarrow> (set_prev sgp None h, \<lparr>wq_first = Some sgp, wq_last = Some sgp\<rparr>)
      | Some x \<Rightarrow>
          (let h = set_prev sgp (Some x) h;
               h = set_next x (Some sgp) h
           in (h, q\<lparr>wq_last := Some sgp\<rparr>)))"

text \<open>
  \<open>dequeue\<close> loops until it finds a sudog it wins: a select's sudog counts only if the
  compare-and-swap of its goroutine's \<open>selectDone\<close> from 0 to 1 succeeds. \<open>None\<close> means that
  the loop does not end; \<open>Some (h, gs, q, r)\<close> that it returns \<open>r\<close>.
\<close>

partial_function (option) dequeue ::
  "sg_store \<Rightarrow> g_store \<Rightarrow> waitq \<Rightarrow> (sg_store \<times> g_store \<times> waitq \<times> sgid option) option" where
  "dequeue h gs q =
     (case wq_first q of
        None \<Rightarrow> Some (h, gs, q, None)
      | Some sgp \<Rightarrow>
          (let (h, q) =
             (case sg_next (h sgp) of
                None \<Rightarrow> (h, \<lparr>wq_first = None, wq_last = None\<rparr>)
              | Some y \<Rightarrow>
                  (set_next sgp None (set_prev y None h), q\<lparr>wq_first := Some y\<rparr>))
           in if isSelect (h sgp)
              then (if selectDone (gs (sg_g (h sgp))) = 0
                    then Some (h, gs(sg_g (h sgp) := (gs (sg_g (h sgp)))\<lparr>selectDone := 1\<rparr>),
                               q, Some sgp)
                    else dequeue h gs q)
              else Some (h, gs, q, Some sgp)))"

definition dequeueSudoG :: "sg_store \<Rightarrow> waitq \<Rightarrow> sgid \<Rightarrow> sg_store \<times> waitq" where
  "dequeueSudoG h q sgp =
     (case sg_prev (h sgp) of
        Some x \<Rightarrow>
          (case sg_next (h sgp) of
             Some y \<Rightarrow>
               (set_prev sgp None (set_next sgp None (set_prev y (Some x) (set_next x (Some y) h))), q)
           | None \<Rightarrow> (set_prev sgp None (set_next x None h), q\<lparr>wq_last := Some x\<rparr>))
      | None \<Rightarrow>
          (case sg_next (h sgp) of
             Some y \<Rightarrow> (set_next sgp None (set_prev y None h), q\<lparr>wq_first := Some y\<rparr>)
           | None \<Rightarrow>
               if wq_first q = Some sgp then (h, \<lparr>wq_first = None, wq_last = None\<rparr>) else (h, q)))"

subsection \<open>The list a queue represents\<close>

fun head_opt :: "'a list \<Rightarrow> 'a option" where
  "head_opt [] = None"
| "head_opt (x # xs) = Some x"

definition last_opt :: "'a list \<Rightarrow> 'a option" where
  "last_opt xs = (if xs = [] then None else Some (last xs))"

text \<open>
  \<open>seg h p xs n\<close>: the sudogs \<open>xs\<close> are linked in this order, the first has predecessor \<open>p\<close>
  and the last has successor \<open>n\<close>.
\<close>

fun seg :: "sg_store \<Rightarrow> sgid option \<Rightarrow> sgid list \<Rightarrow> sgid option \<Rightarrow> bool" where
  "seg h p [] n = True"
| "seg h p (x # xs) n =
     (sg_prev (h x) = p \<and> sg_next (h x) = (if xs = [] then n else head_opt xs) \<and>
      seg h (Some x) xs n)"

definition wq_repr :: "sg_store \<Rightarrow> waitq \<Rightarrow> sgid list \<Rightarrow> bool" where
  "wq_repr h q xs \<longleftrightarrow>
     distinct xs \<and> wq_first q = head_opt xs \<and> wq_last q = last_opt xs \<and> seg h None xs None"

text \<open>What \<open>dequeue\<close> does to the represented list.\<close>

fun pick :: "sg_store \<Rightarrow> g_store \<Rightarrow> sgid list \<Rightarrow> g_store \<times> sgid list \<times> sgid option" where
  "pick h gs [] = (gs, [], None)"
| "pick h gs (x # xs) =
     (if isSelect (h x)
      then (if selectDone (gs (sg_g (h x))) = 0
            then (gs(sg_g (h x) := (gs (sg_g (h x)))\<lparr>selectDone := 1\<rparr>), xs, Some x)
            else pick h gs xs)
      else (gs, xs, Some x))"

text \<open>
  Two stores that differ at most in the links of the sudogs in \<open>A\<close>: what the queue
  operations may change.
\<close>

definition link_change :: "sgid set \<Rightarrow> sg_store \<Rightarrow> sg_store \<Rightarrow> bool" where
  "link_change A h h' \<longleftrightarrow>
     (\<forall>i. h' i = (h i)\<lparr>sg_next := sg_next (h' i), sg_prev := sg_prev (h' i)\<rparr> \<and>
          (i \<notin> A \<longrightarrow> h' i = h i))"

subsection \<open>Lemmas on segments\<close>

lemmas set_link_defs = set_next_def set_prev_def

lemma head_opt_append: "head_opt (xs @ ys) = (if xs = [] then head_opt ys else head_opt xs)"
  by (cases xs) auto

lemma last_opt_simps [simp]:
  "last_opt [] = None" "last_opt (xs @ [x]) = Some x" "last_opt [x] = Some x"
  "last_opt (x # y # xs) = last_opt (y # xs)"
  by (auto simp: last_opt_def)

lemma last_opt_append: "last_opt (xs @ ys) = (if ys = [] then last_opt xs else last_opt ys)"
  by (simp add: last_opt_def)

lemma head_opt_eq_None [simp]: "head_opt xs = None \<longleftrightarrow> xs = []" "None = head_opt xs \<longleftrightarrow> xs = []"
  by (cases xs; auto)+

lemma last_opt_eq_None [simp]: "last_opt xs = None \<longleftrightarrow> xs = []" "None = last_opt xs \<longleftrightarrow> xs = []"
  by (auto simp: last_opt_def)

lemma head_opt_in_set: "head_opt xs = Some x \<Longrightarrow> x \<in> set xs"
  by (cases xs) auto

lemma last_opt_in_set: "last_opt xs = Some x \<Longrightarrow> x \<in> set xs"
  by (auto simp: last_opt_def split: if_splits)

lemma seg_append:
  "seg h p (xs @ ys) n \<longleftrightarrow>
     seg h p xs (if ys = [] then n else head_opt ys) \<and>
     seg h (if xs = [] then p else last_opt xs) ys n"
  by (induction xs arbitrary: p) (auto simp: head_opt_append last_opt_def)

text \<open>The links of a list depend only on the sudogs on it.\<close>

lemma seg_cong:
  "(\<And>x. x \<in> set xs \<Longrightarrow> sg_next (h' x) = sg_next (h x) \<and> sg_prev (h' x) = sg_prev (h x))
   \<Longrightarrow> seg h' p xs n = seg h p xs n"
  by (induction xs arbitrary: p) auto

lemma wq_repr_cong:
  "(\<And>x. x \<in> set xs \<Longrightarrow> sg_next (h' x) = sg_next (h x) \<and> sg_prev (h' x) = sg_prev (h x))
   \<Longrightarrow> wq_repr h' q xs = wq_repr h q xs"
  using seg_cong [of xs h' h] by (auto simp: wq_repr_def)

lemma wq_repr_first: "wq_repr h q xs \<Longrightarrow> wq_first q = head_opt xs"
  and wq_repr_last: "wq_repr h q xs \<Longrightarrow> wq_last q = last_opt xs"
  and wq_repr_distinct: "wq_repr h q xs \<Longrightarrow> distinct xs"
  by (auto simp: wq_repr_def)

lemma wq_repr_Nil [simp]: "wq_repr h \<lparr>wq_first = None, wq_last = None\<rparr> []"
  by (simp add: wq_repr_def)

subsection \<open>Frame lemmas\<close>

lemma link_change_refl [simp]: "link_change A h h"
  by (simp add: link_change_def)

lemma link_change_trans:
  "link_change A h h' \<Longrightarrow> link_change B h' h'' \<Longrightarrow> link_change (A \<union> B) h h''"
proof -
  assume 1: "link_change A h h'" and 2: "link_change B h' h''"
  have "h'' i = (h i)\<lparr>sg_next := sg_next (h'' i), sg_prev := sg_prev (h'' i)\<rparr>" for i
  proof -
    obtain n p where "h' i = (h i)\<lparr>sg_next := n, sg_prev := p\<rparr>"
      using 1 unfolding link_change_def by blast
    moreover obtain n' p' where "h'' i = (h' i)\<lparr>sg_next := n', sg_prev := p'\<rparr>"
      using 2 unfolding link_change_def by blast
    ultimately show ?thesis by simp
  qed
  then show ?thesis using 1 2 by (auto simp: link_change_def)
qed

lemma link_change_mono: "link_change A h h' \<Longrightarrow> A \<subseteq> B \<Longrightarrow> link_change B h h'"
  by (auto simp: link_change_def)

lemma link_change_set_next: "i \<in> A \<Longrightarrow> link_change A h (set_next i v h)"
  and link_change_set_prev: "i \<in> A \<Longrightarrow> link_change A h (set_prev i v h)"
  by (auto simp: link_change_def set_link_defs)

lemma link_change_payload:
  assumes "link_change A h h'"
  shows "sg_g (h' i) = sg_g (h i)" and "sg_elem (h' i) = sg_elem (h i)"
    and "isSelect (h' i) = isSelect (h i)" and "success (h' i) = success (h i)"
    and "waitlink (h' i) = waitlink (h i)" and "sg_c (h' i) = sg_c (h i)"
proof -
  have "h' i = (h i)\<lparr>sg_next := sg_next (h' i), sg_prev := sg_prev (h' i)\<rparr>"
    using assms by (simp add: link_change_def)
  then have "\<exists>n p. h' i = (h i)\<lparr>sg_next := n, sg_prev := p\<rparr>" by blast
  then show "sg_g (h' i) = sg_g (h i)" and "sg_elem (h' i) = sg_elem (h i)"
    and "isSelect (h' i) = isSelect (h i)" and "success (h' i) = success (h i)"
    and "waitlink (h' i) = waitlink (h i)" and "sg_c (h' i) = sg_c (h i)"
    by auto
qed

lemma link_change_out: "link_change A h h' \<Longrightarrow> i \<notin> A \<Longrightarrow> h' i = h i"
  by (simp add: link_change_def)

lemma link_change_repr:
  "link_change A h h' \<Longrightarrow> set xs \<inter> A = {} \<Longrightarrow> wq_repr h' q xs = wq_repr h q xs"
  by (rule wq_repr_cong) (metis disjoint_iff link_change_out)

subsection \<open>The queue operations on the represented list\<close>

lemma enqueue_repr:
  assumes "wq_repr h q xs" and "sgp \<notin> set xs" and "enqueue h q sgp = (h', q')"
  shows "wq_repr h' q' (xs @ [sgp])" and "link_change (insert sgp (set xs)) h h'"
proof -
  show "wq_repr h' q' (xs @ [sgp])"
  proof (cases xs rule: rev_cases)
    case Nil
    with assms show ?thesis
      by (auto simp: enqueue_def wq_repr_def set_link_defs Let_def)
  next
    case (snoc ys y)
    have "seg h' None ys (Some y) = seg h None ys (Some y)"
      using assms snoc by (intro seg_cong) (auto simp: enqueue_def wq_repr_def set_link_defs Let_def)
    with assms snoc show ?thesis
      by (auto simp: enqueue_def wq_repr_def set_link_defs Let_def seg_append head_opt_append
          last_opt_append)
  qed
  show "link_change (insert sgp (set xs)) h h'"
    using assms last_opt_in_set [of xs]
    by (auto simp: enqueue_def wq_repr_def link_change_def set_link_defs Let_def split: option.splits)
qed

lemma dequeue_step:
  assumes "wq_repr h q (x # xs)"
  defines "h1 \<equiv> (case xs of [] \<Rightarrow> h | y # ys \<Rightarrow> set_next x None (set_prev y None h))"
    and "q1 \<equiv> (case xs of [] \<Rightarrow> \<lparr>wq_first = None, wq_last = None\<rparr> | y # ys \<Rightarrow> q\<lparr>wq_first := Some y\<rparr>)"
  shows "dequeue h gs q =
      (if isSelect (h x)
       then (if selectDone (gs (sg_g (h x))) = 0
             then Some (h1, gs(sg_g (h x) := (gs (sg_g (h x)))\<lparr>selectDone := 1\<rparr>), q1, Some x)
             else dequeue h1 gs q1)
       else Some (h1, gs, q1, Some x))"
    and "wq_repr h1 q1 xs" and "link_change (insert x (set xs)) h h1"
    and "sg_next (h1 x) = None" and "sg_prev (h1 x) = None"
proof -
  show lc: "link_change (insert x (set xs)) h h1"
    by (auto simp: h1_def link_change_def set_link_defs split: list.splits)
  have "isSelect (h1 x) = isSelect (h x)" "sg_g (h1 x) = sg_g (h x)"
    using link_change_payload [OF lc] by auto
  then show "dequeue h gs q =
      (if isSelect (h x)
       then (if selectDone (gs (sg_g (h x))) = 0
             then Some (h1, gs(sg_g (h x) := (gs (sg_g (h x)))\<lparr>selectDone := 1\<rparr>), q1, Some x)
             else dequeue h1 gs q1)
       else Some (h1, gs, q1, Some x))"
    using assms(1) by (subst dequeue.simps) (cases xs; simp add: wq_repr_def h1_def q1_def)
  show "wq_repr h1 q1 xs"
  proof (cases xs)
    case Nil
    then show ?thesis by (simp add: h1_def q1_def wq_repr_def)
  next
    case (Cons y ys)
    have "seg h1 (Some y) ys None = seg h (Some y) ys None"
      using assms(1) Cons by (intro seg_cong) (auto simp: h1_def wq_repr_def set_link_defs)
    with assms(1) Cons show ?thesis
      by (auto simp: h1_def q1_def wq_repr_def set_link_defs)
  qed
  show "sg_next (h1 x) = None" and "sg_prev (h1 x) = None"
    using assms(1) by (auto simp: h1_def wq_repr_def set_link_defs split: list.splits)
qed

lemma pick_link_change: "link_change A h h' \<Longrightarrow> pick h' gs xs = pick h gs xs"
  by (induction xs) (simp_all add: link_change_payload [of A h h'])

text \<open>
  \<open>dequeue\<close> always returns on a well-formed queue, and does to the represented list what
  \<open>pick\<close> does: it drops the sudogs of selects that were already won and returns the first
  other one, unlinked.
\<close>

lemma dequeue_repr:
  assumes "wq_repr h q xs" and "pick h gs xs = (gs', ys, r)"
  shows "\<exists>h' q'. dequeue h gs q = Some (h', gs', q', r) \<and> wq_repr h' q' ys \<and>
           link_change (set xs) h h' \<and>
           (\<forall>x. r = Some x \<longrightarrow> x \<in> set xs \<and> x \<notin> set ys \<and> sg_next (h' x) = None \<and> sg_prev (h' x) = None)"
  using assms
proof (induction xs arbitrary: h q)
  case Nil
  then show ?case by (auto simp: wq_repr_def dequeue.simps)
next
  case (Cons x xs)
  obtain h1 q1 where step:
      "dequeue h gs q =
        (if isSelect (h x)
         then (if selectDone (gs (sg_g (h x))) = 0
               then Some (h1, gs(sg_g (h x) := (gs (sg_g (h x)))\<lparr>selectDone := 1\<rparr>), q1, Some x)
               else dequeue h1 gs q1)
         else Some (h1, gs, q1, Some x))"
    and repr: "wq_repr h1 q1 xs" and lc: "link_change (insert x (set xs)) h h1"
    and unl: "sg_next (h1 x) = None" "sg_prev (h1 x) = None"
    using dequeue_step(1) [OF Cons.prems(1), of gs] dequeue_step(2-) [OF Cons.prems(1)] by blast
  have notin: "x \<notin> set xs" using Cons.prems(1) by (simp add: wq_repr_def)
  show ?case
  proof (cases "isSelect (h x) \<and> selectDone (gs (sg_g (h x))) \<noteq> 0")
    case True
    with Cons.prems(2) have "pick h1 gs xs = (gs', ys, r)"
      by (simp add: pick_link_change [OF lc])
    from Cons.IH [OF repr this] obtain h' q' where
      "dequeue h1 gs q1 = Some (h', gs', q', r)" "wq_repr h' q' ys" "link_change (set xs) h1 h'"
      "\<forall>x. r = Some x \<longrightarrow> x \<in> set xs \<and> x \<notin> set ys \<and> sg_next (h' x) = None \<and> sg_prev (h' x) = None"
      by blast
    with True step show ?thesis
      using link_change_trans [OF lc] by (fastforce simp: insert_absorb Un_commute)
  next
    case False
    with Cons.prems(2) have "ys = xs" "r = Some x"
      by (auto split: if_splits)
    with False Cons.prems(2) step repr lc unl notin show ?thesis
      by (auto split: if_splits)
  qed
qed

lemma set_pick: "pick h gs xs = (gs', ys, r) \<Longrightarrow> set ys \<subseteq> set xs"
  by (induction xs) (auto split: if_splits)

lemma pick_plain:
  "\<forall>x \<in> set xs. \<not> isSelect (h x) \<Longrightarrow> pick h gs xs = (gs, tl xs, head_opt xs)"
  by (cases xs) auto

lemma dequeueSudoG_repr:
  assumes "wq_repr h q (as @ sgp # bs)" and "dequeueSudoG h q sgp = (h', q')"
  shows "wq_repr h' q' (as @ bs)" and "link_change (set (as @ sgp # bs)) h h'"
    and "sg_next (h' sgp) = None" and "sg_prev (h' sgp) = None"
proof -
  have links: "sg_prev (h sgp) = last_opt as" "sg_next (h sgp) = head_opt bs"
    using assms(1) by (auto simp: wq_repr_def seg_append split: if_splits)
  show lc: "link_change (set (as @ sgp # bs)) h h'"
    using assms links last_opt_in_set [of as] head_opt_in_set [of bs]
    by (auto simp: dequeueSudoG_def link_change_def set_link_defs split: option.splits if_splits)
  show "sg_next (h' sgp) = None" and "sg_prev (h' sgp) = None"
    using assms links last_opt_in_set [of as] head_opt_in_set [of bs]
    by (auto simp: dequeueSudoG_def set_link_defs wq_repr_def split: option.splits if_splits)
  show "wq_repr h' q' (as @ bs)"
  proof (cases as rule: rev_cases)
    case Nil
    show ?thesis
    proof (cases bs)
      case Nil
      with \<open>as = []\<close> assms show ?thesis
        by (auto simp: dequeueSudoG_def wq_repr_def split: option.splits if_splits)
    next
      case (Cons b bs')
      have "seg h' (Some b) bs' None = seg h (Some b) bs' None"
        using assms \<open>as = []\<close> Cons
        by (intro seg_cong) (auto simp: dequeueSudoG_def wq_repr_def set_link_defs)
      with assms \<open>as = []\<close> Cons show ?thesis
        by (auto simp: dequeueSudoG_def wq_repr_def set_link_defs)
    qed
  next
    case (snoc as' a)
    have 1: "seg h' None as' (Some a) = seg h None as' (Some a)"
      using assms links snoc head_opt_in_set [of bs]
      by (intro seg_cong)
         (auto simp: dequeueSudoG_def wq_repr_def set_link_defs split: option.splits)
    show ?thesis
    proof (cases bs)
      case Nil
      with 1 assms snoc show ?thesis
        by (auto simp: dequeueSudoG_def wq_repr_def set_link_defs seg_append last_opt_append
              head_opt_append)
    next
      case (Cons b bs')
      have "seg h' (Some b) bs' None = seg h (Some b) bs' None"
        using assms links snoc Cons
        by (intro seg_cong) (auto simp: dequeueSudoG_def wq_repr_def set_link_defs)
      with 1 assms snoc Cons show ?thesis
        by (auto simp: dequeueSudoG_def wq_repr_def set_link_defs seg_append last_opt_append
              head_opt_append)
    qed
  qed
qed

text \<open>A sudog that another goroutine already dequeued is left alone.\<close>

lemma dequeueSudoG_absent:
  assumes "wq_repr h q xs" and "sgp \<notin> set xs" and "sg_next (h sgp) = None" and "sg_prev (h sgp) = None"
  shows "dequeueSudoG h q sgp = (h, q)"
  using assms head_opt_in_set [of xs sgp] by (auto simp: dequeueSudoG_def wq_repr_def)

subsection \<open>The interface the channel code relies on\<close>

text \<open>
  What a client of the wait queues may use: how each operation changes the represented list,
  and that it touches only the nodes of that list, so that every queue with other nodes
  keeps its list.
\<close>

locale waiter_queue =
  fixes repr :: "'h \<Rightarrow> 'q \<Rightarrow> 'i list \<Rightarrow> bool"
    and touched :: "'i set \<Rightarrow> 'h \<Rightarrow> 'h \<Rightarrow> bool"
    and enq :: "'h \<Rightarrow> 'q \<Rightarrow> 'i \<Rightarrow> 'h \<times> 'q"
    and deq :: "'h \<Rightarrow> 'g \<Rightarrow> 'q \<Rightarrow> ('h \<times> 'g \<times> 'q \<times> 'i option) option"
    and rm :: "'h \<Rightarrow> 'q \<Rightarrow> 'i \<Rightarrow> 'h \<times> 'q"
    and sel :: "'h \<Rightarrow> 'g \<Rightarrow> 'i list \<Rightarrow> 'g \<times> 'i list \<times> 'i option"
  assumes frame: "touched A h h' \<Longrightarrow> set xs \<inter> A = {} \<Longrightarrow> repr h' q xs = repr h q xs"
    and enq_repr: "repr h q xs \<Longrightarrow> i \<notin> set xs \<Longrightarrow> enq h q i = (h', q') \<Longrightarrow>
      repr h' q' (xs @ [i]) \<and> touched (insert i (set xs)) h h'"
    and deq_repr: "repr h q xs \<Longrightarrow> sel h gs xs = (gs', ys, r) \<Longrightarrow>
      \<exists>h' q'. deq h gs q = Some (h', gs', q', r) \<and> repr h' q' ys \<and> touched (set xs) h h'"
    and rm_repr: "repr h q (as @ i # bs) \<Longrightarrow> rm h q i = (h', q') \<Longrightarrow>
      repr h' q' (as @ bs) \<and> touched (set (as @ i # bs)) h h'"
begin

lemma enq_other:
  assumes "repr h q xs" and "i \<notin> set xs" and "enq h q i = (h', q')"
    and "repr h p ys" and "i \<notin> set ys" and "set xs \<inter> set ys = {}"
  shows "repr h' p ys"
proof -
  have "touched (insert i (set xs)) h h'" using assms enq_repr by blast
  moreover have "set ys \<inter> insert i (set xs) = {}" using assms by auto
  ultimately show ?thesis using assms(4) frame by blast
qed

lemma deq_other:
  assumes "repr h q xs" and "deq h gs q = Some (h', gs', q', r)"
    and "repr h p ys" and "set xs \<inter> set ys = {}"
  shows "repr h' p ys"
proof -
  obtain gs1 zs r1 where "sel h gs xs = (gs1, zs, r1)" by (cases "sel h gs xs")
  then have "touched (set xs) h h'" using assms(1,2) deq_repr by fastforce
  then show ?thesis using assms(3,4) frame by (metis inf_commute)
qed

lemma deq_returns: "repr h q xs \<Longrightarrow> \<exists>r. deq h gs q = Some r"
  using deq_repr by (metis prod_cases3)

end

interpretation wq: waiter_queue wq_repr link_change enqueue dequeue dequeueSudoG pick
proof unfold_locales
  fix h gs q xs gs' ys r
  assume "wq_repr h q xs" and "pick h gs xs = (gs', ys, r)"
  from dequeue_repr [OF this] show
    "\<exists>h' q'. dequeue h gs q = Some (h', gs', q', r) \<and> wq_repr h' q' ys \<and> link_change (set xs) h h'"
    by blast
qed (use dequeueSudoG_repr in \<open>auto simp: link_change_repr enqueue_repr\<close>)

end
