(* ===== verification/Chan.thy ===== *)
theory Chan
  imports Chan_Waitq
begin

section \<open>Channels (runtime/chan.go)\<close>

text \<open>
  The operations on channels as state transformers on the runtime state: channels, sudogs,
  goroutines and the memory the element pointers point into. The code between taking and
  releasing a channel's lock is one atomic step of the model. An operation that parks the
  calling goroutine ends its first part with \<open>Park\<close>; its remaining code is a definition of its
  own (\<open>chansend_wake\<close>, \<open>chanrecv_wake\<close>), run once another goroutine has readied the caller.
  An element type is a type with a zero value, which \<open>typedmemclr\<close> writes. The race detector
  (\<open>raceenabled\<close> is the constant false in libgo), debug printing and block profiling
  (\<open>releasetime\<close>, with the default \<open>blockprofilerate\<close> of 0) are left out.
\<close>

subsection \<open>State\<close>

record 'v hchan =
  qcount :: nat
  dataqsiz :: nat
  buf :: "'v list"
  closed :: bool
  sendx :: nat
  recvx :: nat
  recvq :: waitq
  sendq :: waitq

record 'v rt =
  chans :: "chid \<Rightarrow> 'v hchan"
  sudogs :: sg_store
  gs :: g_store
  mem :: "ptr \<Rightarrow> 'v"
  sudogcache :: "sgid list" \<comment> \<open>released sudogs, reused last in first out\<close>
  sg_next_new :: sgid \<comment> \<open>the address \<open>new(sudog)\<close> returns next\<close>

definition empty_waitq :: waitq where
  "empty_waitq = \<lparr>wq_first = None, wq_last = None\<rparr>"

definition zero_sudog :: sudog where
  "zero_sudog = \<lparr>sg_g = 0, sg_next = None, sg_prev = None, sg_elem = None, isSelect = False,
     success = False, waitlink = None, sg_c = None\<rparr>"

definition upd_chan :: "chid \<Rightarrow> ('v hchan \<Rightarrow> 'v hchan) \<Rightarrow> 'v rt \<Rightarrow> 'v rt" where
  "upd_chan c f s = s\<lparr>chans := (chans s)(c := f (chans s c))\<rparr>"

definition upd_sg :: "sgid \<Rightarrow> (sudog \<Rightarrow> sudog) \<Rightarrow> 'v rt \<Rightarrow> 'v rt" where
  "upd_sg i f s = s\<lparr>sudogs := (sudogs s)(i := f (sudogs s i))\<rparr>"

definition upd_g :: "gid \<Rightarrow> (goroutine \<Rightarrow> goroutine) \<Rightarrow> 'v rt \<Rightarrow> 'v rt" where
  "upd_g g f s = s\<lparr>gs := (gs s)(g := f (gs s g))\<rparr>"

definition store :: "ptr \<Rightarrow> 'v \<Rightarrow> 'v rt \<Rightarrow> 'v rt" where
  "store p v s = s\<lparr>mem := (mem s)(p := v)\<rparr>"

text \<open>A write through a pointer that may be nil, in which case the value is ignored.\<close>

definition store_opt :: "ptr option \<Rightarrow> 'v \<Rightarrow> 'v rt \<Rightarrow> 'v rt" where
  "store_opt p v s = (case p of None \<Rightarrow> s | Some p \<Rightarrow> store p v s)"

lemma sel_upd [frame_simps]:
  "chans (upd_chan c f s) = (chans s)(c := f (chans s c))" "sudogs (upd_chan c f s) = sudogs s"
  "gs (upd_chan c f s) = gs s" "mem (upd_chan c f s) = mem s"
  "sudogcache (upd_chan c f s) = sudogcache s" "sg_next_new (upd_chan c f s) = sg_next_new s"
  "chans (upd_sg i f' s) = chans s" "sudogs (upd_sg i f' s) = (sudogs s)(i := f' (sudogs s i))"
  "gs (upd_sg i f' s) = gs s" "mem (upd_sg i f' s) = mem s"
  "sudogcache (upd_sg i f' s) = sudogcache s" "sg_next_new (upd_sg i f' s) = sg_next_new s"
  "chans (upd_g g f'' s) = chans s" "sudogs (upd_g g f'' s) = sudogs s"
  "gs (upd_g g f'' s) = (gs s)(g := f'' (gs s g))" "mem (upd_g g f'' s) = mem s"
  "sudogcache (upd_g g f'' s) = sudogcache s" "sg_next_new (upd_g g f'' s) = sg_next_new s"
  by (simp_all add: upd_chan_def upd_sg_def upd_g_def)

lemma sel_store [frame_simps]:
  "chans (store p v s) = chans s" "sudogs (store p v s) = sudogs s" "gs (store p v s) = gs s"
  "sudogcache (store p v s) = sudogcache s" "sg_next_new (store p v s) = sg_next_new s"
  "mem (store p v s) = (mem s)(p := v)"
  "chans (store_opt ep v s) = chans s" "sudogs (store_opt ep v s) = sudogs s" "gs (store_opt ep v s) = gs s"
  "sudogcache (store_opt ep v s) = sudogcache s" "sg_next_new (store_opt ep v s) = sg_next_new s"
  "mem (store_opt ep v s) = (case ep of None \<Rightarrow> mem s | Some p \<Rightarrow> (mem s)(p := v))"
  by (simp_all add: store_def store_opt_def split: option.splits)

subsection \<open>Making a channel\<close>

definition MulUintptr :: "64 word \<Rightarrow> 64 word \<Rightarrow> 64 word \<times> bool" where
  "MulUintptr a b =
     (if or a b < push_bit 32 1 \<or> a = 0 then (a * b, False)
      else (a * b, b > (-1) div a))"

text \<open>
  \<open>maxAlloc\<close> and \<open>hchanSize\<close> are constants of the target platform, a 64-bit one: \<open>uintptr\<close> has 64 bits. The buffer of \<open>size\<close> slots
  is zeroed by the allocator.
\<close>

definition makechan ::
  "64 word \<Rightarrow> 64 word \<Rightarrow> 64 word \<Rightarrow> 64 word \<Rightarrow> int \<Rightarrow> ('v::zero) hchan outcome" where
  "makechan maxAlloc hchanSize elem_size elem_align sz =
     (if elem_size \<ge> push_bit 16 1 then Throw ''makechan: invalid channel element type''
      else if hchanSize mod 8 \<noteq> 0 \<or> elem_align > 8 then Throw ''makechan: bad alignment''
      else let (m, overflow) = MulUintptr elem_size (word_of_int sz) in
        if overflow \<or> m > maxAlloc - hchanSize \<or> sz < 0
        then Panic ''makechan: size out of range''
        else Ret \<lparr>qcount = 0, dataqsiz = nat sz, buf = replicate (nat sz) 0, closed = False,
                  sendx = 0, recvx = 0, recvq = empty_waitq, sendq = empty_waitq\<rparr>)"

definition reflect_makechan ::
  "64 word \<Rightarrow> 64 word \<Rightarrow> 64 word \<Rightarrow> 64 word \<Rightarrow> int \<Rightarrow> ('v::zero) hchan outcome" where
  "reflect_makechan maxAlloc hchanSize elem_size elem_align sz =
     makechan maxAlloc hchanSize elem_size elem_align sz"

text \<open>\<open>makechan64\<close> takes an \<open>int64\<close>; \<open>intSize\<close> is the width of the platform's \<open>int\<close>.\<close>

definition makechan64 ::
  "nat \<Rightarrow> 64 word \<Rightarrow> 64 word \<Rightarrow> 64 word \<Rightarrow> 64 word \<Rightarrow> int \<Rightarrow> ('v::zero) hchan outcome" where
  "makechan64 intSize maxAlloc hchanSize elem_size elem_align sz =
     (if signed_take_bit (intSize - 1) sz \<noteq> sz then Panic ''makechan: size out of range''
      else makechan maxAlloc hchanSize elem_size elem_align (signed_take_bit (intSize - 1) sz))"

subsection \<open>The scheduler's part\<close>

definition goready :: "gid \<Rightarrow> 'v rt \<Rightarrow> 'v rt \<times> unit outcome" where
  "goready gp s =
     (if g_status (gs s gp) \<noteq> Gwaiting then (s, Throw ''bad g->status in ready'')
      else (upd_g gp (g_status_update (\<lambda>_. Grunnable)) s, Ret ()))"

definition chanparkcommit :: "gid \<Rightarrow> 'v rt \<Rightarrow> 'v rt" where
  "chanparkcommit gp s = upd_g gp (\<lambda>g. g\<lparr>activeStackChans := True, parkingOnChan := False\<rparr>) s"

definition gopark :: "gid \<Rightarrow> ('v rt \<Rightarrow> 'v rt) \<Rightarrow> 'v rt \<Rightarrow> 'v rt \<times> 'a outcome" where
  "gopark gp unlockf s =
     (if g_status (gs s gp) \<noteq> Grunning then (s, Throw ''gopark: bad g status'')
      else (unlockf (upd_g gp (g_status_update (\<lambda>_. Gwaiting)) s), Park))"

text \<open>
  \<open>acquireSudog\<close> takes the last sudog of the cache, or a new zeroed one; the per-processor
  caches and the central one are one list here.
\<close>

definition acquireSudog :: "'v rt \<Rightarrow> 'v rt \<times> sgid outcome" where
  "acquireSudog s =
     (let s = (if sudogcache s = []
               then (upd_sg (sg_next_new s) (\<lambda>_. zero_sudog) s)
                      \<lparr>sudogcache := [sg_next_new s], sg_next_new := Suc (sg_next_new s)\<rparr>
               else s);
          sg = last (sudogcache s);
          s = s\<lparr>sudogcache := butlast (sudogcache s)\<rparr>
      in if sg_elem (sudogs s sg) \<noteq> None
         then (s, Throw ''acquireSudog: found s.elem != nil in cache'')
         else (s, Ret sg))"

definition releaseSudog :: "gid \<Rightarrow> sgid \<Rightarrow> 'v rt \<Rightarrow> 'v rt \<times> unit outcome" where
  "releaseSudog gp sg s =
     (if sg_elem (sudogs s sg) \<noteq> None then (s, Throw ''runtime: sudog with non-nil elem'')
      else if isSelect (sudogs s sg) then (s, Throw ''runtime: sudog with non-false isSelect'')
      else if sg_next (sudogs s sg) \<noteq> None then (s, Throw ''runtime: sudog with non-nil next'')
      else if sg_prev (sudogs s sg) \<noteq> None then (s, Throw ''runtime: sudog with non-nil prev'')
      else if waitlink (sudogs s sg) \<noteq> None then (s, Throw ''runtime: sudog with non-nil waitlink'')
      else if sg_c (sudogs s sg) \<noteq> None then (s, Throw ''runtime: sudog with non-nil c'')
      else if g_param (gs s gp) \<noteq> None then (s, Throw ''runtime: releaseSudog with non-nil gp.param'')
      else (s\<lparr>sudogcache := sudogcache s @ [sg]\<rparr>, Ret ()))"

subsection \<open>Sending\<close>

definition chan_full :: "'v hchan \<Rightarrow> bool" where
  "chan_full c = (if dataqsiz c = 0 then wq_first (recvq c) = None else qcount c = dataqsiz c)"

definition chan_empty :: "'v hchan \<Rightarrow> bool" where
  "chan_empty c = (if dataqsiz c = 0 then wq_first (sendq c) = None else qcount c = 0)"

definition recvq_dequeue :: "chid \<Rightarrow> 'v rt \<Rightarrow> ('v rt \<times> sgid option) option" where
  "recvq_dequeue c s =
     do { (h, gs', q, r) \<leftarrow> dequeue (sudogs s) (gs s) (recvq (chans s c));
          Some (upd_chan c (recvq_update (\<lambda>_. q)) (s\<lparr>sudogs := h, gs := gs'\<rparr>), r) }"

definition sendq_dequeue :: "chid \<Rightarrow> 'v rt \<Rightarrow> ('v rt \<times> sgid option) option" where
  "sendq_dequeue c s =
     do { (h, gs', q, r) \<leftarrow> dequeue (sudogs s) (gs s) (sendq (chans s c));
          Some (upd_chan c (sendq_update (\<lambda>_. q)) (s\<lparr>sudogs := h, gs := gs'\<rparr>), r) }"

definition recvq_enqueue :: "chid \<Rightarrow> sgid \<Rightarrow> 'v rt \<Rightarrow> 'v rt" where
  "recvq_enqueue c sg s =
     (let (h, q) = enqueue (sudogs s) (recvq (chans s c)) sg
      in upd_chan c (recvq_update (\<lambda>_. q)) (s\<lparr>sudogs := h\<rparr>))"

definition sendq_enqueue :: "chid \<Rightarrow> sgid \<Rightarrow> 'v rt \<Rightarrow> 'v rt" where
  "sendq_enqueue c sg s =
     (let (h, q) = enqueue (sudogs s) (sendq (chans s c)) sg
      in upd_chan c (sendq_update (\<lambda>_. q)) (s\<lparr>sudogs := h\<rparr>))"

definition sendDirect :: "sgid \<Rightarrow> ptr \<Rightarrow> 'v rt \<Rightarrow> 'v rt" where
  "sendDirect sg src s = store_opt (sg_elem (sudogs s sg)) (mem s src) s"

text \<open>The common end of \<open>send\<close> and \<open>recv\<close>: hand the sudog to its goroutine and ready it.\<close>

definition send :: "chid \<Rightarrow> sgid \<Rightarrow> ptr \<Rightarrow> 'v rt \<Rightarrow> 'v rt \<times> unit outcome" where
  "send c sg ep s =
     (let s = (if sg_elem (sudogs s sg) \<noteq> None
               then upd_sg sg (sg_elem_update (\<lambda>_. None)) (sendDirect sg ep s) else s);
          gp = sg_g (sudogs s sg);
          s = upd_g gp (g_param_update (\<lambda>_. Some sg)) s;
          s = upd_sg sg (success_update (\<lambda>_. True)) s
      in goready gp s)"

text \<open>\<open>chansend\<close> stores into the slot at the send index and advances it around the ring.\<close>

definition buf_put :: "chid \<Rightarrow> 'v \<Rightarrow> 'v rt \<Rightarrow> 'v rt" where
  "buf_put c v s =
     upd_chan c (\<lambda>ch. ch\<lparr>buf := (buf ch)[sendx ch := v],
                         sendx := (if sendx ch + 1 = dataqsiz ch then 0 else sendx ch + 1),
                         qcount := qcount ch + 1\<rparr>) s"

definition block_on :: "gid \<Rightarrow> chid \<Rightarrow> ptr option \<Rightarrow> (sgid \<Rightarrow> 'v rt \<Rightarrow> 'v rt) \<Rightarrow> 'v rt \<Rightarrow>
    'v rt \<times> 'a outcome" where
  "block_on gp c ep enq s =
     (case acquireSudog s of
        (s, Ret mysg) \<Rightarrow>
          (let s = upd_sg mysg (\<lambda>sg. sg\<lparr>sg_elem := ep, waitlink := None, sg_g := gp,
                                         isSelect := False, sg_c := Some c\<rparr>) s;
               s = upd_g gp (\<lambda>g. g\<lparr>g_waiting := Some mysg, g_param := None\<rparr>) s;
               s = enq mysg s;
               s = upd_g gp (parkingOnChan_update (\<lambda>_. True)) s
           in gopark gp (chanparkcommit gp) s)
      | (s, Throw m) \<Rightarrow> (s, Throw m)
      | (s, Panic m) \<Rightarrow> (s, Panic m)
      | (s, Park) \<Rightarrow> (s, Park))"

definition map_ret :: "('a \<Rightarrow> 'b) \<Rightarrow> 's \<times> 'a outcome \<Rightarrow> 's \<times> 'b outcome" where
  "map_ret f r = (case r of (s, Ret a) \<Rightarrow> (s, Ret (f a)) | (s, Panic m) \<Rightarrow> (s, Panic m)
                   | (s, Throw m) \<Rightarrow> (s, Throw m) | (s, Park) \<Rightarrow> (s, Park))"

definition chansend :: "gid \<Rightarrow> chid option \<Rightarrow> ptr \<Rightarrow> bool \<Rightarrow> 'v rt \<Rightarrow> ('v rt \<times> bool outcome) option" where
  "chansend gp c ep block s =
     (case c of
        None \<Rightarrow> if \<not> block then Some (s, Ret False) else Some (gopark gp id s)
      | Some c \<Rightarrow>
          if \<not> block \<and> \<not> closed (chans s c) \<and> chan_full (chans s c) then Some (s, Ret False)
          else if closed (chans s c) then Some (s, Panic ''send on closed channel'')
          else do {
            (s, sg) \<leftarrow> recvq_dequeue c s;
            Some (case sg of
                Some sg \<Rightarrow> map_ret (\<lambda>_. True) (send c sg ep s)
              | None \<Rightarrow>
                  if qcount (chans s c) < dataqsiz (chans s c)
                  then (buf_put c (mem s ep) s, Ret True)
                  else if \<not> block then (s, Ret False)
                  else block_on gp c (Some ep) (sendq_enqueue c) s)
          })"

text \<open>The code after \<open>gopark\<close> returns in \<open>chansend\<close>.\<close>

definition chansend_wake :: "gid \<Rightarrow> chid \<Rightarrow> sgid \<Rightarrow> 'v rt \<Rightarrow> 'v rt \<times> bool outcome" where
  "chansend_wake gp c mysg s =
     (if Some mysg \<noteq> g_waiting (gs s gp) then (s, Throw ''G waiting list is corrupted'')
      else
        let s = upd_g gp (\<lambda>g. g\<lparr>g_waiting := None, activeStackChans := False\<rparr>) s;
            closed' = (\<not> success (sudogs s mysg));
            s = upd_g gp (g_param_update (\<lambda>_. None)) s;
            s = upd_sg mysg (sg_c_update (\<lambda>_. None)) s
        in case releaseSudog gp mysg s of
             (s, Ret _) \<Rightarrow>
               if closed'
               then (if \<not> closed (chans s c) then (s, Throw ''chansend: spurious wakeup'')
                     else (s, Panic ''send on closed channel''))
               else (s, Ret True)
           | r \<Rightarrow> map_ret (\<lambda>_. True) r)"

subsection \<open>Receiving\<close>

text \<open>
  Reading the element of a waiting sender: its pointer is never nil, and a nil one would
  fault.
\<close>

definition load_elem :: "sgid \<Rightarrow> 'v rt \<Rightarrow> 'v option" where
  "load_elem sg s = map_option (mem s) (sg_elem (sudogs s sg))"

definition recvDirect :: "sgid \<Rightarrow> ptr \<Rightarrow> 'v rt \<Rightarrow> 'v rt option" where
  "recvDirect sg dst s = map_option (\<lambda>v. store dst v s) (load_elem sg s)"

text \<open>
  \<open>recv\<close>: with no buffer the value comes from the sender directly; with a (full) buffer the
  receiver takes the head slot and the sender's value goes into the same slot.
\<close>

definition recv_data :: "chid \<Rightarrow> sgid \<Rightarrow> ptr option \<Rightarrow> 'v rt \<Rightarrow> 'v rt option" where
  "recv_data c sg ep s =
     (if dataqsiz (chans s c) = 0
      then (case ep of None \<Rightarrow> Some s | Some dst \<Rightarrow> recvDirect sg dst s)
      else do {
        let s = store_opt ep (buf (chans s c) ! recvx (chans s c)) s;
        v \<leftarrow> load_elem sg s;
        Some (upd_chan c (\<lambda>ch.
                let ch = ch\<lparr>buf := (buf ch)[recvx ch := v],
                            recvx := (if recvx ch + 1 = dataqsiz ch then 0 else recvx ch + 1)\<rparr>
                in ch\<lparr>sendx := recvx ch\<rparr>) s)
      })"

definition recv :: "chid \<Rightarrow> sgid \<Rightarrow> ptr option \<Rightarrow> 'v rt \<Rightarrow> 'v rt \<times> unit outcome" where
  "recv c sg ep s =
     (case recv_data c sg ep s of
        None \<Rightarrow> (s, Throw ''nil pointer dereference'')
      | Some s \<Rightarrow>
          (let s = upd_sg sg (sg_elem_update (\<lambda>_. None)) s;
               gp = sg_g (sudogs s sg);
               s = upd_g gp (g_param_update (\<lambda>_. Some sg)) s;
               s = upd_sg sg (success_update (\<lambda>_. True)) s
           in goready gp s))"

definition buf_take :: "chid \<Rightarrow> ptr option \<Rightarrow> ('v::zero) rt \<Rightarrow> 'v rt" where
  "buf_take c ep s =
     (let s = store_opt ep (buf (chans s c) ! recvx (chans s c)) s
      in upd_chan c (\<lambda>ch. ch\<lparr>buf := (buf ch)[recvx ch := 0],
                             recvx := (if recvx ch + 1 = dataqsiz ch then 0 else recvx ch + 1),
                             qcount := qcount ch - 1\<rparr>) s)"

text \<open>
  \<open>chanrecv\<close> returns \<open>(selected, received)\<close>. The two unlocked reads of its fast path see
  the same state here, as the whole call is one step.
\<close>

definition chanrecv :: "gid \<Rightarrow> chid option \<Rightarrow> ptr option \<Rightarrow> bool \<Rightarrow> ('v::zero) rt \<Rightarrow>
    ('v rt \<times> (bool \<times> bool) outcome) option" where
  "chanrecv gp c ep block s =
     (case c of
        None \<Rightarrow> if \<not> block then Some (s, Ret (False, False)) else Some (gopark gp id s)
      | Some c \<Rightarrow>
          if \<not> block \<and> chan_empty (chans s c) \<and> \<not> closed (chans s c) then Some (s, Ret (False, False))
          else if \<not> block \<and> chan_empty (chans s c) then Some (store_opt ep 0 s, Ret (True, False))
          else if closed (chans s c) \<and> qcount (chans s c) = 0 then Some (store_opt ep 0 s, Ret (True, False))
          else do {
            (s, sg) \<leftarrow> sendq_dequeue c s;
            Some (case sg of
                Some sg \<Rightarrow> map_ret (\<lambda>_. (True, True)) (recv c sg ep s)
              | None \<Rightarrow>
                  if qcount (chans s c) > 0 then (buf_take c ep s, Ret (True, True))
                  else if \<not> block then (s, Ret (False, False))
                  else block_on gp c ep (recvq_enqueue c) s)
          })"

definition chanrecv_wake :: "gid \<Rightarrow> sgid \<Rightarrow> 'v rt \<Rightarrow> 'v rt \<times> (bool \<times> bool) outcome" where
  "chanrecv_wake gp mysg s =
     (if Some mysg \<noteq> g_waiting (gs s gp) then (s, Throw ''G waiting list is corrupted'')
      else
        let s = upd_g gp (\<lambda>g. g\<lparr>g_waiting := None, activeStackChans := False\<rparr>) s;
            success' = success (sudogs s mysg);
            s = upd_g gp (g_param_update (\<lambda>_. None)) s;
            s = upd_sg mysg (sg_c_update (\<lambda>_. None)) s
        in map_ret (\<lambda>_. (True, success')) (releaseSudog gp mysg s))"

subsection \<open>Closing\<close>

text \<open>The two loops of \<open>closechan\<close> collect the goroutines to ready on a stack (\<open>glist\<close>).\<close>

partial_function (option) release_readers ::
  "chid \<Rightarrow> gid list \<Rightarrow> ('v::zero) rt \<Rightarrow> ('v rt \<times> gid list) option" where
  "release_readers c glist s =
     (case recvq_dequeue c s of
        None \<Rightarrow> None
      | Some (s, None) \<Rightarrow> Some (s, glist)
      | Some (s, Some sg) \<Rightarrow>
          (let s = upd_sg sg (sg_elem_update (\<lambda>_. None)) (store_opt (sg_elem (sudogs s sg)) 0 s);
               gp = sg_g (sudogs s sg);
               s = upd_g gp (g_param_update (\<lambda>_. Some sg)) s;
               s = upd_sg sg (success_update (\<lambda>_. False)) s
           in release_readers c (gp # glist) s))"

partial_function (option) release_writers ::
  "chid \<Rightarrow> gid list \<Rightarrow> 'v rt \<Rightarrow> ('v rt \<times> gid list) option" where
  "release_writers c glist s =
     (case sendq_dequeue c s of
        None \<Rightarrow> None
      | Some (s, None) \<Rightarrow> Some (s, glist)
      | Some (s, Some sg) \<Rightarrow>
          (let s = upd_sg sg (sg_elem_update (\<lambda>_. None)) s;
               gp = sg_g (sudogs s sg);
               s = upd_g gp (g_param_update (\<lambda>_. Some sg)) s;
               s = upd_sg sg (success_update (\<lambda>_. False)) s
           in release_writers c (gp # glist) s))"

fun ready_all :: "gid list \<Rightarrow> 'v rt \<Rightarrow> 'v rt \<times> unit outcome" where
  "ready_all [] s = (s, Ret ())"
| "ready_all (gp # glist) s =
     (case goready gp s of
        (s, Ret _) \<Rightarrow> ready_all glist s
      | r \<Rightarrow> r)"

definition closechan :: "chid option \<Rightarrow> ('v::zero) rt \<Rightarrow> ('v rt \<times> unit outcome) option" where
  "closechan c s =
     (case c of
        None \<Rightarrow> Some (s, Panic ''close of nil channel'')
      | Some c \<Rightarrow>
          if closed (chans s c) then Some (s, Panic ''close of closed channel'')
          else do {
            let s = upd_chan c (closed_update (\<lambda>_. True)) s;
            (s, glist) \<leftarrow> release_readers c [] s;
            (s, glist) \<leftarrow> release_writers c glist s;
            Some (ready_all glist s)
          })"

subsection \<open>Entry points\<close>

definition chansend1 :: "gid \<Rightarrow> chid option \<Rightarrow> ptr \<Rightarrow> 'v rt \<Rightarrow> ('v rt \<times> bool outcome) option" where
  "chansend1 gp c elem s = chansend gp c elem True s"

definition chanrecv1 :: "gid \<Rightarrow> chid option \<Rightarrow> ptr option \<Rightarrow> ('v::zero) rt \<Rightarrow>
    ('v rt \<times> (bool \<times> bool) outcome) option" where
  "chanrecv1 gp c elem s = chanrecv gp c elem True s"

definition chanrecv2 :: "gid \<Rightarrow> chid option \<Rightarrow> ptr option \<Rightarrow> ('v::zero) rt \<Rightarrow>
    ('v rt \<times> bool outcome) option" where
  "chanrecv2 gp c elem s = map_option (map_ret snd) (chanrecv gp c elem True s)"

definition selectnbsend :: "gid \<Rightarrow> chid option \<Rightarrow> ptr \<Rightarrow> 'v rt \<Rightarrow> ('v rt \<times> bool outcome) option" where
  "selectnbsend gp c elem s = chansend gp c elem False s"

definition selectnbrecv :: "gid \<Rightarrow> ptr option \<Rightarrow> chid option \<Rightarrow> ('v::zero) rt \<Rightarrow>
    ('v rt \<times> (bool \<times> bool) outcome) option" where
  "selectnbrecv gp elem c s = chanrecv gp c elem False s"

definition reflect_chansend :: "gid \<Rightarrow> chid option \<Rightarrow> ptr \<Rightarrow> bool \<Rightarrow> 'v rt \<Rightarrow>
    ('v rt \<times> bool outcome) option" where
  "reflect_chansend gp c elem nb s = chansend gp c elem (\<not> nb) s"

definition reflect_chanrecv :: "gid \<Rightarrow> chid option \<Rightarrow> bool \<Rightarrow> ptr option \<Rightarrow> ('v::zero) rt \<Rightarrow>
    ('v rt \<times> (bool \<times> bool) outcome) option" where
  "reflect_chanrecv gp c nb elem s = chanrecv gp c elem (\<not> nb) s"

definition reflect_chanlen :: "chid option \<Rightarrow> 'v rt \<Rightarrow> nat" where
  "reflect_chanlen c s = (case c of None \<Rightarrow> 0 | Some c \<Rightarrow> qcount (chans s c))"

definition reflect_chancap :: "chid option \<Rightarrow> 'v rt \<Rightarrow> nat" where
  "reflect_chancap c s = (case c of None \<Rightarrow> 0 | Some c \<Rightarrow> dataqsiz (chans s c))"

definition reflectlite_chanlen :: "chid option \<Rightarrow> 'v rt \<Rightarrow> nat" where
  "reflectlite_chanlen c s = (case c of None \<Rightarrow> 0 | Some c \<Rightarrow> qcount (chans s c))"

definition reflect_chanclose :: "chid option \<Rightarrow> ('v::zero) rt \<Rightarrow> ('v rt \<times> unit outcome) option" where
  "reflect_chanclose c s = closechan c s"

subsection \<open>Sizes\<close>

lemma unat_max_word: "unat (- 1 :: 64 word) = 2 ^ 64 - 1"
  by transfer (simp add: take_bit_minus_one_eq_mask mask_eq_exp_minus_1)

lemma or_less_pow2:
  fixes a b :: "64 word"
  assumes "or a b < push_bit 32 1"
  shows "unat a < 2 ^ 32" and "unat b < 2 ^ 32"
proof -
  have "unat (or a b) < 2 ^ 32" using assms by (simp add: word_less_nat_alt)
  moreover have "a \<le> or a b" "b \<le> or a b" by (rule le_word_or2, rule le_word_or1)
  ultimately show "unat a < 2 ^ 32" and "unat b < 2 ^ 32" by (simp_all add: word_le_nat_alt)
qed

lemma MulUintptr_overflow: "snd (MulUintptr a b) \<longleftrightarrow> 2 ^ 64 \<le> unat a * unat b"
proof (cases "or a b < push_bit 32 1 \<or> a = 0")
  case True
  have "unat a * unat b < 2 ^ 64"
  proof (cases "a = 0")
    case False
    then have "unat a * unat b < 2 ^ 32 * 2 ^ 32"
      using True or_less_pow2 [of a b] by (intro mult_strict_mono) auto
    then show ?thesis by simp
  qed simp
  then show ?thesis using True by (auto simp: MulUintptr_def)
next
  case False
  then have a: "0 < unat a" by (simp add: unat_gt_0)
  have "snd (MulUintptr a b) \<longleftrightarrow> (2 ^ 64 - 1) div unat a < unat b"
    using False by (simp add: MulUintptr_def word_less_nat_alt unat_div unat_max_word)
  also have "\<dots> \<longleftrightarrow> 2 ^ 64 - 1 < unat b * unat a"
    by (rule div_less_iff_less_mult [OF a])
  also have "\<dots> \<longleftrightarrow> 2 ^ 64 \<le> unat a * unat b" by (simp add: mult.commute not_le [symmetric]) linarith
  finally show ?thesis .
qed

lemma MulUintptr_value:
  assumes "unat a * unat b < 2 ^ 64"
  shows "MulUintptr a b = (a * b, False)" and "unat (a * b) = unat a * unat b"
proof -
  have "snd (MulUintptr a b) = False" using MulUintptr_overflow [of a b] assms by simp
  moreover have "fst (MulUintptr a b) = a * b" by (simp add: MulUintptr_def)
  ultimately show "MulUintptr a b = (a * b, False)" by (simp add: prod_eq_iff)
  show "unat (a * b) = unat a * unat b" using assms by (simp add: unat_word_ariths)
qed

end
