(* ===== verification/Chan_Inv.thy ===== *)
theory Chan_Inv
  imports Chan
begin

section \<open>Channels shared by goroutines: the invariant\<close>

text \<open>
  A system state is a runtime state together with, for every goroutine that parked inside a
  channel operation, where its remaining code continues (\<open>cont\<close>). This theory states the
  invariant of such states and proves the effect of the building blocks of the channel
  operations on it: waking the first waiter of a queue, parking on a queue, returning from a
  park, and moving values through the ring buffer.
\<close>

datatype dir = Sending | Receiving

datatype cont = KChan dir chid sgid "ptr option" | KNil

definition wqof :: "dir \<Rightarrow> 'v hchan \<Rightarrow> waitq" where
  "wqof d ch = (case d of Sending \<Rightarrow> sendq ch | Receiving \<Rightarrow> recvq ch)"

definition set_wq :: "dir \<Rightarrow> waitq \<Rightarrow> 'v hchan \<Rightarrow> 'v hchan" where
  "set_wq d q ch = (case d of Sending \<Rightarrow> ch\<lparr>sendq := q\<rparr> | Receiving \<Rightarrow> ch\<lparr>recvq := q\<rparr>)"

subsection \<open>The ring buffer\<close>

definition ring_ok :: "'v hchan \<Rightarrow> bool" where
  "ring_ok ch \<longleftrightarrow>
     length (buf ch) = dataqsiz ch \<and> qcount ch \<le> dataqsiz ch \<and>
     (dataqsiz ch > 0 \<longrightarrow> recvx ch < dataqsiz ch \<and> sendx ch = (recvx ch + qcount ch) mod dataqsiz ch)"

text \<open>The buffered values in the order they will be received.\<close>

definition ring_contents :: "'v hchan \<Rightarrow> 'v list" where
  "ring_contents ch = map (\<lambda>j. buf ch ! ((recvx ch + j) mod dataqsiz ch)) [0..<qcount ch]"

lemma length_ring_contents [simp]: "length (ring_contents ch) = qcount ch"
  by (simp add: ring_contents_def)

lemma ring_wq [simp]:
  "ring_ok (ch\<lparr>recvq := q\<rparr>) = ring_ok ch" "ring_ok (ch\<lparr>sendq := q\<rparr>) = ring_ok ch"
  "ring_ok (ch\<lparr>closed := b\<rparr>) = ring_ok ch"
  "ring_contents (ch\<lparr>recvq := q\<rparr>) = ring_contents ch" "ring_contents (ch\<lparr>sendq := q\<rparr>) = ring_contents ch"
  "ring_contents (ch\<lparr>closed := b\<rparr>) = ring_contents ch"
  by (simp_all add: ring_ok_def ring_contents_def)

lemma ring_index_inc: "i < n \<Longrightarrow> (if i + 1 = n then 0 else i + 1) = (i + 1) mod (n::nat)"
  by auto

lemma mod_add_neq:
  fixes a b n :: nat
  assumes "a < b" and "b < n"
  shows "(r + a) mod n \<noteq> (r + b) mod n"
proof
  assume "(r + a) mod n = (r + b) mod n"
  then have "n dvd (r + b) - (r + a)"
    using assms by (metis add_le_cancel_left less_imp_le_nat mod_eq_dvd_iff_nat)
  then show False using assms by (auto dest: dvd_imp_le)
qed

definition ring_put :: "'v \<Rightarrow> 'v hchan \<Rightarrow> 'v hchan" where
  "ring_put v ch = ch\<lparr>buf := (buf ch)[sendx ch := v],
                      sendx := (if sendx ch + 1 = dataqsiz ch then 0 else sendx ch + 1),
                      qcount := qcount ch + 1\<rparr>"

definition ring_take :: "('v::zero) hchan \<Rightarrow> 'v hchan" where
  "ring_take ch = ch\<lparr>buf := (buf ch)[recvx ch := 0],
                     recvx := (if recvx ch + 1 = dataqsiz ch then 0 else recvx ch + 1),
                     qcount := qcount ch - 1\<rparr>"

definition ring_rotate :: "'v \<Rightarrow> 'v hchan \<Rightarrow> 'v hchan" where
  "ring_rotate v ch =
     (let ch = ch\<lparr>buf := (buf ch)[recvx ch := v],
                  recvx := (if recvx ch + 1 = dataqsiz ch then 0 else recvx ch + 1)\<rparr>
      in ch\<lparr>sendx := recvx ch\<rparr>)"

lemma ring_put:
  assumes "ring_ok ch" and "qcount ch < dataqsiz ch"
  shows "ring_ok (ring_put v ch)" and "ring_contents (ring_put v ch) = ring_contents ch @ [v]"
proof -
  let ?n = "dataqsiz ch"
  from assms have r: "recvx ch < ?n" and sx: "sendx ch = (recvx ch + qcount ch) mod ?n"
    and sl: "sendx ch < ?n" and len: "length (buf ch) = ?n"
    by (auto simp: ring_ok_def)
  have "(sendx ch + 1) mod ?n = (recvx ch + (qcount ch + 1)) mod ?n"
    by (simp add: sx mod_simps)
  with sl assms show "ring_ok (ring_put v ch)"
    using ring_index_inc [OF sl] by (auto simp: ring_ok_def ring_put_def)
  have "(buf ch)[sendx ch := v] ! ((recvx ch + j) mod ?n) = buf ch ! ((recvx ch + j) mod ?n)"
    if "j < qcount ch" for j
    using mod_add_neq [of j "qcount ch" ?n "recvx ch"] that assms(2) sx
    by (intro nth_list_update_neq) simp
  moreover have "(buf ch)[sendx ch := v] ! ((recvx ch + qcount ch) mod ?n) = v"
    unfolding sx [symmetric] using sl len by simp
  ultimately show "ring_contents (ring_put v ch) = ring_contents ch @ [v]"
    by (simp add: ring_contents_def ring_put_def)
qed

lemma ring_take:
  assumes "ring_ok ch" and "0 < qcount ch"
  shows "ring_ok (ring_take ch)"
    and "ring_contents ch = buf ch ! recvx ch # ring_contents (ring_take ch)"
proof -
  let ?n = "dataqsiz ch"
  from assms have n: "?n > 0" by (auto simp: ring_ok_def)
  with assms have r: "recvx ch < ?n" and sx: "sendx ch = (recvx ch + qcount ch) mod ?n"
    and len: "length (buf ch) = ?n" and le: "qcount ch \<le> ?n"
    by (auto simp: ring_ok_def)
  have rx: "recvx (ring_take ch) = (recvx ch + 1) mod ?n"
    using ring_index_inc [OF r] by (simp add: ring_take_def)
  have "((recvx ch + 1) mod ?n + (qcount ch - 1)) mod ?n = (recvx ch + 1 + (qcount ch - 1)) mod ?n"
    by (rule mod_add_left_eq)
  also have "recvx ch + 1 + (qcount ch - 1) = recvx ch + qcount ch" using assms(2) by simp
  finally have "((recvx ch + 1) mod ?n + (qcount ch - 1)) mod ?n = (recvx ch + qcount ch) mod ?n" .
  with rx n le len sx show "ring_ok (ring_take ch)"
    by (auto simp: ring_ok_def ring_take_def)
  have "buf (ring_take ch) ! ((recvx (ring_take ch) + j) mod ?n) = buf ch ! ((recvx ch + Suc j) mod ?n)"
    if "j < qcount ch - 1" for j
  proof -
    have "(recvx ch + 0) mod ?n \<noteq> (recvx ch + Suc j) mod ?n"
      by (rule mod_add_neq) (use that le in auto)
    then show ?thesis using rx r by (simp add: mod_simps ring_take_def)
  qed
  moreover have "[0..<qcount ch] = 0 # map Suc [0..<qcount ch - 1]"
    using assms(2) by (metis Suc_diff_1 map_Suc_upt upt_conv_Cons)
  ultimately show "ring_contents ch = buf ch ! recvx ch # ring_contents (ring_take ch)"
    using r by (simp add: ring_contents_def) (simp add: ring_take_def)
qed

lemma ring_rotate:
  assumes "ring_ok ch" and "qcount ch = dataqsiz ch" and "0 < dataqsiz ch"
  shows "ring_ok (ring_rotate v ch)"
    and "ring_contents (ring_rotate v ch) = tl (ring_contents ch) @ [v]"
    and "hd (ring_contents ch) = buf ch ! recvx ch"
proof -
  let ?n = "dataqsiz ch"
  from assms have r: "recvx ch < ?n" and len: "length (buf ch) = ?n"
    by (auto simp: ring_ok_def)
  have rx: "recvx (ring_rotate v ch) = (recvx ch + 1) mod ?n"
    using ring_index_inc [OF r] by (simp add: ring_rotate_def)
  show "ring_ok (ring_rotate v ch)"
    using rx assms r by (simp add: ring_ok_def ring_rotate_def)
  show "hd (ring_contents ch) = buf ch ! recvx ch"
    using assms r by (simp add: ring_contents_def hd_map)
  show "ring_contents (ring_rotate v ch) = tl (ring_contents ch) @ [v]"
  proof (rule nth_equalityI)
    show "length (ring_contents (ring_rotate v ch)) = length (tl (ring_contents ch) @ [v])"
      using assms by (simp add: ring_rotate_def)
    fix j assume "j < length (ring_contents (ring_rotate v ch))"
    then have j: "j < ?n" using assms by (simp add: ring_rotate_def)
    have lhs: "ring_contents (ring_rotate v ch) ! j = (buf ch)[recvx ch := v] ! ((recvx ch + Suc j) mod ?n)"
      using j assms mod_add_left_eq [of "recvx ch + 1" ?n j]
      unfolding ring_contents_def rx by (simp add: ring_rotate_def)
    show "ring_contents (ring_rotate v ch) ! j = (tl (ring_contents ch) @ [v]) ! j"
    proof (cases "Suc j = ?n")
      case True
      then show ?thesis using lhs r len assms by (auto simp: nth_append)
    next
      case False
      then have "(recvx ch + 0) mod ?n \<noteq> (recvx ch + Suc j) mod ?n"
        by (intro mod_add_neq) (use j in auto)
      moreover have "Suc j < ?n" "j < ?n - Suc 0" using False j by simp_all
      ultimately show ?thesis using lhs r assms
        by (simp add: nth_append nth_tl) (simp add: ring_contents_def)
    qed
  qed
qed

subsection \<open>The invariant\<close>

text \<open>
  \<open>Q d c\<close> is the list of sudogs waiting on channel \<open>c\<close> in direction \<open>d\<close>. Every sudog on a
  queue belongs to a goroutine that is parked in the matching operation on that channel, and
  every goroutine parked in a channel operation either waits on its queue or has been readied:
  then its sudog is off every queue, its element pointer is cleared, and it was woken without
  success only if the channel is closed. A goroutine that is not parked on a channel holds no
  sudog. \<open>owner\<close> says on whose stack a pointer lies: the
  element pointer of an operation points to memory of its caller.
\<close>

definition parked :: "(ptr \<Rightarrow> gid) \<Rightarrow> 'v rt \<Rightarrow> gid \<Rightarrow> chid \<Rightarrow> sgid \<Rightarrow> ptr option \<Rightarrow> sgid list \<Rightarrow> bool" where
  "parked owner s g c i ep q \<longleftrightarrow>
     sg_g (sudogs s i) = g \<and> g_waiting (gs s g) = Some i \<and> i < sg_next_new s \<and>
     i \<notin> set (sudogcache s) \<and> \<not> isSelect (sudogs s i) \<and> waitlink (sudogs s i) = None \<and>
     sg_c (sudogs s i) = Some c \<and> (\<forall>p. ep = Some p \<longrightarrow> owner p = g) \<and>
     (g_status (gs s g) = Gwaiting \<and> i \<in> set q \<and> sg_elem (sudogs s i) = ep \<or>
      g_status (gs s g) = Grunnable \<and> i \<notin> set q \<and> sg_elem (sudogs s i) = None \<and>
      sg_next (sudogs s i) = None \<and> sg_prev (sudogs s i) = None \<and>
      (\<not> success (sudogs s i) \<longrightarrow> closed (chans s c)))"

definition inv_core :: "(ptr \<Rightarrow> gid) \<Rightarrow> 'v rt \<Rightarrow> (gid \<Rightarrow> cont option) \<Rightarrow>
    (dir \<Rightarrow> chid \<Rightarrow> sgid list) \<Rightarrow> bool" where
  "inv_core owner s k Q \<longleftrightarrow>
     (\<forall>d c. wq_repr (sudogs s) (wqof d (chans s c)) (Q d c)) \<and>
     (\<forall>d c i. i \<in> set (Q d c) \<longrightarrow>
        (\<exists>ep. k (sg_g (sudogs s i)) = Some (KChan d c i ep)) \<and>
        g_status (gs s (sg_g (sudogs s i))) = Gwaiting) \<and>
     (\<forall>g d c i ep. k g = Some (KChan d c i ep) \<longrightarrow>
        parked owner s g c i ep (Q d c) \<and> (d = Sending \<longrightarrow> ep \<noteq> None)) \<and>
     (\<forall>c. ring_ok (chans s c)) \<and>
     (distinct (sudogcache s) \<and>
      (\<forall>i \<in> set (sudogcache s). i < sg_next_new s \<and> sg_elem (sudogs s i) = None)) \<and>
     (\<forall>g. k g = None \<longrightarrow> g_status (gs s g) = Grunning \<and> g_waiting (gs s g) = None) \<and>
     (\<forall>g. k g = Some KNil \<longrightarrow> g_status (gs s g) = Gwaiting \<and> g_waiting (gs s g) = None)"

lemma inv_coreD:
  assumes "inv_core owner s k Q"
  shows inv_repr: "wq_repr (sudogs s) (wqof d (chans s c)) (Q d c)"
    and inv_queued: "i \<in> set (Q d c) \<Longrightarrow> \<exists>ep. k (sg_g (sudogs s i)) = Some (KChan d c i ep)"
    and inv_queued_waiting: "i \<in> set (Q d c) \<Longrightarrow> g_status (gs s (sg_g (sudogs s i))) = Gwaiting"
    and inv_parked: "k g = Some (KChan d c i ep) \<Longrightarrow> parked owner s g c i ep (Q d c)"
    and inv_send_elem: "k g = Some (KChan Sending c i ep) \<Longrightarrow> ep \<noteq> None"
    and inv_ring: "ring_ok (chans s c)"
    and inv_running: "k g = None \<Longrightarrow> g_status (gs s g) = Grunning"
    and inv_nil: "k g = Some KNil \<Longrightarrow> g_status (gs s g) = Gwaiting"
    and inv_idle: "k g = None \<or> k g = Some KNil \<Longrightarrow> g_waiting (gs s g) = None"
    and inv_cache: "distinct (sudogcache s)"
    and inv_cached: "i \<in> set (sudogcache s) \<Longrightarrow> i < sg_next_new s \<and> sg_elem (sudogs s i) = None"
  using assms unfolding inv_core_def by blast+

lemma inv_queue_unique:
  assumes "inv_core owner s k Q" and "i \<in> set (Q d c)" and "i \<in> set (Q d' c')"
  shows "d' = d \<and> c' = c"
  using inv_queued [OF assms(1,2)] inv_queued [OF assms(1,3)] by auto

lemma inv_queue_disjoint:
  assumes "inv_core owner s k Q" and "(d', c') \<noteq> (d, c)"
  shows "set (Q d c) \<inter> set (Q d' c') = {}"
  using inv_queue_unique [OF assms(1)] assms(2) by (fastforce simp: disjoint_iff)

lemma inv_elem:
  assumes "inv_core owner s k Q" and "i \<in> set (Q d c)"
  shows "k (sg_g (sudogs s i)) = Some (KChan d c i (sg_elem (sudogs s i)))"
    and "\<not> isSelect (sudogs s i)" and "i < sg_next_new s"
    and "d = Sending \<Longrightarrow> sg_elem (sudogs s i) \<noteq> None"
    and "sg_elem (sudogs s i) = Some p \<Longrightarrow> owner p = sg_g (sudogs s i)"
proof -
  obtain ep where k: "k (sg_g (sudogs s i)) = Some (KChan d c i ep)"
    using inv_queued [OF assms] by blast
  from inv_parked [OF assms(1) k] inv_queued_waiting [OF assms]
  have p: "parked owner s (sg_g (sudogs s i)) c i ep (Q d c)" and e: "sg_elem (sudogs s i) = ep"
    by (auto simp: parked_def)
  show "k (sg_g (sudogs s i)) = Some (KChan d c i (sg_elem (sudogs s i)))" using k e by simp
  show "\<not> isSelect (sudogs s i)" and "i < sg_next_new s"
    and "sg_elem (sudogs s i) = Some p \<Longrightarrow> owner p = sg_g (sudogs s i)"
    using p e by (auto simp: parked_def)
  show "d = Sending \<Longrightarrow> sg_elem (sudogs s i) \<noteq> None"
    using inv_send_elem [OF assms(1)] k e by blast
qed

text \<open>No queue holds a sudog of a \<open>select\<close>, so \<open>dequeue\<close> takes the first one.\<close>

lemma inv_dequeue:
  assumes "inv_core owner s k Q"
  obtains h' q' where
    "dequeue (sudogs s) gs' (wqof d (chans s c)) = Some (h', gs', q', head_opt (Q d c))"
    "wq_repr h' q' (tl (Q d c))" "link_change (set (Q d c)) (sudogs s) h'"
    "\<And>i. head_opt (Q d c) = Some i \<Longrightarrow> sg_next (h' i) = None \<and> sg_prev (h' i) = None"
proof -
  have "pick (sudogs s) gs' (Q d c) = (gs', tl (Q d c), head_opt (Q d c))"
    using inv_elem(2) [OF assms] by (intro pick_plain) blast
  from dequeue_repr [OF inv_repr [OF assms] this] show thesis
    using that by blast
qed

subsection \<open>Waking the first waiter\<close>

text \<open>
  The state change when the first waiter \<open>i\<close> of a queue is dequeued and readied: its element
  pointer is cleared, \<open>success\<close> is set to \<open>b\<close>, and its goroutine becomes runnable.
\<close>

definition woken :: "dir \<Rightarrow> chid \<Rightarrow> sgid \<Rightarrow> bool \<Rightarrow> waitq \<Rightarrow> sg_store \<Rightarrow> 'v rt \<Rightarrow> 'v rt \<Rightarrow> bool" where
  "woken d c i b q' h1 s s' \<longleftrightarrow>
     sudogs s' = h1(i := (h1 i)\<lparr>sg_elem := None, success := b\<rparr>) \<and>
     gs s' = (gs s)(sg_g (sudogs s i) :=
                 (gs s (sg_g (sudogs s i)))\<lparr>g_param := Some i, g_status := Grunnable\<rparr>) \<and>
     (\<forall>d' c'. wqof d' (chans s' c') = (if d' = d \<and> c' = c then q' else wqof d' (chans s c'))) \<and>
     (\<forall>c'. closed (chans s' c') = closed (chans s c')) \<and>
     (\<forall>c'. ring_ok (chans s' c')) \<and>
     sudogcache s' = sudogcache s \<and> sg_next_new s' = sg_next_new s"

lemma inv_wake:
  assumes inv: "inv_core owner s k Q" and Q: "Q d c = i # rest"
    and lc: "link_change (set (Q d c)) (sudogs s) h1" and repr: "wq_repr h1 q' rest"
    and unl: "sg_next (h1 i) = None" "sg_prev (h1 i) = None"
    and w: "woken d c i b q' h1 s s'" and b: "b \<or> closed (chans s c)"
  shows "inv_core owner s' k (Q(d := (Q d)(c := rest)))"
proof -
  let ?g = "sg_g (sudogs s i)" and ?Q = "Q(d := (Q d)(c := rest))"
  have iq: "i \<in> set (Q d c)" and nrest: "i \<notin> set rest"
    using Q inv_repr [OF inv, of d c] by (auto simp: wq_repr_def)
  have pay: "sg_g (h1 j) = sg_g (sudogs s j)" "sg_elem (h1 j) = sg_elem (sudogs s j)"
    "isSelect (h1 j) = isSelect (sudogs s j)" "success (h1 j) = success (sudogs s j)"
    "waitlink (h1 j) = waitlink (sudogs s j)" "sg_c (h1 j) = sg_c (sudogs s j)" for j
    using link_change_payload [OF lc] by auto
  have sub: "set (?Q d' c') \<subseteq> set (Q d' c')" for d' c' using Q by auto
  have i_only: "i \<notin> set (?Q d' c')" for d' c'
    using inv_queue_unique [OF inv iq] nrest sub [of d' c'] by (auto split: if_splits)
  have h': "sudogs s' j = h1 j" if "j \<noteq> i" for j using w that by (simp add: woken_def)
  have sgg: "sg_g (sudogs s' j) = sg_g (sudogs s j)" for j using w pay by (simp add: woken_def)
  have ki: "k ?g = Some (KChan d c i (sg_elem (sudogs s i)))" using inv_elem [OF inv iq] by blast
  have other: "sg_g (sudogs s j) \<noteq> ?g" if jq: "j \<in> set (?Q d' c')" for j d' c'
  proof
    assume "sg_g (sudogs s j) = ?g"
    moreover obtain ep where "k (sg_g (sudogs s j)) = Some (KChan d' c' j ep)"
      using inv_queued [OF inv subsetD [OF sub jq]] by blast
    ultimately have "j = i" using ki by (metis cont.inject option.inject)
    then show False using i_only jq by blast
  qed
  have reprs: "wq_repr (sudogs s') (wqof d' (chans s' c')) (?Q d' c')" for d' c'
  proof -
    have "wq_repr h1 (wqof d' (chans s' c')) (?Q d' c')"
    proof (cases "d' = d \<and> c' = c")
      case True
      then show ?thesis using w repr by (simp add: woken_def)
    next
      case False
      then have "wq_repr h1 (wqof d' (chans s c')) (Q d' c')"
        using link_change_repr [OF lc, of "Q d' c'"] inv_repr [OF inv] inv_queue_disjoint [OF inv]
        by (metis inf_commute prod.inject)
      with False w show ?thesis by (auto simp: woken_def)
    qed
    then show ?thesis
      by (subst wq_repr_cong [of _ _ h1]) (use i_only h' in \<open>metis+\<close>)
  qed
  have queued: "(\<exists>ep. k (sg_g (sudogs s' j)) = Some (KChan d' c' j ep)) \<and>
      g_status (gs s' (sg_g (sudogs s' j))) = Gwaiting" if "j \<in> set (?Q d' c')" for d' c' j
    using that sub [of d' c'] other [OF that] inv_queued [OF inv, of j d' c']
      inv_queued_waiting [OF inv, of j d' c'] w sgg by (auto simp: woken_def)
  have park: "parked owner s' g c' j ep (?Q d' c')" if kg: "k g = Some (KChan d' c' j ep)" for g d' c' j ep
  proof -
    have pk: "parked owner s g c' j ep (Q d' c')" using inv_parked [OF inv kg] .
    show ?thesis
    proof (cases "g = ?g")
      case True
      then have eq: "d' = d" "c' = c" "j = i" using kg ki by auto
      show ?thesis using pk w b unl nrest True unfolding eq
        by (auto simp: parked_def woken_def pay)
    next
      case False
      then have ji: "j \<noteq> i" using pk by (auto simp: parked_def)
      have eqs: "sudogs s' j = h1 j" "gs s' g = gs s g" "closed (chans s' c') = closed (chans s c')"
        "sg_next_new s' = sg_next_new s" "sudogcache s' = sudogcache s"
        using w False ji by (simp_all add: woken_def)
      have links: "sg_next (h1 j) = sg_next (sudogs s j) \<and> sg_prev (h1 j) = sg_prev (sudogs s j)"
        if "j \<notin> set (Q d' c')"
      proof -
        have "j \<notin> set (Q d c)"
          using that kg pk inv_queued [OF inv, of j d c] by (auto simp: parked_def)
        then show ?thesis using link_change_out [OF lc] by simp
      qed
      have mem: "j \<in> set (?Q d' c') \<longleftrightarrow> j \<in> set (Q d' c')"
        using Q ji by auto
      show ?thesis
        using pk links unfolding parked_def eqs pay mem by (elim conjE disjE) simp_all
    qed
  qed
  show ?thesis
    unfolding inv_core_def
  proof (intro conjI allI impI)
    fix g assume "k g = None"
    then show "g_status (gs s' g) = Grunning" and "g_waiting (gs s' g) = None"
      using inv_running [OF inv] inv_idle [OF inv] w ki by (auto simp: woken_def)
  next
    fix g assume "k g = Some KNil"
    then show "g_status (gs s' g) = Gwaiting" and "g_waiting (gs s' g) = None"
      using inv_nil [OF inv] inv_idle [OF inv] w ki by (auto simp: woken_def)
  next
    show "\<forall>j \<in> set (sudogcache s'). j < sg_next_new s' \<and> sg_elem (sudogs s' j) = None"
      using inv_cached [OF inv] w pay by (auto simp: woken_def)
  next
    fix g d' c' j ep assume "k g = Some (KChan d' c' j ep)" and "d' = Sending"
    then show "ep \<noteq> None" using inv_send_elem [OF inv] by blast
  qed (use reprs queued park w inv_cache [OF inv] in \<open>auto simp: woken_def\<close>)
qed

subsection \<open>Changes that touch no queue\<close>

text \<open>Memory, buffers and the closed flag may change while the queues stay as they are.\<close>

lemma inv_chans:
  assumes inv: "inv_core owner s k Q"
    and same: "sudogs s' = sudogs s" "gs s' = gs s" "sudogcache s' = sudogcache s"
      "sg_next_new s' = sg_next_new s"
    and ch: "\<And>d c. wqof d (chans s' c) = wqof d (chans s c)" "\<And>c. ring_ok (chans s' c)"
      "\<And>c. closed (chans s c) \<Longrightarrow> closed (chans s' c)"
  shows "inv_core owner s' k Q"
proof -
  have "parked owner s' g c i ep q" if "parked owner s g c i ep q" for g c i ep q
    using that ch(3) [of c] unfolding parked_def same by (elim conjE disjE) simp_all
  then show ?thesis
    using inv unfolding inv_core_def same ch(1) by (simp add: ch(2))
qed

subsection \<open>Parking\<close>

definition parks :: "dir \<Rightarrow> chid \<Rightarrow> gid \<Rightarrow> sgid \<Rightarrow> ptr option \<Rightarrow> waitq \<Rightarrow> sg_store \<Rightarrow> 'v rt \<Rightarrow> 'v rt \<Rightarrow> bool" where
  "parks d c g i ep q' h0 s s' \<longleftrightarrow>
     enqueue h0 (wqof d (chans s c)) i = (sudogs s', q') \<and>
     (\<forall>j. j \<noteq> i \<longrightarrow> h0 j = sudogs s j) \<and>
     sg_g (h0 i) = g \<and> sg_elem (h0 i) = ep \<and> \<not> isSelect (h0 i) \<and> waitlink (h0 i) = None \<and>
     sg_c (h0 i) = Some c \<and> (\<forall>g'. g' \<noteq> g \<longrightarrow> gs s' g' = gs s g') \<and>
     g_status (gs s' g) = Gwaiting \<and> g_waiting (gs s' g) = Some i \<and>
     (\<forall>d' c'. wqof d' (chans s' c') = (if d' = d \<and> c' = c then q' else wqof d' (chans s c'))) \<and>
     (\<forall>c'. closed (chans s' c') = closed (chans s c')) \<and>
     (\<forall>c'. ring_ok (chans s' c')) \<and>
     distinct (sudogcache s') \<and> set (sudogcache s') \<subseteq> set (sudogcache s) \<and>
     i \<notin> set (sudogcache s') \<and> i < sg_next_new s' \<and> sg_next_new s \<le> sg_next_new s'"

lemma inv_park:
  assumes inv: "inv_core owner s k Q" and kg: "k g = None"
    and fresh: "\<And>g' d' c' ep'. k g' \<noteq> Some (KChan d' c' i ep')"
    and p: "parks d c g i ep q' h0 s s'"
    and ep: "\<And>p. ep = Some p \<Longrightarrow> owner p = g" "d = Sending \<Longrightarrow> ep \<noteq> None"
  shows "inv_core owner s' (k(g \<mapsto> KChan d c i ep)) (Q(d := (Q d)(c := Q d c @ [i])))"
proof -
  let ?k = "k(g \<mapsto> KChan d c i ep)" and ?Q = "Q(d := (Q d)(c := Q d c @ [i]))"
  have i_out: "i \<notin> set (Q d' c')" for d' c' using inv_queued [OF inv] fresh by metis
  have h0: "h0 j = sudogs s j" if "j \<noteq> i" for j using p that by (simp add: parks_def)
  have repr0: "wq_repr h0 (wqof d' (chans s c')) (Q d' c')" for d' c'
    using inv_repr [OF inv, of d' c'] by (subst wq_repr_cong [of _ _ "sudogs s"]) (metis h0 i_out)+
  have enq: "enqueue h0 (wqof d (chans s c)) i = (sudogs s', q')" using p by (simp add: parks_def)
  have repr': "wq_repr (sudogs s') q' (Q d c @ [i])" and lc: "link_change (insert i (set (Q d c))) h0 (sudogs s')"
    using enqueue_repr [OF repr0 i_out enq] by blast+
  have pay: "sg_g (sudogs s' j) = sg_g (h0 j)" "sg_elem (sudogs s' j) = sg_elem (h0 j)"
    "isSelect (sudogs s' j) = isSelect (h0 j)" "success (sudogs s' j) = success (h0 j)"
    "waitlink (sudogs s' j) = waitlink (h0 j)" "sg_c (sudogs s' j) = sg_c (h0 j)" for j
    using link_change_payload [OF lc] by auto
  have not_g: "sg_g (sudogs s j) \<noteq> g" if "j \<in> set (Q d' c')" for j d' c'
    using inv_queued [OF inv that] kg by auto
  have reprs: "wq_repr (sudogs s') (wqof d' (chans s' c')) (?Q d' c')" for d' c'
  proof (cases "d' = d \<and> c' = c")
    case True
    then show ?thesis using p repr' by (simp add: parks_def)
  next
    case False
    then have "wq_repr (sudogs s') (wqof d' (chans s c')) (Q d' c')"
      using wq.enq_other [OF repr0 i_out enq repr0 i_out] inv_queue_disjoint [OF inv] by blast
    with False p show ?thesis by (auto simp: parks_def)
  qed
  have queued: "(\<exists>ep. ?k (sg_g (sudogs s' j)) = Some (KChan d' c' j ep)) \<and>
      g_status (gs s' (sg_g (sudogs s' j))) = Gwaiting" if "j \<in> set (?Q d' c')" for d' c' j
  proof (cases "j = i")
    case True
    then have "d' = d" "c' = c" using that i_out by (auto split: if_splits)
    with True p pay show ?thesis by (simp add: parks_def)
  next
    case False
    then have j: "j \<in> set (Q d' c')" using that by (auto split: if_splits)
    then show ?thesis
      using not_g [OF j] inv_queued [OF inv j] inv_queued_waiting [OF inv j] False p pay h0
      by (simp add: parks_def)
  qed
  have park: "parked owner s' g' c' j ep' (?Q d' c')" if kg': "?k g' = Some (KChan d' c' j ep')" for g' d' c' j ep'
  proof (cases "g' = g")
    case True
    then have "d' = d" "c' = c" "j = i" "ep' = ep" using kg' by auto
    then show ?thesis using True p pay ep by (simp add: parks_def parked_def)
  next
    case False
    then have kk: "k g' = Some (KChan d' c' j ep')" using kg' by simp
    then have ji: "j \<noteq> i" using fresh by blast
    have pk: "parked owner s g' c' j ep' (Q d' c')" using inv_parked [OF inv kk] .
    have cache: "j \<notin> set (sudogcache s')" "j < sg_next_new s'"
      using pk p by (auto simp: parked_def parks_def)
    have eqs: "gs s' g' = gs s g'" "closed (chans s' c') = closed (chans s c')" "h0 j = sudogs s j"
      using p False h0 [OF ji] by (simp_all add: parks_def)
    have links: "sg_next (sudogs s' j) = sg_next (sudogs s j) \<and> sg_prev (sudogs s' j) = sg_prev (sudogs s j)"
      if "j \<notin> set (Q d' c')"
    proof -
      have "j \<notin> set (Q d c)"
        using that kk pk inv_queued [OF inv, of j d c] by (auto simp: parked_def)
      then show ?thesis using link_change_out [OF lc] ji h0 [OF ji] by simp
    qed
    have mem: "j \<in> set (?Q d' c') \<longleftrightarrow> j \<in> set (Q d' c')" using ji by auto
    show ?thesis
      using pk links cache unfolding parked_def pay eqs mem by (elim conjE disjE) simp_all
  qed
  show ?thesis
    unfolding inv_core_def
  proof (intro conjI allI impI)
    fix g' assume "?k g' = None"
    then show "g_status (gs s' g') = Grunning" and "g_waiting (gs s' g') = None"
      using inv_running [OF inv] inv_idle [OF inv, of g'] p by (simp_all add: parks_def split: if_splits)
  next
    fix g' assume "?k g' = Some KNil"
    then show "g_status (gs s' g') = Gwaiting" and "g_waiting (gs s' g') = None"
      using inv_nil [OF inv] inv_idle [OF inv, of g'] p by (simp_all add: parks_def split: if_splits)
  next
    show "\<forall>j \<in> set (sudogcache s'). j < sg_next_new s' \<and> sg_elem (sudogs s' j) = None"
    proof
      fix j assume "j \<in> set (sudogcache s')"
      moreover from this have "j \<in> set (sudogcache s)" "j \<noteq> i" using p by (auto simp: parks_def)
      ultimately show "j < sg_next_new s' \<and> sg_elem (sudogs s' j) = None"
        using inv_cached [OF inv, of j] p pay h0 [of j] by (simp add: parks_def)
    qed
  next
    fix g' d' c' j ep' assume "?k g' = Some (KChan d' c' j ep')" and "d' = Sending"
    then show "ep' \<noteq> None" using inv_send_elem [OF inv] ep(2) by (auto split: if_splits)
  qed (use reprs queued park p in \<open>auto simp: parks_def\<close>)
qed

subsection \<open>Returning from a park\<close>

lemma inv_return:
  assumes inv: "inv_core owner s k Q" and kg: "k g = Some (KChan d c i ep)"
    and st: "g_status (gs s g) = Grunnable"
    and s': "\<And>j. j \<noteq> i \<Longrightarrow> sudogs s' j = sudogs s j" "sg_elem (sudogs s' i) = None"
      "\<And>g'. g' \<noteq> g \<Longrightarrow> gs s' g' = gs s g'" "g_status (gs s' g) = Grunning"
      "chans s' = chans s" "sudogcache s' = sudogcache s @ [i]" "sg_next_new s' = sg_next_new s"
      "g_waiting (gs s' g) = None"
  shows "inv_core owner s' (k(g := None)) Q"
proof -
  have pk: "parked owner s g c i ep (Q d c)" using inv_parked [OF inv kg] .
  then have i_out: "i \<notin> set (Q d' c')" for d' c'
    using inv_queued_waiting [OF inv, of i d' c'] st by (auto simp: parked_def)
  have not_g: "sg_g (sudogs s j) \<noteq> g" if "j \<in> set (Q d' c')" for j d' c'
    using inv_queued_waiting [OF inv that] st by auto
  have reprs: "wq_repr (sudogs s') (wqof d' (chans s' c')) (Q d' c')" for d' c'
    using inv_repr [OF inv, of d' c'] unfolding s'(5)
    by (subst wq_repr_cong [of _ _ "sudogs s"]) (metis s'(1) i_out)+
  have queued: "(\<exists>ep. (k(g := None)) (sg_g (sudogs s' j)) = Some (KChan d' c' j ep)) \<and>
      g_status (gs s' (sg_g (sudogs s' j))) = Gwaiting" if "j \<in> set (Q d' c')" for d' c' j
  proof -
    have "sudogs s' j = sudogs s j" using s'(1) i_out that by metis
    then show ?thesis
      using not_g [OF that] inv_queued [OF inv that] inv_queued_waiting [OF inv that] s'(3) by simp
  qed
  have park: "parked owner s' g' c' j ep' (Q d' c')"
    if kk: "(k(g := None)) g' = Some (KChan d' c' j ep')" for g' d' c' j ep'
  proof -
    from kk have g': "g' \<noteq> g" and k': "k g' = Some (KChan d' c' j ep')" by (auto split: if_splits)
    have pk': "parked owner s g' c' j ep' (Q d' c')" using inv_parked [OF inv k'] .
    then have ji: "j \<noteq> i" using pk g' by (auto simp: parked_def)
    show ?thesis using pk' ji unfolding parked_def s'(1) [OF ji] s'(3) [OF g'] s'(5-7) by simp
  qed
  have cache: "\<forall>j \<in> set (sudogcache s'). j < sg_next_new s' \<and> sg_elem (sudogs s' j) = None"
  proof
    fix j assume "j \<in> set (sudogcache s')"
    then show "j < sg_next_new s' \<and> sg_elem (sudogs s' j) = None"
      using inv_cached [OF inv, of j] s'(1) [of j] s'(2) pk s'(6,7) by (cases "j = i") (auto simp: parked_def)
  qed
  have dist: "distinct (sudogcache s')" using inv_cache [OF inv] pk s'(6) by (simp add: parked_def)
  show ?thesis
    unfolding inv_core_def
  proof (intro conjI allI impI)
    fix g' assume "(k(g := None)) g' = None"
    then show "g_status (gs s' g') = Grunning" and "g_waiting (gs s' g') = None"
      using inv_running [OF inv, of g'] inv_idle [OF inv, of g'] s'(3,4,8) by (cases "g' = g"; simp)+
  next
    fix g' assume "(k(g := None)) g' = Some KNil"
    then show "g_status (gs s' g') = Gwaiting" and "g_waiting (gs s' g') = None"
      using inv_nil [OF inv, of g'] inv_idle [OF inv, of g'] s'(3) by (auto split: if_splits)
  next
    fix g' d' c' j ep' assume "(k(g := None)) g' = Some (KChan d' c' j ep')" and "d' = Sending"
    then show "ep' \<noteq> None" using inv_send_elem [OF inv] by (auto split: if_splits)
  qed (use reprs queued park cache dist inv_ring [OF inv] s'(5) in auto)
qed

end
