(* ===== verification/Chan_Refine.thy ===== *)
theory Chan_Refine
  imports Chan_Inv
begin

section \<open>What a channel promises, and that the operations implement it\<close>

text \<open>
  The abstract channel of the language: a bounded queue of values, the blocked senders with
  their values and the blocked receivers, both in arrival order. Its operations say what a
  send, a receive and a close do; the theorems of this theory show that the pointer-level code
  does exactly that, keeps the invariant of the runtime state, always returns, and never
  reaches a \<open>throw\<close>.
\<close>

subsection \<open>The abstract channel\<close>

record 'v achan =
  a_cap :: nat
  a_buf :: "'v list"
  a_sendq :: "(gid \<times> 'v) list"
  a_recvq :: "gid list"
  a_closed :: bool

datatype 'v effect =
    Accepted \<comment> \<open>the value went into the buffer\<close>
  | HandedTo gid \<comment> \<open>the value went to this waiting receiver\<close>
  | Blocked \<comment> \<open>the caller waits\<close>
  | WouldBlock \<comment> \<open>a non-blocking operation could not proceed\<close>
  | SendOnClosed
  | Got 'v "gid option" \<comment> \<open>a value was received; perhaps a waiting sender was released\<close>
  | GotZero \<comment> \<open>receive on a closed and drained channel\<close>
  | CloseOfClosed
  | Closed "gid list" "gid list" \<comment> \<open>closed; the receivers and senders released\<close>

definition a_send :: "gid \<Rightarrow> 'v \<Rightarrow> bool \<Rightarrow> 'v achan \<Rightarrow> 'v achan \<times> 'v effect" where
  "a_send g v block a =
     (if a_closed a then (a, SendOnClosed)
      else case a_recvq a of
        r # rs \<Rightarrow> (a\<lparr>a_recvq := rs\<rparr>, HandedTo r)
      | [] \<Rightarrow>
          if length (a_buf a) < a_cap a then (a\<lparr>a_buf := a_buf a @ [v]\<rparr>, Accepted)
          else if block then (a\<lparr>a_sendq := a_sendq a @ [(g, v)]\<rparr>, Blocked)
          else (a, WouldBlock))"

definition a_recv :: "gid \<Rightarrow> bool \<Rightarrow> 'v achan \<Rightarrow> 'v achan \<times> 'v effect" where
  "a_recv g block a =
     (case a_buf a of
        v # vs \<Rightarrow>
          (case a_sendq a of
             [] \<Rightarrow> (a\<lparr>a_buf := vs\<rparr>, Got v None)
           | (g', v') # ss \<Rightarrow> (a\<lparr>a_buf := vs @ [v'], a_sendq := ss\<rparr>, Got v (Some g')))
      | [] \<Rightarrow>
          if a_closed a then (a, GotZero)
          else (case a_sendq a of
             (g', v') # ss \<Rightarrow> (a\<lparr>a_sendq := ss\<rparr>, Got v' (Some g'))
           | [] \<Rightarrow> if block then (a\<lparr>a_recvq := a_recvq a @ [g]\<rparr>, Blocked) else (a, WouldBlock)))"

definition a_close :: "'v achan \<Rightarrow> 'v achan \<times> 'v effect" where
  "a_close a =
     (if a_closed a then (a, CloseOfClosed)
      else (a\<lparr>a_closed := True, a_recvq := [], a_sendq := []\<rparr>,
            Closed (a_recvq a) (map fst (a_sendq a))))"

text \<open>What the caller of the Go function sees.\<close>

fun send_outcome :: "'v effect \<Rightarrow> bool outcome" where
  "send_outcome Accepted = Ret True"
| "send_outcome (HandedTo g) = Ret True"
| "send_outcome Blocked = Park"
| "send_outcome WouldBlock = Ret False"
| "send_outcome _ = Panic ''send on closed channel''"

fun recv_outcome :: "'v effect \<Rightarrow> (bool \<times> bool) outcome" where
  "recv_outcome (Got v g) = Ret (True, True)"
| "recv_outcome GotZero = Ret (True, False)"
| "recv_outcome Blocked = Park"
| "recv_outcome _ = Ret (False, False)"

fun close_outcome :: "'v effect \<Rightarrow> unit outcome" where
  "close_outcome (Closed rs ss) = Ret ()"
| "close_outcome _ = Panic ''close of closed channel''"

subsection \<open>The abstraction\<close>

fun wq_list :: "nat \<Rightarrow> sg_store \<Rightarrow> sgid option \<Rightarrow> sgid list" where
  "wq_list 0 h p = []"
| "wq_list (Suc n) h None = []"
| "wq_list (Suc n) h (Some i) = i # wq_list n h (sg_next (h i))"

text \<open>
  The queues of a runtime state, read off by following the \<open>next\<close> links; there are at most as
  many waiting sudogs as were ever allocated.
\<close>

definition queues :: "'v rt \<Rightarrow> dir \<Rightarrow> chid \<Rightarrow> sgid list" where
  "queues s d c = wq_list (sg_next_new s) (sudogs s) (wq_first (wqof d (chans s c)))"

definition absQ :: "'v rt \<Rightarrow> (dir \<Rightarrow> chid \<Rightarrow> sgid list) \<Rightarrow> chid \<Rightarrow> 'v achan" where
  "absQ s Q c =
     \<lparr>a_cap = dataqsiz (chans s c),
      a_buf = ring_contents (chans s c),
      a_sendq = map (\<lambda>i. (sg_g (sudogs s i), mem s (the (sg_elem (sudogs s i))))) (Q Sending c),
      a_recvq = map (\<lambda>i. sg_g (sudogs s i)) (Q Receiving c),
      a_closed = closed (chans s c)\<rparr>"

definition abs_chan :: "'v rt \<Rightarrow> chid \<Rightarrow> 'v achan" where
  "abs_chan s = absQ s (queues s)"

text \<open>
  The invariants stated at the head of chan.go, for goroutines that use no select: at least one
  of the two queues is empty; a buffered channel with values has no waiting receiver and one
  with free slots no waiting sender. Nobody waits on a closed channel.
\<close>

definition hdr :: "'v hchan \<Rightarrow> sgid list \<Rightarrow> sgid list \<Rightarrow> bool" where
  "hdr ch sq rq \<longleftrightarrow>
     (sq = [] \<or> rq = []) \<and>
     (qcount ch > 0 \<longrightarrow> rq = []) \<and>
     (qcount ch < dataqsiz ch \<longrightarrow> sq = []) \<and>
     (closed ch \<longrightarrow> sq = [] \<and> rq = [])"

definition invQ :: "(ptr \<Rightarrow> gid) \<Rightarrow> 'v rt \<Rightarrow> (gid \<Rightarrow> cont option) \<Rightarrow> (dir \<Rightarrow> chid \<Rightarrow> sgid list) \<Rightarrow> bool" where
  "invQ owner s k Q \<longleftrightarrow>
     inv_core owner s k Q \<and> (\<forall>c. hdr (chans s c) (Q Sending c) (Q Receiving c))"

definition chan_inv :: "(ptr \<Rightarrow> gid) \<Rightarrow> 'v rt \<Rightarrow> (gid \<Rightarrow> cont option) \<Rightarrow> bool" where
  "chan_inv owner s k \<longleftrightarrow> invQ owner s k (queues s)"

lemma wq_list_seg:
  "seg h p xs None \<Longrightarrow> length xs \<le> n \<Longrightarrow> wq_list n h (head_opt xs) = xs"
proof (induction xs arbitrary: n p)
  case Nil
  then show ?case by (cases n) auto
next
  case (Cons x xs)
  then obtain m where n: "n = Suc m" by (cases n) auto
  have "sg_next (h x) = head_opt xs" using Cons.prems by (auto split: if_splits)
  with Cons.IH [of "Some x" m] Cons.prems n show ?case by auto
qed

lemma inv_queues:
  assumes "inv_core owner s k Q"
  shows "queues s = Q"
proof (intro ext)
  fix d c
  have "set (Q d c) \<subseteq> {..<sg_next_new s}" using inv_elem(3) [OF assms] by auto
  then have "card (set (Q d c)) \<le> sg_next_new s"
    using card_mono [of "{..<sg_next_new s}"] by simp
  moreover have r: "wq_repr (sudogs s) (wqof d (chans s c)) (Q d c)" using inv_repr [OF assms] .
  ultimately have "length (Q d c) \<le> sg_next_new s"
    by (simp add: wq_repr_def distinct_card)
  with r show "queues s d c = Q d c"
    using wq_list_seg by (auto simp: queues_def wq_repr_def)
qed

lemma invQ_queues: "invQ owner s k Q \<Longrightarrow> queues s = Q"
  by (auto simp: invQ_def inv_queues)

lemma chan_inv_abs: "invQ owner s k Q \<Longrightarrow> chan_inv owner s k \<and> abs_chan s = absQ s Q"
  using invQ_queues by (auto simp: chan_inv_def abs_chan_def)

lemma chan_invE:
  assumes "chan_inv owner s k"
  obtains "invQ owner s k (queues s)" and "abs_chan s = absQ s (queues s)"
  using assms by (auto simp: chan_inv_def abs_chan_def)

subsection \<open>What does not change\<close>

text \<open>
  The abstract channel depends on the channel's fields and on the owners, pointers and memory
  of the sudogs on its queues.
\<close>

lemma absQ_cong:
  assumes "dataqsiz (chans s' c) = dataqsiz (chans s c)" "ring_contents (chans s' c) = ring_contents (chans s c)"
    "closed (chans s' c) = closed (chans s c)" "\<And>d. Q' d c = Q d c"
    "\<And>d i. i \<in> set (Q d c) \<Longrightarrow> sg_g (sudogs s' i) = sg_g (sudogs s i)"
    "\<And>i. i \<in> set (Q Sending c) \<Longrightarrow> sg_elem (sudogs s' i) = sg_elem (sudogs s i) \<and>
        mem s' (the (sg_elem (sudogs s i))) = mem s (the (sg_elem (sudogs s i)))"
  shows "absQ s' Q' c = absQ s Q c"
  using assms by (auto simp: absQ_def)

text \<open>A write to memory of a goroutine that is not a waiting sender disturbs no waiting sender.\<close>

lemma sender_mem_other:
  assumes inv: "inv_core owner s k Q" and i: "i \<in> set (Q Sending c)"
    and p: "owner p = g" and g: "\<And>c' j e. k g \<noteq> Some (KChan Sending c' j e)"
  shows "the (sg_elem (sudogs s i)) \<noteq> p"
proof -
  obtain e where e: "sg_elem (sudogs s i) = Some e" using inv_elem(4) [OF inv i] by blast
  have "owner e = sg_g (sudogs s i)" using inv_elem(5) [OF inv i e] .
  moreover have "sg_g (sudogs s i) \<noteq> g" using inv_elem(1) [OF inv i] g by metis
  ultimately show ?thesis using e p by auto
qed

subsection \<open>The operations as single state updates\<close>

declare frame_simps [simp]

lemma wqof_simps [simp]: "wqof Sending ch = sendq ch" "wqof Receiving ch = recvq ch"
  by (simp_all add: wqof_def)

definition wake_g :: "sgid \<Rightarrow> bool \<Rightarrow> 'v rt \<Rightarrow> 'v rt" where
  "wake_g i b s =
     s\<lparr>sudogs := (sudogs s)(i := (sudogs s i)\<lparr>sg_elem := None, success := b\<rparr>),
       gs := (gs s)(sg_g (sudogs s i) :=
               (gs s (sg_g (sudogs s i)))\<lparr>g_param := Some i, g_status := Grunnable\<rparr>)\<rparr>"

lemma sel_wake_g [simp]:
  "chans (wake_g i b s) = chans s" "mem (wake_g i b s) = mem s"
  "sudogcache (wake_g i b s) = sudogcache s" "sg_next_new (wake_g i b s) = sg_next_new s"
  "sudogs (wake_g i b s) = (sudogs s)(i := (sudogs s i)\<lparr>sg_elem := None, success := b\<rparr>)"
  by (simp_all add: wake_g_def)

lemma send_eq:
  assumes "g_status (gs s (sg_g (sudogs s i))) = Gwaiting"
  shows "send c i ep s = (wake_g i True (store_opt (sg_elem (sudogs s i)) (mem s ep) s), Ret ())"
proof -
  have "(sudogs s)(i := (sudogs s i)\<lparr>success := True\<rparr>) =
      (sudogs s)(i := (sudogs s i)\<lparr>sg_elem := None, success := True\<rparr>)" if "sg_elem (sudogs s i) = None"
    using that by (cases "sudogs s i") simp
  with assms show ?thesis
    by (cases "sg_elem (sudogs s i)")
       (simp_all add: send_def sendDirect_def goready_def wake_g_def upd_sg_def upd_g_def store_opt_def
          store_def Let_def)
qed

lemma recv_eq:
  assumes "g_status (gs s (sg_g (sudogs s i))) = Gwaiting" and "recv_data c i ep s = Some s1"
  shows "recv c i ep s = (wake_g i True s1, Ret ())"
proof -
  have "sudogs s1 = sudogs s" "gs s1 = gs s"
    using assms(2) by (auto simp: recv_data_def recvDirect_def Let_def
        split: if_splits option.splits Option.bind_splits)
  with assms show ?thesis
    by (simp add: recv_def goready_def wake_g_def upd_sg_def upd_g_def Let_def)
qed

lemma woken_wake_g:
  assumes "sudogs s1 = h1" "gs s1 = gs s" "sg_g (h1 i) = sg_g (sudogs s i)"
    "\<And>d' c'. wqof d' (chans s1 c') = (if d' = d \<and> c' = c then q' else wqof d' (chans s c'))"
    "\<And>c'. closed (chans s1 c') = closed (chans s c')" "\<And>c'. ring_ok (chans s1 c')"
    "sudogcache s1 = sudogcache s" "sg_next_new s1 = sg_next_new s"
  shows "woken d c i b q' h1 s (wake_g i b s1)"
  using assms by (simp add: woken_def wake_g_def)

lemma dequeue_none:
  assumes "inv_core owner s k Q"
  shows "Q Receiving c = [] \<Longrightarrow> recvq_dequeue c s = Some (s, None)"
    and "Q Sending c = [] \<Longrightarrow> sendq_dequeue c s = Some (s, None)"
  using inv_repr [OF assms, of Receiving c] inv_repr [OF assms, of Sending c]
  by (simp_all add: recvq_dequeue_def sendq_dequeue_def dequeue.simps wq_repr_def upd_chan_def)

lemma acquire_ok:
  assumes inv: "inv_core owner s k Q"
  obtains s1 i where
    "acquireSudog s = (s1, Ret i)" "chans s1 = chans s" "gs s1 = gs s" "mem s1 = mem s"
    "\<And>j. j \<noteq> i \<Longrightarrow> sudogs s1 j = sudogs s j" "distinct (sudogcache s1)"
    "set (sudogcache s1) \<subseteq> set (sudogcache s)" "i \<notin> set (sudogcache s1)"
    "i < sg_next_new s1" "sg_next_new s \<le> sg_next_new s1"
    "\<And>g' d c ep. k g' \<noteq> Some (KChan d c i ep)"
proof (cases "sudogcache s = []")
  case True
  have "k g' \<noteq> Some (KChan d c (sg_next_new s) ep)" for g' d c ep
    using inv_parked [OF inv, of g' d c "sg_next_new s" ep] by (auto simp: parked_def)
  with True show thesis
    by (intro that [of "(upd_sg (sg_next_new s) (\<lambda>_. zero_sudog) s)
            \<lparr>sudogcache := [], sg_next_new := Suc (sg_next_new s)\<rparr>" "sg_next_new s"])
       (simp_all add: acquireSudog_def Let_def zero_sudog_def)
next
  case False
  let ?i = "last (sudogcache s)"
  have mem: "?i \<in> set (sudogcache s)" using False by simp
  have "k g' \<noteq> Some (KChan d c ?i ep)" for g' d c ep
    using inv_parked [OF inv, of g' d c ?i ep] mem by (auto simp: parked_def)
  moreover have "?i \<notin> set (butlast (sudogcache s))"
    using inv_cache [OF inv] False by (cases "sudogcache s" rule: rev_cases) auto
  ultimately show thesis
    using False inv_cached [OF inv mem] inv_cache [OF inv] in_set_butlastD
    by (intro that [of "s\<lparr>sudogcache := butlast (sudogcache s)\<rparr>" ?i])
       (auto simp: acquireSudog_def Let_def distinct_butlast)
qed

definition enqueue_on :: "dir \<Rightarrow> chid \<Rightarrow> sgid \<Rightarrow> 'v rt \<Rightarrow> 'v rt" where
  "enqueue_on d c = (case d of Sending \<Rightarrow> sendq_enqueue c | Receiving \<Rightarrow> recvq_enqueue c)"

lemma enqueue_on_eq:
  assumes "enqueue (sudogs s) (wqof d (chans s c)) i = (h', q')"
  shows "enqueue_on d c i s = upd_chan c (set_wq d q') (s\<lparr>sudogs := h'\<rparr>)"
  using assms by (cases d) (simp_all add: enqueue_on_def sendq_enqueue_def recvq_enqueue_def set_wq_def
      upd_chan_def)

lemma set_wq_simps [simp]:
  "wqof d' (set_wq d q ch) = (if d' = d then q else wqof d' ch)" "ring_ok (set_wq d q ch) = ring_ok ch"
  "ring_contents (set_wq d q ch) = ring_contents ch" "closed (set_wq d q ch) = closed ch"
  "dataqsiz (set_wq d q ch) = dataqsiz ch" "qcount (set_wq d q ch) = qcount ch"
  by (auto simp: set_wq_def wqof_def split: dir.splits)

text \<open>
  What an operation may not touch: the outcome that a goroutine which was readied, and has not run
  yet, finds in its sudog.
\<close>

definition undisturbed :: "(gid \<Rightarrow> cont option) \<Rightarrow> 'v rt \<Rightarrow> 'v rt \<Rightarrow> bool" where
  "undisturbed k s s' \<longleftrightarrow>
     (\<forall>g d c i ep. k g = Some (KChan d c i ep) \<longrightarrow> g_status (gs s g) = Grunnable \<longrightarrow>
        success (sudogs s' i) = success (sudogs s i))"

lemma undisturbed_same: "sudogs s' = sudogs s \<Longrightarrow> undisturbed k s s'"
  by (simp add: undisturbed_def)

lemma undisturbed_wake:
  assumes core: "inv_core owner s k Q" and i: "i \<in> set (Q d c)"
    and lc: "link_change A (sudogs s) h1" and s': "sudogs s' = h1(i := x)"
  shows "undisturbed k s s'"
proof -
  have "j \<noteq> i" if "k g = Some (KChan d' c' j ep)" "g_status (gs s g) = Grunnable" for g d' c' j ep
    using inv_queued_waiting [OF core i] inv_parked [OF core that(1)] that(2) by (auto simp: parked_def)
  then show ?thesis using link_change_payload(4) [OF lc] s' by (auto simp: undisturbed_def)
qed

text \<open>A blocking operation parks its goroutine at the end of the queue of its direction.\<close>

lemma block_park:
  assumes inv: "inv_core owner s k Q" and kg: "k g = None"
    and ep: "\<And>p. ep = Some p \<Longrightarrow> owner p = g" "d = Sending \<Longrightarrow> ep \<noteq> None"
  obtains s' i where
    "block_on g c ep (enqueue_on d c) s = (s', Park)"
    "inv_core owner s' (k(g \<mapsto> KChan d c i ep)) (Q(d := (Q d)(c := Q d c @ [i])))"
    "g_waiting (gs s' g) = Some i" "sg_g (sudogs s' i) = g" "sg_elem (sudogs s' i) = ep"
    "\<And>j d' c'. j \<in> set (Q d' c') \<Longrightarrow> sg_g (sudogs s' j) = sg_g (sudogs s j) \<and>
        sg_elem (sudogs s' j) = sg_elem (sudogs s j)"
    "mem s' = mem s"
    "\<And>c'. \<exists>q. chans s' c' = (if c' = c then set_wq d q (chans s c') else chans s c')"
    "undisturbed k s s'"
proof -
  obtain s1 i where acq: "acquireSudog s = (s1, Ret i)" and eqs: "chans s1 = chans s" "gs s1 = gs s" "mem s1 = mem s"
    "\<And>j. j \<noteq> i \<Longrightarrow> sudogs s1 j = sudogs s j" and cache: "distinct (sudogcache s1)"
    "set (sudogcache s1) \<subseteq> set (sudogcache s)" "i \<notin> set (sudogcache s1)"
    "i < sg_next_new s1" "sg_next_new s \<le> sg_next_new s1"
    and fresh: "\<And>g' d c ep. k g' \<noteq> Some (KChan d c i ep)"
    by (rule acquire_ok [OF inv]) blast
  define h0 where "h0 = (sudogs s1)(i := (sudogs s1 i)\<lparr>sg_elem := ep, waitlink := None, sg_g := g,
      isSelect := False, sg_c := Some c\<rparr>)"
  obtain h' q' where enq: "enqueue h0 (wqof d (chans s c)) i = (h', q')" by fastforce
  have i_out: "i \<notin> set (Q d' c')" for d' c' using inv_queued [OF inv] fresh by metis
  have "wq_repr h0 (wqof d (chans s c)) (Q d c)"
    using inv_repr [OF inv, of d c] i_out [of d c] eqs(4)
    by (subst wq_repr_cong [of _ _ "sudogs s"]) (auto simp: h0_def)
  from enqueue_repr(2) [OF this i_out enq]
  have lc: "link_change (insert i (set (Q d c))) h0 h'" .
  note pay = link_change_payload [OF lc]
  define s' where "s' = chanparkcommit g (upd_g g (g_status_update (\<lambda>_. Gwaiting))
      (upd_g g (parkingOnChan_update (\<lambda>_. True)) (upd_chan c (set_wq d q')
        ((upd_g g (\<lambda>g. g\<lparr>g_waiting := Some i, g_param := None\<rparr>) s1)\<lparr>sudogs := h'\<rparr>))))"
  have run: "block_on g c ep (enqueue_on d c) s = (s', Park)"
    using inv_running [OF inv kg] eqs enq
    by (simp add: block_on_def acq Let_def gopark_def s'_def enqueue_on_eq [where d = d and h' = h' and q' = q']
        h0_def upd_sg_def upd_g_def)
  have "parks d c g i ep q' h0 s s'"
    using enq eqs cache inv_ring [OF inv]
    by (auto simp: parks_def s'_def h0_def chanparkcommit_def)
  from inv_park [OF inv kg fresh this ep] have
    core: "inv_core owner s' (k(g \<mapsto> KChan d c i ep)) (Q(d := (Q d)(c := Q d c @ [i])))" by blast
  have "chans s' c' = (if c' = c then set_wq d q' (chans s c') else chans s c')" for c'
    using eqs by (simp add: s'_def chanparkcommit_def)
  then have ch: "\<exists>q. chans s' c' = (if c' = c then set_wq d q (chans s c') else chans s c')" for c' by blast
  have oth: "sg_g (sudogs s' j) = sg_g (sudogs s j) \<and> sg_elem (sudogs s' j) = sg_elem (sudogs s j)"
    if "j \<in> set (Q d' c')" for j d' c'
  proof -
    have "j \<noteq> i" using that i_out by blast
    then show ?thesis using pay eqs(4) by (simp add: s'_def chanparkcommit_def h0_def)
  qed
  have "j \<noteq> i" if "k g' = Some (KChan d' c' j ep')" for g' d' c' j ep' using that fresh by blast
  then have und: "undisturbed k s s'"
    unfolding undisturbed_def using pay eqs(4) by (auto simp: s'_def chanparkcommit_def h0_def)
  show thesis
    by (rule that [OF run core _ _ _ oth _ ch und]) (use pay eqs in \<open>auto simp: s'_def chanparkcommit_def h0_def\<close>)
qed

subsection \<open>Sending\<close>

text \<open>A waiting receiver: the value is copied to it and it becomes runnable.\<close>

lemma send_handoff:
  assumes inv: "invQ owner s k Q" and kg: "k g = None" and own: "owner ep = g"
    and Q: "Q Receiving c = i # rest" and ncl: "\<not> closed (chans s c)"
  obtains s' where
    "chansend g (Some c) ep block s = Some (s', Ret True)"
    "invQ owner s' k (Q(Receiving := (Q Receiving)(c := rest)))"
    "absQ s' (Q(Receiving := (Q Receiving)(c := rest))) =
       (absQ s Q)(c := fst (a_send g (mem s ep) block (absQ s Q c)))"
    "mem s' = (case sg_elem (sudogs s i) of None \<Rightarrow> mem s | Some p \<Rightarrow> (mem s)(p := mem s ep))"
    "undisturbed k s s'"
proof -
  let ?Q = "Q(Receiving := (Q Receiving)(c := rest))"
  have core: "inv_core owner s k Q" and hdr: "hdr (chans s c') (Q Sending c') (Q Receiving c')" for c'
    using inv by (auto simp: invQ_def)
  have iq: "i \<in> set (Q Receiving c)" using Q by simp
  have qc: "qcount (chans s c) = 0" and sq: "Q Sending c = []" using hdr [of c] Q by (auto simp: hdr_def)
  obtain h1 q' where deq:
    "dequeue (sudogs s) (gs s) (recvq (chans s c)) = Some (h1, gs s, q', Some i)"
    and repr: "wq_repr h1 q' rest" and lc: "link_change (set (Q Receiving c)) (sudogs s) h1"
    and unl: "sg_next (h1 i) = None" "sg_prev (h1 i) = None"
    by (rule inv_dequeue [OF core, of "gs s" Receiving c]) (auto simp: Q)
  let ?s0 = "upd_chan c (recvq_update (\<lambda>_. q')) (s\<lparr>sudogs := h1\<rparr>)"
  let ?s1 = "store_opt (sg_elem (h1 i)) (mem s ep) ?s0"
  let ?s' = "wake_g i True ?s1"
  note pay = link_change_payload [OF lc]
  have nf: "\<not> chan_full (chans s c)"
    using inv_repr [OF core, of Receiving c] Q qc by (auto simp: chan_full_def wq_repr_def)
  have wait: "g_status (gs ?s0 (sg_g (sudogs ?s0 i))) = Gwaiting"
    using inv_queued_waiting [OF core iq] pay by simp
  have run: "chansend g (Some c) ep block s = Some (?s', Ret True)"
    using nf ncl deq send_eq [OF wait, of c ep] by (simp add: chansend_def recvq_dequeue_def map_ret_def)
  have ring: "ring_ok (chans ?s1 c')" for c'
    using inv_ring [OF core] by simp
  have wk: "woken Receiving c i True q' h1 s ?s'"
    by (rule woken_wake_g) (use pay ring in \<open>auto simp: wqof_def split: dir.splits\<close>)
  have core': "inv_core owner ?s' k ?Q"
    by (rule inv_wake [OF core Q lc repr unl wk]) simp
  have "hdr (chans ?s' c') (?Q Sending c') (?Q Receiving c')" for c'
    using hdr [of c'] Q by (auto simp: hdr_def)
  with core' have inv': "invQ owner ?s' k ?Q" by (simp add: invQ_def)
  have ki: "k (sg_g (sudogs s i)) = Some (KChan Receiving c i (sg_elem (sudogs s i)))"
    using inv_elem [OF core iq] by blast
  have abs: "absQ ?s' ?Q c' = (if c' = c then fst (a_send g (mem s ep) block (absQ s Q c)) else absQ s Q c')" for c'
  proof (cases "c' = c")
    case True
    have "i \<notin> set rest" using inv_repr [OF core, of Receiving c] Q by (simp add: wq_repr_def)
    then have "map (\<lambda>j. sg_g (sudogs ?s' j)) rest = map (\<lambda>j. sg_g (sudogs s j)) rest"
      using pay by auto
    then show ?thesis
      using True Q ncl sq by (simp add: absQ_def a_send_def)
  next
    case False
    have "absQ ?s' ?Q c' = absQ s Q c'"
    proof (rule absQ_cong)
      fix j assume j: "j \<in> set (Q Sending c')"
      then have "j \<noteq> i" using inv_queue_unique [OF core iq] by auto
      moreover have "the (sg_elem (sudogs s j)) \<noteq> p" if "sg_elem (sudogs s i) = Some p" for p
        using sender_mem_other [OF core j inv_elem(5) [OF core iq that]] ki by simp
      ultimately show "sg_elem (sudogs ?s' j) = sg_elem (sudogs s j) \<and>
          mem ?s' (the (sg_elem (sudogs s j))) = mem s (the (sg_elem (sudogs s j)))"
        using pay by (auto split: option.splits)
    qed (use False pay in auto)
    with False show ?thesis by simp
  qed
  have "undisturbed k s ?s'" by (rule undisturbed_wake [OF core iq lc]) simp
  then show thesis
    by (intro that [OF run inv']) (use abs pay in \<open>auto split: option.splits\<close>)
qed

text \<open>No waiting receiver and a free slot: the value goes to the tail of the buffer.\<close>

lemma buf_put_ring: "buf_put c v s = upd_chan c (ring_put v) s"
  by (simp add: buf_put_def ring_put_def)

lemma ring_put_sel [simp]:
  "dataqsiz (ring_put v ch) = dataqsiz ch" "closed (ring_put v ch) = closed ch"
  "recvq (ring_put v ch) = recvq ch" "sendq (ring_put v ch) = sendq ch"
  "qcount (ring_put v ch) = qcount ch + 1"
  by (simp_all add: ring_put_def)

lemma wqof_ring_put [simp]: "wqof d (ring_put v ch) = wqof d ch"
  by (cases d) simp_all

lemma invQ_ring:
  assumes inv: "invQ owner s k Q" and ch: "ring_ok ch" "\<And>d. wqof d ch = wqof d (chans s c)"
    "closed ch = closed (chans s c)" "hdr ch (Q Sending c) (Q Receiving c)"
  shows "invQ owner (upd_chan c (\<lambda>_. ch) (s\<lparr>mem := m\<rparr>)) k Q"
proof -
  have core: "inv_core owner s k Q" and hdr: "\<And>c. hdr (chans s c) (Q Sending c) (Q Receiving c)"
    using inv by (simp_all add: invQ_def)
  have "inv_core owner (upd_chan c (\<lambda>_. ch) (s\<lparr>mem := m\<rparr>)) k Q"
    by (rule inv_chans [OF core]) (auto simp: ch inv_ring [OF core])
  then show ?thesis using hdr ch(4) by (simp add: invQ_def)
qed

lemma send_buffer:
  assumes inv: "invQ owner s k Q" and Q: "Q Receiving c = []" and ncl: "\<not> closed (chans s c)"
    and room: "qcount (chans s c) < dataqsiz (chans s c)"
  shows "chansend g (Some c) ep block s = Some (buf_put c (mem s ep) s, Ret True)"
    and "invQ owner (buf_put c (mem s ep) s) k Q"
    and "absQ (buf_put c (mem s ep) s) Q = (absQ s Q)(c := fst (a_send g (mem s ep) block (absQ s Q c)))"
proof -
  have core: "inv_core owner s k Q" and hdr: "hdr (chans s c) (Q Sending c) (Q Receiving c)"
    using inv by (auto simp: invQ_def)
  note rp = ring_put [OF inv_ring [OF core] room, of "mem s ep"]
  show "chansend g (Some c) ep block s = Some (buf_put c (mem s ep) s, Ret True)"
    using ncl room Q by (auto simp: chansend_def dequeue_none [OF core] chan_full_def)
  have "buf_put c (mem s ep) s = upd_chan c (\<lambda>_. ring_put (mem s ep) (chans s c)) (s\<lparr>mem := mem s\<rparr>)"
    by (simp add: buf_put_ring upd_chan_def)
  moreover have "hdr (ring_put (mem s ep) (chans s c)) (Q Sending c) (Q Receiving c)"
    using hdr Q room ncl by (auto simp: hdr_def)
  ultimately show "invQ owner (buf_put c (mem s ep) s) k Q"
    using invQ_ring [OF inv rp(1), of c "mem s"] by simp
  show "absQ (buf_put c (mem s ep) s) Q = (absQ s Q)(c := fst (a_send g (mem s ep) block (absQ s Q c)))"
    using rp Q ncl room by (auto simp: absQ_def a_send_def buf_put_ring)
qed

text \<open>Neither a receiver nor a free slot: the sender waits, or reports that it would.\<close>

lemma absQ_park:
  assumes "\<And>j d' c'. j \<in> set (Q d' c') \<Longrightarrow> sg_g (sudogs s' j) = sg_g (sudogs s j) \<and>
        sg_elem (sudogs s' j) = sg_elem (sudogs s j)"
    and "mem s' = mem s" and "sg_g (sudogs s' i) = g" "sg_elem (sudogs s' i) = ep"
    and "\<And>c'. \<exists>q. chans s' c' = (if c' = c then set_wq d q (chans s c') else chans s c')"
  shows "absQ s' (Q(d := (Q d)(c := Q d c @ [i]))) =
     (absQ s Q)(c := (case d of
         Sending \<Rightarrow> (absQ s Q c)\<lparr>a_sendq := a_sendq (absQ s Q c) @ [(g, mem s (the ep))]\<rparr>
       | Receiving \<Rightarrow> (absQ s Q c)\<lparr>a_recvq := a_recvq (absQ s Q c) @ [g]\<rparr>))"
proof
  fix c'
  obtain q where "chans s' c' = (if c' = c then set_wq d q (chans s c') else chans s c')"
    using assms(5) by blast
  then show "absQ s' (Q(d := (Q d)(c := Q d c @ [i]))) c' =
     ((absQ s Q)(c := (case d of
         Sending \<Rightarrow> (absQ s Q c)\<lparr>a_sendq := a_sendq (absQ s Q c) @ [(g, mem s (the ep))]\<rparr>
       | Receiving \<Rightarrow> (absQ s Q c)\<lparr>a_recvq := a_recvq (absQ s Q c) @ [g]\<rparr>))) c'"
    using assms(1-4) by (cases d) (auto simp: absQ_def)
qed

lemma hdr_park:
  assumes "\<And>c'. hdr (chans s c') (Q Sending c') (Q Receiving c')"
    and "\<And>c'. \<exists>q. chans s' c' = (if c' = c then set_wq d q (chans s c') else chans s c')"
    and "\<not> closed (chans s c)"
    and "case d of Sending \<Rightarrow> Q Receiving c = [] \<and> \<not> qcount (chans s c) < dataqsiz (chans s c)
         | Receiving \<Rightarrow> Q Sending c = [] \<and> qcount (chans s c) = 0"
  shows "hdr (chans s' c') ((Q(d := (Q d)(c := Q d c @ [i]))) Sending c')
           ((Q(d := (Q d)(c := Q d c @ [i]))) Receiving c')"
proof -
  obtain q where "chans s' c' = (if c' = c then set_wq d q (chans s c') else chans s c')"
    using assms(2) by blast
  then show ?thesis
    using assms(1) [of c'] assms(3,4) by (cases d) (auto simp: hdr_def)
qed

lemma send_park:
  assumes inv: "invQ owner s k Q" and kg: "k g = None" and own: "owner ep = g"
    and Q: "Q Receiving c = []" and ncl: "\<not> closed (chans s c)"
    and nroom: "\<not> qcount (chans s c) < dataqsiz (chans s c)"
  obtains s' i where
    "chansend g (Some c) ep True s = Some (s', Park)"
    "invQ owner s' (k(g \<mapsto> KChan Sending c i (Some ep))) (Q(Sending := (Q Sending)(c := Q Sending c @ [i])))"
    "g_waiting (gs s' g) = Some i" "mem s' = mem s"
    "absQ s' (Q(Sending := (Q Sending)(c := Q Sending c @ [i]))) =
       (absQ s Q)(c := fst (a_send g (mem s ep) True (absQ s Q c)))"
    "undisturbed k s s'"
proof -
  have core: "inv_core owner s k Q" and hdr: "hdr (chans s c') (Q Sending c') (Q Receiving c')" for c'
    using inv by (auto simp: invQ_def)
  obtain s' i where run: "block_on g c (Some ep) (enqueue_on Sending c) s = (s', Park :: bool outcome)"
    and core': "inv_core owner s' (k(g \<mapsto> KChan Sending c i (Some ep)))
        (Q(Sending := (Q Sending)(c := Q Sending c @ [i])))"
    and sg: "g_waiting (gs s' g) = Some i" "sg_g (sudogs s' i) = g" "sg_elem (sudogs s' i) = Some ep"
    and oth: "\<And>j d' c'. j \<in> set (Q d' c') \<Longrightarrow> sg_g (sudogs s' j) = sg_g (sudogs s j) \<and>
        sg_elem (sudogs s' j) = sg_elem (sudogs s j)"
    and mem: "mem s' = mem s"
    and ch: "\<And>c'. \<exists>q. chans s' c' = (if c' = c then set_wq Sending q (chans s c') else chans s c')"
    and und: "undisturbed k s s'"
    by (rule block_park [OF core kg, of "Some ep" Sending c]) (use own in auto)
  have res: "chansend g (Some c) ep True s = Some (s', Park)"
    using run ncl nroom by (simp add: chansend_def dequeue_none(1) [OF core Q] enqueue_on_def)
  have inv': "invQ owner s' (k(g \<mapsto> KChan Sending c i (Some ep)))
      (Q(Sending := (Q Sending)(c := Q Sending c @ [i])))"
    unfolding invQ_def using core' hdr_park [OF hdr ch ncl] Q nroom by auto
  show thesis
    by (rule that [OF res inv' sg(1) mem _ und])
       (use absQ_park [OF oth mem sg(2,3) ch] Q ncl nroom in \<open>auto simp: a_send_def absQ_def\<close>)
qed

text \<open>
  The send theorem: in every state that satisfies the invariant, a send by a running goroutine
  does what the abstract channel's send does, and its result is the one the abstract effect
  prescribes. A value handed over is written to the memory the receiver waits with; no other
  memory changes.
\<close>

lemma chansend_refines:
  fixes c :: chid and block :: bool
  assumes inv: "invQ owner s k Q" and kg: "k g = None" and own: "owner ep = g"
  defines "e \<equiv> snd (a_send g (mem s ep) block (absQ s Q c))"
  obtains s' k' Q' where
    "chansend g (Some c) ep block s = Some (s', send_outcome e)"
    "invQ owner s' k' Q'"
    "absQ s' Q' = (absQ s Q)(c := fst (a_send g (mem s ep) block (absQ s Q c)))"
    "k' = (if e = Blocked then k(g \<mapsto> KChan Sending c (the (g_waiting (gs s' g))) (Some ep)) else k)"
    "\<And>r j p. e = HandedTo r \<Longrightarrow> k r = Some (KChan Receiving c j (Some p)) \<Longrightarrow> mem s' p = mem s ep"
    "\<And>p. mem s' p \<noteq> mem s p \<Longrightarrow> \<exists>r j. e = HandedTo r \<and> k r = Some (KChan Receiving c j (Some p))"
    "undisturbed k s s'"
proof -
  have core: "inv_core owner s k Q" using inv by (simp add: invQ_def)
  consider "closed (chans s c)"
    | (hand) i rest where "\<not> closed (chans s c)" "Q Receiving c = i # rest"
    | (room) "\<not> closed (chans s c)" "Q Receiving c = []" "qcount (chans s c) < dataqsiz (chans s c)"
    | (full) "\<not> closed (chans s c)" "Q Receiving c = []" "\<not> qcount (chans s c) < dataqsiz (chans s c)"
    by (cases "Q Receiving c") auto
  then show thesis
  proof cases
    case 1
    then show thesis
      using inv by (intro that [of s k Q]) (auto simp: e_def a_send_def absQ_def chansend_def undisturbed_same)
  next
    case hand
    have e: "e = HandedTo (sg_g (sudogs s i))" using hand by (simp add: e_def a_send_def absQ_def)
    have ki: "k (sg_g (sudogs s i)) = Some (KChan Receiving c i (sg_elem (sudogs s i)))"
      using inv_elem(1) [OF core, of i Receiving c] hand by simp
    obtain s' where "chansend g (Some c) ep block s = Some (s', Ret True)"
      "invQ owner s' k (Q(Receiving := (Q Receiving)(c := rest)))"
      "absQ s' (Q(Receiving := (Q Receiving)(c := rest))) =
         (absQ s Q)(c := fst (a_send g (mem s ep) block (absQ s Q c)))"
      "mem s' = (case sg_elem (sudogs s i) of None \<Rightarrow> mem s | Some p \<Rightarrow> (mem s)(p := mem s ep))"
      "undisturbed k s s'"
      using send_handoff [OF inv kg own hand(2,1)] by metis
    then show thesis
      by (intro that [of s' k]) (auto simp: e ki split: option.splits if_splits)
  next
    case room
    then show thesis
      using send_buffer(1) [OF inv room(2,1,3), of g ep block] send_buffer(2) [OF inv room(2,1,3), of ep]
        send_buffer(3) [OF inv room(2,1,3), where g = g and ep = ep and block = block]
      by (intro that [of "buf_put c (mem s ep) s" k Q])
         (auto simp: e_def a_send_def absQ_def buf_put_ring undisturbed_same)
  next
    case full
    show thesis
    proof (cases block)
      case True
      obtain s' i where "chansend g (Some c) ep True s = Some (s', Park)"
        "invQ owner s' (k(g \<mapsto> KChan Sending c i (Some ep))) (Q(Sending := (Q Sending)(c := Q Sending c @ [i])))"
        "g_waiting (gs s' g) = Some i" "mem s' = mem s"
        "absQ s' (Q(Sending := (Q Sending)(c := Q Sending c @ [i]))) =
           (absQ s Q)(c := fst (a_send g (mem s ep) True (absQ s Q c)))"
        "undisturbed k s s'"
        using send_park [OF inv kg own full(2,1,3)] by metis
      moreover have "e = Blocked" using full True by (simp add: e_def a_send_def absQ_def)
      ultimately show thesis using True by (intro that) auto
    next
      case False
      have "chansend g (Some c) ep block s = Some (s, Ret False)"
        using full False by (simp add: chansend_def dequeue_none(1) [OF core full(2)])
      then show thesis
        using False full inv by (intro that [of s k Q]) (auto simp: e_def a_send_def absQ_def undisturbed_same)
    qed
  qed
qed

subsection \<open>Receiving\<close>

lemma ring_rotate_sel [simp]:
  "dataqsiz (ring_rotate v ch) = dataqsiz ch" "closed (ring_rotate v ch) = closed ch"
  "recvq (ring_rotate v ch) = recvq ch" "sendq (ring_rotate v ch) = sendq ch"
  "qcount (ring_rotate v ch) = qcount ch" "wqof d (ring_rotate v ch) = wqof d ch"
  by (cases d; simp add: ring_rotate_def)+

lemma ring_take_sel [simp]:
  "dataqsiz (ring_take ch) = dataqsiz ch" "closed (ring_take ch) = closed ch"
  "recvq (ring_take ch) = recvq ch" "sendq (ring_take ch) = sendq ch"
  "qcount (ring_take ch) = qcount ch - 1" "wqof d (ring_take ch) = wqof d ch"
  by (cases d; simp add: ring_take_def)+

lemma inv_core_mem: "inv_core owner (s\<lparr>mem := m\<rparr>) k Q = inv_core owner s k Q"
  by (auto simp: inv_core_def parked_def)

lemma store_opt_mem: "store_opt ep v s = s\<lparr>mem := (case ep of None \<Rightarrow> mem s | Some p \<Rightarrow> (mem s)(p := v))\<rparr>"
  by (simp add: store_opt_def store_def split: option.splits)

lemma invQ_store: "invQ owner s k Q \<Longrightarrow> invQ owner (store_opt ep v s) k Q"
  by (simp add: invQ_def store_opt_mem inv_core_mem)

text \<open>A running goroutine's writes to its own memory leave the abstract channels alone.\<close>

lemma absQ_store:
  assumes core: "inv_core owner s k Q" and kg: "k g = None" and own: "\<And>p. ep = Some p \<Longrightarrow> owner p = g"
  shows "absQ (store_opt ep v s) Q = absQ s Q"
proof (rule ext, rule absQ_cong)
  fix c i assume i: "i \<in> set (Q Sending c)"
  have "the (sg_elem (sudogs s i)) \<noteq> p" if "ep = Some p" for p
    using sender_mem_other [OF core i own [OF that]] kg by simp
  then show "sg_elem (sudogs (store_opt ep v s) i) = sg_elem (sudogs s i) \<and>
      mem (store_opt ep v s) (the (sg_elem (sudogs s i))) = mem s (the (sg_elem (sudogs s i)))"
    by (auto split: option.splits)
qed auto

lemma recv_take:
  assumes inv: "invQ owner s k Q" and kg: "k g = None" and own: "\<And>p. ep = Some p \<Longrightarrow> owner p = g"
    and Q: "Q Sending c = []" and pos: "0 < qcount (chans s c)"
  shows "chanrecv g (Some c) ep block s = Some (buf_take c ep s, Ret (True, True))"
    and "invQ owner (buf_take c ep s) k Q"
    and "absQ (buf_take c ep s) Q = (absQ s Q)(c := (absQ s Q c)\<lparr>a_buf := tl (ring_contents (chans s c))\<rparr>)"
    and "mem (buf_take c ep s) = mem (store_opt ep (hd (ring_contents (chans s c))) s)"
proof -
  have core: "inv_core owner s k Q" and hdr: "hdr (chans s c) (Q Sending c) (Q Receiving c)"
    using inv by (auto simp: invQ_def)
  note rt = ring_take [OF inv_ring [OF core] pos]
  have siz: "0 < dataqsiz (chans s c)" using inv_ring [OF core, of c] pos by (auto simp: ring_ok_def)
  show "chanrecv g (Some c) ep block s = Some (buf_take c ep s, Ret (True, True))"
    using pos siz by (simp add: chanrecv_def chan_empty_def dequeue_none(2) [OF core Q])
  have eq: "buf_take c ep s = upd_chan c (\<lambda>_. ring_take (chans s c)) (store_opt ep (hd (ring_contents (chans s c))) s)"
    by (simp add: buf_take_def ring_take_def rt(2) Let_def upd_chan_def)
  have "hdr (ring_take (chans s c)) (Q Sending c) (Q Receiving c)"
    using hdr Q pos by (auto simp: hdr_def)
  then show "invQ owner (buf_take c ep s) k Q"
    unfolding eq store_opt_mem using rt(1) by (intro invQ_ring [OF inv]) simp_all
  show "absQ (buf_take c ep s) Q = (absQ s Q)(c := (absQ s Q c)\<lparr>a_buf := tl (ring_contents (chans s c))\<rparr>)"
    using absQ_store [OF core kg own, where v = "hd (ring_contents (chans s c))" and ep = ep] rt(2)
    by (simp add: eq absQ_def fun_eq_iff)
  show "mem (buf_take c ep s) = mem (store_opt ep (hd (ring_contents (chans s c))) s)"
    by (simp add: eq)
qed

lemma recv_data_eq:
  assumes "sg_elem (sudogs s i) = Some e" and "ring_ok (chans s c)" and "qcount (chans s c) = dataqsiz (chans s c)"
    and "\<And>p. ep = Some p \<Longrightarrow> e \<noteq> p"
  defines "v \<equiv> (if dataqsiz (chans s c) = 0 then mem s e else hd (ring_contents (chans s c)))"
  shows "recv_data c i ep s =
      Some (upd_chan c (if dataqsiz (chans s c) = 0 then id else ring_rotate (mem s e)) (store_opt ep v s))"
proof (cases "dataqsiz (chans s c) = 0")
  case True
  then show ?thesis
    using assms(1) by (simp add: recv_data_def recvDirect_def load_elem_def store_opt_def v_def upd_chan_def
        split: option.splits)
next
  case False
  then have "hd (ring_contents (chans s c)) = buf (chans s c) ! recvx (chans s c)"
    using ring_rotate(3) [OF assms(2,3)] by simp
  moreover have "mem (store_opt ep x s) e = mem s e" for x
    using assms(4) by (auto split: option.splits)
  ultimately show ?thesis
    using False assms(1) by (simp add: recv_data_def load_elem_def v_def Let_def ring_rotate_def)
qed

lemma recv_from_sender:
  fixes block :: bool
  assumes inv: "invQ owner s k Q" and kg: "k g = None" and own: "\<And>p. ep = Some p \<Longrightarrow> owner p = g"
    and Q: "Q Sending c = i # rest"
  defines "e \<equiv> snd (a_recv g block (absQ s Q c))"
  obtains s' v where
    "chanrecv g (Some c) ep block s = Some (s', Ret (True, True))"
    "invQ owner s' k (Q(Sending := (Q Sending)(c := rest)))"
    "absQ s' (Q(Sending := (Q Sending)(c := rest))) = (absQ s Q)(c := fst (a_recv g block (absQ s Q c)))"
    "e = Got v (Some (sg_g (sudogs s i)))" "mem s' = mem (store_opt ep v s)" "undisturbed k s s'"
proof -
  let ?Q = "Q(Sending := (Q Sending)(c := rest))"
  have core: "inv_core owner s k Q" and hdr: "hdr (chans s c') (Q Sending c') (Q Receiving c')" for c'
    using inv by (auto simp: invQ_def)
  have iq: "i \<in> set (Q Sending c)" using Q by simp
  have ncl: "\<not> closed (chans s c)" and rq: "Q Receiving c = []" and full: "qcount (chans s c) = dataqsiz (chans s c)"
    using hdr [of c] Q inv_ring [OF core, of c] by (auto simp: hdr_def ring_ok_def)
  obtain p where p: "sg_elem (sudogs s i) = Some p" and op: "owner p = sg_g (sudogs s i)"
    using inv_elem(4,5) [OF core iq] by blast
  have gi: "sg_g (sudogs s i) \<noteq> g" using inv_elem(1) [OF core iq] kg by auto
  obtain h1 q' where deq:
    "dequeue (sudogs s) (gs s) (sendq (chans s c)) = Some (h1, gs s, q', Some i)"
    and repr: "wq_repr h1 q' rest" and lc: "link_change (set (Q Sending c)) (sudogs s) h1"
    and unl: "sg_next (h1 i) = None" "sg_prev (h1 i) = None"
    by (rule inv_dequeue [OF core, of "gs s" Sending c]) (auto simp: Q)
  note pay = link_change_payload [OF lc]
  let ?s0 = "upd_chan c (sendq_update (\<lambda>_. q')) (s\<lparr>sudogs := h1\<rparr>)"
  let ?rot = "if dataqsiz (chans s c) = 0 then id else ring_rotate (mem s p)"
  define v where "v = (if dataqsiz (chans s c) = 0 then mem s p else hd (ring_contents (chans s c)))"
  let ?s1 = "upd_chan c ?rot (store_opt ep v ?s0)"
  let ?s' = "wake_g i True ?s1"
  have neq: "p \<noteq> p'" if "ep = Some p'" for p' using own [OF that] op gi by auto
  have rd: "recv_data c i ep ?s0 = Some ?s1"
    using recv_data_eq [of ?s0 i p c ep, OF _ _ _ neq] pay p full inv_ring [OF core, of c]
    by (simp add: v_def)
  have wait: "g_status (gs ?s0 (sg_g (sudogs ?s0 i))) = Gwaiting"
    using inv_queued_waiting [OF core iq] pay by simp
  have ne: "\<not> chan_empty (chans s c)"
    using inv_repr [OF core, of Sending c] Q full by (auto simp: chan_empty_def wq_repr_def)
  have run: "chanrecv g (Some c) ep block s = Some (?s', Ret (True, True))"
    using ne ncl deq recv_eq [OF wait rd] by (simp add: chanrecv_def sendq_dequeue_def map_ret_def)
  have ring: "ring_ok (chans ?s1 c')" for c'
    using inv_ring [OF core] ring_rotate(1) [of "(chans s c)\<lparr>sendq := q'\<rparr>"] full by auto
  have wk: "woken Sending c i True q' h1 s ?s'"
    by (rule woken_wake_g) (use pay ring in \<open>auto simp: wqof_def split: dir.splits\<close>)
  have core': "inv_core owner ?s' k ?Q"
    by (rule inv_wake [OF core Q lc repr unl wk]) simp
  have "hdr (chans ?s' c') (?Q Sending c') (?Q Receiving c')" for c'
    using hdr [of c'] rq full ncl by (auto simp: hdr_def)
  with core' have inv': "invQ owner ?s' k ?Q" by (simp add: invQ_def)
  have elem: "sg_g (sudogs ?s' j) = sg_g (sudogs s j) \<and> sg_elem (sudogs ?s' j) = sg_elem (sudogs s j) \<and>
      mem ?s' (the (sg_elem (sudogs s j))) = mem s (the (sg_elem (sudogs s j)))"
    if "j \<in> set (?Q Sending c')" for j c'
  proof -
    have j: "j \<in> set (Q Sending c')" using that Q by (auto split: if_splits)
    have "j \<noteq> i" using that inv_queue_unique [OF core iq] inv_repr [OF core, of Sending c] Q
      by (auto simp: wq_repr_def split: if_splits)
    moreover have "the (sg_elem (sudogs s j)) \<noteq> p'" if "ep = Some p'" for p'
      using sender_mem_other [OF core j own [OF that]] kg by simp
    ultimately show ?thesis using pay by (auto split: option.splits)
  qed
  have g: "sg_g (sudogs ?s' j) = sg_g (sudogs s j)" for j using pay by simp
  have abs_c: "absQ ?s' ?Q c = fst (a_recv g block (absQ s Q c)) \<and> e = Got v (Some (sg_g (sudogs s i)))"
  proof (cases "dataqsiz (chans s c) = 0")
    case True
    then have "ring_contents (chans s c) = []" using full by (simp flip: length_0_conv)
    then show ?thesis using True Q ncl p elem [of _ c] rq by (simp add: absQ_def a_recv_def e_def v_def)
  next
    case False
    then obtain b bs where rc: "ring_contents (chans s c) = b # bs"
      using full by (cases "ring_contents (chans s c)") (auto simp flip: length_0_conv)
    have "ring_contents (ring_rotate (mem s p) ((chans s c)\<lparr>sendq := q'\<rparr>)) = bs @ [mem s p]"
      using ring_rotate(2) [of "(chans s c)\<lparr>sendq := q'\<rparr>" "mem s p"] False full inv_ring [OF core, of c] rc
      by simp
    then show ?thesis using False Q ncl p elem [of _ c] rq rc by (simp add: absQ_def a_recv_def e_def v_def)
  qed
  have "absQ ?s' ?Q c' = absQ s Q c'" if "c' \<noteq> c" for c'
    by (rule absQ_cong) (use that elem [of _ c'] g in auto)
  with abs_c have abs: "absQ ?s' ?Q = (absQ s Q)(c := fst (a_recv g block (absQ s Q c)))" by auto
  have e: "e = Got v (Some (sg_g (sudogs s i)))" using abs_c by blast
  have "undisturbed k s ?s'" by (rule undisturbed_wake [OF core iq lc]) simp
  then show thesis
    by (intro that [OF run inv' abs e]) (simp_all split: option.splits)
qed

lemma recv_park:
  assumes inv: "invQ owner s k Q" and kg: "k g = None" and own: "\<And>p. ep = Some p \<Longrightarrow> owner p = g"
    and Q: "Q Sending c = []" and ncl: "\<not> closed (chans s c)" and emp: "qcount (chans s c) = 0"
  obtains s' i where
    "chanrecv g (Some c) ep True s = Some (s', Park)"
    "invQ owner s' (k(g \<mapsto> KChan Receiving c i ep)) (Q(Receiving := (Q Receiving)(c := Q Receiving c @ [i])))"
    "g_waiting (gs s' g) = Some i" "mem s' = mem s"
    "absQ s' (Q(Receiving := (Q Receiving)(c := Q Receiving c @ [i]))) =
       (absQ s Q)(c := fst (a_recv g True (absQ s Q c)))"
    "undisturbed k s s'"
proof -
  have core: "inv_core owner s k Q" and hdr: "hdr (chans s c') (Q Sending c') (Q Receiving c')" for c'
    using inv by (auto simp: invQ_def)
  obtain s' i where run: "block_on g c ep (enqueue_on Receiving c) s = (s', Park :: (bool \<times> bool) outcome)"
    and core': "inv_core owner s' (k(g \<mapsto> KChan Receiving c i ep))
        (Q(Receiving := (Q Receiving)(c := Q Receiving c @ [i])))"
    and sg: "g_waiting (gs s' g) = Some i" "sg_g (sudogs s' i) = g" "sg_elem (sudogs s' i) = ep"
    and oth: "\<And>j d' c'. j \<in> set (Q d' c') \<Longrightarrow> sg_g (sudogs s' j) = sg_g (sudogs s j) \<and>
        sg_elem (sudogs s' j) = sg_elem (sudogs s j)"
    and mem: "mem s' = mem s"
    and ch: "\<And>c'. \<exists>q. chans s' c' = (if c' = c then set_wq Receiving q (chans s c') else chans s c')"
    and und: "undisturbed k s s'"
    by (rule block_park [OF core kg, of ep Receiving c]) (use own in auto)
  have res: "chanrecv g (Some c) ep True s = Some (s', Park)"
    using run ncl emp by (simp add: chanrecv_def dequeue_none(2) [OF core Q] enqueue_on_def)
  have inv': "invQ owner s' (k(g \<mapsto> KChan Receiving c i ep))
      (Q(Receiving := (Q Receiving)(c := Q Receiving c @ [i])))"
    unfolding invQ_def using core' hdr_park [OF hdr ch ncl] Q emp by auto
  have "ring_contents (chans s c) = []" using emp by (simp flip: length_0_conv)
  then show thesis
    by (intro that [OF res inv' sg(1) mem _ und])
       (use absQ_park [OF oth mem sg(2,3) ch] Q ncl in \<open>auto simp: a_recv_def absQ_def\<close>)
qed

text \<open>
  The receive theorem: a receive by a running goroutine does what the abstract channel's
  receive does. The received value, or zero on a closed and drained channel, is written to the
  caller's memory (if the element pointer is not nil); no other memory changes.
\<close>

fun recv_value :: "('v::zero) effect \<Rightarrow> 'v option" where
  "recv_value (Got v g) = Some v"
| "recv_value GotZero = Some 0"
| "recv_value _ = None"

definition recv_mem :: "ptr option \<Rightarrow> 'v option \<Rightarrow> (ptr \<Rightarrow> 'v) \<Rightarrow> ptr \<Rightarrow> 'v" where
  "recv_mem ep v m = (case (ep, v) of (Some p, Some x) \<Rightarrow> m(p := x) | _ \<Rightarrow> m)"

lemma chanrecv_refines:
  fixes c :: chid and block :: bool
  assumes inv: "invQ owner s k Q" and kg: "k g = None" and own: "\<And>p. ep = Some p \<Longrightarrow> owner p = g"
  defines "e \<equiv> snd (a_recv g block (absQ s Q c))"
  obtains s' k' Q' where
    "chanrecv g (Some c) ep block s = Some (s', recv_outcome e)"
    "invQ owner s' k' Q'"
    "absQ s' Q' = (absQ s Q)(c := fst (a_recv g block (absQ s Q c)))"
    "k' = (if e = Blocked then k(g \<mapsto> KChan Receiving c (the (g_waiting (gs s' g))) ep) else k)"
    "mem s' = recv_mem ep (recv_value e) (mem s)"
    "undisturbed k s s'"
proof -
  have core: "inv_core owner s k Q" and hdr: "hdr (chans s c) (Q Sending c) (Q Receiving c)"
    using inv by (auto simp: invQ_def)
  have rc: "ring_contents (chans s c) = [] \<longleftrightarrow> qcount (chans s c) = 0" by (simp flip: length_0_conv)
  consider (send) i rest where "Q Sending c = i # rest"
    | (take) "Q Sending c = []" "0 < qcount (chans s c)"
    | (zero) "Q Sending c = []" "qcount (chans s c) = 0" "closed (chans s c)"
    | (none) "Q Sending c = []" "qcount (chans s c) = 0" "\<not> closed (chans s c)"
    by (cases "Q Sending c") auto
  then show thesis
  proof cases
    case send
    obtain s' v where "chanrecv g (Some c) ep block s = Some (s', Ret (True, True))"
      "invQ owner s' k (Q(Sending := (Q Sending)(c := rest)))"
      "absQ s' (Q(Sending := (Q Sending)(c := rest))) = (absQ s Q)(c := fst (a_recv g block (absQ s Q c)))"
      "snd (a_recv g block (absQ s Q c)) = Got v (Some (sg_g (sudogs s i)))"
      "mem s' = mem (store_opt ep v s)" "undisturbed k s s'"
      by (rule recv_from_sender [OF inv kg own send]) blast
    then show thesis
      by (intro that [of s' k]) (auto simp: e_def recv_mem_def split: option.splits)
  next
    case take
    obtain v vs where "ring_contents (chans s c) = v # vs"
      using take(2) rc by (cases "ring_contents (chans s c)") auto
    moreover from this have "snd (a_recv g block (absQ s Q c)) = Got v None"
      "fst (a_recv g block (absQ s Q c)) = (absQ s Q c)\<lparr>a_buf := vs\<rparr>"
      using take by (simp_all add: a_recv_def absQ_def)
    ultimately show thesis
      using recv_take [OF inv kg own take]
      by (intro that [of "buf_take c ep s" k Q])
         (auto simp: e_def recv_mem_def buf_take_def Let_def undisturbed_same split: option.splits)
  next
    case zero
    have "chanrecv g (Some c) ep block s = Some (store_opt ep 0 s, Ret (True, False))"
      using zero by (simp add: chanrecv_def)
    moreover have "e = GotZero" "fst (a_recv g block (absQ s Q c)) = absQ s Q c"
      using zero rc by (simp_all add: e_def a_recv_def absQ_def)
    ultimately show thesis
      using invQ_store [OF inv] absQ_store [OF core kg own]
      by (intro that [of "store_opt ep 0 s" k Q]) (auto simp: recv_mem_def undisturbed_same split: option.splits)
  next
    case none
    show thesis
    proof (cases block)
      case True
      obtain s' i where "chanrecv g (Some c) ep True s = Some (s', Park)"
        "invQ owner s' (k(g \<mapsto> KChan Receiving c i ep)) (Q(Receiving := (Q Receiving)(c := Q Receiving c @ [i])))"
        "g_waiting (gs s' g) = Some i" "mem s' = mem s"
        "absQ s' (Q(Receiving := (Q Receiving)(c := Q Receiving c @ [i]))) =
           (absQ s Q)(c := fst (a_recv g True (absQ s Q c)))"
        "undisturbed k s s'"
        by (rule recv_park [OF inv kg own none(1,3,2)]) blast
      moreover have "e = Blocked" using none True rc by (simp add: e_def a_recv_def absQ_def)
      ultimately show thesis using True by (intro that) (auto simp: recv_mem_def split: option.splits)
    next
      case False
      have "chanrecv g (Some c) ep block s = Some (s, Ret (False, False))"
        using none False by (simp add: chanrecv_def dequeue_none(2) [OF core none(1)])
      moreover have "e = WouldBlock" "fst (a_recv g block (absQ s Q c)) = absQ s Q c"
        using none False rc by (simp_all add: e_def a_recv_def absQ_def)
      ultimately show thesis
        using inv by (intro that [of s k Q]) (auto simp: recv_mem_def undisturbed_same split: option.splits)
    qed
  qed
qed

end
