(* ===== verification/Chan_System.thy ===== *)
theory Chan_System
  imports Chan_Refine
begin

section \<open>Closing and waking up\<close>

text \<open>
  \<open>closechan\<close> and the code after a park refine the abstract channel too. With the sends and
  receives of the previous theory they make up the steps of a system of goroutines that share
  channels.
\<close>

subsection \<open>Closing\<close>

text \<open>
  While \<open>closechan\<close> empties the queues, the released goroutines are not yet readied. The
  invariant holds of the state in which they are.
\<close>

definition ready_set :: "gid list \<Rightarrow> 'v rt \<Rightarrow> 'v rt" where
  "ready_set gl s = s\<lparr>gs := (\<lambda>g. if g \<in> set gl then (gs s g)\<lparr>g_status := Grunnable\<rparr> else gs s g)\<rparr>"

lemma sel_ready_set [simp]:
  "chans (ready_set gl s) = chans s" "sudogs (ready_set gl s) = sudogs s" "mem (ready_set gl s) = mem s"
  "sudogcache (ready_set gl s) = sudogcache s" "sg_next_new (ready_set gl s) = sg_next_new s"
  by (simp_all add: ready_set_def)

definition to_ready :: "gid list \<Rightarrow> 'v rt \<Rightarrow> bool" where
  "to_ready gl s \<longleftrightarrow> distinct gl \<and> (\<forall>g \<in> set gl. g_status (gs s g) = Gwaiting)"

lemma ready_all_eq: "to_ready gl s \<Longrightarrow> ready_all gl s = (ready_set gl s, Ret ())"
proof (induction gl arbitrary: s)
  case Nil
  then show ?case by (simp add: ready_set_def)
next
  case (Cons g gl)
  let ?s = "upd_g g (g_status_update (\<lambda>_. Grunnable)) s"
  have "to_ready gl ?s" using Cons.prems by (auto simp: to_ready_def)
  moreover have "ready_set gl ?s = ready_set (g # gl) s"
    using Cons.prems by (auto simp: ready_set_def to_ready_def upd_g_def intro!: rt.equality)
  ultimately show ?case using Cons by (simp add: goready_def to_ready_def)
qed

text \<open>One iteration of either loop of \<open>closechan\<close>, the element pointer's memory apart.\<close>

definition release_sg :: "sgid \<Rightarrow> 'v rt \<Rightarrow> 'v rt" where
  "release_sg i s =
     upd_sg i (success_update (\<lambda>_. False))
       (upd_g (sg_g (sudogs s i)) (g_param_update (\<lambda>_. Some i)) (upd_sg i (sg_elem_update (\<lambda>_. None)) s))"

lemma sel_release_sg [simp]:
  "chans (release_sg i s) = chans s" "mem (release_sg i s) = mem s"
  "sudogs (release_sg i s) = (sudogs s)(i := (sudogs s i)\<lparr>sg_elem := None, success := False\<rparr>)"
  by (simp_all add: release_sg_def)

lemma set_wq_set_wq [simp]: "set_wq d q1 (set_wq d q2 ch) = set_wq d q1 ch"
  by (cases d) (simp_all add: set_wq_def)

lemma close_step:
  fixes s :: "'v rt" and m :: "ptr \<Rightarrow> 'v"
  assumes inv: "inv_core owner (ready_set gl s) k Q" and Q: "Q d c = i # rest"
    and cl: "closed (chans s c)" and gl: "to_ready gl s"
    and lc: "link_change (set (Q d c)) (sudogs s) h1" and repr: "wq_repr h1 q' rest"
    and unl: "sg_next (h1 i) = None" "sg_prev (h1 i) = None"
  defines "g \<equiv> sg_g (sudogs s i)"
    and "s' \<equiv> release_sg i (upd_chan c (set_wq d q') (s\<lparr>sudogs := h1, mem := m\<rparr>))"
  shows "inv_core owner (ready_set (g # gl) s') k (Q(d := (Q d)(c := rest)))" and "to_ready (g # gl) s'"
proof -
  have iq: "i \<in> set (Q d c)" using Q by simp
  note pay = link_change_payload [OF lc]
  have wait: "g_status (gs (ready_set gl s) g) = Gwaiting"
    using inv_queued_waiting [OF inv iq] by (simp add: g_def)
  then have gnew: "g \<notin> set gl" and gw: "g_status (gs s g) = Gwaiting"
    by (auto simp: ready_set_def split: if_splits)
  show "to_ready (g # gl) s'"
    using gl gnew gw by (auto simp: to_ready_def s'_def release_sg_def pay g_def)
  have "woken d c i False q' h1 (ready_set gl s) (ready_set (g # gl) s')"
    using pay inv_ring [OF inv] gnew
    by (auto simp: woken_def s'_def release_sg_def ready_set_def g_def)
  then show "inv_core owner (ready_set (g # gl) s') k (Q(d := (Q d)(c := rest)))"
    using inv_wake [OF inv Q _ repr unl] lc cl by simp
qed

text \<open>What emptying the queue \<open>d\<close> of channel \<open>c\<close> may change.\<close>

definition emptied :: "dir \<Rightarrow> chid \<Rightarrow> sgid list \<Rightarrow> 'v rt \<Rightarrow> 'v rt \<Rightarrow> bool" where
  "emptied d c xs s s' \<longleftrightarrow>
     (\<forall>j. sg_g (sudogs s' j) = sg_g (sudogs s j)) \<and>
     (\<forall>j. j \<notin> set xs \<longrightarrow> sg_elem (sudogs s' j) = sg_elem (sudogs s j)) \<and>
     (\<forall>j. success (sudogs s' j) = (j \<notin> set xs \<and> success (sudogs s j))) \<and>
     (\<forall>c'. \<exists>q. chans s' c' = (if c' = c then set_wq d q (chans s c') else chans s c'))"

lemma emptied_refl: "emptied d c [] s s"
proof -
  have "set_wq d (wqof d ch) ch = ch" for ch by (cases d) (simp_all add: set_wq_def)
  then have "\<exists>q. chans s c' = (if c' = c then set_wq d q (chans s c') else chans s c')" for c' by metis
  then show ?thesis by (simp add: emptied_def)
qed

lemma emptied_step:
  assumes "link_change A (sudogs s) h1" and "emptied d c xs (release_sg i (upd_chan c (set_wq d q) (s\<lparr>sudogs := h1, mem := m\<rparr>))) s'"
  shows "emptied d c (i # xs) s s'"
proof -
  note pay = link_change_payload [OF assms(1)]
  have "\<exists>q. chans s' c' = (if c' = c then set_wq d q (chans s c') else chans s c')" for c'
  proof -
    let ?t = "release_sg i (upd_chan c (set_wq d q) (s\<lparr>sudogs := h1, mem := m\<rparr>))"
    have "\<exists>q1. chans s' c' = (if c' = c then set_wq d q1 (chans ?t c') else chans ?t c')"
      using assms(2) unfolding emptied_def by blast
    then show ?thesis by auto
  qed
  then show ?thesis using assms(2) pay by (auto simp: emptied_def release_sg_def split: if_splits)
qed

lemma release_readers_ok:
  assumes "inv_core owner (ready_set gl s) k Q" and "Q Receiving c = xs" and "closed (chans s c)"
    and "to_ready gl s"
  shows "\<exists>s'. release_readers c gl s = Some (s', rev (map (\<lambda>i. sg_g (sudogs s i)) xs) @ gl) \<and>
     inv_core owner (ready_set (rev (map (\<lambda>i. sg_g (sudogs s i)) xs) @ gl) s') k
       (Q(Receiving := (Q Receiving)(c := []))) \<and>
     to_ready (rev (map (\<lambda>i. sg_g (sudogs s i)) xs) @ gl) s' \<and> emptied Receiving c xs s s' \<and>
     mem s' = (\<lambda>p. if \<exists>i \<in> set xs. sg_elem (sudogs s i) = Some p then 0 else mem s p)"
  using assms
proof (induction xs arbitrary: gl s Q)
  case Nil
  have "recvq_dequeue c s = Some (s, None)"
    using inv_repr [OF Nil.prems(1), of Receiving c] Nil.prems(2)
    by (simp add: recvq_dequeue_def dequeue.simps wq_repr_def upd_chan_def)
  then have "release_readers c gl s = Some (s, gl)" by (simp add: release_readers.simps)
  moreover have Q: "Q(Receiving := (Q Receiving)(c := [])) = Q" using Nil.prems(2) by (metis fun_upd_triv)
  ultimately show ?case
    unfolding Q using Nil.prems emptied_refl by (intro exI [of _ s]) simp
next
  case (Cons i xs)
  obtain h1 q' where deq:
    "dequeue (sudogs s) (gs s) (recvq (chans s c)) = Some (h1, gs s, q', Some i)"
    and repr: "wq_repr h1 q' xs" and lc: "link_change (set (Q Receiving c)) (sudogs s) h1"
    and unl: "sg_next (h1 i) = None" "sg_prev (h1 i) = None"
    by (rule inv_dequeue [OF Cons.prems(1), of "gs s" Receiving c]) (auto simp: Cons.prems(2))
  note pay = link_change_payload [OF lc]
  define m where "m = (case sg_elem (sudogs s i) of None \<Rightarrow> mem s | Some p \<Rightarrow> (mem s)(p := 0))"
  define s1 where "s1 = release_sg i (upd_chan c (set_wq Receiving q') (s\<lparr>sudogs := h1, mem := m\<rparr>))"
  let ?Q = "Q(Receiving := (Q Receiving)(c := xs))"
  note step = close_step [OF Cons.prems(1-4) lc repr unl, of m, folded s1_def]
  have unfold: "release_readers c gl s = release_readers c (sg_g (sudogs s i) # gl) s1"
    using deq by (subst release_readers.simps)
      (auto simp: recvq_dequeue_def s1_def release_sg_def m_def set_wq_def pay store_opt_def store_def upd_chan_def
          upd_sg_def upd_g_def Let_def split: option.splits
          intro!: arg_cong [where f = "release_readers c (sg_g (sudogs s i) # gl)"] rt.equality)
  have "\<exists>s'. release_readers c (sg_g (sudogs s i) # gl) s1 =
        Some (s', rev (map (\<lambda>i. sg_g (sudogs s1 i)) xs) @ sg_g (sudogs s i) # gl) \<and>
     inv_core owner (ready_set (rev (map (\<lambda>i. sg_g (sudogs s1 i)) xs) @ sg_g (sudogs s i) # gl) s') k
       (?Q(Receiving := (?Q Receiving)(c := []))) \<and>
     to_ready (rev (map (\<lambda>i. sg_g (sudogs s1 i)) xs) @ sg_g (sudogs s i) # gl) s' \<and> emptied Receiving c xs s1 s' \<and>
     mem s' = (\<lambda>p. if \<exists>i \<in> set xs. sg_elem (sudogs s1 i) = Some p then 0 else mem s1 p)"
    by (rule Cons.IH [OF step(1) _ _ step(2)]) (use Cons.prems(3) in \<open>simp_all add: s1_def\<close>)
  then obtain s' where IH: "release_readers c (sg_g (sudogs s i) # gl) s1 =
        Some (s', rev (map (\<lambda>i. sg_g (sudogs s1 i)) xs) @ sg_g (sudogs s i) # gl)"
    "inv_core owner (ready_set (rev (map (\<lambda>i. sg_g (sudogs s1 i)) xs) @ sg_g (sudogs s i) # gl) s') k
       (?Q(Receiving := (?Q Receiving)(c := [])))"
    "to_ready (rev (map (\<lambda>i. sg_g (sudogs s1 i)) xs) @ sg_g (sudogs s i) # gl) s'" "emptied Receiving c xs s1 s'"
    "mem s' = (\<lambda>p. if \<exists>i \<in> set xs. sg_elem (sudogs s1 i) = Some p then 0 else mem s1 p)"
    by blast
  have notin: "i \<notin> set xs" using inv_repr [OF Cons.prems(1), of Receiving c] Cons.prems(2) by (simp add: wq_repr_def)
  have gmap: "map (\<lambda>i. sg_g (sudogs s1 i)) xs = map (\<lambda>i. sg_g (sudogs s i)) xs"
    by (simp add: s1_def pay)
  have el: "sg_elem (sudogs s1 j) = sg_elem (sudogs s j)" if "j \<in> set xs" for j
    using that notin by (auto simp: s1_def pay)
  have m1: "mem s1 = m" by (simp add: s1_def)
  have mem': "mem s' = (\<lambda>p. if \<exists>j \<in> set (i # xs). sg_elem (sudogs s j) = Some p then 0 else mem s p)"
    unfolding IH(5) m1 m_def using el by (auto split: option.splits)
  have QQ: "?Q(Receiving := (?Q Receiving)(c := [])) = Q(Receiving := (Q Receiving)(c := []))" by simp
  show ?case
    using IH(1-4) emptied_step [OF lc IH(4) [unfolded s1_def]] mem' unfolding unfold gmap QQ
    by (intro exI [of _ s']) (simp only: list.map rev.simps append_assoc append_Cons append_Nil simp_thms)
qed

lemma release_writers_ok:
  assumes "inv_core owner (ready_set gl s) k Q" and "Q Sending c = xs" and "closed (chans s c)"
    and "to_ready gl s"
  shows "\<exists>s'. release_writers c gl s = Some (s', rev (map (\<lambda>i. sg_g (sudogs s i)) xs) @ gl) \<and>
     inv_core owner (ready_set (rev (map (\<lambda>i. sg_g (sudogs s i)) xs) @ gl) s') k
       (Q(Sending := (Q Sending)(c := []))) \<and>
     to_ready (rev (map (\<lambda>i. sg_g (sudogs s i)) xs) @ gl) s' \<and> emptied Sending c xs s s' \<and>
     mem s' = mem s"
  using assms
proof (induction xs arbitrary: gl s Q)
  case Nil
  have "sendq_dequeue c s = Some (s, None)"
    using inv_repr [OF Nil.prems(1), of Sending c] Nil.prems(2)
    by (simp add: sendq_dequeue_def dequeue.simps wq_repr_def upd_chan_def)
  then have "release_writers c gl s = Some (s, gl)" by (simp add: release_writers.simps)
  moreover have Q: "Q(Sending := (Q Sending)(c := [])) = Q" using Nil.prems(2) by (metis fun_upd_triv)
  ultimately show ?case
    unfolding Q using Nil.prems emptied_refl by (intro exI [of _ s]) simp
next
  case (Cons i xs)
  obtain h1 q' where deq:
    "dequeue (sudogs s) (gs s) (sendq (chans s c)) = Some (h1, gs s, q', Some i)"
    and repr: "wq_repr h1 q' xs" and lc: "link_change (set (Q Sending c)) (sudogs s) h1"
    and unl: "sg_next (h1 i) = None" "sg_prev (h1 i) = None"
    by (rule inv_dequeue [OF Cons.prems(1), of "gs s" Sending c]) (auto simp: Cons.prems(2))
  note pay = link_change_payload [OF lc]
  define s1 where "s1 = release_sg i (upd_chan c (set_wq Sending q') (s\<lparr>sudogs := h1, mem := mem s\<rparr>))"
  let ?Q = "Q(Sending := (Q Sending)(c := xs))"
  note step = close_step [OF Cons.prems(1-4) lc repr unl, of "mem s", folded s1_def]
  have unfold: "release_writers c gl s = release_writers c (sg_g (sudogs s i) # gl) s1"
    using deq by (subst release_writers.simps)
      (auto simp: sendq_dequeue_def s1_def release_sg_def set_wq_def pay upd_chan_def
          upd_sg_def upd_g_def Let_def)
  have gmap: "map (\<lambda>i. sg_g (sudogs s1 i)) xs = map (\<lambda>i. sg_g (sudogs s i)) xs"
    by (simp add: s1_def pay)
  have "\<exists>s'. release_writers c (sg_g (sudogs s i) # gl) s1 =
        Some (s', rev (map (\<lambda>i. sg_g (sudogs s1 i)) xs) @ sg_g (sudogs s i) # gl) \<and>
     inv_core owner (ready_set (rev (map (\<lambda>i. sg_g (sudogs s1 i)) xs) @ sg_g (sudogs s i) # gl) s') k
       (?Q(Sending := (?Q Sending)(c := []))) \<and>
     to_ready (rev (map (\<lambda>i. sg_g (sudogs s1 i)) xs) @ sg_g (sudogs s i) # gl) s' \<and> emptied Sending c xs s1 s' \<and>
     mem s' = mem s1"
    by (rule Cons.IH [OF step(1) _ _ step(2)]) (use Cons.prems(3) in \<open>simp_all add: s1_def\<close>)
  then obtain s' where IH: "release_writers c (sg_g (sudogs s i) # gl) s1 =
        Some (s', rev (map (\<lambda>i. sg_g (sudogs s1 i)) xs) @ sg_g (sudogs s i) # gl)"
    "inv_core owner (ready_set (rev (map (\<lambda>i. sg_g (sudogs s1 i)) xs) @ sg_g (sudogs s i) # gl) s') k
       (?Q(Sending := (?Q Sending)(c := [])))"
    "to_ready (rev (map (\<lambda>i. sg_g (sudogs s1 i)) xs) @ sg_g (sudogs s i) # gl) s'" "emptied Sending c xs s1 s'"
    "mem s' = mem s1"
    by blast
  have QQ: "?Q(Sending := (?Q Sending)(c := [])) = Q(Sending := (Q Sending)(c := []))" by simp
  have m: "mem s1 = mem s" by (simp add: s1_def)
  show ?case
    using IH emptied_step [OF lc IH(4) [unfolded s1_def]] m unfolding unfold gmap QQ
    by (intro exI [of _ s']) (simp only: list.map rev.simps append_assoc append_Cons append_Nil simp_thms)
qed

text \<open>
  The close theorem: the channel becomes closed, everybody who waited on it is released and
  readied, waiting receivers find zero in their memory, no other memory changes.
\<close>

definition close_mem :: "chid \<Rightarrow> (gid \<Rightarrow> cont option) \<Rightarrow> 'v effect \<Rightarrow> (ptr \<Rightarrow> 'v::zero) \<Rightarrow> ptr \<Rightarrow> 'v" where
  "close_mem c k e m p =
     (case e of
        Closed rs ss \<Rightarrow> if \<exists>r \<in> set rs. \<exists>j. k r = Some (KChan Receiving c j (Some p)) then 0 else m p
      | _ \<Rightarrow> m p)"

lemma closechan_refines:
  fixes c :: chid and s :: "('v::zero) rt"
  assumes inv: "invQ owner s k Q"
  defines "e \<equiv> snd (a_close (absQ s Q c))"
  obtains s' Q' where
    "closechan (Some c) s = Some (s', close_outcome e)" "invQ owner s' k Q'"
    "absQ s' Q' = (absQ s Q)(c := fst (a_close (absQ s Q c)))"
    "mem s' = close_mem c k e (mem s)"
    "undisturbed k s s'" "\<And>d i. i \<in> set (Q d c) \<Longrightarrow> \<not> success (sudogs s' i)"
proof (cases "closed (chans s c)")
  case True
  then have "Q d c = []" for d using inv by (cases d) (auto simp: invQ_def hdr_def)
  then show thesis
    using inv True
    by (intro that [of s Q]) (auto simp: closechan_def e_def a_close_def absQ_def close_mem_def undisturbed_same)
next
  case False
  have core: "inv_core owner s k Q" and hdr: "hdr (chans s c') (Q Sending c') (Q Receiving c')" for c'
    using inv by (auto simp: invQ_def)
  let ?s0 = "upd_chan c (closed_update (\<lambda>_. True)) s"
  let ?gr = "map (\<lambda>i. sg_g (sudogs s i)) (Q Receiving c)" and ?gw = "map (\<lambda>i. sg_g (sudogs s i)) (Q Sending c)"
  let ?Q1 = "Q(Receiving := (Q Receiving)(c := []))"
  let ?Q2 = "?Q1(Sending := (?Q1 Sending)(c := []))"
  have core0: "inv_core owner (ready_set [] ?s0) k Q"
    by (rule inv_chans [OF core]) (auto simp: ready_set_def inv_ring [OF core] wqof_def split: dir.splits)
  obtain s1 where r: "release_readers c [] ?s0 = Some (s1, rev ?gr)"
    "inv_core owner (ready_set (rev ?gr) s1) k ?Q1" "to_ready (rev ?gr) s1" "emptied Receiving c (Q Receiving c) ?s0 s1"
    "mem s1 = (\<lambda>p. if \<exists>i \<in> set (Q Receiving c). sg_elem (sudogs s i) = Some p then 0 else mem s p)"
  proof -
    have "closed (chans ?s0 c)" "to_ready [] ?s0" by (simp_all add: to_ready_def)
    from release_readers_ok [OF core0 refl this] show thesis
      unfolding append_Nil2 sel_upd using that by blast
  qed
  have cl1: "closed (chans s1 c)"
  proof -
    obtain q where "chans s1 c = set_wq Receiving q (chans ?s0 c)" using r(4) unfolding emptied_def by metis
    then show ?thesis by simp
  qed
  have g1: "map (\<lambda>i. sg_g (sudogs s1 i)) (?Q1 Sending c) = ?gw" using r(4) by (simp add: emptied_def)
  obtain s2 where w: "release_writers c (rev ?gr) s1 = Some (s2, rev ?gw @ rev ?gr)"
    "inv_core owner (ready_set (rev ?gw @ rev ?gr) s2) k ?Q2" "to_ready (rev ?gw @ rev ?gr) s2"
    "emptied Sending c (Q Sending c) s1 s2" "mem s2 = mem s1"
    using release_writers_ok [OF r(2) refl cl1 r(3)] unfolding g1 by auto
  let ?s' = "ready_set (rev ?gw @ rev ?gr) s2"
  have run: "closechan (Some c) s = Some (?s', Ret ())"
    using False r(1) w(1) ready_all_eq [OF w(3)] by (simp add: closechan_def)
  have ch: "\<exists>q q'. chans s2 c' = (if c' = c then (chans s c')\<lparr>closed := True, recvq := q, sendq := q'\<rparr> else chans s c')" for c'
  proof -
    obtain q where "chans s1 c' = (if c' = c then set_wq Receiving q (chans ?s0 c') else chans ?s0 c')"
      using r(4) unfolding emptied_def by blast
    moreover obtain q' where "chans s2 c' = (if c' = c then set_wq Sending q' (chans s1 c') else chans s1 c')"
      using w(4) unfolding emptied_def by blast
    ultimately have "chans s2 c' = (if c' = c then (chans s c')\<lparr>closed := True, recvq := q, sendq := q'\<rparr>
        else chans s c')" by (auto simp: set_wq_def)
    then show ?thesis by blast
  qed
  have "hdr (chans s2 c') (?Q2 Sending c') (?Q2 Receiving c')" for c'
    using hdr [of c'] ch [of c'] by (auto simp: hdr_def split: if_splits)
  then have inv': "invQ owner ?s' k ?Q2" using w(2) by (simp add: invQ_def)
  have gg: "sg_g (sudogs s2 j) = sg_g (sudogs s j)" for j using r(4) w(4) by (simp add: emptied_def)
  have other: "absQ ?s' ?Q2 c' = absQ s Q c'" if "c' \<noteq> c" for c'
  proof (rule absQ_cong)
    fix j assume j: "j \<in> set (Q Sending c')"
    have "j \<notin> set (Q Receiving c)" "j \<notin> set (Q Sending c)"
      using inv_queue_unique [OF core j] that by auto
    moreover have "sg_elem (sudogs s i) \<noteq> Some (the (sg_elem (sudogs s j)))" if i: "i \<in> set (Q Receiving c)" for i
      using sender_mem_other [OF core j inv_elem(5) [OF core i]] inv_elem(1) [OF core i] by fastforce
    ultimately show "sg_elem (sudogs ?s' j) = sg_elem (sudogs s j) \<and>
        mem ?s' (the (sg_elem (sudogs s j))) = mem s (the (sg_elem (sudogs s j)))"
      using r(4,5) w(4,5) by (auto simp: emptied_def)
  qed (use that ch [of c'] gg in auto)
  have "absQ ?s' ?Q2 c = fst (a_close (absQ s Q c))"
    using ch [of c] False by (auto simp: absQ_def a_close_def ring_contents_def)
  with other have abs: "absQ ?s' ?Q2 = (absQ s Q)(c := fst (a_close (absQ s Q c)))" by auto
  have e: "e = Closed ?gr (map fst (a_sendq (absQ s Q c)))"
    using False by (simp add: e_def a_close_def absQ_def)
  have "(\<exists>i \<in> set (Q Receiving c). sg_elem (sudogs s i) = Some p) \<longleftrightarrow>
      (\<exists>r \<in> set ?gr. \<exists>j. k r = Some (KChan Receiving c j (Some p)))" for p
    using inv_elem(1) [OF core, of _ Receiving c] by fastforce
  then have "mem ?s' = close_mem c k e (mem s)" by (auto simp: w(5) r(5) e close_mem_def)
  moreover have succ: "success (sudogs ?s' j) = (j \<notin> set (Q Receiving c) \<and> j \<notin> set (Q Sending c) \<and> success (sudogs s j))" for j
    using r(4) w(4) by (auto simp: emptied_def)
  moreover have "undisturbed k s ?s'"
  proof -
    have "j \<notin> set (Q d' c)" if "k g = Some (KChan d j' j ep)" "g_status (gs s g) = Grunnable" for g d j' j ep d'
      using inv_queued_waiting [OF core, of j d' c] inv_parked [OF core that(1)] that(2) by (auto simp: parked_def)
    then show ?thesis unfolding undisturbed_def succ by blast
  qed
  moreover have "\<not> success (sudogs ?s' i)" if "i \<in> set (Q d c)" for d i
    using that succ [of i] by (cases d) auto
  ultimately show thesis using that [of ?s' ?Q2] run inv' abs e by simp
qed

subsection \<open>Waking up\<close>

lemma release_ok:
  assumes "sg_elem (sudogs s i) = None" "\<not> isSelect (sudogs s i)" "sg_next (sudogs s i) = None"
    "sg_prev (sudogs s i) = None" "waitlink (sudogs s i) = None" "sg_c (sudogs s i) = None"
    "g_param (gs s g) = None"
  shows "releaseSudog g i s = (s\<lparr>sudogcache := sudogcache s @ [i]\<rparr>, Ret ())"
  using assms by (simp add: releaseSudog_def)

text \<open>The state after a readied goroutine ran the code that follows its park.\<close>

definition returned :: "gid \<Rightarrow> sgid \<Rightarrow> 'v rt \<Rightarrow> 'v rt" where
  "returned g i s =
     (upd_sg i (sg_c_update (\<lambda>_. None))
       (upd_g g (\<lambda>r. r\<lparr>g_status := Grunning, g_waiting := None, activeStackChans := False, g_param := None\<rparr>) s))
       \<lparr>sudogcache := sudogcache s @ [i]\<rparr>"

lemma chans_returned [simp]: "chans (returned g i s) = chans s"
  by (simp add: returned_def)

lemma inv_returned:
  assumes inv: "invQ owner s k Q" and kg: "k g = Some (KChan d c i ep)" and st: "g_status (gs s g) = Grunnable"
  shows "invQ owner (returned g i s) (k(g := None)) Q" and "absQ (returned g i s) Q = absQ s Q"
proof -
  have core: "inv_core owner s k Q" using inv by (simp add: invQ_def)
  have "sg_elem (sudogs s i) = None"
    using inv_parked [OF core kg] st by (auto simp: parked_def)
  then have "inv_core owner (returned g i s) (k(g := None)) Q"
    by (intro inv_return [OF core kg st]) (auto simp: returned_def)
  then show "invQ owner (returned g i s) (k(g := None)) Q"
    using inv by (simp add: invQ_def returned_def)
  show "absQ (returned g i s) Q = absQ s Q"
    by (rule ext, rule absQ_cong) (auto simp: returned_def)
qed

lemma wake_ok:
  assumes inv: "invQ owner s k Q" and kg: "k g = Some (KChan d c i ep)" and st: "g_status (gs s g) = Grunnable"
  defines "s1 \<equiv> upd_g g (g_status_update (\<lambda>_. Grunning)) s"
  shows "chansend_wake g c i s1 = (returned g i s,
           if success (sudogs s i) then Ret True else Panic ''send on closed channel'')"
    and "chanrecv_wake g i s1 = (returned g i s, Ret (True, success (sudogs s i)))"
    and "\<not> success (sudogs s i) \<Longrightarrow> closed (chans s c)"
proof -
  have core: "inv_core owner s k Q" using inv by (simp add: invQ_def)
  have pk: "g_waiting (gs s g) = Some i" "sg_elem (sudogs s i) = None" "\<not> isSelect (sudogs s i)"
    "sg_next (sudogs s i) = None" "sg_prev (sudogs s i) = None" "waitlink (sudogs s i) = None"
    "\<not> success (sudogs s i) \<Longrightarrow> closed (chans s c)"
    using inv_parked [OF core kg] st by (auto simp: parked_def)
  show "\<not> success (sudogs s i) \<Longrightarrow> closed (chans s c)" by (rule pk(7))
  let ?s2 = "upd_sg i (sg_c_update (\<lambda>_. None)) (upd_g g (g_param_update (\<lambda>_. None))
      (upd_g g (\<lambda>g. g\<lparr>g_waiting := None, activeStackChans := False\<rparr>) s1))"
  have rel: "releaseSudog g i ?s2 = (returned g i s, Ret ())"
    using pk by (subst release_ok) (auto simp: s1_def returned_def upd_g_def upd_sg_def intro!: rt.equality)
  show "chansend_wake g c i s1 = (returned g i s,
           if success (sudogs s i) then Ret True else Panic ''send on closed channel'')"
    using pk rel by (auto simp: chansend_wake_def Let_def s1_def returned_def)
  show "chanrecv_wake g i s1 = (returned g i s, Ret (True, success (sudogs s i)))"
    using pk rel by (auto simp: chanrecv_wake_def Let_def s1_def map_ret_def)
qed

end
