(* ===== verification/Chan_Runs.thy ===== *)
theory Chan_Runs
  imports Chan_System
begin

section \<open>Runs of goroutines and what they exchange\<close>

text \<open>
  The states that goroutines sharing channels can reach, with the history of every channel, and the
  proof that the invariant holds in all of them and that the histories agree. A step is the part of
  a channel operation up to its return or park, the part after a park, or a write of a running
  goroutine to its own memory. In the start state every channel is one that \<open>makechan\<close> returned.
\<close>

definition new_chan :: "nat \<Rightarrow> ('v::zero) hchan" where
  "new_chan n = \<lparr>qcount = 0, dataqsiz = n, buf = replicate n 0, closed = False,
     sendx = 0, recvx = 0, recvq = empty_waitq, sendq = empty_waitq\<rparr>"

definition init_rt :: "(chid \<Rightarrow> nat) \<Rightarrow> (ptr \<Rightarrow> 'v) \<Rightarrow> ('v::zero) rt" where
  "init_rt cap m =
     \<lparr>chans = (\<lambda>c. new_chan (cap c)), sudogs = (\<lambda>_. zero_sudog),
      gs = (\<lambda>_. \<lparr>g_status = Grunning, g_param = None, g_waiting = None, selectDone = 0,
                 activeStackChans = False, parkingOnChan = False\<rparr>),
      mem = m, sudogcache = [], sg_next_new = 0\<rparr>"

subsection \<open>Histories\<close>

text \<open>
  The histories record what the code did, read off its results and the two states of a step. A send
  that returns true got rid of the value its element pointer points to. A receive that returns
  \<open>(true, true)\<close> got what its element pointer points to afterwards, or an unknown value if the pointer is
  nil. A parked goroutine takes part in the step in which it is readied and its sudog says
  success: a sender then got rid of its value, a receiver has what its pointer points to
  after the step. Received values carry the goroutine that received them.
\<close>

definition released :: "dir \<Rightarrow> chid \<Rightarrow> 'v rt \<Rightarrow> 'v rt \<Rightarrow> sgid list" where
  "released d c s s' =
     filter (\<lambda>i. g_status (gs s' (sg_g (sudogs s i))) = Grunnable \<and> success (sudogs s' i)) (queues s d c)"

definition sent_parked :: "chid \<Rightarrow> 'v rt \<Rightarrow> 'v rt \<Rightarrow> 'v list" where
  "sent_parked c s s' = map (\<lambda>i. mem s (the (sg_elem (sudogs s i)))) (released Sending c s s')"

definition got_parked :: "chid \<Rightarrow> 'v rt \<Rightarrow> 'v rt \<Rightarrow> (gid \<times> 'v option) list" where
  "got_parked c s s' =
     map (\<lambda>i. (sg_g (sudogs s i), map_option (mem s') (sg_elem (sudogs s i)))) (released Receiving c s s')"

definition log_to :: "chid \<Rightarrow> 'a list \<Rightarrow> (chid \<Rightarrow> 'a list) \<Rightarrow> chid \<Rightarrow> 'a list" where
  "log_to c vs l = l(c := l c @ vs)"

inductive chan_run :: "(ptr \<Rightarrow> gid) \<Rightarrow> ('v::zero) rt \<Rightarrow> (gid \<Rightarrow> cont option) \<Rightarrow>
    (chid \<Rightarrow> 'v list) \<Rightarrow> (chid \<Rightarrow> (gid \<times> 'v option) list) \<Rightarrow> bool" for owner where
  start: "chan_run owner (init_rt cap m) (\<lambda>_. None) (\<lambda>_. []) (\<lambda>_. [])"
| send: "chan_run owner s k acc rcv \<Longrightarrow> k g = None \<Longrightarrow> owner ep = g \<Longrightarrow>
     chansend g (Some c) ep block s = Some (s', r) \<Longrightarrow>
     k' = (if r = Park then k(g \<mapsto> KChan Sending c (the (g_waiting (gs s' g))) (Some ep)) else k) \<Longrightarrow>
     chan_run owner s' k'
       (log_to c ((if r = Ret True then [mem s ep] else []) @ sent_parked c s s') acc)
       (log_to c (got_parked c s s') rcv)"
| recv: "chan_run owner s k acc rcv \<Longrightarrow> k g = None \<Longrightarrow> (\<And>p. ep = Some p \<Longrightarrow> owner p = g) \<Longrightarrow>
     chanrecv g (Some c) ep block s = Some (s', r) \<Longrightarrow>
     k' = (if r = Park then k(g \<mapsto> KChan Receiving c (the (g_waiting (gs s' g))) ep) else k) \<Longrightarrow>
     chan_run owner s' k'
       (log_to c (sent_parked c s s') acc)
       (log_to c ((if r = Ret (True, True) then [(g, map_option (mem s') ep)] else []) @ got_parked c s s') rcv)"
| close: "chan_run owner s k acc rcv \<Longrightarrow> k g = None \<Longrightarrow> closechan (Some c) s = Some (s', r) \<Longrightarrow>
     chan_run owner s' k (log_to c (sent_parked c s s') acc) (log_to c (got_parked c s s') rcv)"
| wake_send: "chan_run owner s k acc rcv \<Longrightarrow> k g = Some (KChan Sending c i ep) \<Longrightarrow>
     g_status (gs s g) = Grunnable \<Longrightarrow>
     chansend_wake g c i (upd_g g (g_status_update (\<lambda>_. Grunning)) s) = (s', r) \<Longrightarrow>
     chan_run owner s' (k(g := None)) acc rcv"
| wake_recv: "chan_run owner s k acc rcv \<Longrightarrow> k g = Some (KChan Receiving c i ep) \<Longrightarrow>
     g_status (gs s g) = Grunnable \<Longrightarrow>
     chanrecv_wake g i (upd_g g (g_status_update (\<lambda>_. Grunning)) s) = (s', r) \<Longrightarrow>
     chan_run owner s' (k(g := None)) acc rcv"
| nil_park: "chan_run owner s k acc rcv \<Longrightarrow> k g = None \<Longrightarrow>
     chansend g None ep True s = Some (s', r) \<or> chanrecv g None ep' True s = Some (s', r') \<Longrightarrow>
     chan_run owner s' (k(g \<mapsto> KNil)) acc rcv"
| own_write: "chan_run owner s k acc rcv \<Longrightarrow> k g = None \<Longrightarrow> owner p = g \<Longrightarrow>
     chan_run owner (store p v s) k acc rcv"

text \<open>
  The received values are the oldest sent ones, in order; the others are still buffered. \<open>got_at\<close>:
  a receiver that was readied with success and has not run yet finds in its memory the value that
  its latest entry in the history has.
\<close>

definition agrees :: "gid \<times> 'v option \<Rightarrow> 'v \<Rightarrow> bool" where
  "agrees = (\<lambda>(g, r) v. r = None \<or> r = Some v)"

definition fifo :: "'v list \<Rightarrow> (gid \<times> 'v option) list \<Rightarrow> 'v list \<Rightarrow> bool" where
  "fifo acc rcv b \<longleftrightarrow> (\<exists>got. acc = got @ b \<and> list_all2 agrees rcv got)"

definition got_at :: "'v rt \<Rightarrow> (gid \<Rightarrow> cont option) \<Rightarrow> (chid \<Rightarrow> (gid \<times> 'v option) list) \<Rightarrow> bool" where
  "got_at s k rcv \<longleftrightarrow>
     (\<forall>g c i p. k g = Some (KChan Receiving c i (Some p)) \<longrightarrow> g_status (gs s g) = Grunnable \<longrightarrow>
        success (sudogs s i) \<longrightarrow>
        (\<exists>es. filter (\<lambda>e. fst e = g) (rcv c) = es @ [(g, Some (mem s p))]))"

subsection \<open>Who is released by a step\<close>

definition waiting :: "dir \<Rightarrow> 'v achan \<Rightarrow> gid list" where
  "waiting d a = (case d of Sending \<Rightarrow> map fst (a_sendq a) | Receiving \<Rightarrow> a_recvq a)"

lemma waiting_absQ: "waiting d (absQ s Q c) = map (\<lambda>i. sg_g (sudogs s i)) (Q d c)"
  by (cases d) (simp_all add: waiting_def absQ_def)

text \<open>A goroutine waits with one sudog.\<close>

lemma queued_inj:
  assumes "inv_core owner s k Q" and "i \<in> set (Q d c)" and "j \<in> set (Q d' c')" and "sg_g (sudogs s i) = sg_g (sudogs s j)"
  shows "i = j"
proof -
  obtain e e' where "k (sg_g (sudogs s i)) = Some (KChan d c i e)" "k (sg_g (sudogs s j)) = Some (KChan d' c' j e')"
    using inv_queued [OF assms(1,2)] inv_queued [OF assms(1,3)] by blast
  then show ?thesis using assms(4) by (metis cont.inject option.inject)
qed

lemma waiting_distinct: "inv_core owner s k Q \<Longrightarrow> distinct (waiting d (absQ s Q c))"
  using inv_repr [of owner s k Q d c] queued_inj [of owner s k Q _ d c _ d c]
  by (simp add: waiting_absQ distinct_map wq_repr_def inj_on_def)

text \<open>
  A step that keeps the invariant and the continuations of the parked goroutines, seen from a
  goroutine that waits on a queue.
\<close>

definition inv_step :: "(ptr \<Rightarrow> gid) \<Rightarrow> 'v rt \<Rightarrow> (gid \<Rightarrow> cont option) \<Rightarrow> 'v rt \<Rightarrow> (gid \<Rightarrow> cont option) \<Rightarrow>
    (dir \<Rightarrow> chid \<Rightarrow> sgid list) \<Rightarrow> bool" where
  "inv_step owner s k s' k' Q' \<longleftrightarrow>
     invQ owner s k (queues s) \<and> invQ owner s' k' Q' \<and> (\<forall>g. k g \<noteq> None \<longrightarrow> k' g = k g)"

lemma inv_stepD:
  assumes "inv_step owner s k s' k' Q'"
  shows step_core: "inv_core owner s k (queues s)" and step_core': "inv_core owner s' k' Q'"
    and step_keep: "k g = Some x \<Longrightarrow> k' g = Some x"
  using assms by (simp_all add: inv_step_def invQ_def)

lemma readied_iff:
  assumes st: "inv_step owner s k s' k' Q'" and i: "i \<in> set (queues s d c)"
  shows "g_status (gs s' (sg_g (sudogs s i))) = Grunnable \<longleftrightarrow>
    sg_g (sudogs s i) \<notin> set (waiting d (absQ s' Q' c))"
proof -
  define g where "g = sg_g (sudogs s i)"
  obtain ep where "k g = Some (KChan d c i ep)" using inv_queued [OF step_core [OF st] i] unfolding g_def by blast
  then have k': "k' g = Some (KChan d c i ep)" by (rule step_keep [OF st])
  have pk: "parked owner s' g c i ep (Q' d c)" using inv_parked [OF step_core' [OF st] k'] .
  have "g \<in> set (waiting d (absQ s' Q' c)) \<longleftrightarrow> i \<in> set (Q' d c)"
  proof
    assume "g \<in> set (waiting d (absQ s' Q' c))"
    then obtain j where j: "j \<in> set (Q' d c)" "sg_g (sudogs s' j) = g" by (auto simp: waiting_absQ)
    obtain e where "k' (sg_g (sudogs s' j)) = Some (KChan d c j e)" using inv_queued [OF step_core' [OF st] j(1)] by blast
    then show "i \<in> set (Q' d c)" using j k' by simp
  next
    assume "i \<in> set (Q' d c)"
    then show "g \<in> set (waiting d (absQ s' Q' c))" using pk by (force simp: waiting_absQ parked_def)
  qed
  moreover have "g_status (gs s' g) = Grunnable \<longleftrightarrow> i \<notin> set (Q' d c)" using pk by (auto simp: parked_def)
  ultimately show ?thesis unfolding g_def by simp
qed

lemma released_none:
  assumes "inv_step owner s k s' k' Q'" and "waiting d (absQ s' Q' c) = waiting d (absQ s (queues s) c) @ gs'"
  shows "released d c s s' = []"
  using readied_iff [OF assms(1), of _ d c] unfolding assms(2)
  by (simp add: released_def filter_empty_conv waiting_absQ)

lemma released_first:
  assumes st: "inv_step owner s k s' k' Q'" and open': "\<not> closed (chans s' c)"
    and w: "waiting d (absQ s (queues s) c) = g # waiting d (absQ s' Q' c)"
  obtains i rest where "released d c s s' = [i]" "queues s d c = i # rest" "sg_g (sudogs s i) = g"
proof -
  obtain i rest where Q: "queues s d c = i # rest" "sg_g (sudogs s i) = g"
    "waiting d (absQ s' Q' c) = map (\<lambda>i. sg_g (sudogs s i)) rest"
    using w by (auto simp: waiting_absQ)
  have i: "i \<in> set (queues s d c)" using Q by simp
  have "g \<notin> set (waiting d (absQ s' Q' c))" using waiting_distinct [OF step_core [OF st], of d c] unfolding w by simp
  then have ready: "g_status (gs s' g) = Grunnable" using readied_iff [OF st i] Q(2) by simp
  obtain ep where "k g = Some (KChan d c i ep)" using inv_queued [OF step_core [OF st] i] Q(2) by blast
  from inv_parked [OF step_core' [OF st] step_keep [OF st this]]
  have "success (sudogs s' i)" using ready open' by (auto simp: parked_def)
  moreover have "g_status (gs s' (sg_g (sudogs s j))) \<noteq> Grunnable" if "j \<in> set rest" for j
    using readied_iff [OF st, of j d c] that unfolding Q(1,3) by simp
  ultimately have "released d c s s' = [i]"
    using ready Q(2) unfolding released_def Q(1) by (auto simp: filter_empty_conv)
  then show thesis using that Q by simp
qed

text \<open>A receiver that the step readied with success gets one new entry, one readied before none.\<close>

lemma got_parked_new:
  assumes st: "inv_step owner s k s' k' Q'" and kg: "k g = Some (KChan Receiving c i (Some p))"
    and wait: "g_status (gs s g) \<noteq> Grunnable" and ready: "g_status (gs s' g) = Grunnable" "success (sudogs s' i)"
  shows "filter (\<lambda>e. fst e = g) (got_parked c s s') = [(g, Some (mem s' p))]"
proof -
  have pk: "sg_g (sudogs s i) = g" "i \<in> set (queues s Receiving c)" "sg_elem (sudogs s i) = Some p"
    using inv_parked [OF step_core [OF st] kg] wait by (auto simp: parked_def)
  let ?R = "released Receiving c s s'"
  have "sg_g (sudogs s j) = g \<longleftrightarrow> j = i" if "j \<in> set ?R" for j
    using queued_inj [OF step_core [OF st] _ pk(2), of j Receiving c] that pk(1) by (auto simp: released_def)
  then have "filter (\<lambda>j. sg_g (sudogs s j) = g) ?R = filter (\<lambda>j. j = i) ?R" by (intro filter_cong) auto
  moreover have "distinct ?R" "i \<in> set ?R"
    using inv_repr [OF step_core [OF st], of Receiving c] pk ready by (simp_all add: released_def wq_repr_def)
  moreover have "distinct xs \<Longrightarrow> i \<in> set xs \<Longrightarrow> filter (\<lambda>j. j = i) xs = [i]" for xs
    by (induction xs) (auto simp: filter_empty_conv)
  ultimately show ?thesis using pk by (simp add: got_parked_def filter_map o_def)
qed

lemma got_parked_old:
  assumes "inv_step owner s k s' k' Q'" and "g_status (gs s g) \<noteq> Gwaiting"
  shows "filter (\<lambda>e. fst e = g) (got_parked c s s') = []"
proof -
  have "sg_g (sudogs s i) \<noteq> g" if "i \<in> set (queues s Receiving c)" for i
    using inv_queued_waiting [OF step_core [OF assms(1)] that] assms(2) by auto
  then show ?thesis by (auto simp: got_parked_def released_def filter_empty_conv)
qed

subsection \<open>The histories of one step\<close>

lemma init_inv: "invQ owner (init_rt cap m) (\<lambda>_. None) (\<lambda>_ _. [])"
  by (auto simp: invQ_def inv_core_def init_rt_def new_chan_def wqof_def ring_ok_def hdr_def
      empty_waitq_def wq_repr_def split: dir.splits)

lemma inv_gopark_nil:
  assumes inv: "invQ owner s k Q" and kg: "k g = None"
  shows "gopark g id s = (upd_g g (g_status_update (\<lambda>_. Gwaiting)) s, Park)"
    and "invQ owner (upd_g g (g_status_update (\<lambda>_. Gwaiting)) s) (k(g \<mapsto> KNil)) Q"
    and "absQ (upd_g g (g_status_update (\<lambda>_. Gwaiting)) s) Q = absQ s Q"
proof -
  let ?s = "upd_g g (g_status_update (\<lambda>_. Gwaiting)) s"
  have core: "inv_core owner s k Q" using inv by (simp add: invQ_def)
  have "parked owner ?s g' c i ep q" if "parked owner s g' c i ep q" "g' \<noteq> g" for g' c i ep q
    using that by (auto simp: parked_def)
  moreover have "sg_g (sudogs s i) \<noteq> g" if "i \<in> set (Q d c)" for i d c
    using inv_queued [OF core that] kg by auto
  ultimately have "inv_core owner ?s (k(g \<mapsto> KNil)) Q"
    unfolding inv_core_def
    using inv_coreD [OF core] kg by (intro conjI allI impI) (auto split: if_splits)
  then show "invQ owner ?s (k(g \<mapsto> KNil)) Q" using inv by (simp add: invQ_def)
  show "gopark g id s = (?s, Park)" using inv_running [OF core kg] by (simp add: gopark_def)
  show "absQ ?s Q = absQ s Q" by (rule ext, rule absQ_cong) auto
qed

lemma absQ_buf: "a_buf (absQ s Q c) = ring_contents (chans s c)"
  by (simp add: absQ_def)

lemma chan_inv_recvq: "invQ owner s k Q \<Longrightarrow> a_recvq (absQ s Q c) \<noteq> [] \<Longrightarrow> a_buf (absQ s Q c) = []"
proof -
  assume "invQ owner s k Q"
  then have "hdr (chans s c) (Q Sending c) (Q Receiving c)" by (simp add: invQ_def)
  then show "a_recvq (absQ s Q c) \<noteq> [] \<Longrightarrow> a_buf (absQ s Q c) = []"
    by (auto simp: hdr_def absQ_def ring_contents_def)
qed

lemma send_outcome_Park [simp]: "send_outcome e = Park \<longleftrightarrow> e = Blocked"
  by (cases e) auto

lemma recv_outcome_Park [simp]: "recv_outcome e = Park \<longleftrightarrow> e = Blocked"
  by (cases e) auto

lemma log_fifo:
  assumes "\<And>c. fifo (acc c) (rcv c) (b c)" and "b c @ xs = ys @ b' c" and "list_all2 agrees es ys"
    and "\<And>c'. c' \<noteq> c \<Longrightarrow> b' c' = b c'"
  shows "fifo (log_to c xs acc c') (log_to c es rcv c') (b' c')"
proof (cases "c' = c")
  case True
  obtain got where g: "acc c = got @ b c" "list_all2 agrees (rcv c) got" using assms(1) [of c] by (auto simp: fifo_def)
  have "acc c @ xs = (got @ ys) @ b' c" using g(1) assms(2) by simp
  moreover have "list_all2 agrees (rcv c @ es) (got @ ys)" using g(2) assms(3) by (rule list_all2_appendI)
  ultimately show ?thesis unfolding True fifo_def log_to_def by auto
next
  case False
  then show ?thesis using assms(1,4) by (simp add: log_to_def)
qed

lemma send_history:
  assumes st: "inv_step owner s k s' k' Q'" and ae: "a_send g (mem s ep) block (absQ s (queues s) c) = (a, e)"
    and abs: "absQ s' Q' = (absQ s (queues s))(c := a)"
    and m: "\<And>r j p. e = HandedTo r \<Longrightarrow> k r = Some (KChan Receiving c j (Some p)) \<Longrightarrow> mem s' p = mem s ep"
  shows "\<exists>ys. ring_contents (chans s c) @ (if send_outcome e = Ret True then [mem s ep] else []) @ sent_parked c s s' =
      ys @ ring_contents (chans s' c) \<and> list_all2 agrees (got_parked c s s') ys"
proof -
  have a: "absQ s' Q' c = a" using abs by simp
  have buf: "ring_contents (chans s' c) = a_buf a" "ring_contents (chans s c) = a_buf (absQ s (queues s) c)"
    using a absQ_buf [of s' Q' c] absQ_buf [of s "queues s" c] by simp_all
  have "\<exists>gs'. waiting Sending a = waiting Sending (absQ s (queues s) c) @ gs'"
    using ae by (auto simp: a_send_def waiting_def split: if_splits list.splits)
  then have sent: "sent_parked c s s' = []"
    using released_none [OF st, of Sending c] a by (auto simp: sent_parked_def)
  show ?thesis
  proof (cases "\<exists>r. e = HandedTo r")
    case True
    then obtain r where e: "e = HandedTo r" by blast
    then have w: "waiting Receiving (absQ s (queues s) c) = r # waiting Receiving a" "\<not> a_closed a"
      "a_buf a = a_buf (absQ s (queues s) c)" "a_recvq (absQ s (queues s) c) \<noteq> []"
      using ae by (auto simp: a_send_def waiting_def split: if_splits list.splits)
    have "\<not> closed (chans s' c)" using w(2) a by (auto simp: absQ_def)
    then obtain i rest where i: "released Receiving c s s' = [i]" "queues s Receiving c = i # rest"
      "sg_g (sudogs s i) = r"
      using released_first [OF st, of c Receiving r] w(1) a by metis
    have "i \<in> set (queues s Receiving c)" using i(2) by simp
    then have "k r = Some (KChan Receiving c i (sg_elem (sudogs s i)))"
      using inv_elem(1) [OF step_core [OF st]] i(3) by blast
    then have "agrees (r, map_option (mem s') (sg_elem (sudogs s i))) (mem s ep)"
      using m [OF e] by (cases "sg_elem (sudogs s i)") (simp_all add: agrees_def)
    moreover have "a_buf (absQ s (queues s) c) = []"
      using st w(4) by (auto simp: inv_step_def dest: chan_inv_recvq)
    ultimately show ?thesis
      using e i w(3) by (intro exI [of _ "[mem s ep]"]) (simp add: got_parked_def sent buf)
  next
    case False
    then have w: "waiting Receiving a = waiting Receiving (absQ s (queues s) c) @ []"
      "a_buf a = a_buf (absQ s (queues s) c) @ (if send_outcome e = Ret True then [mem s ep] else [])"
      using ae by (auto simp: a_send_def waiting_def split: if_splits list.splits)
    have "got_parked c s s' = []"
      using released_none [OF st, of Receiving c "[]"] w(1) a by (simp add: got_parked_def)
    then show ?thesis using w(2) by (intro exI [of _ "[]"]) (simp add: sent buf)
  qed
qed

lemma recv_history:
  assumes st: "inv_step owner s k s' k' Q'" and ae: "a_recv g block (absQ s (queues s) c) = (a, e)"
    and abs: "absQ s' Q' = (absQ s (queues s))(c := a)" and m: "mem s' = recv_mem ep (recv_value e) (mem s)"
  shows "\<exists>ys. ring_contents (chans s c) @ sent_parked c s s' = ys @ ring_contents (chans s' c) \<and>
      list_all2 agrees ((if recv_outcome e = Ret (True, True) then [(g, map_option (mem s') ep)] else []) @ got_parked c s s') ys"
proof -
  have a: "absQ s' Q' c = a" using abs by simp
  have buf: "ring_contents (chans s' c) = a_buf a" "ring_contents (chans s c) = a_buf (absQ s (queues s) c)"
    using a absQ_buf [of s' Q' c] absQ_buf [of s "queues s" c] by simp_all
  have "\<exists>gs'. waiting Receiving a = waiting Receiving (absQ s (queues s) c) @ gs'"
    using ae by (auto simp: a_recv_def waiting_def split: if_splits list.splits)
  then have got: "got_parked c s s' = []"
    using released_none [OF st, of Receiving c] a by (auto simp: got_parked_def)
  have own: "agrees (g, map_option (mem s') ep) v" if "e = Got v x" for v x
    using m that by (cases ep) (simp_all add: agrees_def recv_mem_def)
  show ?thesis
  proof (cases "\<exists>v g'. e = Got v (Some g')")
    case True
    then obtain v g' where e: "e = Got v (Some g')" by blast
    then obtain v' where w: "waiting Sending (absQ s (queues s) c) = g' # waiting Sending a"
      "a_closed a = a_closed (absQ s (queues s) c)" "hd (a_sendq (absQ s (queues s) c)) = (g', v')"
      "a_buf (absQ s (queues s) c) @ [v'] = v # a_buf a"
      using ae by (auto simp: a_recv_def waiting_def split: if_splits list.splits)
    have "queues s Sending c \<noteq> []" using w(1) by (auto simp: waiting_absQ)
    then have "\<not> closed (chans s c)" using st by (auto simp: inv_step_def invQ_def hdr_def)
    then have "\<not> closed (chans s' c)" using w(2) a by (auto simp: absQ_def)
    then obtain i rest where i: "released Sending c s s' = [i]" "queues s Sending c = i # rest"
      using released_first [OF st, of c Sending g'] w(1) a by metis
    have "hd (a_sendq (absQ s (queues s) c)) = (sg_g (sudogs s i), mem s (the (sg_elem (sudogs s i))))"
      using i(2) by (simp add: absQ_def)
    then have "sent_parked c s s' = [v']" using w(3) i(1) by (simp add: sent_parked_def)
    then show ?thesis using e w(4) own [OF e] by (intro exI [of _ "[v]"]) (simp add: got buf)
  next
    case False
    then have w: "waiting Sending a = waiting Sending (absQ s (queues s) c) @ []"
      "(\<exists>v. e = Got v None \<and> a_buf (absQ s (queues s) c) = v # a_buf a) \<or>
       recv_outcome e \<noteq> Ret (True, True) \<and> a_buf a = a_buf (absQ s (queues s) c)"
      using ae by (auto simp: a_recv_def waiting_def split: if_splits list.splits)
    have sent: "sent_parked c s s' = []"
      using released_none [OF st, of Sending c "[]"] w(1) a by (simp add: sent_parked_def)
    from w(2) show ?thesis
    proof
      assume "\<exists>v. e = Got v None \<and> a_buf (absQ s (queues s) c) = v # a_buf a"
      then obtain v where "e = Got v None" "a_buf (absQ s (queues s) c) = v # a_buf a" by blast
      then show ?thesis using own by (intro exI [of _ "[v]"]) (simp add: got sent buf)
    next
      assume "recv_outcome e \<noteq> Ret (True, True) \<and> a_buf a = a_buf (absQ s (queues s) c)"
      then show ?thesis by (intro exI [of _ "[]"]) (simp add: got sent buf)
    qed
  qed
qed

text \<open>Channels that a step does not touch release nobody.\<close>

lemma got_parked_other:
  assumes "inv_step owner s k s' k' Q'" and "absQ s' Q' c = absQ s (queues s) c"
  shows "got_parked c s s' = []"
  using released_none [OF assms(1), of Receiving c "[]"] assms(2) by (simp add: got_parked_def)

lemma got_at_step:
  assumes st: "inv_step owner s k s' k' Q'" and J: "got_at s k rcv" and und: "undisturbed k s s'"
    and new: "\<And>g. k g = None \<Longrightarrow> k' g \<noteq> None \<Longrightarrow> g_status (gs s' g) \<noteq> Grunnable"
    and m: "\<And>g d c i p. k g = Some (KChan d c i (Some p)) \<Longrightarrow> g_status (gs s g) = Grunnable \<Longrightarrow> mem s' p = mem s p"
    and abs: "\<And>c'. c' \<noteq> c \<Longrightarrow> absQ s' Q' c' = absQ s (queues s) c'"
    and own: "\<And>e. e \<in> set xs \<Longrightarrow> k (fst e) = None"
  shows "got_at s' k' (log_to c (xs @ got_parked c s s') rcv)"
  unfolding got_at_def
proof (intro allI impI)
  fix g c' i p
  assume k': "k' g = Some (KChan Receiving c' i (Some p))" and ready: "g_status (gs s' g) = Grunnable"
    and succ: "success (sudogs s' i)"
  obtain x where "k g = Some x" using new [of g] k' ready by (cases "k g") auto
  then have kg: "k g = Some (KChan Receiving c' i (Some p))" using step_keep [OF st] k' by fastforce
  let ?f = "filter (\<lambda>e. fst e = g)"
  have "?f xs = []" using own kg by (fastforce simp: filter_empty_conv)
  then have log: "?f (log_to c (xs @ got_parked c s s') rcv c') = ?f (rcv c') @ ?f (got_parked c' s s')"
    using got_parked_other [OF st abs] by (cases "c' = c") (simp_all add: log_to_def)
  show "\<exists>es. ?f (log_to c (xs @ got_parked c s s') rcv c') = es @ [(g, Some (mem s' p))]"
  proof (cases "g_status (gs s g) = Grunnable")
    case True
    then have "success (sudogs s i)" using und kg succ unfolding undisturbed_def by blast
    then show ?thesis
      using J kg True m [OF kg True] got_parked_old [OF st, of g c'] unfolding log got_at_def by simp
  next
    case False
    then show ?thesis using got_parked_new [OF st kg False ready succ] unfolding log by simp
  qed
qed

subsection \<open>All runs\<close>

definition run_ok :: "(ptr \<Rightarrow> gid) \<Rightarrow> 'v rt \<Rightarrow> (gid \<Rightarrow> cont option) \<Rightarrow> (chid \<Rightarrow> 'v list) \<Rightarrow>
    (chid \<Rightarrow> (gid \<times> 'v option) list) \<Rightarrow> bool" where
  "run_ok owner s k acc rcv \<longleftrightarrow>
     invQ owner s k (queues s) \<and> (\<forall>c. fifo (acc c) (rcv c) (ring_contents (chans s c))) \<and> got_at s k rcv"

lemma run_okI:
  assumes "invQ owner s k Q" and "\<And>c. fifo (acc c) (rcv c) (ring_contents (chans s c))" and "got_at s k rcv"
  shows "run_ok owner s k acc rcv"
  unfolding run_ok_def invQ_queues [OF assms(1)] using assms by blast

lemma waiting_status: "inv_core owner s k Q \<Longrightarrow> g \<in> set (waiting d (absQ s Q c)) \<Longrightarrow> g_status (gs s g) = Gwaiting"
  using inv_queued_waiting [of owner s k Q] by (auto simp: waiting_absQ)

text \<open>Memory of a goroutine that was readied and waits to run is written by nobody else.\<close>

lemma ready_mem:
  assumes core: "inv_core owner s k Q" and kg: "k g = Some (KChan d c i (Some p))" and st: "g_status (gs s g) = Grunnable"
  shows "owner p = g" and "k g' = Some (KChan d' c' j (Some p)) \<Longrightarrow> g' = g" and "g \<notin> set (waiting d' (absQ s Q c'))"
proof -
  show own: "owner p = g" using inv_parked [OF core kg] by (simp add: parked_def)
  show "g' = g" if "k g' = Some (KChan d' c' j (Some p))"
    using inv_parked [OF core that] own by (simp add: parked_def)
  show "g \<notin> set (waiting d' (absQ s Q c'))"
    using waiting_status [OF core] st by fastforce
qed

lemma send_step:
  assumes ok: "run_ok owner s k acc rcv" and kg: "k g = None" "owner ep = g"
    and run: "chansend g (Some c) ep block s = Some (s', r)"
    and k': "k' = (if r = Park then k(g \<mapsto> KChan Sending c (the (g_waiting (gs s' g))) (Some ep)) else k)"
  shows "run_ok owner s' k' (log_to c ((if r = Ret True then [mem s ep] else []) @ sent_parked c s s') acc)
       (log_to c (got_parked c s s') rcv)"
proof -
  have inv: "invQ owner s k (queues s)" and log: "\<And>c. fifo (acc c) (rcv c) (ring_contents (chans s c))" and J: "got_at s k rcv"
    using ok by (auto simp: run_ok_def)
  obtain a e where ae: "a_send g (mem s ep) block (absQ s (queues s) c) = (a, e)" by fastforce
  obtain s1 k1 Q1 where 1: "chansend g (Some c) ep block s = Some (s1, send_outcome e)" "invQ owner s1 k1 Q1"
    "absQ s1 Q1 = (absQ s (queues s))(c := a)"
    "k1 = (if e = Blocked then k(g \<mapsto> KChan Sending c (the (g_waiting (gs s1 g))) (Some ep)) else k)"
    and m: "\<And>r j p. e = HandedTo r \<Longrightarrow> k r = Some (KChan Receiving c j (Some p)) \<Longrightarrow> mem s1 p = mem s ep"
    "\<And>p. mem s1 p \<noteq> mem s p \<Longrightarrow> \<exists>r j. e = HandedTo r \<and> k r = Some (KChan Receiving c j (Some p))"
    and und: "undisturbed k s s1"
    by (rule chansend_refines [OF inv kg, where c = c and block = block, unfolded ae fst_conv snd_conv]) blast
  have eqs: "s' = s1" "r = send_outcome e" "k' = k1" using 1(1,4) run k' by auto
  have st: "inv_step owner s k s1 k1 Q1" using inv 1(2,4) kg by (auto simp: inv_step_def)
  have core: "inv_core owner s k (queues s)" by (rule step_core [OF st])
  have other: "absQ s1 Q1 c' = absQ s (queues s) c'" if "c' \<noteq> c" for c' using 1(3) that by simp
  have "mem s1 p = mem s p" if g': "k g' = Some (KChan d c' i (Some p))" "g_status (gs s g') = Grunnable" for g' d c' i p
  proof (rule ccontr)
    assume "mem s1 p \<noteq> mem s p"
    then obtain h j where h: "e = HandedTo h" "k h = Some (KChan Receiving c j (Some p))" using m(2) by blast
    then have "h \<in> set (waiting Receiving (absQ s (queues s) c))"
      using ae by (auto simp: a_send_def waiting_def split: if_splits list.splits)
    then show False using ready_mem [OF core g'] h(2) by blast
  qed
  moreover have "g_status (gs s1 g') \<noteq> Grunnable" if "k g' = None" "k1 g' \<noteq> None" for g'
  proof -
    have g': "g' = g" "e = Blocked" using that 1(4) by (auto split: if_splits)
    then have "g \<in> set (waiting Sending (absQ s1 Q1 c))"
      using ae 1(3) by (auto simp: a_send_def waiting_def split: if_splits list.splits)
    then show ?thesis using waiting_status [OF step_core' [OF st]] g' by fastforce
  qed
  ultimately have J': "got_at s1 k1 (log_to c ([] @ got_parked c s s1) rcv)"
    by (intro got_at_step [OF st J und]) (use other in auto)
  obtain ys where ys: "ring_contents (chans s c) @ (if send_outcome e = Ret True then [mem s ep] else []) @ sent_parked c s s1 =
      ys @ ring_contents (chans s1 c)" "list_all2 agrees (got_parked c s s1) ys"
    using send_history [OF st ae 1(3)] m(1) by blast
  have "ring_contents (chans s1 c') = ring_contents (chans s c')" if "c' \<noteq> c" for c'
    using other [OF that] by (metis absQ_buf)
  then have "fifo (log_to c ((if r = Ret True then [mem s ep] else []) @ sent_parked c s s1) acc c')
      (log_to c (got_parked c s s1) rcv c') (ring_contents (chans s1 c'))" for c'
    unfolding eqs(2)
    by (intro log_fifo [where b = "\<lambda>c. ring_contents (chans s c)" and b' = "\<lambda>c. ring_contents (chans s1 c)", OF log ys])
  then show ?thesis using run_okI [OF 1(2)] J' unfolding eqs(1,3) by simp
qed

lemma recv_step:
  assumes ok: "run_ok owner s k acc rcv" and kg: "k g = None" "\<And>p. ep = Some p \<Longrightarrow> owner p = g"
    and run: "chanrecv g (Some c) ep block s = Some (s', r)"
    and k': "k' = (if r = Park then k(g \<mapsto> KChan Receiving c (the (g_waiting (gs s' g))) ep) else k)"
  shows "run_ok owner s' k' (log_to c (sent_parked c s s') acc)
       (log_to c ((if r = Ret (True, True) then [(g, map_option (mem s') ep)] else []) @ got_parked c s s') rcv)"
proof -
  have inv: "invQ owner s k (queues s)" and log: "\<And>c. fifo (acc c) (rcv c) (ring_contents (chans s c))" and J: "got_at s k rcv"
    using ok by (auto simp: run_ok_def)
  obtain a e where ae: "a_recv g block (absQ s (queues s) c) = (a, e)" by fastforce
  obtain s1 k1 Q1 where 1: "chanrecv g (Some c) ep block s = Some (s1, recv_outcome e)" "invQ owner s1 k1 Q1"
    "absQ s1 Q1 = (absQ s (queues s))(c := a)"
    "k1 = (if e = Blocked then k(g \<mapsto> KChan Receiving c (the (g_waiting (gs s1 g))) ep) else k)"
    and m: "mem s1 = recv_mem ep (recv_value e) (mem s)" and und: "undisturbed k s s1"
    by (rule chanrecv_refines [OF inv kg, where c = c and block = block, unfolded ae fst_conv snd_conv]) blast
  have eqs: "s' = s1" "r = recv_outcome e" "k' = k1" using 1(1,4) run k' by auto
  have st: "inv_step owner s k s1 k1 Q1" using inv 1(2,4) kg by (auto simp: inv_step_def)
  have core: "inv_core owner s k (queues s)" by (rule step_core [OF st])
  have other: "absQ s1 Q1 c' = absQ s (queues s) c'" if "c' \<noteq> c" for c' using 1(3) that by simp
  have "mem s1 p = mem s p" if g': "k g' = Some (KChan d c' i (Some p))" "g_status (gs s g') = Grunnable" for g' d c' i p
  proof -
    have "g' \<noteq> g" using kg(1) g'(1) by auto
    then have "ep \<noteq> Some p" using ready_mem(1) [OF core g'] kg(2) by auto
    then show ?thesis unfolding m recv_mem_def by (auto split: option.splits)
  qed
  moreover have "g_status (gs s1 g') \<noteq> Grunnable" if "k g' = None" "k1 g' \<noteq> None" for g'
  proof -
    have g': "g' = g" "e = Blocked" using that 1(4) by (auto split: if_splits)
    then have "g \<in> set (waiting Receiving (absQ s1 Q1 c))"
      using ae 1(3) by (auto simp: a_recv_def waiting_def split: if_splits list.splits)
    then show ?thesis using waiting_status [OF step_core' [OF st]] g' by fastforce
  qed
  ultimately have J': "got_at s1 k1 (log_to c ((if r = Ret (True, True) then [(g, map_option (mem s1) ep)] else []) @
      got_parked c s s1) rcv)"
    by (intro got_at_step [OF st J und]) (use other kg(1) in \<open>auto split: if_splits\<close>)
  obtain ys where ys: "ring_contents (chans s c) @ sent_parked c s s1 = ys @ ring_contents (chans s1 c)"
    "list_all2 agrees ((if recv_outcome e = Ret (True, True) then [(g, map_option (mem s1) ep)] else []) @ got_parked c s s1) ys"
    using recv_history [OF st ae 1(3) m] by blast
  have "ring_contents (chans s1 c') = ring_contents (chans s c')" if "c' \<noteq> c" for c'
    using other [OF that] by (metis absQ_buf)
  then have "fifo (log_to c (sent_parked c s s1) acc c')
      (log_to c ((if r = Ret (True, True) then [(g, map_option (mem s1) ep)] else []) @ got_parked c s s1) rcv c')
      (ring_contents (chans s1 c'))" for c'
    unfolding eqs(2)
    by (intro log_fifo [where b = "\<lambda>c. ring_contents (chans s c)" and b' = "\<lambda>c. ring_contents (chans s1 c)", OF log ys])
  then show ?thesis using run_okI [OF 1(2)] J' unfolding eqs(1,3) by simp
qed

lemma close_step_ok:
  assumes ok: "run_ok owner s k acc rcv" and run: "closechan (Some c) s = Some (s', r)"
  shows "run_ok owner s' k (log_to c (sent_parked c s s') acc) (log_to c (got_parked c s s') rcv)"
proof -
  have inv: "invQ owner s k (queues s)" and log: "\<And>c. fifo (acc c) (rcv c) (ring_contents (chans s c))" and J: "got_at s k rcv"
    using ok by (auto simp: run_ok_def)
  let ?a = "a_close (absQ s (queues s) c)"
  obtain s1 Q1 where 1: "closechan (Some c) s = Some (s1, close_outcome (snd ?a))" "invQ owner s1 k Q1"
    "absQ s1 Q1 = (absQ s (queues s))(c := fst ?a)" "mem s1 = close_mem c k (snd ?a) (mem s)" "undisturbed k s s1"
    and fail: "\<And>d i. i \<in> set (queues s d c) \<Longrightarrow> \<not> success (sudogs s1 i)"
    by (rule closechan_refines [OF inv, where c = c]) blast
  have s': "s' = s1" using 1(1) run by simp
  have st: "inv_step owner s k s1 k Q1" using inv 1(2) by (simp add: inv_step_def)
  have none: "sent_parked c s s1 = []" "got_parked c s s1 = []"
    using fail by (auto simp: sent_parked_def got_parked_def released_def filter_empty_conv)
  have "mem s1 p = mem s p" if g': "k g' = Some (KChan d c' i (Some p))" "g_status (gs s g') = Grunnable" for g' d c' i p
  proof -
    note own = ready_mem [OF step_core [OF st] g']
    have "h \<notin> set rs" if "snd ?a = Closed rs ws" "k h = Some (KChan Receiving c j (Some p))" for h rs ws j
      using own(2) [OF that(2)] own(3) [of Receiving c] that(1) by (auto simp: a_close_def waiting_def split: if_splits)
    then show ?thesis unfolding 1(4) close_mem_def by (auto split: effect.split)
  qed
  then have J': "got_at s1 k (log_to c ([] @ got_parked c s s1) rcv)"
    by (intro got_at_step [OF st J 1(5)]) (use 1(3) in auto)
  have "a_buf (absQ s1 Q1 c') = a_buf (absQ s (queues s) c')" for c'
    by (simp add: 1(3) a_close_def)
  then have "ring_contents (chans s1 c') = ring_contents (chans s c')" for c' unfolding absQ_buf .
  then have "fifo (log_to c [] acc c') (log_to c [] rcv c') (ring_contents (chans s1 c'))" for c'
    using log by (simp add: log_to_def)
  then show ?thesis using run_okI [OF 1(2)] J' unfolding s' none by simp
qed

text \<open>The steps that exchange nothing.\<close>

lemma quiet_step:
  assumes ok: "run_ok owner s k acc rcv" and inv': "invQ owner s' k' Q'" and ch: "chans s' = chans s"
    and same: "\<And>g c i p. k' g = Some (KChan Receiving c i (Some p)) \<Longrightarrow> g_status (gs s' g) = Grunnable \<Longrightarrow>
      k g = k' g \<and> g_status (gs s g) = Grunnable \<and> success (sudogs s i) = success (sudogs s' i) \<and> mem s' p = mem s p"
  shows "run_ok owner s' k' acc rcv"
proof (rule run_okI [OF inv'])
  show "fifo (acc c) (rcv c) (ring_contents (chans s' c))" for c using ok by (simp add: run_ok_def ch)
  show "got_at s' k' rcv"
    unfolding got_at_def
  proof (intro allI impI)
    fix g c i p
    assume a: "k' g = Some (KChan Receiving c i (Some p))" "g_status (gs s' g) = Grunnable" "success (sudogs s' i)"
    from same [OF a(1,2)] a ok show "\<exists>es. filter (\<lambda>e. fst e = g) (rcv c) = es @ [(g, Some (mem s' p))]"
      unfolding run_ok_def got_at_def by metis
  qed
qed

lemma wake_step_ok:
  assumes ok: "run_ok owner s k acc rcv" and kg: "k g = Some (KChan d c i ep)" "g_status (gs s g) = Grunnable"
  shows "run_ok owner (returned g i s) (k(g := None)) acc rcv"
proof -
  have inv: "invQ owner s k (queues s)" using ok by (simp add: run_ok_def)
  show ?thesis
    by (rule quiet_step [OF ok inv_returned(1) [OF inv kg]])
       (auto simp: returned_def split: if_splits)
qed

lemma chan_run_ok: "chan_run owner s k acc rcv \<Longrightarrow> run_ok owner s k acc rcv"
proof (induction rule: chan_run.induct)
  case (start cap m)
  show ?case
    by (rule run_okI [OF init_inv])
       (simp_all add: fifo_def got_at_def init_rt_def new_chan_def ring_contents_def)
next
  case (send s k acc rcv g ep c block s' r k')
  then show ?case using send_step by blast
next
  case (recv s k acc rcv g ep c block s' r k')
  show ?case by (rule recv_step [OF recv.IH recv.hyps(2) recv.hyps(3) recv.hyps(4,5)])
next
  case (close s k acc rcv g c s' r)
  then show ?case using close_step_ok by blast
next
  case (wake_send s k acc rcv g c i ep s' r)
  then have inv: "invQ owner s k (queues s)" by (simp add: run_ok_def)
  have "s' = returned g i s" using wake_ok(1) [OF inv wake_send.hyps(2,3)] wake_send.hyps(4) by simp
  then show ?case using wake_step_ok [OF wake_send.IH wake_send.hyps(2,3)] by blast
next
  case (wake_recv s k acc rcv g c i ep s' r)
  then have inv: "invQ owner s k (queues s)" by (simp add: run_ok_def)
  have "s' = returned g i s" using wake_ok(2) [OF inv wake_recv.hyps(2,3)] wake_recv.hyps(4) by simp
  then show ?case using wake_step_ok [OF wake_recv.IH wake_recv.hyps(2,3)] by blast
next
  case (nil_park s k acc rcv g ep s' r ep' r')
  then have inv: "invQ owner s k (queues s)" by (simp add: run_ok_def)
  have s': "s' = upd_g g (g_status_update (\<lambda>_. Gwaiting)) s"
    using nil_park.hyps(3) by (auto simp: chansend_def chanrecv_def inv_gopark_nil(1) [OF inv nil_park.hyps(2)])
  show ?case
    unfolding s' by (rule quiet_step [OF nil_park.IH inv_gopark_nil(2) [OF inv nil_park.hyps(2)]]) (auto split: if_splits)
next
  case (own_write s k acc rcv g p v)
  then have inv: "invQ owner s k (queues s)" by (simp add: run_ok_def)
  then have "invQ owner (store_opt (Some p) v s) k (queues s)" by (intro invQ_store) simp
  then have inv': "invQ owner (store p v s) k (queues s)" by (simp add: store_opt_def)
  have core: "inv_core owner s k (queues s)" using inv by (simp add: invQ_def)
  show ?case
    by (rule quiet_step [OF own_write.IH inv'])
       (use ready_mem(1) [OF core] own_write.hyps(2,3) in \<open>auto split: if_splits\<close>)
qed

end
