(* ===== verification/Chan_Props.thy ===== *)
theory Chan_Props
  imports Chan_Runs
begin

section \<open>The properties of channels\<close>

text \<open>
  The theorems a user of channels relies on, each for every goroutine, channel and element type.
  They rest on the refinement lemmas of \<open>Chan_Refine\<close>, \<open>Chan_System\<close> and \<open>Chan_Runs\<close>.
\<close>

lemma chan_inv_init: "chan_inv owner (init_rt cap m) (\<lambda>_. None)"
  using chan_inv_abs [OF init_inv] by blast

lemma abs_chan_init: "abs_chan (init_rt cap m) c = \<lparr>a_cap = cap c, a_buf = [], a_sendq = [], a_recvq = [], a_closed = False\<rparr>"
  using chan_inv_abs [OF init_inv, of "\<lambda>_. 0" cap m]
  by (simp add: absQ_def) (simp add: init_rt_def new_chan_def ring_contents_def)

lemma init_mem [simp]: "mem (init_rt cap m) = m"
  by (simp add: init_rt_def)

lemma released_init [simp]: "released d c (init_rt cap m) s' = []"
  by (simp add: released_def queues_def init_rt_def)

lemma log_to_Nil [simp]: "log_to c [] l = l"
  by (auto simp: log_to_def)

text \<open>A run in which goroutine 2 waits on the unbuffered channel 0.\<close>

lemma run_waiting_receiver:
  "\<exists>(s :: nat rt) k. chan_run (\<lambda>p. p) s k (\<lambda>_. []) (\<lambda>_. []) \<and> k = (\<lambda>_. None)(2 \<mapsto> KChan Receiving 0 (the (g_waiting (gs s 2))) (Some 2)) \<and>
     abs_chan s 0 = \<lparr>a_cap = 0, a_buf = [], a_sendq = [], a_recvq = [2], a_closed = False\<rparr> \<and> mem s = (\<lambda>p. p + 5)"
proof -
  let ?s = "init_rt (\<lambda>_. 0) (\<lambda>p. p + 5) :: nat rt"
  have q: "absQ ?s (\<lambda>_ _. []) = abs_chan ?s"
    using chan_inv_abs [OF init_inv] by metis
  have e: "a_recv 2 True (abs_chan ?s 0) =
      (\<lparr>a_cap = 0, a_buf = [], a_sendq = [], a_recvq = [2], a_closed = False\<rparr>, Blocked)"
    by (simp add: abs_chan_init a_recv_def)
  obtain s' k' Q' where r: "chanrecv 2 (Some 0) (Some 2) True ?s = Some (s', Park)" "invQ (\<lambda>p. p) s' k' Q'"
    "absQ s' Q' = (abs_chan ?s)(0 := fst (a_recv 2 True (abs_chan ?s 0)))"
    "mem s' = mem ?s"
    by (rule chanrecv_refines [OF init_inv [of "\<lambda>p. p" "\<lambda>_. 0" "\<lambda>p. p + 5"],
          where g = 2 and ep = "Some 2" and block = True and c = 0])
       (auto simp: q e recv_mem_def)
  have abs: "abs_chan s' = absQ s' Q'" using chan_inv_abs [OF r(2)] by blast
  have "chan_run (\<lambda>p. p) s' ((\<lambda>_. None)(2 \<mapsto> KChan Receiving 0 (the (g_waiting (gs s' 2))) (Some 2))) (\<lambda>_. []) (\<lambda>_. [])"
    using chan_run.recv [OF chan_run.start [of _ "\<lambda>_. 0" "\<lambda>p. p + 5"] _ _ r(1) refl, of "\<lambda>p. p"]
    by (simp add: sent_parked_def got_parked_def)
  then show ?thesis using abs r(3,4) e by (intro exI [of _ s']) auto
qed

text \<open>
  C1. In every state that goroutines sending, receiving and closing can reach, the invariant
  \<open>chan_inv\<close> of the runtime state holds. Spelled out: the count, the indices and the buffer of every channel
  fit together; both wait queues are well-linked lists of distinct sudogs; as the head of
  runtime/chan.go says, at least one of the two is empty, a channel with buffered values has no waiting
  receiver and one with free slots no waiting sender; nobody waits on a closed channel; everybody on a queue
  is a goroutine parked in the matching operation on that channel; every goroutine parked on a channel
  holds one sudog, of its own and for that channel, and is either on the queue or readied with an
  outcome that is a failure only if the channel is closed; and a goroutine that is not parked on a channel
  holds none.
\<close>

theorem chan_invariant:
  assumes "chan_run owner s k acc rcv"
  shows "chan_inv owner s k \<and>
    (\<forall>c. length (buf (chans s c)) = dataqsiz (chans s c) \<and> qcount (chans s c) \<le> dataqsiz (chans s c) \<and>
       (0 < dataqsiz (chans s c) \<longrightarrow> recvx (chans s c) < dataqsiz (chans s c) \<and>
          sendx (chans s c) = (recvx (chans s c) + qcount (chans s c)) mod dataqsiz (chans s c))) \<and>
    (\<forall>c. wq_repr (sudogs s) (sendq (chans s c)) (queues s Sending c) \<and>
         wq_repr (sudogs s) (recvq (chans s c)) (queues s Receiving c)) \<and>
    (\<forall>c. (queues s Sending c = [] \<or> queues s Receiving c = []) \<and>
       (0 < qcount (chans s c) \<longrightarrow> queues s Receiving c = []) \<and>
       (qcount (chans s c) < dataqsiz (chans s c) \<longrightarrow> queues s Sending c = []) \<and>
       (closed (chans s c) \<longrightarrow> queues s Sending c = [] \<and> queues s Receiving c = [])) \<and>
    (\<forall>d c. \<forall>i \<in> set (queues s d c). g_status (gs s (sg_g (sudogs s i))) = Gwaiting \<and>
       (\<exists>ep. k (sg_g (sudogs s i)) = Some (KChan d c i ep))) \<and>
    (\<forall>g d c i ep. k g = Some (KChan d c i ep) \<longrightarrow>
       g_waiting (gs s g) = Some i \<and> sg_g (sudogs s i) = g \<and> sg_c (sudogs s i) = Some c \<and> i \<notin> set (sudogcache s) \<and>
       (g_status (gs s g) = Gwaiting \<and> i \<in> set (queues s d c) \<and> sg_elem (sudogs s i) = ep \<or>
        g_status (gs s g) = Grunnable \<and> i \<notin> set (queues s d c) \<and> sg_elem (sudogs s i) = None \<and>
        (success (sudogs s i) \<or> closed (chans s c)))) \<and>
    (\<forall>g. k g = None \<longrightarrow> g_status (gs s g) = Grunning \<and> g_waiting (gs s g) = None)"
proof -
  have inv: "invQ owner s k (queues s)" using chan_run_ok [OF assms] by (simp add: run_ok_def)
  then have core: "inv_core owner s k (queues s)" and hdr: "hdr (chans s c) (queues s Sending c) (queues s Receiving c)" for c
    by (auto simp: invQ_def)
  show ?thesis
  proof (intro conjI)
    show "chan_inv owner s k" using inv by (simp add: chan_inv_def)
    show "\<forall>c. length (buf (chans s c)) = dataqsiz (chans s c) \<and> qcount (chans s c) \<le> dataqsiz (chans s c) \<and>
       (0 < dataqsiz (chans s c) \<longrightarrow> recvx (chans s c) < dataqsiz (chans s c) \<and>
          sendx (chans s c) = (recvx (chans s c) + qcount (chans s c)) mod dataqsiz (chans s c))"
      using inv_ring [OF core] unfolding ring_ok_def by blast
    show "\<forall>c. wq_repr (sudogs s) (sendq (chans s c)) (queues s Sending c) \<and>
         wq_repr (sudogs s) (recvq (chans s c)) (queues s Receiving c)"
      using inv_repr [OF core, of Sending] inv_repr [OF core, of Receiving] by simp
  next
    show "\<forall>g d c i ep. k g = Some (KChan d c i ep) \<longrightarrow>
       g_waiting (gs s g) = Some i \<and> sg_g (sudogs s i) = g \<and> sg_c (sudogs s i) = Some c \<and> i \<notin> set (sudogcache s) \<and>
       (g_status (gs s g) = Gwaiting \<and> i \<in> set (queues s d c) \<and> sg_elem (sudogs s i) = ep \<or>
        g_status (gs s g) = Grunnable \<and> i \<notin> set (queues s d c) \<and> sg_elem (sudogs s i) = None \<and>
        (success (sudogs s i) \<or> closed (chans s c)))"
      using inv_parked [OF core] unfolding parked_def by blast
  qed (use hdr inv_queued [OF core] inv_queued_waiting [OF core] inv_running [OF core] inv_idle [OF core]
      in \<open>unfold hdr_def, blast+\<close>)
qed

theorem chan_invariant_witness:
  "\<exists>(s :: nat rt) k. chan_run (\<lambda>p. p) s k (\<lambda>_. []) (\<lambda>_. []) \<and> a_recvq (abs_chan s 0) = [2] \<and> chan_inv (\<lambda>p. p) s k \<and>
     g_waiting (gs s 0) = None \<and> qcount (chans s 0) \<le> dataqsiz (chans s 0)"
proof -
  obtain s :: "nat rt" and k where r: "chan_run (\<lambda>p. p) s k (\<lambda>_. []) (\<lambda>_. [])" and a: "a_recvq (abs_chan s 0) = [2]" and k: "k 0 = None"
    using run_waiting_receiver by fastforce
  note c = chan_invariant [OF r]
  have "chan_inv (\<lambda>p. p) s k" "g_waiting (gs s 0) = None" "qcount (chans s 0) \<le> dataqsiz (chans s 0)" using c k by blast+
  with r a show ?thesis by blast
qed

text \<open>
  C2. Channels deliver first in, first out, exactly once. Take the values that sends got rid of
  (they returned true, or were parked and readied with success), in order, and the values that receives
  delivered to the memory of their callers (they returned \<open>(true, true)\<close>, or were parked and readied with
  success), in order: the latter are the first of the former, one for one, and the rest of them is what the
  buffer holds. A receive into a nil pointer takes its value off the channel and drops it. When a parked
  receiver comes to run, its value is still in its memory.
\<close>

theorem chan_fifo:
  assumes "chan_run owner s k acc rcv"
  shows "(\<exists>got. acc c = got @ ring_contents (chans s c) \<and>
       list_all2 (\<lambda>(g, r) v. r = None \<or> r = Some v) (rcv c) got) \<and>
     (\<forall>g i p. k g = Some (KChan Receiving c i (Some p)) \<longrightarrow> g_status (gs s g) = Grunnable \<longrightarrow> success (sudogs s i) \<longrightarrow>
       (\<exists>es. filter (\<lambda>e. fst e = g) (rcv c) = es @ [(g, Some (mem s p))]))"
  using chan_run_ok [OF assms] unfolding run_ok_def fifo_def got_at_def agrees_def by blast

text \<open>A run in which goroutine 0 sends 5 to the receiver that waits on channel 0.\<close>

lemma run_handed_over:
  "\<exists>(s :: nat rt) k acc rcv. chan_run (\<lambda>p. p) s k acc rcv \<and> acc 0 = [5] \<and> ring_contents (chans s 0) = []"
proof -
  obtain s :: "nat rt" and k where r: "chan_run (\<lambda>p. p) s k (\<lambda>_. []) (\<lambda>_. [])" and k: "k 0 = None"
    and a: "abs_chan s 0 = \<lparr>a_cap = 0, a_buf = [], a_sendq = [], a_recvq = [2], a_closed = False\<rparr>" and m: "mem s 0 = 5"
    using run_waiting_receiver by fastforce
  have inv: "invQ (\<lambda>p. p) s k (queues s)" using chan_run_ok [OF r] by (simp add: run_ok_def)
  have q: "queues s Sending 0 = []" using a by (simp add: abs_chan_def absQ_def)
  obtain s' k' Q' where s': "chansend 0 (Some 0) 0 True s = Some (s', Ret True)" "invQ (\<lambda>p. p) s' k' Q'"
    "absQ s' Q' = (abs_chan s)(0 := fst (a_send 0 (mem s 0) True (abs_chan s 0)))"
    by (rule chansend_refines [OF inv k, where ep = 0 and block = True and c = 0])
       (auto simp: a_send_def a abs_chan_def [symmetric])
  have "ring_contents (chans s' 0) = []"
    using absQ_buf [of s' Q' 0] s'(3) by (simp add: a_send_def a)
  moreover have "sent_parked 0 s s' = []" by (simp add: sent_parked_def released_def q)
  then have "chan_run (\<lambda>p. p) s' k ((\<lambda>_. [])(0 := [5])) (log_to 0 (got_parked 0 s s') (\<lambda>_. []))"
    using chan_run.send [OF r k _ s'(1) refl] m by (simp add: log_to_def)
  moreover have "((\<lambda>_. [])(0 := [5 :: nat])) 0 = [5]" by simp
  ultimately show ?thesis by blast
qed

theorem chan_fifo_witness:
  "\<exists>(s :: nat rt) k acc rcv. chan_run (\<lambda>p. p) s k acc rcv \<and> acc 0 = [5] \<and>
     (\<exists>g r. rcv 0 = [(g, r)] \<and> (r = None \<or> r = Some 5))"
proof -
  obtain s :: "nat rt" and k acc rcv where r: "chan_run (\<lambda>p. p) s k acc rcv" "acc 0 = [5]" "ring_contents (chans s 0) = []"
    using run_handed_over by blast
  then have "list_all2 (\<lambda>(g, r) v. r = None \<or> r = Some v) (rcv 0) [5]" using chan_fifo [OF r(1), of 0] by auto
  then have "\<exists>g r. rcv 0 = [(g, r)] \<and> (r = None \<or> r = Some 5)" by (auto simp: list_all2_Cons2)
  with r show ?thesis by blast
qed

text \<open>
  C3. A send by a running goroutine always returns or parks, with the result the abstract
  channel prescribes (panic on a closed channel, a hand-over to the first waiting receiver, the
  tail of the buffer, waiting behind the other senders, or the report that it would block), changes no
  other channel, keeps the invariant, and writes exactly the memory the receiver of a hand-over waits
  with.
\<close>

theorem chansend_refines_spec:
  assumes "chan_inv owner s k" and "k g = None" and "owner ep = g"
  shows "\<exists>s' k' e. (\<exists>a. a_send g (mem s ep) block (abs_chan s c) = (a, e) \<and>
         abs_chan s' = (abs_chan s)(c := a)) \<and>
     chansend g (Some c) ep block s = Some (s', send_outcome e) \<and> chan_inv owner s' k' \<and>
     k' = (if e = Blocked then k(g \<mapsto> KChan Sending c (the (g_waiting (gs s' g))) (Some ep)) else k) \<and>
     (\<forall>p. mem s' p = (if \<exists>r j. e = HandedTo r \<and> k r = Some (KChan Receiving c j (Some p)) then mem s ep else mem s p))"
proof -
  have inv: "invQ owner s k (queues s)" using assms(1) by (simp add: chan_inv_def)
  obtain a e where ae: "a_send g (mem s ep) block (absQ s (queues s) c) = (a, e)" by fastforce
  obtain s' k' Q' where r: "chansend g (Some c) ep block s = Some (s', send_outcome e)" "invQ owner s' k' Q'"
    "absQ s' Q' = (absQ s (queues s))(c := a)"
    "k' = (if e = Blocked then k(g \<mapsto> KChan Sending c (the (g_waiting (gs s' g))) (Some ep)) else k)"
    and m: "\<And>r j p. e = HandedTo r \<Longrightarrow> k r = Some (KChan Receiving c j (Some p)) \<Longrightarrow> mem s' p = mem s ep"
    "\<And>p. mem s' p \<noteq> mem s p \<Longrightarrow> \<exists>r j. e = HandedTo r \<and> k r = Some (KChan Receiving c j (Some p))"
    by (rule chansend_refines [OF inv assms(2,3), where c = c and block = block, unfolded ae fst_conv snd_conv]) blast
  have "chan_inv owner s' k'" "abs_chan s' = (abs_chan s)(c := a)"
    using chan_inv_abs [OF r(2)] r(3) by (simp_all add: abs_chan_def)
  moreover have "\<forall>p. mem s' p = (if \<exists>r j. e = HandedTo r \<and> k r = Some (KChan Receiving c j (Some p)) then mem s ep else mem s p)"
    using m by (metis (full_types))
  ultimately show ?thesis
    using ae r(1,4) unfolding abs_chan_def by blast
qed

theorem chansend_refines_spec_witness:
  "\<exists>s'. chansend 0 (Some 0) 0 True (init_rt (\<lambda>_. 1) (\<lambda>_. 7 :: nat)) = Some (s', Ret True) \<and>
     a_buf (abs_chan s' 0) = [7]"
proof -
  have "a_send 0 7 True (abs_chan (init_rt (\<lambda>_. 1) (\<lambda>_. 7 :: nat)) 0) =
      (\<lparr>a_cap = 1, a_buf = [7], a_sendq = [], a_recvq = [], a_closed = False\<rparr>, Accepted)"
    by (simp add: abs_chan_init a_send_def)
  then show ?thesis
    using chansend_refines_spec [OF chan_inv_init [of "\<lambda>_. 0" "\<lambda>_. 1" "\<lambda>_. 7 :: nat"], of 0 0 True 0] by auto
qed

text \<open>
  C4. A receive by a running goroutine always returns or parks, with the result the abstract
  channel prescribes: the oldest value (letting the first waiting sender put its value behind
  the others), zero from a closed and drained channel, waiting behind the other receivers, or the
  report that it would block. The received value is what the caller's element pointer points to
  afterwards, and no other memory changes.
\<close>

theorem chanrecv_refines_spec:
  assumes "chan_inv owner s k" and "k g = None" and "\<And>p. ep = Some p \<Longrightarrow> owner p = g"
  shows "\<exists>s' k' e. (\<exists>a. a_recv g block (abs_chan s c) = (a, e) \<and> abs_chan s' = (abs_chan s)(c := a)) \<and>
     chanrecv g (Some c) ep block s = Some (s', recv_outcome e) \<and> chan_inv owner s' k' \<and>
     k' = (if e = Blocked then k(g \<mapsto> KChan Receiving c (the (g_waiting (gs s' g))) ep) else k) \<and>
     mem s' = recv_mem ep (recv_value e) (mem s)"
proof -
  have inv: "invQ owner s k (queues s)" using assms(1) by (simp add: chan_inv_def)
  obtain a e where ae: "a_recv g block (absQ s (queues s) c) = (a, e)" by fastforce
  obtain s' k' Q' where r: "chanrecv g (Some c) ep block s = Some (s', recv_outcome e)" "invQ owner s' k' Q'"
    "absQ s' Q' = (absQ s (queues s))(c := a)"
    "k' = (if e = Blocked then k(g \<mapsto> KChan Receiving c (the (g_waiting (gs s' g))) ep) else k)"
    "mem s' = recv_mem ep (recv_value e) (mem s)"
    by (rule chanrecv_refines [OF inv assms(2,3), where c = c and block = block, unfolded ae fst_conv snd_conv]) blast
  have "chan_inv owner s' k'" "abs_chan s' = (abs_chan s)(c := a)"
    using chan_inv_abs [OF r(2)] r(3) by (simp_all add: abs_chan_def)
  then show ?thesis
    using ae r(1,4,5) unfolding abs_chan_def by blast
qed

theorem chanrecv_refines_spec_witness:
  "\<exists>s'. chanrecv 3 (Some 0) (Some 3) False (init_rt (\<lambda>_. 1) (\<lambda>_. 7 :: nat)) = Some (s', Ret (False, False)) \<and>
     mem s' = (\<lambda>_. 7)"
proof -
  have "a_recv 3 False (abs_chan (init_rt (\<lambda>_. 1) (\<lambda>_. 7 :: nat)) 0) =
      (\<lparr>a_cap = 1, a_buf = [], a_sendq = [], a_recvq = [], a_closed = False\<rparr>, WouldBlock)"
    by (simp add: abs_chan_init a_recv_def)
  then show ?thesis
    using chanrecv_refines_spec [OF chan_inv_init [of "\<lambda>p. p" "\<lambda>_. 1" "\<lambda>_. 7 :: nat"],
        where g = 3 and ep = "Some 3" and block = False and c = 0]
    by (auto simp: recv_mem_def)
qed

text \<open>
  C5. Closing a channel succeeds exactly once. It releases everybody who waits on the channel:
  afterwards every goroutine parked on it is runnable and finds zero in its element pointer's
  memory if it was receiving; buffered values stay, and no other channel and no other memory changes.
\<close>

theorem closechan_refines_spec:
  fixes s :: "('v::zero) rt"
  assumes "chan_inv owner s k"
  shows "\<exists>s' e. (\<exists>a. a_close (abs_chan s c) = (a, e) \<and> abs_chan s' = (abs_chan s)(c := a)) \<and>
     closechan (Some c) s = Some (s', close_outcome e) \<and> chan_inv owner s' k \<and>
     mem s' = close_mem c k e (mem s) \<and>
     (\<forall>g d i ep. k g = Some (KChan d c i ep) \<longrightarrow> g_status (gs s' g) = Grunnable)"
proof -
  have inv: "invQ owner s k (queues s)" using assms(1) by (simp add: chan_inv_def)
  obtain a e where ae: "a_close (absQ s (queues s) c) = (a, e)" by fastforce
  obtain s' Q' where r: "closechan (Some c) s = Some (s', close_outcome e)" "invQ owner s' k Q'"
    "absQ s' Q' = (absQ s (queues s))(c := a)" "mem s' = close_mem c k e (mem s)"
    by (rule closechan_refines [OF inv, where c = c, unfolded ae fst_conv snd_conv]) blast
  have inv': "chan_inv owner s' k" and abs': "abs_chan s' = (abs_chan s)(c := a)"
    using chan_inv_abs [OF r(2)] r(3) by (simp_all add: abs_chan_def)
  have "a_closed a" using ae by (auto simp: a_close_def split: if_splits)
  moreover have "a_closed (absQ s' Q' c) = a_closed a" using r(3) by simp
  ultimately have "closed (chans s' c)" by (simp add: absQ_def)
  then have empty: "Q' d c = []" for d using r(2) by (cases d) (auto simp: invQ_def hdr_def)
  have "g_status (gs s' g) = Grunnable" if "k g = Some (KChan d c i ep)" for g d i ep
    using inv_parked [of owner s' k Q' g d c i ep] r(2) that empty [of d] by (auto simp: invQ_def parked_def)
  then show ?thesis
    using inv' abs' ae r(1,4) unfolding abs_chan_def by blast
qed

theorem closechan_refines_spec_witness:
  "\<exists>s'. closechan (Some 0) (init_rt (\<lambda>_. 1) (\<lambda>_. 7 :: nat)) = Some (s', Ret ()) \<and> a_closed (abs_chan s' 0)"
proof -
  have "a_close (abs_chan (init_rt (\<lambda>_. 1) (\<lambda>_. 7 :: nat)) 0) =
      (\<lparr>a_cap = 1, a_buf = [], a_sendq = [], a_recvq = [], a_closed = True\<rparr>, Closed [] [])"
    by (simp add: abs_chan_init a_close_def)
  then show ?thesis
    using closechan_refines_spec [OF chan_inv_init [of "\<lambda>p. p" "\<lambda>_. 1" "\<lambda>_. 7 :: nat"], of 0] by auto
qed

text \<open>
  C6. No reachable state makes a channel operation throw (the runtime's fatal errors: corrupted
  waiting list, spurious wakeup, bad goroutine status, sudogs released in a bad state, a nil
  element of a sender) or loop forever: a send, a receive or a close by a running goroutine ends
  in a return, a park or a panic, and a readied goroutine returns from its park, a sender with a panic
  only if the channel was closed.
\<close>

theorem chan_no_throw:
  fixes s :: "('v::zero) rt"
  assumes "chan_run owner s k acc rcv"
  shows "(\<forall>g c ep block. k g = None \<and> owner ep = g \<longrightarrow>
        (\<exists>s' r. chansend g c ep block s = Some (s', r) \<and> (\<forall>m. r \<noteq> Throw m))) \<and>
     (\<forall>g c ep block. k g = None \<and> (\<forall>p. ep = Some p \<longrightarrow> owner p = g) \<longrightarrow>
        (\<exists>s' r. chanrecv g c ep block s = Some (s', r) \<and> (\<forall>m. r \<noteq> Throw m))) \<and>
     (\<forall>c. \<exists>s' r. closechan c s = Some (s', r) \<and> (\<forall>m. r \<noteq> Throw m)) \<and>
     (\<forall>g d c i ep. k g = Some (KChan d c i ep) \<and> g_status (gs s g) = Grunnable \<longrightarrow>
        snd (chansend_wake g c i (upd_g g (g_status_update (\<lambda>_. Grunning)) s)) =
          (if success (sudogs s i) then Ret True else Panic ''send on closed channel'') \<and>
        snd (chanrecv_wake g i (upd_g g (g_status_update (\<lambda>_. Grunning)) s)) = Ret (True, success (sudogs s i)) \<and>
        (success (sudogs s i) \<or> closed (chans s c)))"
proof (intro conjI allI impI)
  have inv: "invQ owner s k (queues s)" using chan_run_ok [OF assms] by (simp add: run_ok_def)
  note nil = inv_gopark_nil(1) [OF inv]
  show "\<exists>s' r. chansend g c ep block s = Some (s', r) \<and> (\<forall>m. r \<noteq> Throw m)"
    if "k g = None \<and> owner ep = g" for g c ep block
  proof (cases c)
    case None
    then show ?thesis using that nil by (auto simp: chansend_def)
  next
    case (Some ch)
    have "send_outcome x \<noteq> Throw m" for x :: "'v effect" and m by (cases x) auto
    then show ?thesis using chansend_refines [OF inv, of g ep] that unfolding Some by metis
  qed
  show "\<exists>s' r. chanrecv g c ep block s = Some (s', r) \<and> (\<forall>m. r \<noteq> Throw m)"
    if "k g = None \<and> (\<forall>p. ep = Some p \<longrightarrow> owner p = g)" for g c ep block
  proof (cases c)
    case None
    then show ?thesis using that nil by (auto simp: chanrecv_def)
  next
    case (Some ch)
    have "recv_outcome x \<noteq> Throw m" for x :: "'v effect" and m by (cases x) auto
    then show ?thesis using chanrecv_refines [OF inv, of g ep] that unfolding Some by metis
  qed
  show "\<exists>s' r. closechan c s = Some (s', r) \<and> (\<forall>m. r \<noteq> Throw m)" for c
  proof (cases c)
    case None
    then show ?thesis by (simp add: closechan_def)
  next
    case (Some ch)
    have "close_outcome x \<noteq> Throw m" for x :: "'v effect" and m by (cases x) auto
    then show ?thesis using closechan_refines [OF inv] unfolding Some by metis
  qed
  fix g d c i ep
  assume w: "k g = Some (KChan d c i ep) \<and> g_status (gs s g) = Grunnable"
  note wake = wake_ok [OF inv conjunct1 [OF w] conjunct2 [OF w]]
  show "snd (chansend_wake g c i (upd_g g (g_status_update (\<lambda>_. Grunning)) s)) =
      (if success (sudogs s i) then Ret True else Panic ''send on closed channel'')"
    by (simp add: wake(1))
  show "snd (chanrecv_wake g i (upd_g g (g_status_update (\<lambda>_. Grunning)) s)) = Ret (True, success (sudogs s i))"
    by (simp add: wake(2))
  show "success (sudogs s i) \<or> closed (chans s c)" using wake(3) by blast
qed

theorem chan_no_throw_witness:
  "\<exists>(s :: nat rt) k. chan_run (\<lambda>p. p) s k (\<lambda>_. []) (\<lambda>_. []) \<and> k 0 = None \<and> a_recvq (abs_chan s 0) = [2] \<and>
     (\<exists>s' r. chansend 0 (Some 0) 0 True s = Some (s', r) \<and> (\<forall>m. r \<noteq> Throw m))"
proof -
  obtain s :: "nat rt" and k where r: "chan_run (\<lambda>p. p) s k (\<lambda>_. []) (\<lambda>_. [])" and k: "k 0 = None"
    and a: "a_recvq (abs_chan s 0) = [2]"
    using run_waiting_receiver by fastforce
  then have "\<exists>s' r. chansend 0 (Some 0) 0 True s = Some (s', r) \<and> (\<forall>m. r \<noteq> Throw m)"
    using chan_no_throw [OF r] by blast
  with r k a show ?thesis by blast
qed

text \<open>
  C7. Sizes: on a platform whose channel header is aligned and fits, making a channel of a valid
  element type panics exactly when the size is negative or the buffer would not fit in the address
  space, counted in unbounded integers (so a wrap-around of the size computation is always
  noticed); otherwise it returns an open, empty channel with exactly that capacity.
\<close>

theorem makechan_sizes:
  fixes maxAlloc hchanSize elem_size elem_align :: "64 word" and sz :: int
  assumes "elem_size < push_bit 16 1" and "hchanSize mod 8 = 0" and "elem_align \<le> 8"
    and "hchanSize \<le> maxAlloc" and "- (2 ^ 63) \<le> sz" and "sz < 2 ^ 63"
  shows "makechan maxAlloc hchanSize elem_size elem_align sz =
     (if sz < 0 \<or> uint hchanSize + uint elem_size * sz > uint maxAlloc
      then Panic ''makechan: size out of range''
      else Ret (new_chan (nat sz) :: ('v::zero) hchan))"
proof (cases "sz < 0")
  case True
  then show ?thesis using assms by (simp add: makechan_def not_le [symmetric] split: prod.split)
next
  case False
  define n where "n = nat sz"
  have n: "sz = int n" "n < 2 ^ 63" using False assms(6) by (simp_all add: n_def)
  have u: "unat (word_of_int sz :: 64 word) = n" using n by (simp add: unat_of_nat)
  have sub: "unat (maxAlloc - hchanSize) = unat maxAlloc - unat hchanSize" "unat hchanSize \<le> unat maxAlloc"
    using assms(4) by (simp_all add: unat_sub word_le_nat_alt)
  have big: "uint hchanSize + uint elem_size * sz > uint maxAlloc \<longleftrightarrow>
      unat maxAlloc - unat hchanSize < unat elem_size * n"
  proof -
    have "uint hchanSize + uint elem_size * sz = int (unat hchanSize + unat elem_size * n)"
      by (simp add: n(1))
    then show ?thesis using sub(2) by (simp only: uint_nat of_nat_less_iff) linarith
  qed
  have lt: "unat maxAlloc - unat hchanSize < 2 ^ 64" using unsigned_less [of maxAlloc, where ?'a = nat] by simp
  show ?thesis
  proof (cases "unat elem_size * n < 2 ^ 64")
    case True
    note m = MulUintptr_value [of elem_size "word_of_int sz", unfolded u, OF True]
    show ?thesis using assms(1-3) False
      by (simp add: makechan_def m(1) big word_less_nat_alt m(2) sub new_chan_def n_def not_le word_le_nat_alt)
  next
    case f: False
    then have "snd (MulUintptr elem_size (word_of_int sz))" by (simp add: MulUintptr_overflow u)
    then show ?thesis using assms(1-3) f lt
      by (simp add: makechan_def big not_le split_beta)
  qed
qed

theorem makechan_sizes_witness:
  "makechan (2 ^ 47) 96 8 8 3 = Ret (new_chan 3 :: nat hchan) \<and>
   makechan (2 ^ 47) 96 8 8 (2 ^ 61) = (Panic ''makechan: size out of range'' :: nat hchan outcome)"
  using makechan_sizes [of 8 96 8 "2 ^ 47" 3, where 'v = nat]
    makechan_sizes [of 8 96 8 "2 ^ 47" "2 ^ 61", where 'v = nat] by simp

end
