(* ===== verification/Sort_Model.thy ===== *)
theory Sort_Model
  imports Go_Prelude
begin

section \<open>Sorting and searching (sort/sort.go, sort/search.go)\<close>

text \<open>
  The package sorts any collection that implements \<open>sort.Interface\<close>. The interface is a
  record of the three methods over an abstract collection type; a method with a pointer receiver
  that changes the collection returns the changed one. The code of the package is translated loop
  by loop: each \<open>for\<close> is a recursive function over the loop variables. Indices are natural
  numbers. The package computes midpoints so that they do not overflow; \<open>child := 2*root + 1\<close> of
  \<open>siftDown\<close> and the block bounds of \<open>stable\<close> are computed in \<open>int\<close> and stay in its range for collections
  of fewer than \<open>2 ^ 30\<close> elements (\<open>2 ^ 62\<close> where \<open>int\<close> has 64 bits). The model stands for the code on such collections.
\<close>

subsection \<open>The interface and its implementations in the package\<close>

record 'd Interface =
  Len :: "'d \<Rightarrow> nat"
  Less :: "'d \<Rightarrow> nat \<Rightarrow> nat \<Rightarrow> bool"
  Swap :: "'d \<Rightarrow> nat \<Rightarrow> nat \<Rightarrow> 'd"

definition slice_swap :: "'a list \<Rightarrow> nat \<Rightarrow> nat \<Rightarrow> 'a list" where
  "slice_swap x i j = x[i := x ! j, j := x ! i]"

definition IntSlice :: "int list Interface" where
  "IntSlice = \<lparr>Len = length, Less = (\<lambda>x i j. x ! i < x ! j), Swap = slice_swap\<rparr>"

text \<open>Go compares strings bytewise, a proper prefix first.\<close>

fun string_less :: "byte list \<Rightarrow> byte list \<Rightarrow> bool" where
  "string_less _ [] = False"
| "string_less [] (_ # _) = True"
| "string_less (a # s) (b # t) = (a < b \<or> (a = b \<and> string_less s t))"

definition StringSlice :: "byte list list Interface" where
  "StringSlice = \<lparr>Len = length, Less = (\<lambda>x i j. string_less (x ! i) (x ! j)), Swap = slice_swap\<rparr>"

definition Reverse :: "'d Interface \<Rightarrow> 'd Interface" where
  "Reverse data = data\<lparr>Less := (\<lambda>d i j. Less data d j i)\<rparr>"

subsection \<open>Insertion sort\<close>

fun insert_down :: "'d Interface \<Rightarrow> 'd \<Rightarrow> nat \<Rightarrow> nat \<Rightarrow> 'd" where
  "insert_down I d a j =
     (if j > a \<and> Less I d j (j - 1) then insert_down I (Swap I d j (j - 1)) a (j - 1) else d)"

declare insert_down.simps [simp del]

function insertion_loop :: "'d Interface \<Rightarrow> 'd \<Rightarrow> nat \<Rightarrow> nat \<Rightarrow> nat \<Rightarrow> 'd" where
  "insertion_loop I d a i b =
     (if i < b then insertion_loop I (insert_down I d a i) a (i + 1) b else d)"
  by pat_completeness auto
termination by (relation "measure (\<lambda>(_, _, _, i, b). b - i)") auto

declare insertion_loop.simps [simp del]

definition insertionSort :: "'d Interface \<Rightarrow> 'd \<Rightarrow> nat \<Rightarrow> nat \<Rightarrow> 'd" where
  "insertionSort I d a b = insertion_loop I d a (a + 1) b"

subsection \<open>Heap sort\<close>

function siftDown :: "'d Interface \<Rightarrow> 'd \<Rightarrow> nat \<Rightarrow> nat \<Rightarrow> nat \<Rightarrow> 'd" where
  "siftDown I d root hi first =
     (let child = 2 * root + 1 in
      if child \<ge> hi then d
      else
        let child = (if child + 1 < hi \<and> Less I d (first + child) (first + child + 1)
                     then child + 1 else child)
        in if \<not> Less I d (first + root) (first + child) then d
           else siftDown I (Swap I d (first + root) (first + child)) child hi first)"
  by pat_completeness auto
termination by (relation "measure (\<lambda>(_, _, root, hi, _). hi - root)") auto

declare siftDown.simps [simp del]

text \<open>The loops count down to 0: \<open>heap_build\<close> and \<open>heap_pop\<close> take the number of rounds left.\<close>

fun heap_build :: "'d Interface \<Rightarrow> nat \<Rightarrow> nat \<Rightarrow> nat \<Rightarrow> 'd \<Rightarrow> 'd" where
  "heap_build I 0 hi first d = d"
| "heap_build I (Suc i) hi first d = heap_build I i hi first (siftDown I d i hi first)"

fun heap_pop :: "'d Interface \<Rightarrow> nat \<Rightarrow> nat \<Rightarrow> 'd \<Rightarrow> 'd" where
  "heap_pop I 0 first d = d"
| "heap_pop I (Suc i) first d =
     heap_pop I i first (siftDown I (Swap I d first (first + i)) 0 i first)"

definition heapSort :: "'d Interface \<Rightarrow> 'd \<Rightarrow> nat \<Rightarrow> nat \<Rightarrow> 'd" where
  "heapSort I d a b =
     (let first = a; hi = b - a
      in heap_pop I hi first (heap_build I ((hi - 1) div 2 + 1) hi first d))"

subsection \<open>Quick sort\<close>

definition medianOfThree :: "'d Interface \<Rightarrow> 'd \<Rightarrow> nat \<Rightarrow> nat \<Rightarrow> nat \<Rightarrow> 'd" where
  "medianOfThree I d m1 m0 m2 =
     (let d = (if Less I d m1 m0 then Swap I d m1 m0 else d)
      in if Less I d m2 m1
         then (let d = Swap I d m2 m1 in if Less I d m1 m0 then Swap I d m1 m0 else d)
         else d)"

text \<open>The loops of \<open>doPivot\<close>: skip what is on its side already, from below and from above.\<close>

function skip_less :: "'d Interface \<Rightarrow> 'd \<Rightarrow> nat \<Rightarrow> nat \<Rightarrow> nat \<Rightarrow> nat" where
  "skip_less I d pivot a c = (if a < c \<and> Less I d a pivot then skip_less I d pivot (a + 1) c else a)"
  by pat_completeness auto
termination by (relation "measure (\<lambda>(_, _, _, a, c). c - a)") auto

declare skip_less.simps [simp del]

function skip_le :: "'d Interface \<Rightarrow> 'd \<Rightarrow> nat \<Rightarrow> nat \<Rightarrow> nat \<Rightarrow> nat" where
  "skip_le I d pivot b c = (if b < c \<and> \<not> Less I d pivot b then skip_le I d pivot (b + 1) c else b)"
  by pat_completeness auto
termination by (relation "measure (\<lambda>(_, _, _, b, c). c - b)") auto

declare skip_le.simps [simp del]

fun skip_gt :: "'d Interface \<Rightarrow> 'd \<Rightarrow> nat \<Rightarrow> nat \<Rightarrow> nat \<Rightarrow> nat" where
  "skip_gt I d pivot b c = (if b < c \<and> Less I d pivot (c - 1) then skip_gt I d pivot b (c - 1) else c)"

declare skip_gt.simps [simp del]

fun skip_ge :: "'d Interface \<Rightarrow> 'd \<Rightarrow> nat \<Rightarrow> nat \<Rightarrow> nat \<Rightarrow> nat" where
  "skip_ge I d pivot a b = (if a < b \<and> \<not> Less I d (b - 1) pivot then skip_ge I d pivot a (b - 1) else b)"

declare skip_ge.simps [simp del]

lemma skip_bounds:
  "a \<le> skip_less I d p a c" "b \<le> skip_le I d p b c" "skip_gt I d p b c \<le> c" "skip_ge I d p a b \<le> b"
proof -
  show "a \<le> skip_less I d p a c"
    by (induction I d p a c rule: skip_less.induct) (subst skip_less.simps, auto)
  show "b \<le> skip_le I d p b c"
    by (induction I d p b c rule: skip_le.induct) (subst skip_le.simps, auto)
  show "skip_gt I d p b c \<le> c"
    by (induction I d p b c rule: skip_gt.induct) (subst skip_gt.simps, auto)
  show "skip_ge I d p a b \<le> b"
    by (induction I d p a b rule: skip_ge.induct) (subst skip_ge.simps, auto)
qed

lemma narrower:
  fixes b c b' c' :: nat
  assumes "b \<le> b'" and "c' \<le> c" and "\<not> c' \<le> b'"
  shows "c' - 1 - (b' + 1) < c - b"
  using assms by linarith

function partition_loop :: "'d Interface \<Rightarrow> nat \<Rightarrow> 'd \<Rightarrow> nat \<Rightarrow> nat \<Rightarrow> 'd \<times> nat \<times> nat" where
  "partition_loop I pivot d b c =
     (let b = skip_le I d pivot b c;
          c = skip_gt I d pivot b c
      in if b \<ge> c then (d, b, c)
         else partition_loop I pivot (Swap I d b (c - 1)) (b + 1) (c - 1))"
  by pat_completeness auto
termination
  by (relation "measure (\<lambda>(_, _, _, b, c). c - b)")
    (simp, simp only: in_measure prod.case, rule narrower [OF skip_bounds(2,3)], simp)

declare partition_loop.simps [simp del]

function protect_loop :: "'d Interface \<Rightarrow> nat \<Rightarrow> 'd \<Rightarrow> nat \<Rightarrow> nat \<Rightarrow> 'd \<times> nat \<times> nat" where
  "protect_loop I pivot d a b =
     (let b = skip_ge I d pivot a b;
          a = skip_less I d pivot a b
      in if a \<ge> b then (d, a, b)
         else protect_loop I pivot (Swap I d a (b - 1)) (a + 1) (b - 1))"
  by pat_completeness auto
termination
  by (relation "measure (\<lambda>(_, _, _, a, b). b - a)")
    (simp, simp only: in_measure prod.case, rule narrower [OF skip_bounds(1,4)], simp)

declare protect_loop.simps [simp del]

definition choose_pivot :: "'d Interface \<Rightarrow> 'd \<Rightarrow> nat \<Rightarrow> nat \<Rightarrow> 'd" where
  "choose_pivot I d lo hi =
     (let m = (lo + hi) div 2;
          d = (if hi - lo > 40
               then (let s = (hi - lo) div 8;
                         d = medianOfThree I d lo (lo + s) (lo + 2 * s);
                         d = medianOfThree I d m (m - s) (m + s)
                     in medianOfThree I d (hi - 1) (hi - 1 - s) (hi - 1 - 2 * s))
               else d)
      in medianOfThree I d lo m (hi - 1))"

text \<open>The test of some points for equality to the pivot: the new \<open>b\<close>, \<open>c\<close> and the number of equal points.\<close>

definition test_dups :: "'d Interface \<Rightarrow> nat \<Rightarrow> nat \<Rightarrow> nat \<Rightarrow> 'd \<Rightarrow> nat \<Rightarrow> nat \<Rightarrow> 'd \<times> nat \<times> nat \<times> nat" where
  "test_dups I pivot m hi d b c =
     (let (d, c, dups) = (if \<not> Less I d pivot (hi - 1) then (Swap I d c (hi - 1), c + 1, 1) else (d, c, 0));
          (b, dups) = (if \<not> Less I d (b - 1) pivot then (b - 1, dups + 1) else (b, dups));
          (d, b, dups) = (if \<not> Less I d m pivot then (Swap I d m (b - 1), b - 1, dups + 1) else (d, b, dups))
      in (d, b, c, dups))"

definition doPivot :: "'d Interface \<Rightarrow> 'd \<Rightarrow> nat \<Rightarrow> nat \<Rightarrow> 'd \<times> nat \<times> nat" where
  "doPivot I d lo hi =
     (let m = (lo + hi) div 2;
          d = choose_pivot I d lo hi;
          pivot = lo;
          a = skip_less I d pivot (lo + 1) (hi - 1);
          (d, b, c) = partition_loop I pivot d a (hi - 1);
          protect = (hi - c < 5);
          (d, b, c, protect) =
            (if \<not> protect \<and> hi - c < (hi - lo) div 4
             then (let (d, b, c, dups) = test_dups I pivot m hi d b c in (d, b, c, dups > 1))
             else (d, b, c, protect));
          (d, b) = (if protect then (let (d, a, b) = protect_loop I pivot d a b in (d, b)) else (d, b))
      in (Swap I d pivot (b - 1), b - 1, c))"

function shell_pass :: "'d Interface \<Rightarrow> 'd \<Rightarrow> nat \<Rightarrow> nat \<Rightarrow> 'd" where
  "shell_pass I d i b =
     (if i < b then shell_pass I (if Less I d i (i - 6) then Swap I d i (i - 6) else d) (i + 1) b else d)"
  by pat_completeness auto
termination by (relation "measure (\<lambda>(_, _, i, b). b - i)") auto

declare shell_pass.simps [simp del]

text \<open>
  The loop of \<open>quickSort\<close> continues with the larger part, which is a call with the new bounds;
  \<open>maxDepth\<close> goes down with every partition.
\<close>

fun quickSort :: "'d Interface \<Rightarrow> nat \<Rightarrow> 'd \<Rightarrow> nat \<Rightarrow> nat \<Rightarrow> 'd" where
  "quickSort I maxDepth d a b =
     (if b - a > 12 then
        (case maxDepth of
           0 \<Rightarrow> heapSort I d a b
         | Suc maxDepth \<Rightarrow>
             (let (d, mlo, mhi) = doPivot I d a b
              in if mlo - a < b - mhi
                 then quickSort I maxDepth (quickSort I maxDepth d a mlo) mhi b
                 else quickSort I maxDepth (quickSort I maxDepth d mhi b) a mlo))
      else if b - a > 1 then insertionSort I (shell_pass I d (a + 6) b) a b
      else d)"

declare quickSort.simps [simp del]

fun depth_loop :: "nat \<Rightarrow> nat \<Rightarrow> nat" where
  "depth_loop depth i = (if i > 0 then depth_loop (depth + 1) (i div 2) else depth)"

declare depth_loop.simps [simp del]

definition maxDepth :: "nat \<Rightarrow> nat" where
  "maxDepth n = depth_loop 0 n * 2"

definition Sort :: "'d Interface \<Rightarrow> 'd \<Rightarrow> 'd" where
  "Sort I d = quickSort I (maxDepth (Len I d)) d 0 (Len I d)"

definition Ints :: "int list \<Rightarrow> int list" where
  "Ints x = Sort IntSlice x"

definition Strings :: "byte list list \<Rightarrow> byte list list" where
  "Strings x = Sort StringSlice x"

fun sorted_loop :: "'d Interface \<Rightarrow> 'd \<Rightarrow> nat \<Rightarrow> bool" where
  "sorted_loop I d i = (if i > 0 then (if Less I d i (i - 1) then False else sorted_loop I d (i - 1)) else True)"

declare sorted_loop.simps [simp del]

definition IsSorted :: "'d Interface \<Rightarrow> 'd \<Rightarrow> bool" where
  "IsSorted I d = sorted_loop I d (Len I d - 1)"

definition IntsAreSorted :: "int list \<Rightarrow> bool" where
  "IntsAreSorted x = IsSorted IntSlice x"

definition StringsAreSorted :: "byte list list \<Rightarrow> bool" where
  "StringsAreSorted x = IsSorted StringSlice x"

subsection \<open>Binary search\<close>

function search_loop :: "(nat \<Rightarrow> bool) \<Rightarrow> nat \<Rightarrow> nat \<Rightarrow> nat" where
  "search_loop f i j =
     (if i < j then (let h = (i + j) div 2 in if \<not> f h then search_loop f (h + 1) j else search_loop f i h)
      else i)"
  by pat_completeness auto
termination by (relation "measure (\<lambda>(_, i, j). j - i)") auto

declare search_loop.simps [simp del]

definition Search :: "nat \<Rightarrow> (nat \<Rightarrow> bool) \<Rightarrow> nat" where
  "Search n f = search_loop f 0 n"

definition SearchInts :: "int list \<Rightarrow> int \<Rightarrow> nat" where
  "SearchInts a x = Search (length a) (\<lambda>i. a ! i \<ge> x)"

definition SearchStrings :: "byte list list \<Rightarrow> byte list \<Rightarrow> nat" where
  "SearchStrings a x = Search (length a) (\<lambda>i. \<not> string_less (a ! i) x)"

end
