(* ===== verification/Sort_Laws.thy ===== *)
theory Sort_Laws
  imports Sort_Model
begin

section \<open>The laws of sort.Interface and correctness of Sort\<close>

text \<open>
  What the package relies on, as a locale: the collection stands for a list, \<open>Less\<close> compares two
  of its elements and \<open>Swap\<close> exchanges two (\<open>sort_interface\<close>), and the comparison is a strict
  weak order, as the documentation of \<open>Less\<close> requires (\<open>sort_order\<close>). The laws say nothing
  about indices out of range, so that what follows from them also shows that the algorithms do
  not depend on any access out of range.
\<close>

subsection \<open>Permutations within a range\<close>

definition perm_in :: "nat \<Rightarrow> nat \<Rightarrow> 'a list \<Rightarrow> 'a list \<Rightarrow> bool" where
  "perm_in lo hi xs ys \<longleftrightarrow> length ys = length xs \<and> mset ys = mset xs \<and>
     (\<forall>i<length xs. i < lo \<or> hi \<le> i \<longrightarrow> ys ! i = xs ! i)"

lemma perm_in_refl [simp]: "perm_in lo hi xs xs"
  by (simp add: perm_in_def)

lemma perm_in_trans [trans]: "perm_in lo hi xs ys \<Longrightarrow> perm_in lo hi ys zs \<Longrightarrow> perm_in lo hi xs zs"
  by (simp add: perm_in_def)

lemma perm_in_mono: "perm_in lo hi xs ys \<Longrightarrow> lo' \<le> lo \<Longrightarrow> hi \<le> hi' \<Longrightarrow> perm_in lo' hi' xs ys"
  by (auto simp: perm_in_def)

lemma perm_in_length: "perm_in lo hi xs ys \<Longrightarrow> length ys = length xs"
  by (simp add: perm_in_def)

lemma perm_in_outside: "perm_in lo hi xs ys \<Longrightarrow> i < length xs \<Longrightarrow> i < lo \<or> hi \<le> i \<Longrightarrow> ys ! i = xs ! i"
  unfolding perm_in_def by blast

lemma slice_swap_nth:
  "i < length xs \<Longrightarrow> j < length xs \<Longrightarrow> k < length xs \<Longrightarrow>
     slice_swap xs i j ! k = (if k = j then xs ! i else if k = i then xs ! j else xs ! k)"
  by (auto simp: slice_swap_def nth_list_update)

lemma length_slice_swap [simp]: "length (slice_swap xs i j) = length xs"
  by (simp add: slice_swap_def)

lemma perm_in_swap:
  assumes "lo \<le> i" "i < hi" "lo \<le> j" "j < hi" "hi \<le> length xs"
  shows "perm_in lo hi xs (slice_swap xs i j)"
proof -
  have "mset (slice_swap xs i j) = mset xs"
    using assms by (simp add: slice_swap_def mset_swap)
  then show ?thesis
    using assms by (auto simp: perm_in_def slice_swap_nth)
qed

lemma perm_in_slice:
  assumes "perm_in lo hi xs ys" and "lo \<le> hi" and "hi \<le> length xs"
  shows "mset (take (hi - lo) (drop lo ys)) = mset (take (hi - lo) (drop lo xs))"
proof -
  have len: "length ys = length xs" using assms(1) by (rule perm_in_length)
  have "take lo ys = take lo xs" "drop hi ys = drop hi xs"
    using assms by (auto intro!: nth_equalityI simp: len perm_in_outside [OF assms(1)])
  moreover have split: "zs = take lo zs @ take (hi - lo) (drop lo zs) @ drop hi zs" for zs :: "'a list"
    using assms(2) append_take_drop_id [of "hi - lo" "drop lo zs"] by simp
  then have "mset ys = mset (take lo ys) + mset (take (hi - lo) (drop lo ys)) + mset (drop hi ys)"
    "mset xs = mset (take lo xs) + mset (take (hi - lo) (drop lo xs)) + mset (drop hi xs)"
    by (metis mset_append add.assoc)+
  ultimately show ?thesis using assms(1) by (simp add: perm_in_def)
qed

lemma in_slice_iff:
  assumes "lo \<le> hi" and "hi \<le> length xs"
  shows "x \<in> set (take (hi - lo) (drop lo xs)) \<longleftrightarrow> (\<exists>i. lo \<le> i \<and> i < hi \<and> xs ! i = x)"
proof
  assume "x \<in> set (take (hi - lo) (drop lo xs))"
  then obtain k where "k < hi - lo" "x = xs ! (lo + k)"
    using assms by (auto simp: in_set_conv_nth)
  then show "\<exists>i. lo \<le> i \<and> i < hi \<and> xs ! i = x" by (intro exI [of _ "lo + k"]) auto
next
  assume "\<exists>i. lo \<le> i \<and> i < hi \<and> xs ! i = x"
  then obtain i where "lo \<le> i" "i < hi" "xs ! i = x" by blast
  then have "take (hi - lo) (drop lo xs) ! (i - lo) = x" "i - lo < length (take (hi - lo) (drop lo xs))"
    using assms by auto
  then show "x \<in> set (take (hi - lo) (drop lo xs))" by (metis nth_mem)
qed

text \<open>What holds of all elements of a range holds of them after any permutation of the range.\<close>

lemma perm_in_all:
  assumes "perm_in lo hi xs ys" and "hi \<le> length xs"
    and "\<And>i. lo \<le> i \<Longrightarrow> i < hi \<Longrightarrow> P (xs ! i)" and "lo \<le> i" and "i < hi"
  shows "P (ys ! i)"
proof -
  have "ys ! i \<in> set (take (hi - lo) (drop lo ys))"
    using assms by (subst in_slice_iff) (auto simp: perm_in_length)
  also have "set (take (hi - lo) (drop lo ys)) = set (take (hi - lo) (drop lo xs))"
    using perm_in_slice [OF assms(1) _ assms(2)] assms(4,5) by (metis mset_eq_setD less_imp_le le_less_trans)
  finally obtain k where "lo \<le> k" "k < hi" "xs ! k = ys ! i"
    using assms by (subst (asm) in_slice_iff) auto
  then show ?thesis using assms(3) by metis
qed

subsection \<open>The interface\<close>

locale sort_interface =
  fixes I :: "'d Interface" and elems :: "'d \<Rightarrow> 'a list" and lt :: "'a \<Rightarrow> 'a \<Rightarrow> bool"
  assumes Len: "Len I d = length (elems d)"
    and Less: "i < length (elems d) \<Longrightarrow> j < length (elems d) \<Longrightarrow> Less I d i j = lt (elems d ! i) (elems d ! j)"
    and Swap: "i < length (elems d) \<Longrightarrow> j < length (elems d) \<Longrightarrow> elems (Swap I d i j) = slice_swap (elems d) i j"
begin

lemma Swap_perm:
  "lo \<le> i \<Longrightarrow> i < hi \<Longrightarrow> lo \<le> j \<Longrightarrow> j < hi \<Longrightarrow> hi \<le> length (elems d) \<Longrightarrow>
     perm_in lo hi (elems d) (elems (Swap I d i j))"
  by (simp add: Swap perm_in_swap)

end

locale sort_order = sort_interface I elems lt
  for I :: "'d Interface" and elems :: "'d \<Rightarrow> 'a list" and lt :: "'a \<Rightarrow> 'a \<Rightarrow> bool" +
  assumes asym: "lt x y \<Longrightarrow> \<not> lt y x"
    and neg_trans: "\<not> lt x y \<Longrightarrow> \<not> lt y z \<Longrightarrow> \<not> lt x z"
begin

lemma irrefl [simp]: "\<not> lt x x"
  using asym by blast

lemma lt_trans: "lt x y \<Longrightarrow> lt y z \<Longrightarrow> lt x z"
  using asym neg_trans by blast

lemma less_le_trans: "lt x y \<Longrightarrow> \<not> lt z y \<Longrightarrow> lt x z"
  using neg_trans by blast

lemma le_less_trans: "\<not> lt y x \<Longrightarrow> lt y z \<Longrightarrow> lt x z"
  using neg_trans by blast

lemma Reverse_order: "sort_order (Reverse I) elems (\<lambda>x y. lt y x)"
  by unfold_locales (auto simp: Reverse_def Len Less Swap dest: asym neg_trans)

text \<open>A range is sorted when no later element is less than an earlier one.\<close>

definition sorted_range :: "nat \<Rightarrow> nat \<Rightarrow> 'a list \<Rightarrow> bool" where
  "sorted_range lo hi xs \<longleftrightarrow> (\<forall>i j. lo \<le> i \<and> i < j \<and> j < hi \<longrightarrow> \<not> lt (xs ! j) (xs ! i))"

lemma sorted_range_trivial: "hi \<le> lo + 1 \<Longrightarrow> sorted_range lo hi xs"
  by (auto simp: sorted_range_def)

lemma insert_down_sorts:
  assumes "a \<le> j" "j \<le> i" "i < length (elems d)"
    and "\<And>p q. a \<le> p \<Longrightarrow> p < q \<Longrightarrow> q \<le> i \<Longrightarrow> p \<noteq> j \<Longrightarrow> q \<noteq> j \<Longrightarrow> \<not> lt (elems d ! q) (elems d ! p)"
    and "\<And>q. j < q \<Longrightarrow> q \<le> i \<Longrightarrow> \<not> lt (elems d ! q) (elems d ! j)"
  shows "perm_in a (i + 1) (elems d) (elems (insert_down I d a j)) \<and>
    sorted_range a (i + 1) (elems (insert_down I d a j))"
  using assms
proof (induction j arbitrary: d)
  case 0
  then show ?case
    by (subst (1 2) insert_down.simps) (auto simp: sorted_range_def, metis gr0I less_Suc_eq_le)
next
  case (Suc j)
  let ?xs = "elems d" and ?d = "Swap I d (Suc j) j"
  show ?case
  proof (cases "a < Suc j \<and> lt (?xs ! Suc j) (?xs ! j)")
    case True
    have ys: "elems ?d = slice_swap ?xs (Suc j) j" using Suc.prems by (simp add: Swap)
    have nth: "elems ?d ! k = (if k = j then ?xs ! Suc j else if k = Suc j then ?xs ! j else ?xs ! k)"
      if "k \<le> i" for k using that Suc.prems by (simp add: ys slice_swap_nth)
    have "perm_in a (i + 1) (elems ?d) (elems (insert_down I ?d a j)) \<and>
        sorted_range a (i + 1) (elems (insert_down I ?d a j))"
    proof (rule Suc.IH)
      show "\<not> lt (elems ?d ! q) (elems ?d ! p)" if "a \<le> p" "p < q" "q \<le> i" "p \<noteq> j" "q \<noteq> j" for p q
        using that Suc.prems(4) [of p "if q = Suc j then j else q"] Suc.prems(4) [of j q]
          Suc.prems(1) True by (auto simp: nth split: if_splits)
      show "\<not> lt (elems ?d ! q) (elems ?d ! j)" if "j < q" "q \<le> i" for q
        using that Suc.prems(5) [of q] True asym by (auto simp: nth)
    qed (use Suc.prems True in \<open>auto simp: ys\<close>)
    moreover have "perm_in a (i + 1) ?xs (elems ?d)"
      using Suc.prems True by (intro Swap_perm) auto
    moreover have "insert_down I d a (Suc j) = insert_down I ?d a j"
      using Suc.prems True by (subst insert_down.simps) (simp add: Less)
    ultimately show ?thesis by (auto intro: perm_in_trans)
  next
    case False
    have "insert_down I d a (Suc j) = d"
      using Suc.prems False by (subst insert_down.simps) (auto simp: Less)
    moreover have "\<not> lt (?xs ! q) (?xs ! p)" if "a \<le> p" "p < q" "q \<le> i" for p q
    proof (cases "p = Suc j \<or> q \<noteq> Suc j")
      case True
      then show ?thesis using that Suc.prems(4,5) by (cases "p = Suc j") auto
    next
      case f: False
      then have "\<not> lt (?xs ! Suc j) (?xs ! j)" using False that by auto
      moreover have "\<not> lt (?xs ! j) (?xs ! p)" using f that Suc.prems(2) Suc.prems(4) [of p j] by (cases "p = j") auto
      ultimately show ?thesis using f neg_trans by auto
    qed
    ultimately show ?thesis by (simp add: sorted_range_def)
  qed
qed

lemma insertion_loop_sorts:
  assumes "a \<le> i" "i \<le> b" "b \<le> length (elems d)" "sorted_range a i (elems d)"
  shows "perm_in a b (elems d) (elems (insertion_loop I d a i b)) \<and>
    sorted_range a b (elems (insertion_loop I d a i b))"
  using assms
proof (induction "b - i" arbitrary: i d)
  case 0
  then show ?case by (subst (1 2) insertion_loop.simps) simp
next
  case (Suc n)
  let ?d = "insert_down I d a i"
  have 1: "perm_in a (i + 1) (elems d) (elems ?d) \<and> sorted_range a (i + 1) (elems ?d)"
    by (rule insert_down_sorts) (use Suc.hyps(2) Suc.prems in \<open>auto simp: sorted_range_def\<close>)
  then have 2: "perm_in a b (elems d) (elems ?d)" using Suc.hyps(2) by (auto intro: perm_in_mono)
  have "perm_in a b (elems ?d) (elems (insertion_loop I ?d a (i + 1) b)) \<and>
      sorted_range a b (elems (insertion_loop I ?d a (i + 1) b))"
    using Suc.hyps(2) Suc.prems 1 by (intro Suc.hyps(1)) (auto simp: perm_in_length [OF 2])
  then show ?case using Suc.hyps(2) 2 by (subst (1 2) insertion_loop.simps) (auto intro: perm_in_trans)
qed

lemma insertionSort_sorts:
  assumes "a < b" "b \<le> length (elems d)"
  shows "perm_in a b (elems d) (elems (insertionSort I d a b)) \<and>
    sorted_range a b (elems (insertionSort I d a b))"
  unfolding insertionSort_def using assms by (intro insertion_loop_sorts) (auto simp: sorted_range_def)

lemma shell_pass_perm:
  assumes "a + 6 \<le> i" "b \<le> length (elems d)"
  shows "perm_in a b (elems d) (elems (shell_pass I d i b))"
  using assms
proof (induction "b - i" arbitrary: i d)
  case 0
  then show ?case by (subst shell_pass.simps) simp
next
  case (Suc n)
  let ?d = "if Less I d i (i - 6) then Swap I d i (i - 6) else d"
  have 1: "perm_in a b (elems d) (elems ?d)" using Suc.hyps(2) Suc.prems by (auto intro!: Swap_perm)
  have "perm_in a b (elems ?d) (elems (shell_pass I ?d (i + 1) b))"
    using Suc.hyps(2) Suc.prems perm_in_length [OF 1] by (intro Suc.hyps(1)) auto
  with 1 show ?case using Suc.hyps(2) by (subst shell_pass.simps) (auto intro: perm_in_trans)
qed

subsection \<open>Heap sort\<close>

definition child :: "nat \<Rightarrow> nat \<Rightarrow> bool" where
  "child r c \<longleftrightarrow> c = 2 * r + 1 \<or> c = 2 * r + 2"

text \<open>The nodes from \<open>lo\<close> up to \<open>hi\<close> satisfy the heap order, except at \<open>root\<close>.\<close>

definition heap_ex :: "nat \<Rightarrow> nat \<Rightarrow> nat \<Rightarrow> nat \<Rightarrow> 'a list \<Rightarrow> bool" where
  "heap_ex lo hi first root xs \<longleftrightarrow>
     (\<forall>r c. lo \<le> r \<and> child r c \<and> c < hi \<and> r \<noteq> root \<longrightarrow> \<not> lt (xs ! (first + r)) (xs ! (first + c))) \<and>
     (\<forall>p c. lo \<le> p \<and> child p root \<and> child root c \<and> c < hi \<longrightarrow> \<not> lt (xs ! (first + p)) (xs ! (first + c)))"

definition is_heap :: "nat \<Rightarrow> nat \<Rightarrow> nat \<Rightarrow> 'a list \<Rightarrow> bool" where
  "is_heap lo hi first xs \<longleftrightarrow>
     (\<forall>r c. lo \<le> r \<and> child r c \<and> c < hi \<longrightarrow> \<not> lt (xs ! (first + r)) (xs ! (first + c)))"

lemma heap_ex_heap:
  assumes "heap_ex lo hi first root xs" and "\<And>c. child root c \<Longrightarrow> c < hi \<Longrightarrow> \<not> lt (xs ! (first + root)) (xs ! (first + c))"
  shows "is_heap lo hi first xs"
  unfolding is_heap_def
proof (intro allI impI)
  fix r c assume "lo \<le> r \<and> child r c \<and> c < hi"
  then show "\<not> lt (xs ! (first + r)) (xs ! (first + c))"
    using assms by (cases "r = root") (auto simp: heap_ex_def)
qed

lemma heap_ex_swap:
  assumes h: "heap_ex lo hi first root xs" and ch: "child root ch" "ch < hi" "first + hi \<le> length xs" "lo \<le> root"
    and lt: "lt (xs ! (first + root)) (xs ! (first + ch))"
    and max: "\<And>c. child root c \<Longrightarrow> c < hi \<Longrightarrow> \<not> lt (xs ! (first + ch)) (xs ! (first + c))"
  shows "heap_ex lo hi first ch (slice_swap xs (first + root) (first + ch))"
proof -
  have less: "root < ch" using ch by (auto simp: child_def)
  have nth: "slice_swap xs (first + root) (first + ch) ! (first + k) =
      (if k = ch then xs ! (first + root) else if k = root then xs ! (first + ch) else xs ! (first + k))"
    if "k < hi" for k
    using that ch less by (simp add: slice_swap_nth)
  have par: "r = root" if "child r ch" for r using that ch(1) by (auto simp: child_def)
  have up: "r < c" if "child r c" for r c using that by (auto simp: child_def)
  note h1 = h [unfolded heap_ex_def, THEN conjunct1, rule_format]
  note h2 = h [unfolded heap_ex_def, THEN conjunct2, rule_format]
  show ?thesis unfolding heap_ex_def
  proof (intro conjI allI impI)
    fix r c assume a: "lo \<le> r \<and> child r c \<and> c < hi \<and> r \<noteq> ch"
    show "\<not> lt (slice_swap xs (first + root) (first + ch) ! (first + r))
            (slice_swap xs (first + root) (first + ch) ! (first + c))"
    proof (cases "r = root")
      case True
      then show ?thesis using a less asym [OF lt] max [of c] up [of r c] by (simp add: nth)
    next
      case False
      then have "c \<noteq> ch" using par a by blast
      then show ?thesis using a False up [of r c] h1 [of r c] h2 [of r ch] ch by (auto simp: nth)
    qed
  next
    fix p c assume a: "lo \<le> p \<and> child p ch \<and> child ch c \<and> c < hi"
    then have "p = root" using par by blast
    then show "\<not> lt (slice_swap xs (first + root) (first + ch) ! (first + p))
            (slice_swap xs (first + root) (first + ch) ! (first + c))"
      using a less up [of ch c] h1 [of ch c] ch by (auto simp: nth)
  qed
qed

lemma siftDown_heap:
  assumes "heap_ex lo hi first root (elems d)" "lo \<le> root" "first + hi \<le> length (elems d)"
  shows "perm_in (first + lo) (first + hi) (elems d) (elems (siftDown I d root hi first)) \<and>
    is_heap lo hi first (elems (siftDown I d root hi first))"
  using assms
proof (induction "hi - root" arbitrary: root d rule: less_induct)
  case less
  let ?xs = "elems d"
  show ?case
  proof (cases "2 * root + 1 \<ge> hi")
    case True
    then have "siftDown I d root hi first = d" by (subst siftDown.simps) simp
    moreover have "is_heap lo hi first ?xs"
      using True by (intro heap_ex_heap [OF less.prems(1)]) (auto simp: child_def)
    ultimately show ?thesis by simp
  next
    case False
    define ch where "ch = (if 2 * root + 1 + 1 < hi \<and> lt (?xs ! (first + (2 * root + 1))) (?xs ! (first + (2 * root + 1) + 1))
      then 2 * root + 1 + 1 else 2 * root + 1)"
    have ch: "child root ch" "ch < hi" using False by (auto simp: ch_def child_def)
    have max: "\<not> lt (?xs ! (first + ch)) (?xs ! (first + c))" if "child root c" "c < hi" for c
      using that asym by (auto simp: ch_def child_def)
    have pick: "(if 2 * root + 1 + 1 < hi \<and> Less I d (first + (2 * root + 1)) (first + (2 * root + 1) + 1)
        then 2 * root + 1 + 1 else 2 * root + 1) = ch"
      using less.prems(3) by (auto simp: ch_def Less)
    have "Less I d (first + root) (first + ch) = lt (?xs ! (first + root)) (?xs ! (first + ch))"
      using ch less.prems(3) by (intro Less) (auto simp: child_def)
    then have step: "siftDown I d root hi first =
        (if \<not> lt (?xs ! (first + root)) (?xs ! (first + ch)) then d
         else siftDown I (Swap I d (first + root) (first + ch)) ch hi first)"
      using False by (subst siftDown.simps) (simp only: Let_def pick if_False)
    show ?thesis
    proof (cases "lt (?xs ! (first + root)) (?xs ! (first + ch))")
      case True
      let ?d = "Swap I d (first + root) (first + ch)"
      have less': "root < ch" using ch by (auto simp: child_def)
      have ys: "elems ?d = slice_swap ?xs (first + root) (first + ch)"
        using ch less' less.prems(3) by (intro Swap) auto
      have "perm_in (first + lo) (first + hi) (elems ?d) (elems (siftDown I ?d ch hi first)) \<and>
          is_heap lo hi first (elems (siftDown I ?d ch hi first))"
      proof (rule less.hyps)
        show "heap_ex lo hi first ch (elems ?d)"
          unfolding ys by (rule heap_ex_swap [OF less.prems(1) ch less.prems(3,2) True max])
      qed (use ch less' less.prems in \<open>auto simp: ys\<close>)
      moreover have "perm_in (first + lo) (first + hi) ?xs (elems ?d)"
        using ch less' less.prems by (intro Swap_perm) auto
      ultimately show ?thesis using True step by (auto intro: perm_in_trans)
    next
      case False
      then have "is_heap lo hi first ?xs"
        using max neg_trans by (intro heap_ex_heap [OF less.prems(1)]) blast
      with False step show ?thesis by simp
    qed
  qed
qed

end

end
