(* ===== verification/Sort_Pivot.thy ===== *)
theory Sort_Pivot
  imports Sort_Correct
begin

section \<open>Partitioning and quick sort\<close>

text \<open>
  What \<open>doPivot\<close> promises (\<open>partitioned\<close>) and that its scans keep it: below the pivot, equal to the
  pivot, above the pivot.
\<close>

definition all_in :: "nat \<Rightarrow> nat \<Rightarrow> 'a list \<Rightarrow> ('a \<Rightarrow> bool) \<Rightarrow> bool" where
  "all_in lo hi xs Q \<longleftrightarrow> (\<forall>i. lo \<le> i \<and> i < hi \<longrightarrow> Q (xs ! i))"

lemma all_in_empty [simp]: "hi \<le> lo \<Longrightarrow> all_in lo hi xs Q"
  by (auto simp: all_in_def)

lemma all_in_Suc: "all_in lo hi xs Q \<Longrightarrow> Q (xs ! hi) \<Longrightarrow> all_in lo (Suc hi) xs Q"
  by (auto simp: all_in_def less_Suc_eq)

lemma all_in_from: "Q (xs ! lo) \<Longrightarrow> all_in (Suc lo) hi xs Q \<Longrightarrow> all_in lo hi xs Q"
  by (auto simp: all_in_def) (metis le_eq_less_or_eq Suc_le_eq)

lemma all_inD: "all_in lo hi xs Q \<Longrightarrow> lo \<le> i \<Longrightarrow> i < hi \<Longrightarrow> Q (xs ! i)"
  by (simp add: all_in_def)

lemma all_in_mono: "all_in lo hi xs Q \<Longrightarrow> lo \<le> lo' \<Longrightarrow> hi' \<le> hi \<Longrightarrow> (\<And>x. Q x \<Longrightarrow> R x) \<Longrightarrow> all_in lo' hi' xs R"
  by (auto simp: all_in_def)

lemma all_in_join: "all_in lo mid xs Q \<Longrightarrow> all_in mid hi xs Q \<Longrightarrow> all_in lo hi xs Q"
  by (auto simp: all_in_def) (metis not_le)

lemma all_in_outside:
  assumes "all_in lo hi xs Q" "perm_in a b xs ys" "hi \<le> length xs" "hi \<le> a \<or> b \<le> lo"
  shows "all_in lo hi ys Q"
  using assms by (auto simp: all_in_def perm_in_outside)

lemma all_in_perm:
  assumes "all_in lo hi xs Q" "perm_in lo hi xs ys" "hi \<le> length xs"
  shows "all_in lo hi ys Q"
  using perm_in_all [OF assms(2,3), of Q] assms(1) by (auto simp: all_in_def)

context sort_order
begin

lemma medianOfThree_perm:
  assumes "lo \<le> m0" "m0 < hi" "lo \<le> m1" "m1 < hi" "lo \<le> m2" "m2 < hi" "hi \<le> length (elems d)"
  shows "perm_in lo hi (elems d) (elems (medianOfThree I d m1 m0 m2))"
proof -
  have swap: "perm_in lo hi (elems d) (elems (if P then Swap I d' i j else d'))"
    if "perm_in lo hi (elems d) (elems d')" "lo \<le> i" "i < hi" "lo \<le> j" "j < hi" for P d' i j
    using perm_in_trans [OF that(1) Swap_perm [OF that(2-5)]] that(1) assms(7) perm_in_length [OF that(1)] by simp
  have "perm_in lo hi (elems d) (elems (if Less I d m1 m0 then Swap I d m1 m0 else d))"
    (is "perm_in lo hi _ (elems ?d1)") using assms by (intro swap) auto
  then have 2: "perm_in lo hi (elems d) (elems (if Less I ?d1 m2 m1 then Swap I ?d1 m2 m1 else ?d1))"
    using assms by (intro swap) auto
  show ?thesis
  proof (cases "Less I ?d1 m2 m1")
    case True
    have "perm_in lo hi (elems d) (elems (if Less I (Swap I ?d1 m2 m1) m1 m0 then Swap I (Swap I ?d1 m2 m1) m1 m0
        else Swap I ?d1 m2 m1))"
      using 2 True assms by (intro swap) auto
    then show ?thesis using True by (simp add: medianOfThree_def Let_def split del: if_split)
  next
    case False
    then show ?thesis using 2 by (simp add: medianOfThree_def Let_def split del: if_split)
  qed
qed

lemma medianOfThree_order:
  assumes "m0 < length (elems d)" "m1 < length (elems d)" "m2 < length (elems d)"
    and "m0 \<noteq> m1" "m1 \<noteq> m2" "m0 \<noteq> m2"
  shows "\<not> lt (elems (medianOfThree I d m1 m0 m2) ! m1) (elems (medianOfThree I d m1 m0 m2) ! m0) \<and>
    \<not> lt (elems (medianOfThree I d m1 m0 m2) ! m2) (elems (medianOfThree I d m1 m0 m2) ! m1)"
proof -
  let ?x0 = "elems d ! m0" and ?x1 = "elems d ! m1" and ?x2 = "elems d ! m2"
  note [simp] = medianOfThree_def Let_def Less Swap slice_swap_nth assms assms(4-6) [THEN not_sym]
  show ?thesis
  proof (cases "lt ?x1 ?x0")
    case True
    then have "\<not> lt ?x0 ?x1" by (rule asym)
    then show ?thesis using True asym [of ?x2 ?x0] asym [of ?x2 ?x1]
      by (cases "lt ?x2 ?x0"; cases "lt ?x2 ?x1") auto
  next
    case False
    then show ?thesis using asym [of ?x2 ?x1] asym [of ?x2 ?x0]
      by (cases "lt ?x2 ?x1"; cases "lt ?x2 ?x0") auto
  qed
qed

lemma choose_pivot_ok:
  assumes "lo + 12 < hi" "hi \<le> length (elems d)"
  shows "perm_in lo hi (elems d) (elems (choose_pivot I d lo hi)) \<and>
    \<not> lt (elems (choose_pivot I d lo hi) ! (hi - 1)) (elems (choose_pivot I d lo hi) ! lo)"
proof -
  define s where "s = (hi - lo) div 8"
  define m where "m = (lo + hi) div 2"
  have s: "8 * s \<le> hi - lo" "s \<le> m" and m: "lo < m" "m < hi - 1" "lo + 3 * s \<le> m" "m + 3 * s < hi"
    using assms(1) by (auto simp: s_def m_def)
  define d1 where "d1 = (if hi - lo > 40
    then medianOfThree I (medianOfThree I (medianOfThree I d lo (lo + s) (lo + 2 * s)) m (m - s) (m + s))
      (hi - 1) (hi - 1 - s) (hi - 1 - 2 * s) else d)"
  have perm: "perm_in lo hi (elems d) (elems (medianOfThree I d' m1 m0 m2))"
    if "perm_in lo hi (elems d) (elems d')" "lo \<le> m0" "m0 < hi" "lo \<le> m1" "m1 < hi" "lo \<le> m2" "m2 < hi" for d' m1 m0 m2
    using perm_in_trans [OF that(1) medianOfThree_perm [OF that(2-7)]] assms(2) perm_in_length [OF that(1)] by simp
  have 1: "perm_in lo hi (elems d) (elems d1)"
    unfolding d1_def using s m assms(1) by (auto intro!: perm)
  have "choose_pivot I d lo hi = medianOfThree I d1 lo m (hi - 1)"
    by (simp only: choose_pivot_def Let_def d1_def s_def m_def)
  moreover have "\<not> lt (elems (medianOfThree I d1 lo m (hi - 1)) ! (hi - 1)) (elems (medianOfThree I d1 lo m (hi - 1)) ! lo)"
    using medianOfThree_order [of m d1 lo "hi - 1"] m assms perm_in_length [OF 1] by auto
  moreover have "perm_in lo hi (elems d) (elems (medianOfThree I d1 lo m (hi - 1)))"
    using m assms by (intro perm [OF 1]) auto
  ultimately show ?thesis by simp
qed

lemma skip_less_ok:
  assumes "a \<le> c" "c \<le> length (elems d)" "p < length (elems d)"
  shows "skip_less I d p a c \<le> c \<and> all_in a (skip_less I d p a c) (elems d) (\<lambda>x. lt x (elems d ! p)) \<and>
    (skip_less I d p a c < c \<longrightarrow> \<not> lt (elems d ! skip_less I d p a c) (elems d ! p))"
  using assms(1)
proof (induction a rule: inc_induct)
  case base
  have "skip_less I d p c c = c" by (subst skip_less.simps) simp
  then show ?case by simp
next
  case (step a)
  have eq: "skip_less I d p a c = (if lt (elems d ! a) (elems d ! p) then skip_less I d p (Suc a) c else a)"
    using step.hyps assms(2,3) by (subst skip_less.simps) (simp add: Less)
  have "all_in a (skip_less I d p (Suc a) c) (elems d) (\<lambda>x. lt x (elems d ! p))" if "lt (elems d ! a) (elems d ! p)"
    by (rule all_in_from) (use that step.IH in simp_all)
  then show ?case using step by (cases "lt (elems d ! a) (elems d ! p)") (simp_all add: eq)
qed

lemma skip_le_ok:
  assumes "b \<le> c" "c \<le> length (elems d)" "p < length (elems d)"
  shows "skip_le I d p b c \<le> c \<and> all_in b (skip_le I d p b c) (elems d) (\<lambda>x. \<not> lt (elems d ! p) x) \<and>
    (skip_le I d p b c < c \<longrightarrow> lt (elems d ! p) (elems d ! skip_le I d p b c))"
  using assms(1)
proof (induction b rule: inc_induct)
  case base
  have "skip_le I d p c c = c" by (subst skip_le.simps) simp
  then show ?case by simp
next
  case (step b)
  have eq: "skip_le I d p b c = (if \<not> lt (elems d ! p) (elems d ! b) then skip_le I d p (Suc b) c else b)"
    using step.hyps assms(2,3) by (subst skip_le.simps) (simp add: Less)
  have "all_in b (skip_le I d p (Suc b) c) (elems d) (\<lambda>x. \<not> lt (elems d ! p) x)" if "\<not> lt (elems d ! p) (elems d ! b)"
    by (rule all_in_from) (use that step.IH in simp_all)
  then show ?case using step.IH step.hyps unfolding eq by simp
qed

lemma skip_gt_ok:
  assumes "b \<le> c" "c \<le> length (elems d)" "p < length (elems d)"
  shows "b \<le> skip_gt I d p b c \<and> all_in (skip_gt I d p b c) c (elems d) (\<lambda>x. lt (elems d ! p) x) \<and>
    (b < skip_gt I d p b c \<longrightarrow> \<not> lt (elems d ! p) (elems d ! (skip_gt I d p b c - 1)))"
  using assms(1,2)
proof (induction c rule: dec_induct)
  case base
  have "skip_gt I d p b b = b" by (subst skip_gt.simps) simp
  then show ?case by simp
next
  case (step c)
  have eq: "skip_gt I d p b (Suc c) = (if lt (elems d ! p) (elems d ! c) then skip_gt I d p b c else Suc c)"
    using step.hyps step.prems assms(3) by (subst skip_gt.simps) (simp add: Less)
  have "all_in (skip_gt I d p b c) (Suc c) (elems d) (\<lambda>x. lt (elems d ! p) x)" if "lt (elems d ! p) (elems d ! c)"
    using that step by (simp add: all_in_Suc)
  then show ?case using step by (cases "lt (elems d ! p) (elems d ! c)") (simp_all add: eq)
qed

lemma skip_ge_ok:
  assumes "a \<le> b" "b \<le> length (elems d)" "p < length (elems d)"
  shows "a \<le> skip_ge I d p a b \<and> all_in (skip_ge I d p a b) b (elems d) (\<lambda>x. \<not> lt x (elems d ! p)) \<and>
    (a < skip_ge I d p a b \<longrightarrow> lt (elems d ! (skip_ge I d p a b - 1)) (elems d ! p))"
  using assms(1,2)
proof (induction b rule: dec_induct)
  case base
  have "skip_ge I d p a a = a" by (subst skip_ge.simps) simp
  then show ?case by simp
next
  case (step b)
  have eq: "skip_ge I d p a (Suc b) = (if \<not> lt (elems d ! b) (elems d ! p) then skip_ge I d p a b else Suc b)"
    using step.hyps step.prems assms(3) by (subst skip_ge.simps) (simp add: Less)
  have "all_in (skip_ge I d p a b) (Suc b) (elems d) (\<lambda>x. \<not> lt x (elems d ! p))" if "\<not> lt (elems d ! b) (elems d ! p)"
    using that step by (simp add: all_in_Suc)
  then show ?case using step by (cases "lt (elems d ! b) (elems d ! p)") (simp_all add: eq)
qed

text \<open>The partition loop leaves what is at most the pivot below and what is greater above.\<close>

lemma partition_loop_ok:
  assumes "p < b" "b \<le> c" "c \<le> length (elems d)" and "partition_loop I p d b c = (d', b', c')"
  shows "perm_in b c (elems d) (elems d') \<and> b \<le> b' \<and> b' = c' \<and> c' \<le> c \<and>
    all_in b b' (elems d') (\<lambda>x. \<not> lt (elems d ! p) x) \<and> all_in c' c (elems d') (\<lambda>x. lt (elems d ! p) x)"
  using assms
proof (induction "c - b" arbitrary: b c d rule: less_induct)
  case less
  let ?P = "elems d ! p"
  define b1 where "b1 = skip_le I d p b c"
  define c1 where "c1 = skip_gt I d p b1 c"
  have b1: "b \<le> b1" "b1 \<le> c" "all_in b b1 (elems d) (\<lambda>x. \<not> lt ?P x)" "b1 < c \<Longrightarrow> lt ?P (elems d ! b1)"
    using skip_le_ok [of b c d p] skip_bounds(2) [of b I d p c] less.prems by (auto simp: b1_def)
  have c1: "b1 \<le> c1" "c1 \<le> c" "all_in c1 c (elems d) (\<lambda>x. lt ?P x)" "b1 < c1 \<Longrightarrow> \<not> lt ?P (elems d ! (c1 - 1))"
    using skip_gt_ok [of b1 c d p] skip_bounds(3) [of I d p b1 c] b1(2) less.prems by (auto simp: c1_def)
  have eq: "partition_loop I p d b c =
      (if b1 \<ge> c1 then (d, b1, c1) else partition_loop I p (Swap I d b1 (c1 - 1)) (b1 + 1) (c1 - 1))"
    by (subst partition_loop.simps) (simp add: Let_def b1_def c1_def)
  show ?case
  proof (cases "b1 < c1")
    case False
    then show ?thesis using eq b1 c1 less.prems(4) by auto
  next
    case True
    let ?d = "Swap I d b1 (c1 - 1)"
    have "b1 \<noteq> c1 - 1" using b1(4) c1(2,4) True by auto
    then have lt: "b1 + 1 \<le> c1 - 1" using True by auto
    have ys: "elems ?d = slice_swap (elems d) b1 (c1 - 1)" using lt c1(2) less.prems by (intro Swap) auto
    have nth: "elems ?d ! k = (if k = c1 - 1 then elems d ! b1 else if k = b1 then elems d ! (c1 - 1) else elems d ! k)"
      if "k < length (elems d)" for k using that lt c1(2) less.prems unfolding ys by (subst slice_swap_nth) auto
    have len: "length (elems ?d) = length (elems d)" by (simp only: ys length_slice_swap)
    have P: "elems ?d ! p = ?P" using nth [of p] lt b1(1) less.prems by auto
    have p1: "perm_in b1 c1 (elems d) (elems ?d)" using lt c1(2) less.prems by (intro Swap_perm) auto
    have IH: "perm_in (b1 + 1) (c1 - 1) (elems ?d) (elems d') \<and> b1 + 1 \<le> b' \<and> b' = c' \<and> c' \<le> c1 - 1 \<and>
      all_in (b1 + 1) b' (elems d') (\<lambda>x. \<not> lt ?P x) \<and> all_in c' (c1 - 1) (elems d') (\<lambda>x. lt ?P x)"
      unfolding P [symmetric]
      by (rule less.hyps) (use lt b1(1) c1(2) less.prems True eq len in simp_all)
    then have p2: "perm_in b1 c1 (elems ?d) (elems d')" by (auto intro: perm_in_mono)
    have perm: "perm_in b1 c1 (elems d) (elems d')" by (rule perm_in_trans [OF p1 p2])
    have "elems d' ! b1 = elems ?d ! b1" "elems d' ! (c1 - 1) = elems ?d ! (c1 - 1)"
      using IH lt c1(2) less.prems by (auto simp del: One_nat_def simp: len intro!: perm_in_outside)
    then have "\<not> lt ?P (elems d' ! b1)" "lt ?P (elems d' ! (c1 - 1))"
      using nth [of b1] nth [of "c1 - 1"] b1(4) c1 lt less.prems by auto
    then have "all_in b1 b' (elems d') (\<lambda>x. \<not> lt ?P x)" "all_in c' c1 (elems d') (\<lambda>x. lt ?P x)"
      using IH lt all_in_Suc [of c' "c1 - 1"] by (auto intro: all_in_from)
    moreover have "all_in b b1 (elems d') (\<lambda>x. \<not> lt ?P x)" "all_in c1 c (elems d') (\<lambda>x. lt ?P x)"
      using all_in_outside [OF b1(3) perm] all_in_outside [OF c1(3) perm] b1(2) less.prems by auto
    ultimately show ?thesis
      using IH b1(1) c1(2) perm_in_mono [OF perm b1(1) c1(2)] by (auto intro: all_in_join)
  qed
qed

text \<open>The second loop separates what is less than the pivot from what equals it.\<close>

lemma protect_loop_ok:
  assumes "p < a" "a \<le> b" "b \<le> length (elems d)" and "protect_loop I p d a b = (d', a', b')"
  shows "perm_in a b (elems d) (elems d') \<and> a \<le> b' \<and> b' \<le> b \<and>
    all_in a b' (elems d') (\<lambda>x. lt x (elems d ! p)) \<and> all_in b' b (elems d') (\<lambda>x. \<not> lt x (elems d ! p))"
  using assms
proof (induction "b - a" arbitrary: a b d rule: less_induct)
  case less
  let ?P = "elems d ! p"
  define b1 where "b1 = skip_ge I d p a b"
  define a1 where "a1 = skip_less I d p a b1"
  have b1: "a \<le> b1" "b1 \<le> b" "all_in b1 b (elems d) (\<lambda>x. \<not> lt x ?P)" "a < b1 \<Longrightarrow> lt (elems d ! (b1 - 1)) ?P"
    using skip_ge_ok [of a b d p] skip_bounds(4) [of I d p a b] less.prems by (auto simp: b1_def)
  have a1: "a \<le> a1" "a1 \<le> b1" "all_in a a1 (elems d) (\<lambda>x. lt x ?P)" "a1 < b1 \<Longrightarrow> \<not> lt (elems d ! a1) ?P"
    using skip_less_ok [of a b1 d p] skip_bounds(1) [of a I d p b1] b1(1,2) less.prems by (auto simp: a1_def)
  have eq: "protect_loop I p d a b =
      (if a1 \<ge> b1 then (d, a1, b1) else protect_loop I p (Swap I d a1 (b1 - 1)) (a1 + 1) (b1 - 1))"
    by (subst protect_loop.simps) (simp add: Let_def b1_def a1_def)
  show ?case
  proof (cases "a1 < b1")
    case False
    then show ?thesis using eq b1 a1 less.prems(4) by auto
  next
    case True
    let ?d = "Swap I d a1 (b1 - 1)"
    have "a1 \<noteq> b1 - 1" using b1(4) a1(1,4) True by auto
    then have lt: "a1 + 1 \<le> b1 - 1" using True by auto
    have ys: "elems ?d = slice_swap (elems d) a1 (b1 - 1)" using lt b1(2) less.prems by (intro Swap) auto
    have nth: "elems ?d ! k = (if k = b1 - 1 then elems d ! a1 else if k = a1 then elems d ! (b1 - 1) else elems d ! k)"
      if "k < length (elems d)" for k using that lt b1(2) less.prems unfolding ys by (subst slice_swap_nth) auto
    have len: "length (elems ?d) = length (elems d)" by (simp only: ys length_slice_swap)
    have P: "elems ?d ! p = ?P" using nth [of p] lt a1(1) less.prems by auto
    have p1: "perm_in a1 b1 (elems d) (elems ?d)" using lt b1(2) less.prems by (intro Swap_perm) auto
    have IH: "perm_in (a1 + 1) (b1 - 1) (elems ?d) (elems d') \<and> a1 + 1 \<le> b' \<and> b' \<le> b1 - 1 \<and>
      all_in (a1 + 1) b' (elems d') (\<lambda>x. lt x ?P) \<and> all_in b' (b1 - 1) (elems d') (\<lambda>x. \<not> lt x ?P)"
      unfolding P [symmetric]
      by (rule less.hyps) (use lt a1(1) b1(2) less.prems True eq len in simp_all)
    then have p2: "perm_in a1 b1 (elems ?d) (elems d')" by (auto intro: perm_in_mono)
    have perm: "perm_in a1 b1 (elems d) (elems d')" by (rule perm_in_trans [OF p1 p2])
    have "elems d' ! a1 = elems ?d ! a1" "elems d' ! (b1 - 1) = elems ?d ! (b1 - 1)"
      using IH lt b1(2) less.prems by (auto simp del: One_nat_def simp: len intro!: perm_in_outside)
    then have "lt (elems d' ! a1) ?P" "\<not> lt (elems d' ! (b1 - 1)) ?P"
      using nth [of a1] nth [of "b1 - 1"] b1 a1 lt less.prems by auto
    then have "all_in a1 b' (elems d') (\<lambda>x. lt x ?P)" "all_in b' b1 (elems d') (\<lambda>x. \<not> lt x ?P)"
      using IH lt all_in_Suc [of b' "b1 - 1"] by (auto intro: all_in_from)
    moreover have "all_in a a1 (elems d') (\<lambda>x. lt x ?P)" "all_in b1 b (elems d') (\<lambda>x. \<not> lt x ?P)"
      using all_in_outside [OF a1(3) perm] all_in_outside [OF b1(3) perm] a1(2) b1(2) less.prems by auto
    ultimately show ?thesis
      using IH a1(1) b1(2) perm_in_mono [OF perm a1(1) b1(2)] by (auto intro: all_in_join)
  qed
qed

end

end
