(* ===== verification/Sort_Quick.thy ===== *)
theory Sort_Quick
  imports Sort_Pivot
begin

section \<open>doPivot, quickSort and Sort\<close>

context sort_order
begin

text \<open>
  The state between the two loops of \<open>doPivot\<close>: the pivot \<open>P\<close> is at \<open>lo\<close>, followed by
  elements less than it, at most it, equal to it and at least it.
\<close>

definition mid_state :: "nat \<Rightarrow> nat \<Rightarrow> nat \<Rightarrow> nat \<Rightarrow> nat \<Rightarrow> 'a \<Rightarrow> 'a list \<Rightarrow> bool" where
  "mid_state lo hi a b c P xs \<longleftrightarrow> lo < a \<and> a \<le> b \<and> b \<le> c \<and> c \<le> hi \<and> hi \<le> length xs \<and> xs ! lo = P \<and>
     all_in (lo + 1) a xs (\<lambda>x. lt x P) \<and> all_in a b xs (\<lambda>x. \<not> lt P x) \<and>
     all_in b c xs (\<lambda>x. \<not> lt x P \<and> \<not> lt P x) \<and> all_in c hi xs (\<lambda>x. \<not> lt x P)"

lemma mid_stateD:
  assumes "mid_state lo hi a b c P xs"
  shows "lo < a" "a \<le> b" "b \<le> c" "c \<le> hi" "hi \<le> length xs" "xs ! lo = P"
    and "\<And>k. lo < k \<Longrightarrow> k < a \<Longrightarrow> lt (xs ! k) P" and "\<And>k. a \<le> k \<Longrightarrow> k < b \<Longrightarrow> \<not> lt P (xs ! k)"
    and "\<And>k. b \<le> k \<Longrightarrow> k < c \<Longrightarrow> \<not> lt (xs ! k) P \<and> \<not> lt P (xs ! k)"
    and "\<And>k. c \<le> k \<Longrightarrow> k < hi \<Longrightarrow> \<not> lt (xs ! k) P"
    and "\<And>k. lo \<le> k \<Longrightarrow> k < c \<Longrightarrow> \<not> lt P (xs ! k)"
proof -
  note m = assms [unfolded mid_state_def all_in_def]
  show "lo < a" "a \<le> b" "b \<le> c" "c \<le> hi" "hi \<le> length xs" "xs ! lo = P" using m by blast+
  show 1: "lt (xs ! k) P" if "lo < k" "k < a" for k using m that by simp
  show 2: "\<not> lt P (xs ! k)" if "a \<le> k" "k < b" for k using m that by blast
  show 3: "\<not> lt (xs ! k) P \<and> \<not> lt P (xs ! k)" if "b \<le> k" "k < c" for k using m that by blast
  show "\<not> lt (xs ! k) P" if "c \<le> k" "k < hi" for k using m that by blast
  show "\<not> lt P (xs ! k)" if "lo \<le> k" "k < c" for k
    using 1 [THEN asym, of k] 2 [of k] 3 [of k] that \<open>xs ! lo = P\<close>
    by (cases "k = lo"; cases "k < a"; cases "k < b") auto
qed

lemma mid_stateI:
  assumes "lo < a" "a \<le> b" "b \<le> c" "c \<le> hi" "hi \<le> length xs" "xs ! lo = P"
    and "\<And>k. lo < k \<Longrightarrow> k < a \<Longrightarrow> lt (xs ! k) P" and "\<And>k. a \<le> k \<Longrightarrow> k < b \<Longrightarrow> \<not> lt P (xs ! k)"
    and "\<And>k. b \<le> k \<Longrightarrow> k < c \<Longrightarrow> \<not> lt (xs ! k) P \<and> \<not> lt P (xs ! k)"
    and "\<And>k. c \<le> k \<Longrightarrow> k < hi \<Longrightarrow> \<not> lt (xs ! k) P"
  shows "mid_state lo hi a b c P xs"
  unfolding mid_state_def all_in_def using assms by simp

lemma mid_swap_high:
  assumes "mid_state lo (Suc h) a b c P xs" "c < h" "\<not> lt P (xs ! h)"
  shows "mid_state lo (Suc h) a b (Suc c) P (slice_swap xs c h)"
proof -
  note m = mid_stateD [OF assms(1)]
  have nth: "slice_swap xs c h ! k = (if k = h then xs ! c else if k = c then xs ! h else xs ! k)"
    if "k < Suc h" for k using that assms(2) m(5) by (subst slice_swap_nth) auto
  show ?thesis
  proof (rule mid_stateI)
    show "\<not> lt (slice_swap xs c h ! k) P \<and> \<not> lt P (slice_swap xs c h ! k)" if "b \<le> k" "k < Suc c" for k
      using that m(9) [of k] m(10) [of h] assms(2,3) by (auto simp: nth less_Suc_eq)
    show "\<not> lt (slice_swap xs c h ! k) P" if "Suc c \<le> k" "k < Suc h" for k
      using that m(10) [of c] m(10) [of k] assms(2) by (simp add: nth)
  qed (use m assms(2) in \<open>simp_all add: nth\<close>)
qed

lemma mid_lower:
  assumes "mid_state lo hi a (Suc e) c P xs" "lo < e" "\<not> lt (xs ! e) P"
  shows "mid_state lo hi a e c P xs"
proof -
  note m = mid_stateD [OF assms(1)]
  have "a \<le> e" using m(2) m(7) [of e] assms(2,3) by (cases "e < a") auto
  have eq: "\<not> lt P (xs ! e)" using m(8) \<open>a \<le> e\<close> by simp
  show ?thesis
  proof (rule mid_stateI)
    show "\<not> lt (xs ! k) P \<and> \<not> lt P (xs ! k)" if "e \<le> k" "k < c" for k
      using that eq assms(3) m(9) [of k] by (cases "k = e") auto
  qed (use m \<open>a \<le> e\<close> in simp_all)
qed

lemma mid_swap_low:
  assumes "mid_state lo hi a (Suc e) c P xs" "lo < m" "m < e" "\<not> lt (xs ! m) P"
  shows "mid_state lo hi a e c P (slice_swap xs m e)"
proof -
  note m = mid_stateD [OF assms(1)]
  have nth: "slice_swap xs m e ! k = (if k = e then xs ! m else if k = m then xs ! e else xs ! k)"
    if "k < hi" for k using that assms(3) m by (subst slice_swap_nth) auto
  have "a \<le> m" using m(7) [of m] assms(2,4) by (cases "m < a") auto
  have eq: "\<not> lt P (xs ! m)" "\<not> lt P (xs ! e)" using m(8) \<open>a \<le> m\<close> assms(3) by simp_all
  show ?thesis
  proof (rule mid_stateI)
    show "\<not> lt P (slice_swap xs m e ! k)" if "a \<le> k" "k < e" for k
      using that eq m(3,4) m(8) [of k] by (simp add: nth)
    show "\<not> lt (slice_swap xs m e ! k) P \<and> \<not> lt P (slice_swap xs m e ! k)" if "e \<le> k" "k < c" for k
      using that eq assms(3,4) m(4) m(9) [of k] by (simp add: nth)
    show "lt (slice_swap xs m e ! k) P" if "lo < k" "k < a" for k
      using that m(3,4) m(7) [of k] \<open>a \<le> m\<close> assms(3) by (simp add: nth)
    show "\<not> lt (slice_swap xs m e ! k) P" if "c \<le> k" "k < hi" for k
      using that m(3) m(10) [of k] assms(3) by (simp add: nth)
  qed (use m \<open>a \<le> m\<close> assms(2,3) in \<open>simp_all add: nth\<close>)
qed

lemma test_dups_ok:
  assumes mid: "mid_state lo hi a b c P (elems d)" and "b = c" "c < hi - 1" "lo < m" "m + 2 < b"
    and t: "test_dups I lo m hi d b c = (d', b', c', dups)"
  shows "mid_state lo hi a b' c' P (elems d') \<and> perm_in (lo + 1) hi (elems d) (elems d')"
proof -
  obtain h where h: "hi = Suc h" "c < h" using assms(3) by (cases hi) auto
  obtain e where e: "b = Suc e" using assms(5) by (cases b) auto
  define d1 c1 n1 where "d1 = (if \<not> Less I d lo h then Swap I d c h else d)"
    and "c1 = (if \<not> Less I d lo h then Suc c else c)" and "n1 = (if \<not> Less I d lo h then 1 else 0 :: nat)"
  note m0 = mid_stateD [OF mid]
  have in0: "lo < length (elems d)" "h < length (elems d)" "c < length (elems d)" using m0(1-5) h by auto
  have 1: "mid_state lo hi a b c1 P (elems d1)"
    using mid mid_swap_high [OF mid [unfolded h(1)] h(2)] m0(6) in0 unfolding h(1)
    by (simp add: d1_def c1_def Less Swap)
  have p1: "perm_in (lo + 1) hi (elems d) (elems d1)"
    using m0(1-5) h assms(4,5) unfolding d1_def by (auto intro!: Swap_perm)
  note m1 = mid_stateD [OF 1]
  define b2 n2 where "b2 = (if \<not> Less I d1 e lo then e else b)"
    and "n2 = (if \<not> Less I d1 e lo then n1 + 1 else n1)"
  have in1: "lo < length (elems d1)" "e < length (elems d1)" using m1(1-5) e by auto
  have 2: "mid_state lo hi a b2 c1 P (elems d1)"
    using 1 mid_lower [OF 1 [unfolded e]] m1(6) in1 e assms(4,5) by (simp add: b2_def Less)
  obtain f where f: "b2 = Suc f" "m < f" "f \<le> e" using e assms(5) by (cases b2) (auto simp: b2_def split: if_splits)
  have t': "(d', b', c') = (if \<not> Less I d1 m lo then (Swap I d1 m f, f, c1) else (d1, b2, c1))"
    using t f(1) unfolding test_dups_def h(1) e
    by (auto simp: Let_def d1_def c1_def n1_def b2_def n2_def e split: if_splits)
  have in2: "m < length (elems d1)" "f < length (elems d1)" using f(2,3) in1 by auto
  have "mid_state lo hi a b' c' P (elems d') \<and> perm_in (lo + 1) hi (elems d1) (elems d')"
  proof (cases "Less I d1 m lo")
    case True
    then show ?thesis using t' 2 by simp
  next
    case False
    then have "\<not> lt (elems d1 ! m) P" using in1 in2 m1(6) by (simp add: Less)
    then have "mid_state lo hi a f c1 P (elems (Swap I d1 m f))"
      using mid_swap_low [OF 2 [unfolded f(1)] assms(4) f(2)] in2 by (simp add: Swap)
    moreover have "perm_in (lo + 1) hi (elems d1) (elems (Swap I d1 m f))"
      using m1(3,4,5) f assms(4) e by (intro Swap_perm) auto
    ultimately show ?thesis using t' False by simp
  qed
  then show ?thesis using p1 perm_in_trans by blast
qed

text \<open>
  \<open>doPivot\<close> returns a middle range of elements equal to the pivot, not empty, with nothing greater
  below it and nothing less above it.
\<close>

definition partitioned :: "nat \<Rightarrow> nat \<Rightarrow> nat \<Rightarrow> nat \<Rightarrow> 'a list \<Rightarrow> bool" where
  "partitioned lo mlo mhi hi xs \<longleftrightarrow> lo \<le> mlo \<and> mlo < mhi \<and> mhi \<le> hi \<and>
     (\<exists>P. all_in lo mlo xs (\<lambda>x. \<not> lt P x) \<and> all_in mlo mhi xs (\<lambda>x. \<not> lt x P \<and> \<not> lt P x) \<and>
          all_in mhi hi xs (\<lambda>x. \<not> lt x P))"

lemma mid_partitioned:
  assumes "mid_state lo hi a (Suc e) c P xs"
  shows "partitioned lo e c hi (slice_swap xs lo e)"
proof -
  note m = mid_stateD [OF assms]
  have nth: "slice_swap xs lo e ! k = (if k = e then xs ! lo else if k = lo then xs ! e else xs ! k)"
    if "k < hi" for k using that m(1-5) by (subst slice_swap_nth) auto
  have "all_in lo e (slice_swap xs lo e) (\<lambda>x. \<not> lt P x)"
    using m(1-4) m(11) by (simp add: all_in_def nth)
  moreover have "all_in e c (slice_swap xs lo e) (\<lambda>x. \<not> lt x P \<and> \<not> lt P x)"
    using m(1-4,6,9) by (simp add: all_in_def nth)
  moreover have "all_in c hi (slice_swap xs lo e) (\<lambda>x. \<not> lt x P)"
    using m(1-4,10) by (simp add: all_in_def nth)
  ultimately show ?thesis unfolding partitioned_def using m(1-4) by auto
qed

lemma partition_mid:
  assumes "lo + 12 < hi" "hi \<le> length (elems d)" "\<not> lt (elems d ! (hi - 1)) (elems d ! lo)"
    and a: "a = skip_less I d lo (lo + 1) (hi - 1)" and p: "partition_loop I lo d a (hi - 1) = (d', b, c)"
  shows "mid_state lo hi a b c (elems d ! lo) (elems d') \<and> perm_in (lo + 1) hi (elems d) (elems d') \<and> b = c \<and> c < hi"
proof -
  let ?P = "elems d ! lo"
  obtain h where h: "hi = Suc h" "lo + 1 \<le> h" using assms(1) by (cases hi) auto
  have sk: "lo + 1 \<le> a" "a \<le> h" "all_in (lo + 1) a (elems d) (\<lambda>x. lt x ?P)"
    using skip_less_ok [of "lo + 1" h d lo] skip_bounds(1) [of "lo + 1" I d lo h] assms(2) h by (auto simp: a)
  have pl: "perm_in a h (elems d) (elems d')" "a \<le> b" "b = c" "c \<le> h"
    "all_in a b (elems d') (\<lambda>x. \<not> lt ?P x)" "all_in c h (elems d') (\<lambda>x. lt ?P x)"
    using partition_loop_ok [of lo a h d d' b c] p sk assms(2) h by auto
  have len: "length (elems d') = length (elems d)" by (rule perm_in_length [OF pl(1)])
  have same: "elems d' ! lo = ?P" "elems d' ! h = elems d ! h"
    using sk assms(2) h by (auto intro!: perm_in_outside [OF pl(1)])
  have low: "all_in (lo + 1) a (elems d') (\<lambda>x. lt x ?P)"
    using all_in_outside [OF sk(3) pl(1)] sk assms(2) h by simp
  have "mid_state lo hi a b c ?P (elems d')"
  proof (rule mid_stateI)
    show "\<not> lt (elems d' ! k) ?P" if "c \<le> k" "k < hi" for k
      using that pl(6) assms(3) same(2) h asym by (cases "k = h") (auto simp: all_in_def)
  qed (use sk pl same low assms(2) len h in \<open>auto simp: all_in_def\<close>)
  moreover have "perm_in (lo + 1) hi (elems d) (elems d')"
    using sk h by (intro perm_in_mono [OF pl(1)]) auto
  ultimately show ?thesis using pl h by simp
qed

lemma protect_mid:
  assumes "mid_state lo hi a b c P (elems d)" and "protect_loop I lo d a b = (d', a', b')"
  shows "mid_state lo hi b' b' c P (elems d') \<and> perm_in (lo + 1) hi (elems d) (elems d')"
proof -
  note m = mid_stateD [OF assms(1)]
  have pl: "perm_in a b (elems d) (elems d')" "a \<le> b'" "b' \<le> b"
    "all_in a b' (elems d') (\<lambda>x. lt x P)" "all_in b' b (elems d') (\<lambda>x. \<not> lt x P)"
    using protect_loop_ok [of lo a b d d' a' b'] assms(2) m(1-6) by auto
  have len: "length (elems d') = length (elems d)" by (rule perm_in_length [OF pl(1)])
  have same: "elems d' ! k = elems d ! k" if "k < a \<or> b \<le> k" "k < hi" for k
    using that m(5) by (intro perm_in_outside [OF pl(1)]) auto
  have le: "\<not> lt P (elems d' ! k)" if "a \<le> k" "k < b" for k
    using perm_in_all [OF pl(1), of "\<lambda>x. \<not> lt P x" k] m(3,4,5,8) that by simp
  have "mid_state lo hi b' b' c P (elems d')"
  proof (rule mid_stateI)
    show "lt (elems d' ! k) P" if "lo < k" "k < b'" for k
      using that pl m same [of k] by (cases "k < a") (auto simp: all_in_def)
    show "\<not> lt (elems d' ! k) P \<and> \<not> lt P (elems d' ! k)" if "b' \<le> k" "k < c" for k
      using that pl m(2,3,4) m(9) [of k] le [of k] same [of k] by (cases "k < b") (auto simp: all_in_def)
    show "\<not> lt (elems d' ! k) P" if "c \<le> k" "k < hi" for k
      using that m(3) m(10) [of k] same [of k] by simp
  qed (use pl m same len in auto)
  moreover have "perm_in (lo + 1) hi (elems d) (elems d')"
    using m(1-4) by (intro perm_in_mono [OF pl(1)]) auto
  ultimately show ?thesis by blast
qed

lemma doPivot_ok:
  assumes "lo + 12 < hi" "hi \<le> length (elems d)" and dp: "doPivot I d lo hi = (d', mlo, mhi)"
  shows "perm_in lo hi (elems d) (elems d') \<and> partitioned lo mlo mhi hi (elems d')"
proof -
  define m where "m = (lo + hi) div 2"
  define d0 where "d0 = choose_pivot I d lo hi"
  have 0: "perm_in lo hi (elems d) (elems d0)" "\<not> lt (elems d0 ! (hi - 1)) (elems d0 ! lo)"
    using choose_pivot_ok [OF assms(1,2)] by (auto simp: d0_def)
  define a where "a = skip_less I d0 lo (lo + 1) (hi - 1)"
  obtain d1 b1 c1 where p1: "partition_loop I lo d0 a (hi - 1) = (d1, b1, c1)" by (metis prod_cases3)
  note 1 = partition_mid [OF assms(1) _ 0(2) a_def p1, unfolded perm_in_length [OF 0(1)], OF assms(2)]
  define test where "test = (\<not> hi - c1 < 5 \<and> hi - c1 < (hi - lo) div 4)"
  obtain d2 b2 c2 dups where t: "test_dups I lo m hi d1 b1 c1 = (d2, b2, c2, dups)" by (metis prod_cases4)
  have 2: "mid_state lo hi a b2 c2 (elems d0 ! lo) (elems d2) \<and> perm_in (lo + 1) hi (elems d1) (elems d2)" if test
    by (rule test_dups_ok [OF conjunct1 [OF 1] _ _ _ _ t])
      (use 1 that assms(1) in \<open>auto simp: test_def m_def\<close>)
  define d3 b3 c3 prot where "d3 = (if test then d2 else d1)" and "b3 = (if test then b2 else b1)"
    and "c3 = (if test then c2 else c1)" and "prot = (if test then dups > 1 else hi - c1 < 5)"
  have 3: "mid_state lo hi a b3 c3 (elems d0 ! lo) (elems d3)" "perm_in (lo + 1) hi (elems d0) (elems d3)"
    using 1 2 perm_in_trans by (auto simp: d3_def b3_def c3_def)
  obtain d4 a4 b4 where p4: "protect_loop I lo d3 a b3 = (d4, a4, b4)" by (metis prod_cases3)
  define d5 b5 a5 where "d5 = (if prot then d4 else d3)" and "b5 = (if prot then b4 else b3)" and "a5 = (if prot then b4 else a)"
  have 5: "mid_state lo hi a5 b5 c3 (elems d0 ! lo) (elems d5)" "perm_in (lo + 1) hi (elems d0) (elems d5)"
    using 3 protect_mid [OF 3(1) p4] perm_in_trans by (auto simp: d5_def b5_def a5_def)
  have p4': "test \<Longrightarrow> protect_loop I lo d2 a b2 = (d4, a4, b4)" "\<not> test \<Longrightarrow> protect_loop I lo d1 a b1 = (d4, a4, b4)"
    using p4 by (auto simp: d3_def b3_def)
  have dp': "d' = Swap I d5 lo (b5 - 1)" "mlo = b5 - 1" "mhi = c3"
    using dp unfolding doPivot_def Let_def d0_def [symmetric] a_def [symmetric] m_def [symmetric] p1 prod.case t test_def [symmetric]
    by (auto simp: d3_def b3_def c3_def prot_def d5_def b5_def p4' split: if_splits)
  note m5 = mid_stateD [OF 5(1)]
  obtain e where e: "b5 = Suc e" using m5(1,2) by (cases b5) auto
  have "elems d' = slice_swap (elems d5) lo e" using m5(1-5) e by (auto simp: dp' intro!: Swap)
  moreover have "perm_in lo hi (elems d0) (elems d5)" by (rule perm_in_mono [OF 5(2)]) auto
  moreover have "perm_in lo hi (elems d5) (slice_swap (elems d5) lo e)"
    using m5(1-5) e by (intro perm_in_swap) auto
  ultimately show ?thesis
    using mid_partitioned [OF 5(1) [unfolded e]] 0(1) dp' e perm_in_trans by (metis diff_Suc_1)
qed

text \<open>Sorting the two sides of a partition sorts the whole.\<close>

lemma partitioned_sorted:
  assumes part: "partitioned lo mlo mhi hi xs" and len: "hi \<le> length xs"
    and perm: "perm_in lo mlo xs ys" "perm_in mhi hi ys zs"
    and sorted: "sorted_range lo mlo ys" "sorted_range mhi hi zs"
  shows "sorted_range lo hi zs \<and> perm_in lo hi xs zs"
proof -
  obtain P where b: "lo \<le> mlo" "mlo < mhi" "mhi \<le> hi" and P: "all_in lo mlo xs (\<lambda>x. \<not> lt P x)"
    "all_in mlo mhi xs (\<lambda>x. \<not> lt x P \<and> \<not> lt P x)" "all_in mhi hi xs (\<lambda>x. \<not> lt x P)"
    using part by (auto simp: partitioned_def)
  have len': "length ys = length xs" by (rule perm_in_length [OF perm(1)])
  have low: "all_in lo mlo zs (\<lambda>x. \<not> lt P x)" "sorted_range lo mlo zs"
  proof -
    have eq: "zs ! i = ys ! i" if "i < mlo" for i using that b len len' by (intro perm_in_outside [OF perm(2)]) auto
    show "all_in lo mlo zs (\<lambda>x. \<not> lt P x)"
      using all_in_perm [OF P(1) perm(1)] b len by (auto simp: all_in_def eq)
    show "sorted_range lo mlo zs" using sorted(1) by (auto simp: sorted_range_def eq)
  qed
  have mid: "all_in mlo mhi zs (\<lambda>x. \<not> lt x P \<and> \<not> lt P x)"
    using all_in_outside [OF all_in_outside [OF P(2) perm(1)] perm(2)] b len len' by simp
  have high: "all_in mhi hi zs (\<lambda>x. \<not> lt x P)"
    using all_in_perm [OF all_in_outside [OF P(3) perm(1)] perm(2)] b len len' by simp
  have "\<not> lt (zs ! j) (zs ! i)" if "lo \<le> i" "i < j" "j < hi" for i j
  proof (cases "j < mlo \<or> mhi \<le> i")
    case True
    then show ?thesis using that low(2) sorted(2) by (auto simp: sorted_range_def)
  next
    case False
    then have "\<not> lt (zs ! j) P" using that mid high by (cases "j < mhi") (auto simp: all_in_def)
    moreover have "\<not> lt P (zs ! i)" using False that low(1) mid by (cases "i < mlo") (auto simp: all_in_def)
    ultimately show ?thesis by (rule neg_trans)
  qed
  moreover have "perm_in lo hi xs zs"
    using perm_in_trans [OF perm_in_mono [OF perm(1)] perm_in_mono [OF perm(2)]] b by simp
  ultimately show ?thesis by (simp add: sorted_range_def)
qed

lemma partitioned_sorted':
  assumes part: "partitioned lo mlo mhi hi xs" and len: "hi \<le> length xs"
    and perm: "perm_in mhi hi xs ys" "perm_in lo mlo ys zs"
    and sorted: "sorted_range mhi hi ys" "sorted_range lo mlo zs"
  shows "sorted_range lo hi zs \<and> perm_in lo hi xs zs"
proof -
  obtain P where b: "lo \<le> mlo" "mlo < mhi" "mhi \<le> hi" using part by (auto simp: partitioned_def)
  have len': "length ys = length xs" by (rule perm_in_length [OF perm(1)])
  have "partitioned lo mlo mhi hi ys"
    using part b len perm(1) unfolding partitioned_def
    by (meson all_in_outside all_in_perm le_trans less_imp_le order_refl)
  moreover have "sorted_range mhi hi zs"
    using sorted(1) b len len' by (auto simp: sorted_range_def perm_in_outside [OF perm(2)])
  ultimately have "sorted_range lo hi zs \<and> perm_in lo hi ys zs"
    using partitioned_sorted [of lo mlo mhi hi ys zs zs] len len' perm(2) sorted(2) by simp
  moreover have "perm_in lo hi xs ys" using b by (intro perm_in_mono [OF perm(1)]) auto
  ultimately show ?thesis using perm_in_trans by blast
qed

lemma quickSort_small:
  assumes "a \<le> b" "b \<le> length (elems d)" "b - a \<le> 12"
  shows "sorted_range a b (elems (quickSort I n d a b)) \<and> perm_in a b (elems d) (elems (quickSort I n d a b))"
proof (cases "b - a > 1")
  case True
  let ?d = "shell_pass I d (a + 6) b"
  have p: "perm_in a b (elems d) (elems ?d)" using assms by (intro shell_pass_perm) auto
  have "perm_in a b (elems ?d) (elems (insertionSort I ?d a b)) \<and> sorted_range a b (elems (insertionSort I ?d a b))"
    using True assms perm_in_length [OF p] by (intro insertionSort_sorts) auto
  moreover have "quickSort I n d a b = insertionSort I ?d a b"
    using True assms by (subst quickSort.simps) simp
  ultimately show ?thesis using p perm_in_trans by metis
next
  case False
  then have "quickSort I n d a b = d" using assms by (subst quickSort.simps) simp
  then show ?thesis using False by (simp add: sorted_range_trivial)
qed

lemma quickSort_sorts:
  assumes "a \<le> b" "b \<le> length (elems d)"
  shows "sorted_range a b (elems (quickSort I n d a b)) \<and> perm_in a b (elems d) (elems (quickSort I n d a b))"
  using assms
proof (induction n arbitrary: a b d)
  case 0
  show ?case
  proof (cases "b - a > 12")
    case True
    then have "quickSort I 0 d a b = heapSort I d a b" by (subst quickSort.simps) simp
    then show ?thesis using heapSort_sorts [OF 0] by simp
  qed (use 0 quickSort_small in simp)
next
  case (Suc n)
  show ?case
  proof (cases "b - a > 12")
    case True
    obtain d1 mlo mhi where dp: "doPivot I d a b = (d1, mlo, mhi)" by (metis prod_cases3)
    have 1: "perm_in a b (elems d) (elems d1)" "partitioned a mlo mhi b (elems d1)"
      using doPivot_ok [OF _ Suc.prems(2) dp] True by auto
    have bounds: "a \<le> mlo" "mlo < mhi" "mhi \<le> b" "b \<le> length (elems d1)"
      using 1 Suc.prems perm_in_length [OF 1(1)] by (auto simp: partitioned_def)
    let ?l = "quickSort I n d1 a mlo" and ?r = "quickSort I n d1 mhi b"
    have l: "sorted_range a mlo (elems ?l) \<and> perm_in a mlo (elems d1) (elems ?l)"
      and r: "sorted_range mhi b (elems ?r) \<and> perm_in mhi b (elems d1) (elems ?r)"
      using bounds by (auto intro!: Suc.IH)
    have lr: "sorted_range mhi b (elems (quickSort I n ?l mhi b)) \<and> perm_in mhi b (elems ?l) (elems (quickSort I n ?l mhi b))"
      and rl: "sorted_range a mlo (elems (quickSort I n ?r a mlo)) \<and> perm_in a mlo (elems ?r) (elems (quickSort I n ?r a mlo))"
      using bounds l r by (auto intro!: Suc.IH simp: perm_in_length)
    have "quickSort I (Suc n) d a b = (if mlo - a < b - mhi then quickSort I n ?l mhi b else quickSort I n ?r a mlo)"
      using True by (subst quickSort.simps) (simp add: dp)
    then show ?thesis
      using partitioned_sorted [OF 1(2) bounds(4)] partitioned_sorted' [OF 1(2) bounds(4)] l r lr rl
        perm_in_trans [OF 1(1)] by auto
  qed (use Suc.prems quickSort_small in simp)
qed

lemma Sort_sorts:
  "sorted_range 0 (length (elems d)) (elems (Sort I d)) \<and> mset (elems (Sort I d)) = mset (elems d) \<and>
   length (elems (Sort I d)) = length (elems d)"
  using quickSort_sorts [of 0 "length (elems d)" d] by (simp add: Sort_def Len perm_in_def)

lemma sorted_range_iff: "sorted_range 0 (length xs) xs \<longleftrightarrow> sorted_wrt (\<lambda>x y. \<not> lt y x) xs"
  by (auto simp: sorted_range_def sorted_wrt_iff_nth_less)

lemma sorted_loop_iff:
  assumes "i < length (elems d)"
  shows "sorted_loop I d i \<longleftrightarrow> sorted_range 0 (Suc i) (elems d)"
  using assms
proof (induction i)
  case 0
  then show ?case by (subst sorted_loop.simps) (simp add: sorted_range_trivial)
next
  case (Suc i)
  have "sorted_loop I d (Suc i) \<longleftrightarrow> \<not> lt (elems d ! Suc i) (elems d ! i) \<and> sorted_range 0 (Suc i) (elems d)"
    using Suc by (subst sorted_loop.simps) (simp add: Less)
  also have "\<dots> \<longleftrightarrow> sorted_range 0 (Suc (Suc i)) (elems d)"
  proof
    assume a: "\<not> lt (elems d ! Suc i) (elems d ! i) \<and> sorted_range 0 (Suc i) (elems d)"
    have "\<not> lt (elems d ! Suc i) (elems d ! k)" if "k < Suc i" for k
      using a that neg_trans [of "elems d ! Suc i" "elems d ! i" "elems d ! k"]
      by (cases "k = i") (auto simp: sorted_range_def)
    then show "sorted_range 0 (Suc (Suc i)) (elems d)" using a by (auto simp: sorted_range_def less_Suc_eq)
  qed (auto simp: sorted_range_def)
  finally show ?case .
qed

lemma IsSorted_iff: "IsSorted I d \<longleftrightarrow> sorted_wrt (\<lambda>x y. \<not> lt y x) (elems d)"
proof (cases "elems d = []")
  case True
  then show ?thesis by (simp add: IsSorted_def Len sorted_loop.simps)
next
  case False
  then show ?thesis
    using sorted_loop_iff [of "length (elems d) - 1" d] by (simp add: IsSorted_def Len sorted_range_iff [symmetric])
qed

end

end
