(* ===== verification/Sort_Merge.thy ===== *)
theory Sort_Merge
  imports Sort_Stable
begin

section \<open>Correctness of the stable sort\<close>

text \<open>
  The parts of the stable sort: the binary searches of \<open>symMerge\<close>, the block moves that rotate two
  ranges, and the insertion sort of the blocks, each with what it does to the list of elements.
\<close>

subsection \<open>Binary search\<close>

lemma search_loop_bounds: "i \<le> j \<Longrightarrow> i \<le> search_loop f i j \<and> search_loop f i j \<le> j"
proof (induction "j - i" arbitrary: i j rule: less_induct)
  case less
  let ?h = "(i + j) div 2"
  have "?h + 1 \<le> search_loop f (?h + 1) j \<and> search_loop f (?h + 1) j \<le> j" if "i < j"
    using that by (intro less.hyps) auto
  moreover have "i \<le> search_loop f i ?h \<and> search_loop f i ?h \<le> ?h" if "i < j"
    using that by (intro less.hyps) auto
  ultimately show ?case using less.prems by (subst (1 2) search_loop.simps) (auto simp: Let_def)
qed

text \<open>For a condition that stays true once it is true, the loop finds where it becomes true.\<close>

lemma search_loop_spec:
  assumes "i \<le> j" and "\<And>h k. i \<le> h \<Longrightarrow> h \<le> k \<Longrightarrow> k < j \<Longrightarrow> f h \<Longrightarrow> f k"
  shows "(\<forall>h. i \<le> h \<and> h < search_loop f i j \<longrightarrow> \<not> f h) \<and> (\<forall>h. search_loop f i j \<le> h \<and> h < j \<longrightarrow> f h)"
  using assms
proof (induction "j - i" arbitrary: i j rule: less_induct)
  case less
  let ?h = "(i + j) div 2"
  show ?case
  proof (cases "i < j")
    case False
    then have "search_loop f i j = i" by (subst search_loop.simps) simp
    then show ?thesis using False by auto
  next
    case True
    show ?thesis
    proof (cases "f ?h")
      case f: True
      have eq: "search_loop f i j = search_loop f i ?h" using True f by (subst search_loop.simps) (simp add: Let_def)
      have "(\<forall>h. i \<le> h \<and> h < search_loop f i ?h \<longrightarrow> \<not> f h) \<and> (\<forall>h. search_loop f i ?h \<le> h \<and> h < ?h \<longrightarrow> f h)"
        by (rule less.hyps) (use True less.prems(2) in auto)
      moreover have "f h" if "?h \<le> h" "h < j" for h using less.prems(2) [of ?h h] f that True by simp
      ultimately show ?thesis unfolding eq by (metis not_le)
    next
      case f: False
      have eq: "search_loop f i j = search_loop f (?h + 1) j" using True f by (subst search_loop.simps) (simp add: Let_def)
      have "(\<forall>h. ?h + 1 \<le> h \<and> h < search_loop f (?h + 1) j \<longrightarrow> \<not> f h) \<and> (\<forall>h. search_loop f (?h + 1) j \<le> h \<and> h < j \<longrightarrow> f h)"
      proof (rule less.hyps)
        show "f k" if "?h + 1 \<le> h" "h \<le> k" "k < j" "f h" for h k
          using less.prems(2) [of h k] that True by simp
      qed (use True in auto)
      moreover have "?h < j" using True by simp
      then have "\<not> f h" if "i \<le> h" "h \<le> ?h" for h using less.prems(2) [of h ?h] f that by blast
      ultimately show ?thesis unfolding eq by (metis Suc_eq_plus1 not_less_eq_eq)
    qed
  qed
qed

lemma in_set_dropE:
  assumes "y \<in> set (drop n v)"
  obtains k where "n \<le> k" "k < length v" "y = v ! k"
proof -
  obtain j where "j < length (drop n v)" "y = drop n v ! j" using assms by (auto simp: in_set_conv_nth)
  then show ?thesis by (intro that [of "n + j"]) auto
qed

subsection \<open>Rotations\<close>

lemma slice_swap_append:
  assumes "length p = i" "j = i + 1 + length q"
  shows "slice_swap (p @ x # q @ y # r) i j = p @ y # q @ x # r"
  using assms by (simp add: slice_swap_def nth_append list_update_append)

context sort_interface
begin

lemma swapRange_blocks:
  assumes "elems d = p @ x @ y @ z @ q" "length p = a" "length x = n" "length z = n" "b = a + n + length y"
  shows "elems (swapRange I n d a b) = p @ z @ y @ x @ q"
  using assms
proof (induction n arbitrary: d p x y z a b)
  case 0
  then show ?case by simp
next
  case (Suc n)
  obtain x0 x' where x: "x = x0 # x'" using Suc.prems(3) by (cases x) auto
  obtain z0 z' where z: "z = z0 # z'" using Suc.prems(4) by (cases z) auto
  have "elems (Swap I d a b) = slice_swap (p @ x0 # (x' @ y) @ z0 # z' @ q) a b"
    using Suc.prems x z by (subst Swap) auto
  also have "\<dots> = p @ z0 # (x' @ y) @ x0 # z' @ q"
    using Suc.prems x by (intro slice_swap_append) auto
  finally have e: "elems (Swap I d a b) = (p @ [z0]) @ x' @ (y @ [x0]) @ z' @ q" by simp
  have "elems (swapRange I n (Swap I d a b) (a + 1) (b + 1)) = (p @ [z0]) @ z' @ (y @ [x0]) @ x' @ q"
    by (rule Suc.IH [OF e]) (use Suc.prems x z in auto)
  then show ?case using x z by simp
qed

lemma rotate_loop_blocks:
  assumes "elems d = p @ u @ v @ q" "length u = i" "length v = j" "m = length p + i" "0 < i" "0 < j"
  shows "\<exists>d'. rotate_loop I m d i j = Some d' \<and> elems d' = p @ v @ u @ q"
  using assms
proof (induction "i + j" arbitrary: d p u v q i j rule: less_induct)
  case less
  consider (eq) "i = j" | (gt) "i > j" | (lt) "i < j" by linarith
  then show ?case
  proof cases
    case eq
    then have "elems (swapRange I i d (m - i) m) = p @ v @ [] @ u @ q"
      using less.prems by (intro swapRange_blocks) auto
    then show ?thesis using eq by (subst rotate_loop.simps) simp
  next
    case gt
    define u1 u2 where "u1 = take j u" and "u2 = drop j u"
    have u: "u = u1 @ u2" "length u1 = j" "length u2 = i - j" using less.prems gt by (auto simp: u1_def u2_def)
    let ?d = "swapRange I j d (m - i) m"
    have "elems ?d = p @ v @ u2 @ u1 @ q"
      using less.prems gt u by (intro swapRange_blocks) auto
    then have "\<exists>d'. rotate_loop I m ?d (i - j) j = Some d' \<and> elems d' = (p @ v) @ u1 @ u2 @ q"
      using less.prems gt u by (intro less.hyps) auto
    then show ?thesis using gt u by (subst rotate_loop.simps) simp
  next
    case lt
    define v1 v2 where "v1 = take (j - i) v" and "v2 = drop (j - i) v"
    have v: "v = v1 @ v2" "length v1 = j - i" "length v2 = i" using less.prems lt by (auto simp: v1_def v2_def)
    let ?d = "swapRange I i d (m - i) (m + j - i)"
    have "elems ?d = p @ v2 @ v1 @ u @ q"
      using less.prems lt v by (intro swapRange_blocks) auto
    then have "\<exists>d'. rotate_loop I m ?d i (j - i) = Some d' \<and> elems d' = p @ v1 @ v2 @ u @ q"
      using less.prems lt v by (intro less.hyps) auto
    then show ?thesis using lt v by (subst rotate_loop.simps) simp
  qed
qed

lemma move_up_blocks:
  assumes "elems d = p @ x # v @ q" "length p = k" "i = k + 1 + length v"
  shows "elems (move_up I d k i) = p @ v @ x # q"
  using assms
proof (induction v arbitrary: d p k)
  case Nil
  then show ?case by (subst move_up.simps) simp
next
  case (Cons y v)
  have "elems (Swap I d k (k + 1)) = slice_swap (p @ x # [] @ y # v @ q) k (k + 1)"
    using Cons.prems by (subst Swap) auto
  also have "\<dots> = p @ y # [] @ x # v @ q" using Cons.prems by (intro slice_swap_append) auto
  finally have e: "elems (Swap I d k (k + 1)) = (p @ [y]) @ x # v @ q" by simp
  have "elems (move_up I (Swap I d k (k + 1)) (k + 1) i) = (p @ [y]) @ v @ x # q"
    by (rule Cons.IH [OF e]) (use Cons.prems in auto)
  then show ?case using Cons.prems by (subst move_up.simps) simp
qed

lemma move_down_blocks:
  assumes "elems d = p @ u @ x # q" "length p = i" "k = i + length u"
  shows "elems (move_down I d k i) = p @ x # u @ q"
  using assms
proof (induction u arbitrary: d q k rule: rev_induct)
  case Nil
  then show ?case by (subst move_down.simps) simp
next
  case (snoc y u)
  have "elems (Swap I d k (k - 1)) = slice_swap ((p @ u) @ y # [] @ x # q) k (k - 1)"
    using snoc.prems by (subst Swap) auto
  also have "\<dots> = slice_swap ((p @ u) @ y # [] @ x # q) (k - 1) k"
    using snoc.prems by (auto simp: slice_swap_def list_update_swap)
  also have "\<dots> = (p @ u) @ x # [] @ y # q" using snoc.prems by (intro slice_swap_append) auto
  finally have e: "elems (Swap I d k (k - 1)) = p @ u @ x # (y # q)" by simp
  have "elems (move_down I (Swap I d k (k - 1)) (k - 1) i) = p @ x # u @ (y # q)"
    by (rule snoc.IH [OF e]) (use snoc.prems in auto)
  then show ?case using snoc.prems by (subst move_down.simps) simp
qed

end

subsection \<open>Stable rearrangements\<close>

text \<open>
  A rearrangement is stable when the elements that compare equal to any given one keep their order.
\<close>

definition rearranged :: "('a \<Rightarrow> 'a \<Rightarrow> bool) \<Rightarrow> 'a list \<Rightarrow> 'a list \<Rightarrow> bool" where
  "rearranged lt xs ys \<longleftrightarrow> mset ys = mset xs \<and>
     (\<forall>x. filter (\<lambda>y. \<not> lt x y \<and> \<not> lt y x) ys = filter (\<lambda>y. \<not> lt x y \<and> \<not> lt y x) xs)"

lemma rearranged_refl [simp]: "rearranged lt xs xs"
  by (simp add: rearranged_def)

lemma rearranged_trans [trans]: "rearranged lt xs ys \<Longrightarrow> rearranged lt ys zs \<Longrightarrow> rearranged lt xs zs"
  by (simp add: rearranged_def)

lemma rearranged_append: "rearranged lt xs ys \<Longrightarrow> rearranged lt xs' ys' \<Longrightarrow> rearranged lt (xs @ xs') (ys @ ys')"
  by (simp add: rearranged_def)

lemma rearranged_set: "rearranged lt xs ys \<Longrightarrow> set ys = set xs"
  by (auto simp: rearranged_def dest: mset_eq_setD)

lemma rearranged_length: "rearranged lt xs ys \<Longrightarrow> length ys = length xs"
  by (auto simp: rearranged_def dest: mset_eq_length)

context sort_order
begin

lemma rearranged_blocks:
  assumes "\<And>x y. x \<in> set u \<Longrightarrow> y \<in> set v \<Longrightarrow> lt y x"
  shows "rearranged lt (u @ v) (v @ u)"
proof -
  have "filter (\<lambda>y. \<not> lt x y \<and> \<not> lt y x) u = [] \<or> filter (\<lambda>y. \<not> lt x y \<and> \<not> lt y x) v = []" for x
  proof (rule ccontr)
    assume "\<not> ?thesis"
    then obtain y z where "y \<in> set u" "\<not> lt x y" "z \<in> set v" "\<not> lt z x"
      by (auto simp: filter_empty_conv)
    then show False using assms neg_trans by blast
  qed
  note * = this
  have "filter (\<lambda>y. \<not> lt x y \<and> \<not> lt y x) (v @ u) = filter (\<lambda>y. \<not> lt x y \<and> \<not> lt y x) (u @ v)" for x
    using * [of x] by (elim disjE) simp_all
  then show ?thesis by (simp add: rearranged_def)
qed

abbreviation sorted_list :: "'a list \<Rightarrow> bool" where
  "sorted_list \<equiv> sorted_wrt (\<lambda>x y. \<not> lt y x)"

lemma sorted_list_nth: "sorted_list xs \<Longrightarrow> i \<le> j \<Longrightarrow> j < length xs \<Longrightarrow> \<not> lt (xs ! j) (xs ! i)"
  by (cases "i = j") (auto simp: sorted_wrt_iff_nth_less)

lemma insert_down_stable:
  assumes "a \<le> j" "j < length (elems d)"
  shows "rearranged lt (elems d) (elems (insert_down I d a j))"
  using assms
proof (induction j arbitrary: d)
  case 0
  then show ?case by (subst insert_down.simps) simp
next
  case (Suc j)
  let ?xs = "elems d"
  show ?case
  proof (cases "a < Suc j \<and> lt (?xs ! Suc j) (?xs ! j)")
    case True
    have xs: "?xs = take j ?xs @ ([?xs ! j] @ [?xs ! Suc j]) @ drop (Suc (Suc j)) ?xs"
      using Suc.prems by (simp add: Cons_nth_drop_Suc Suc_lessD)
    then have "slice_swap ?xs j (Suc j) = take j ?xs @ ([?xs ! Suc j] @ [?xs ! j]) @ drop (Suc (Suc j)) ?xs"
      using slice_swap_append [of "take j ?xs" j "Suc j" "[]"] Suc.prems
      by (metis append_Cons append_Nil length_take less_imp_le_nat list.size(3) min.absorb2 Suc_lessD add.right_neutral Suc_eq_plus1)
    moreover have "elems (Swap I d (Suc j) j) = slice_swap ?xs j (Suc j)"
      using Suc.prems by (subst Swap) (auto simp: slice_swap_def list_update_swap)
    moreover have "rearranged lt ([?xs ! j] @ [?xs ! Suc j]) ([?xs ! Suc j] @ [?xs ! j])"
      using True by (intro rearranged_blocks) auto
    ultimately have 1: "rearranged lt ?xs (elems (Swap I d (Suc j) j))"
      by (subst xs) (simp only: rearranged_append rearranged_refl)
    have "rearranged lt (elems (Swap I d (Suc j) j)) (elems (insert_down I (Swap I d (Suc j) j) a j))"
      using Suc.prems True rearranged_length [OF 1] by (intro Suc.IH) auto
    moreover have "insert_down I d a (Suc j) = insert_down I (Swap I d (Suc j) j) a j"
      using Suc.prems True by (subst insert_down.simps) (simp add: Less)
    ultimately show ?thesis using 1 rearranged_trans by metis
  next
    case False
    then have "insert_down I d a (Suc j) = d" using Suc.prems by (subst insert_down.simps) (auto simp: Less)
    then show ?thesis by simp
  qed
qed

lemma insertionSort_stable:
  assumes "b \<le> length (elems d)"
  shows "rearranged lt (elems d) (elems (insertionSort I d a b))"
proof -
  have "rearranged lt (elems d) (elems (insertion_loop I d a i b))" if "a \<le> i" "b \<le> length (elems d)" for i d
    using that
  proof (induction "b - i" arbitrary: i d)
    case 0
    then show ?case by (subst insertion_loop.simps) simp
  next
    case (Suc n)
    have 1: "rearranged lt (elems d) (elems (insert_down I d a i))"
      using Suc.hyps(2) Suc.prems by (intro insert_down_stable) auto
    have "rearranged lt (elems (insert_down I d a i)) (elems (insertion_loop I (insert_down I d a i) a (i + 1) b))"
      using Suc.hyps(2) Suc.prems rearranged_length [OF 1] by (intro Suc.hyps(1)) auto
    moreover have "insertion_loop I d a i b = insertion_loop I (insert_down I d a i) a (i + 1) b"
      using Suc.hyps(2) by (subst insertion_loop.simps) auto
    ultimately show ?case using 1 rearranged_trans by metis
  qed
  then show ?thesis using assms by (simp add: insertionSort_def)
qed

subsection \<open>Merging\<close>

lemma sorted_list_append:
  "sorted_list (xs @ ys) \<longleftrightarrow> sorted_list xs \<and> sorted_list ys \<and> (\<forall>x\<in>set xs. \<forall>y\<in>set ys. \<not> lt y x)"
  by (simp add: sorted_wrt_append)

text \<open>
  The cut of \<open>symMerge\<close>: with \<open>s\<close> the position found by its search, the elements that change
  sides (from \<open>s\<close> to the end of the left block, and the first \<open>mid - s\<close> of the right one) are out
  of order, and those that stay on their sides are in order.
\<close>

lemma sym_cut:
  assumes xs: "elems d = p @ u @ v @ q" and len: "length p = a" "length u = m - a" "length v = b - m"
    and ord: "a < m" "m < b" and su: "sorted_list u" and sv: "sorted_list v"
    and mid: "mid = (a + b) div 2" and sr: "(start, r) = (if m > mid then (mid + m - b, mid) else (a, m))"
    and s: "s = search_loop (\<lambda>c. Less I d (mid + m - 1 - c) c) start r"
  shows "a \<le> s" "s \<le> m" "s \<le> mid" "mid - s \<le> b - m"
    and "\<And>x y. x \<in> set (drop (s - a) u) \<Longrightarrow> y \<in> set (take (mid - s) v) \<Longrightarrow> lt y x"
    and "\<And>x y. x \<in> set (take (s - a) u) \<Longrightarrow> y \<in> set (drop (mid - s) v) \<Longrightarrow> \<not> lt y x"
proof -
  have st: "a \<le> start" "start \<le> r" "r \<le> m" "r \<le> mid" "mid + m - b \<le> start"
    using sr ord mid by (auto split: if_splits)
  have s_in: "start \<le> s" "s \<le> r" using search_loop_bounds [OF st(2)] s by auto
  show "a \<le> s" "s \<le> m" "s \<le> mid" "mid - s \<le> b - m" using st s_in by auto
  have less: "Less I d (mid + m - 1 - c) c \<longleftrightarrow> lt (v ! (mid - 1 - c)) (u ! (c - a))" if "start \<le> c" "c < r" for c
  proof -
    have c: "a \<le> c" "c < m" "c < mid" "mid - 1 - c < b - m" using that st by auto
    have "mid + m - 1 - c = m + (mid - 1 - c)" using c by simp
    then have "elems d ! (mid + m - 1 - c) = v ! (mid - 1 - c)" "elems d ! c = u ! (c - a)"
      "mid + m - 1 - c < length (elems d)" "c < length (elems d)"
      using c len ord by (auto simp: xs nth_append)
    then show ?thesis by (simp add: Less)
  qed
  let ?f = "\<lambda>c. Less I d (mid + m - 1 - c) c"
  have mono: "?f k" if "start \<le> h" "h \<le> k" "k < r" "?f h" for h k
  proof -
    have "\<not> lt (u ! (k - a)) (u ! (h - a))" by (rule sorted_list_nth [OF su]) (use that st len in simp_all)
    moreover have "\<not> lt (v ! (mid - 1 - h)) (v ! (mid - 1 - k))"
      by (rule sorted_list_nth [OF sv]) (use that st len in linarith)+
    moreover have "lt (v ! (mid - 1 - h)) (u ! (h - a))" using that less by simp
    ultimately have "lt (v ! (mid - 1 - k)) (u ! (k - a))" using le_less_trans less_le_trans by blast
    then show ?thesis using that less by simp
  qed
  have found: "(\<forall>h. start \<le> h \<and> h < s \<longrightarrow> \<not> ?f h) \<and> (\<forall>h. s \<le> h \<and> h < r \<longrightarrow> ?f h)"
    using search_loop_spec [of start r ?f] st(2) mono unfolding s by blast
  show "lt y x" if x: "x \<in> set (drop (s - a) u)" and y: "y \<in> set (take (mid - s) v)" for x y
  proof -
    obtain i where i: "i < m - s" "x = u ! (s - a + i)"
      using x len \<open>a \<le> s\<close> by (auto simp: in_set_conv_nth)
    obtain j where j: "j < mid - s" "j < b - m" "y = v ! j" using y len by (auto simp: in_set_conv_nth)
    have "s < r" using i j sr by (auto split: if_splits)
    then have "lt (v ! (mid - 1 - s)) (u ! (s - a))" using found less [of s] s_in by auto
    moreover have "\<not> lt x (u ! (s - a))" unfolding i(2)
      by (rule sorted_list_nth [OF su]) (use i len st s_in in simp_all)
    moreover have "\<not> lt (v ! (mid - 1 - s)) y" unfolding j(3)
      by (rule sorted_list_nth [OF sv]) (use j len st s_in in linarith)+
    ultimately show ?thesis using le_less_trans less_le_trans by blast
  qed
  show "\<not> lt y x" if x: "x \<in> set (take (s - a) u)" and y: "y \<in> set (drop (mid - s) v)" for x y
  proof -
    obtain i where i: "i < s - a" "x = u ! i" using x len by (auto simp: in_set_conv_nth)
    obtain j where j: "mid - s \<le> j" "y = v ! j" "j < b - m" using y len by (auto elim: in_set_dropE)
    have "start < s" using i j sr s_in by (auto split: if_splits)
    then have prev: "start \<le> s - 1" "s - 1 < s" "s - 1 < r" using s_in by auto
    then have "\<not> lt (v ! (mid - 1 - (s - 1))) (u ! (s - 1 - a))"
      using found less [OF prev(1,3)] by blast
    moreover have "\<not> lt (u ! (s - 1 - a)) x" unfolding i(2)
      by (rule sorted_list_nth [OF su]) (use i len st s_in in simp_all)
    moreover have "\<not> lt y (v ! (mid - 1 - (s - 1)))" unfolding j(2)
      by (rule sorted_list_nth [OF sv]) (use i j len st s_in in linarith)+
    ultimately show ?thesis using neg_trans by blast
  qed
qed

lemma insert_first:
  assumes xs: "elems d = p @ x # v @ q" and len: "length p = a" "length v = b - m" "m = a + 1" "m \<le> b" and sv: "sorted_list v"
    and i: "i = search_loop (\<lambda>h. \<not> Less I d h a) m b"
  shows "\<exists>w. elems (move_up I d a i) = p @ w @ q \<and> sorted_list w \<and> rearranged lt (x # v) w"
proof -
  have less: "Less I d h a \<longleftrightarrow> lt (v ! (h - m)) x" if "m \<le> h" "h < b" for h
    using that len by (subst Less) (auto simp: xs nth_append)
  have mono: "\<not> Less I d k a" if "m \<le> h" "h \<le> k" "k < b" "\<not> Less I d h a" for h k
  proof -
    have "\<not> lt (v ! (k - m)) (v ! (h - m))" by (rule sorted_list_nth [OF sv]) (use that len in simp_all)
    moreover have "\<not> lt (v ! (h - m)) x" using less [of h] that by simp
    ultimately have "\<not> lt (v ! (k - m)) x" by (rule neg_trans)
    then show ?thesis using less [of k] that by simp
  qed
  have found: "(\<forall>h. m \<le> h \<and> h < i \<longrightarrow> Less I d h a) \<and> (\<forall>h. i \<le> h \<and> h < b \<longrightarrow> \<not> Less I d h a)"
    using search_loop_spec [of m b "\<lambda>h. \<not> Less I d h a"] len(4) mono unfolding i by blast
  have i_in: "m \<le> i" "i \<le> b" using search_loop_bounds [OF len(4)] i by auto
  define v1 v2 where "v1 = take (i - m) v" and "v2 = drop (i - m) v"
  have v: "v = v1 @ v2" "length v1 = i - m" using i_in len by (auto simp: v1_def v2_def)
  have low: "lt y x" if "y \<in> set v1" for y
  proof -
    obtain k where "k < i - m" "y = v ! k" using \<open>y \<in> set v1\<close> by (auto simp: v1_def in_set_conv_nth)
    then show ?thesis using found less [of "m + k"] i_in by auto
  qed
  have high: "\<not> lt y x" if "y \<in> set v2" for y
  proof -
    obtain k where "i - m \<le> k" "k < length v" "y = v ! k"
      using \<open>y \<in> set v2\<close> unfolding v2_def by (rule in_set_dropE)
    then show ?thesis using found less [of "m + k"] i_in len by auto
  qed
  have "elems (move_up I d a i) = p @ v1 @ x # v2 @ q"
    using xs v len i_in by (intro move_up_blocks) auto
  moreover have "sorted_list (v1 @ [x] @ v2)"
    using sv low [THEN asym] high unfolding v(1) sorted_list_append by auto
  moreover have "rearranged lt (([x] @ v1) @ v2) ((v1 @ [x]) @ v2)"
    using low by (intro rearranged_append rearranged_blocks) auto
  ultimately show ?thesis using v(1) by (intro exI [of _ "v1 @ [x] @ v2"]) simp
qed

lemma insert_last:
  assumes xs: "elems d = p @ u @ x # q" and len: "length p = a" "length u = m - a" "a \<le> m" and su: "sorted_list u"
    and i: "i = search_loop (\<lambda>h. Less I d m h) a m"
  shows "\<exists>w. elems (move_down I d m i) = p @ w @ q \<and> sorted_list w \<and> rearranged lt (u @ [x]) w"
proof -
  have less: "Less I d m h \<longleftrightarrow> lt x (u ! (h - a))" if "a \<le> h" "h < m" for h
    using that len by (subst Less) (auto simp: xs nth_append)
  have mono: "Less I d m k" if "a \<le> h" "h \<le> k" "k < m" "Less I d m h" for h k
  proof -
    have "\<not> lt (u ! (k - a)) (u ! (h - a))" by (rule sorted_list_nth [OF su]) (use that len in simp_all)
    moreover have "lt x (u ! (h - a))" using less [of h] that by simp
    ultimately have "lt x (u ! (k - a))" using less_le_trans by blast
    then show ?thesis using less [of k] that by simp
  qed
  have found: "(\<forall>h. a \<le> h \<and> h < i \<longrightarrow> \<not> Less I d m h) \<and> (\<forall>h. i \<le> h \<and> h < m \<longrightarrow> Less I d m h)"
    using search_loop_spec [of a m "\<lambda>h. Less I d m h"] len(3) mono unfolding i by blast
  have i_in: "a \<le> i" "i \<le> m" using search_loop_bounds [OF len(3)] i by auto
  define u1 u2 where "u1 = take (i - a) u" and "u2 = drop (i - a) u"
  have u: "u = u1 @ u2" "length u1 = i - a" "length u2 = m - i" using i_in len by (auto simp: u1_def u2_def)
  have low: "\<not> lt x y" if "y \<in> set u1" for y
  proof -
    obtain k where "k < i - a" "y = u ! k" using \<open>y \<in> set u1\<close> by (auto simp: u1_def in_set_conv_nth)
    then show ?thesis using found less [of "a + k"] i_in by auto
  qed
  have high: "lt x y" if "y \<in> set u2" for y
  proof -
    obtain k where "i - a \<le> k" "k < length u" "y = u ! k"
      using \<open>y \<in> set u2\<close> unfolding u2_def by (rule in_set_dropE)
    then show ?thesis using found less [of "a + k"] i_in len by auto
  qed
  have "elems (move_down I d m i) = (p @ u1) @ x # u2 @ q"
    using xs u len i_in by (intro move_down_blocks) auto
  moreover have "sorted_list (u1 @ [x] @ u2)"
    using su low high [THEN asym] unfolding u(1) sorted_list_append by auto
  moreover have "rearranged lt (u1 @ (u2 @ [x])) (u1 @ ([x] @ u2))"
    using high by (intro rearranged_append rearranged_blocks rearranged_refl) auto
  ultimately show ?thesis using u(1) by (intro exI [of _ "u1 @ [x] @ u2"]) simp
qed

end

end
