(* ===== verification/Sort_Stable_Correct.thy ===== *)
theory Sort_Stable_Correct
  imports Sort_Merge
begin

section \<open>symMerge and Stable\<close>

text \<open>
  \<open>symMerge\<close> merges two sorted neighbours in place and keeps the order of equal elements; by the
  doubling of the block size, \<open>Stable\<close> sorts stably.
\<close>

context sort_order
begin

lemma symMerge_blocks:
  assumes "elems d = p @ u @ v @ q" "length p = a" "length u = m - a" "length v = b - m" "a < m" "m < b"
    and "sorted_list u" "sorted_list v"
  shows "\<exists>d' w. symMerge I d a m b = Some d' \<and> elems d' = p @ w @ q \<and> sorted_list w \<and> rearranged lt (u @ v) w"
  using assms
proof (induction "b - a" arbitrary: d p u v q a m b rule: less_induct)
  case less
  note prems = less.prems
  consider (first) "m - a = 1" | (last) "m - a \<noteq> 1" "b - m = 1" | (split) "m - a \<noteq> 1" "b - m \<noteq> 1" by blast
  then show ?case
  proof cases
    case first
    obtain x where x: "u = [x]" using first prems(3) by (cases u) auto
    have "symMerge I d a m b = Some (move_up I d a (search_loop (\<lambda>h. \<not> Less I d h a) m b))"
      using first by (subst symMerge.simps) simp
    moreover have "\<exists>w. elems (move_up I d a (search_loop (\<lambda>h. \<not> Less I d h a) m b)) = p @ w @ q \<and>
        sorted_list w \<and> rearranged lt (x # v) w"
      using prems first x by (intro insert_first) auto
    ultimately show ?thesis using x by auto
  next
    case last
    obtain x where x: "v = [x]" using last prems(4) by (cases v) auto
    have "symMerge I d a m b = Some (move_down I d m (search_loop (\<lambda>h. Less I d m h) a m))"
      using last by (subst symMerge.simps) simp
    moreover have "\<exists>w. elems (move_down I d m (search_loop (\<lambda>h. Less I d m h) a m)) = p @ w @ q \<and>
        sorted_list w \<and> rearranged lt (u @ [x]) w"
      using prems last x by (intro insert_last) auto
    ultimately show ?thesis using x by auto
  next
    case split
    define mid where "mid = (a + b) div 2"
    obtain start r where sr: "(start, r) = (if m > mid then (mid + m - b, mid) else (a, m))" by (cases "m > mid") auto
    define s where "s = search_loop (\<lambda>c. Less I d (mid + m - 1 - c) c) start r"
    note cut = sym_cut [OF prems(1-8) mid_def sr s_def]
    have mid: "a < mid" "mid < b" using prems(5,6) by (auto simp: mid_def)
    define u1 u2 v1 v2 where "u1 = take (s - a) u" and "u2 = drop (s - a) u"
      and "v1 = take (mid - s) v" and "v2 = drop (mid - s) v"
    have uv: "u = u1 @ u2" "v = v1 @ v2" "length u1 = s - a" "length u2 = m - s" "length v1 = mid - s"
      "length v2 = b - (mid + m - s)"
      using cut(1-4) prems(3,4) by (auto simp: u1_def u2_def v1_def v2_def)
    have ord: "lt y x" if "x \<in> set u2" "y \<in> set v1" for x y using cut(5) that by (simp add: u2_def v1_def)
    have ord': "\<not> lt y x" if "x \<in> set u1" "y \<in> set v2" for x y using cut(6) that by (simp add: u1_def v2_def)
    have su: "sorted_list u1" "sorted_list u2" "\<And>x y. x \<in> set u1 \<Longrightarrow> y \<in> set u2 \<Longrightarrow> \<not> lt y x"
      using prems(7) unfolding uv(1) sorted_list_append by auto
    have sv: "sorted_list v1" "sorted_list v2" "\<And>x y. x \<in> set v1 \<Longrightarrow> y \<in> set v2 \<Longrightarrow> \<not> lt y x"
      using prems(8) unfolding uv(2) sorted_list_append by auto
    let ?e2 = "mid + m - s"
    obtain d1 where d1: "(if s < m \<and> m < ?e2 then rotate_data I d s m ?e2 else Some d) = Some d1"
      "elems d1 = p @ u1 @ v1 @ u2 @ v2 @ q"
    proof (cases "s < m \<and> m < ?e2")
      case True
      have "\<exists>d'. rotate_loop I m d (m - s) (?e2 - m) = Some d' \<and> elems d' = (p @ u1) @ v1 @ u2 @ (v2 @ q)"
        using True prems uv cut(1-4) by (intro rotate_loop_blocks) auto
      then show ?thesis using True that by (auto simp: rotate_data_def)
    next
      case False
      then have "u2 = [] \<or> v1 = []" using uv cut(1-4) by auto
      then show ?thesis using False prems(1) uv by (intro that) auto
    qed
    have len1: "length p = a" "length (p @ u1 @ v1) = mid" using prems(2) uv cut(1-4) by auto
    obtain d2 w1 where d2: "(if a < s \<and> s < mid then symMerge I d1 a s mid else Some d1) = Some d2"
      "elems d2 = p @ w1 @ u2 @ v2 @ q" "sorted_list w1" "rearranged lt (u1 @ v1) w1"
    proof (cases "a < s \<and> s < mid")
      case True
      have "\<exists>d' w. symMerge I d1 a s mid = Some d' \<and> elems d' = p @ w @ (u2 @ v2 @ q) \<and> sorted_list w \<and> rearranged lt (u1 @ v1) w"
        using True d1(2) uv len1 mid su sv by (intro less.hyps) auto
      then show ?thesis using True that by auto
    next
      case False
      then have "u1 = [] \<or> v1 = []" using uv cut(1-4) by auto
      then show ?thesis using False d1(2) su sv by (intro that [of d1 "u1 @ v1"]) auto
    qed
    have len2: "length (p @ w1) = mid" using rearranged_length [OF d2(4)] len1 by simp
    obtain d3 w2 where d3: "(if mid < ?e2 \<and> ?e2 < b then symMerge I d2 mid ?e2 b else Some d2) = Some d3"
      "elems d3 = (p @ w1) @ w2 @ q" "sorted_list w2" "rearranged lt (u2 @ v2) w2"
    proof (cases "mid < ?e2 \<and> ?e2 < b")
      case True
      have "\<exists>d' w. symMerge I d2 mid ?e2 b = Some d' \<and> elems d' = (p @ w1) @ w @ q \<and> sorted_list w \<and> rearranged lt (u2 @ v2) w"
        using True d2(2) uv len2 mid su sv by (intro less.hyps) auto
      then show ?thesis using True that by auto
    next
      case False
      then have "u2 = [] \<or> v2 = []" using uv cut(1-4) by auto
      then show ?thesis using False d2(2) su sv by (intro that [of d2 "u2 @ v2"]) auto
    qed
    have eq: "symMerge I d a m b = Some d3"
      unfolding symMerge.simps [of I d a m b] Let_def mid_def [symmetric] sr [symmetric] prod.case s_def [symmetric]
      using split d1(1) d2(1) d3(1) by simp
    have "sorted_list (w1 @ w2)"
      unfolding sorted_list_append rearranged_set [OF d2(4)] rearranged_set [OF d3(4)]
      using d2(3) d3(3) su(3) sv(3) ord' ord [THEN asym] by auto
    moreover have "rearranged lt (u @ v) (w1 @ w2)"
    proof -
      have "rearranged lt (u1 @ (u2 @ v1) @ v2) (u1 @ (v1 @ u2) @ v2)"
        using ord by (intro rearranged_append rearranged_refl rearranged_blocks) auto
      moreover have "rearranged lt ((u1 @ v1) @ (u2 @ v2)) (w1 @ w2)"
        by (rule rearranged_append [OF d2(4) d3(4)])
      ultimately show ?thesis using rearranged_trans unfolding uv(1,2) by fastforce
    qed
    ultimately show ?thesis using eq d3(2) by auto
  qed
qed

text \<open>The same over indices.\<close>

lemma sorted_range_slice:
  assumes "lo \<le> hi" "hi \<le> length xs"
  shows "sorted_range lo hi xs \<longleftrightarrow> sorted_list (take (hi - lo) (drop lo xs))"
proof
  assume s: "sorted_range lo hi xs"
  show "sorted_list (take (hi - lo) (drop lo xs))"
    unfolding sorted_wrt_iff_nth_less
    using s assms by (auto simp: sorted_range_def)
next
  assume s: "sorted_list (take (hi - lo) (drop lo xs))"
  show "sorted_range lo hi xs"
    unfolding sorted_range_def
  proof (intro allI impI)
    fix i j assume a: "lo \<le> i \<and> i < j \<and> j < hi"
    then have "i - lo < j - lo" "j - lo < length (take (hi - lo) (drop lo xs))" using assms by auto
    then show "\<not> lt (xs ! j) (xs ! i)"
      using s [unfolded sorted_wrt_iff_nth_less, rule_format, of "i - lo" "j - lo"] a assms by auto
  qed
qed

lemma symMerge_sorts:
  assumes "a < m" "m < b" "b \<le> length (elems d)" "sorted_range a m (elems d)" "sorted_range m b (elems d)"
  shows "\<exists>d'. symMerge I d a m b = Some d' \<and> sorted_range a b (elems d') \<and> rearranged lt (elems d) (elems d') \<and>
    perm_in a b (elems d) (elems d')"
proof -
  let ?xs = "elems d"
  define p u v q where "p = take a ?xs" and "u = take (m - a) (drop a ?xs)" and "v = take (b - m) (drop m ?xs)"
    and "q = drop b ?xs"
  have "drop a ?xs = u @ drop m ?xs" "drop m ?xs = v @ q"
    using assms(1,2) append_take_drop_id [of "m - a" "drop a ?xs"] append_take_drop_id [of "b - m" "drop m ?xs"]
    by (simp_all add: u_def v_def q_def del: append_take_drop_id)
  then have xs: "?xs = p @ u @ v @ q" using append_take_drop_id [of a ?xs] by (simp add: p_def)
  have len: "length p = a" "length u = m - a" "length v = b - m" using assms by (simp_all add: p_def u_def v_def)
  have "sorted_list u" "sorted_list v"
    using assms sorted_range_slice [of a m ?xs] sorted_range_slice [of m b ?xs] by (auto simp: u_def v_def)
  then obtain d' w where d': "symMerge I d a m b = Some d'" "elems d' = p @ w @ q" "sorted_list w" "rearranged lt (u @ v) w"
    using symMerge_blocks [OF xs len assms(1,2)] by blast
  have w: "length w = b - a" using rearranged_length [OF d'(4)] len assms by simp
  have re: "rearranged lt ?xs (elems d')"
    unfolding d'(2) xs using rearranged_append [OF rearranged_refl rearranged_append [OF d'(4) rearranged_refl], of p q] by simp
  have "sorted_range a b (elems d')"
    using assms w len d'(3) by (subst sorted_range_slice) (auto simp: d'(2))
  moreover have "perm_in a b ?xs (elems d')"
  proof -
    have "length (p @ w) = b" "length (p @ u @ v) = b" using w len assms(1,2) by simp_all
    then have "((p @ w) @ q) ! i = ((p @ u @ v) @ q) ! i" if "i < a \<or> b \<le> i" for i
      using that len(1) assms(1,2) by (cases "i < a") (simp_all add: nth_append_left nth_append_right add.assoc)
    then show ?thesis
      using re rearranged_length [OF re] xs by (auto simp: perm_in_def d'(2) rearranged_def)
  qed
  ultimately show ?thesis using d'(1) re by blast
qed

subsection \<open>Runs\<close>

text \<open>From \<open>lo\<close> up to \<open>n\<close> the elements come in sorted runs of length \<open>bs\<close>, the last one maybe shorter.\<close>

definition runs :: "nat \<Rightarrow> nat \<Rightarrow> nat \<Rightarrow> 'a list \<Rightarrow> bool" where
  "runs bs lo n xs \<longleftrightarrow> (\<forall>i. lo + i * bs < n \<longrightarrow> sorted_range (lo + i * bs) (min (lo + (i + 1) * bs) n) xs)"

lemma sorted_range_outside:
  assumes "sorted_range lo hi xs" "perm_in a b xs ys" "hi \<le> length xs" "hi \<le> a \<or> b \<le> lo"
  shows "sorted_range lo hi ys"
  using assms by (auto simp: sorted_range_def perm_in_outside)

lemma runs_outside:
  assumes "runs bs lo n xs" "perm_in a b xs ys" "n \<le> length xs" "n \<le> a \<or> b \<le> lo"
  shows "runs bs lo n ys"
  unfolding runs_def
proof (intro allI impI)
  fix i assume "lo + i * bs < n"
  then have "sorted_range (lo + i * bs) (min (lo + (i + 1) * bs) n) xs" using assms(1) by (simp add: runs_def)
  then show "sorted_range (lo + i * bs) (min (lo + (i + 1) * bs) n) ys"
    by (rule sorted_range_outside [OF _ assms(2)]) (use assms(3,4) in auto)
qed

lemma runs_first: "runs bs lo n xs \<Longrightarrow> lo < n \<Longrightarrow> sorted_range lo (min (lo + bs) n) xs"
  unfolding runs_def by (drule spec [of _ 0]) simp

lemma runs_rest: "runs bs lo n xs \<Longrightarrow> runs bs (lo + bs) n xs"
  unfolding runs_def
proof (intro allI impI)
  fix i assume *: "\<forall>i. lo + i * bs < n \<longrightarrow> sorted_range (lo + i * bs) (min (lo + (i + 1) * bs) n) xs"
    and "lo + bs + i * bs < n"
  then show "sorted_range (lo + bs + i * bs) (min (lo + bs + (i + 1) * bs) n) xs"
    using * [rule_format, of "i + 1"] by (simp add: algebra_simps)
qed

lemma runs_snoc:
  assumes "runs bs 0 a xs" "bs dvd a" "sorted_range a e xs" "e \<le> a + bs" "0 < bs"
  shows "runs bs 0 e xs"
  unfolding runs_def
proof (intro allI impI)
  fix i assume i: "0 + i * bs < e"
  obtain k where k: "a = k * bs" using assms(2) by (auto simp: dvd_def mult.commute)
  show "sorted_range (0 + i * bs) (min (0 + (i + 1) * bs) e) xs"
  proof (cases "i < k")
    case True
    then have le: "(i + 1) * bs \<le> a" using k by (metis Suc_eq_plus1 Suc_leI mult_le_mono1)
    then have "sorted_range (i * bs) ((i + 1) * bs) xs"
      using assms(1,5) by (auto simp: runs_def min_def dest!: spec [of _ i])
    then show ?thesis by (auto simp: sorted_range_def)
  next
    case False
    have "i * bs < (k + 1) * bs" using i assms(4) k by simp
    then have "i = k" using False by (metis Suc_eq_plus1 less_antisym mult_less_cancel2)
    then show ?thesis using assms(3) k by (auto simp: sorted_range_def)
  qed
qed

lemma block_sort_runs:
  assumes "0 < bs" "a \<le> n" "n \<le> length (elems d)" "bs dvd a" "runs bs 0 a (elems d)"
  shows "\<exists>d' a'. block_sort I n bs d a (a + bs) = Some (d', a') \<and> a' \<le> n \<and> n < a' + bs \<and> bs dvd a' \<and>
    runs bs 0 a' (elems d') \<and> rearranged lt (elems d) (elems d')"
  using assms
proof (induction "n - a" arbitrary: a d rule: less_induct)
  case less
  show ?case
  proof (cases "a + bs \<le> n")
    case False
    then show ?thesis using less.prems by (subst block_sort.simps) auto
  next
    case True
    let ?d = "insertionSort I d a (a + bs)"
    have 1: "perm_in a (a + bs) (elems d) (elems ?d)" "sorted_range a (a + bs) (elems ?d)"
      using insertionSort_sorts [of a "a + bs" d] less.prems True by auto
    have 2: "rearranged lt (elems d) (elems ?d)" using less.prems True by (intro insertionSort_stable) auto
    have "runs bs 0 a (elems ?d)" using runs_outside [OF less.prems(5) 1(1)] less.prems by simp
    then have "runs bs 0 (a + bs) (elems ?d)" using runs_snoc 1(2) less.prems by blast
    then have "\<exists>d' a'. block_sort I n bs ?d (a + bs) (a + bs + bs) = Some (d', a') \<and> a' \<le> n \<and> n < a' + bs \<and> bs dvd a' \<and>
        runs bs 0 a' (elems d') \<and> rearranged lt (elems ?d) (elems d')"
      using less.prems True rearranged_length [OF 2] by (intro less.hyps) auto
    then show ?thesis using True 2 rearranged_trans by (subst block_sort.simps) fastforce
  qed
qed

lemma merge_pass_runs:
  assumes "0 < bs" "a \<le> n" "n \<le> length (elems d)" "2 * bs dvd a" "runs (2 * bs) 0 a (elems d)" "runs bs a n (elems d)"
  shows "\<exists>d' a'. merge_pass I n bs d a (a + 2 * bs) = Some (d', a') \<and> a' \<le> n \<and> n < a' + 2 * bs \<and> 2 * bs dvd a' \<and>
    runs (2 * bs) 0 a' (elems d') \<and> runs bs a' n (elems d') \<and> rearranged lt (elems d) (elems d')"
  using assms
proof (induction "n - a" arbitrary: a d rule: less_induct)
  case less
  let ?b = "a + 2 * bs"
  show ?case
  proof (cases "?b \<le> n")
    case False
    then show ?thesis using less.prems by (subst merge_pass.simps) auto
  next
    case True
    have "sorted_range a (a + bs) (elems d)" "sorted_range (a + bs) ?b (elems d)"
      using runs_first [OF less.prems(6)] runs_first [OF runs_rest [OF less.prems(6)]] less.prems(1) True
      by (simp_all add: min_def mult_2 add.assoc)
    then obtain d1 where d1: "symMerge I d a (a + bs) ?b = Some d1" "sorted_range a ?b (elems d1)"
      "rearranged lt (elems d) (elems d1)" "perm_in a ?b (elems d) (elems d1)"
      using symMerge_sorts [of a "a + bs" ?b d] less.prems True by auto
    have "runs (2 * bs) 0 a (elems d1)" using runs_outside [OF less.prems(5) d1(4)] less.prems by simp
    then have r1: "runs (2 * bs) 0 ?b (elems d1)" using runs_snoc d1(2) less.prems by (meson nat_0_less_mult_iff order_refl zero_less_numeral)
    have "runs bs ?b n (elems d)"
      using runs_rest [OF runs_rest [OF less.prems(6)]] by (simp add: mult_2 add.assoc)
    then have r2: "runs bs ?b n (elems d1)" using runs_outside [OF _ d1(4)] less.prems by simp
    have "\<exists>d' a'. merge_pass I n bs d1 ?b (?b + 2 * bs) = Some (d', a') \<and> a' \<le> n \<and> n < a' + 2 * bs \<and> 2 * bs dvd a' \<and>
        runs (2 * bs) 0 a' (elems d') \<and> runs bs a' n (elems d') \<and> rearranged lt (elems d1) (elems d')"
      using less.prems True rearranged_length [OF d1(3)] r1 r2 by (intro less.hyps) auto
    then show ?thesis using True d1(1,3) rearranged_trans by (subst merge_pass.simps) fastforce
  qed
qed

lemma merge_loop_sorts:
  assumes "0 < bs" "n \<le> length (elems d)" "runs bs 0 n (elems d)"
  shows "\<exists>d'. merge_loop I n bs d = Some d' \<and> sorted_range 0 n (elems d') \<and> rearranged lt (elems d) (elems d')"
  using assms
proof (induction "n - bs" arbitrary: bs d rule: less_induct)
  case less
  show ?case
  proof (cases "bs < n")
    case False
    then have "sorted_range 0 n (elems d)"
      using runs_first [OF less.prems(3)] by (cases "n = 0") (auto simp: sorted_range_trivial min_def split: if_splits)
    then show ?thesis using False by (subst merge_loop.simps) auto
  next
    case True
    have "runs (2 * bs) 0 0 (elems d)" by (simp add: runs_def)
    then obtain d1 a where d1: "merge_pass I n bs d 0 (2 * bs) = Some (d1, a)" "a \<le> n" "n < a + 2 * bs" "2 * bs dvd a"
      "runs (2 * bs) 0 a (elems d1)" "runs bs a n (elems d1)" "rearranged lt (elems d) (elems d1)"
      using merge_pass_runs [of bs 0 n d] less.prems by auto
    have len: "n \<le> length (elems d1)" using rearranged_length [OF d1(7)] less.prems by simp
    obtain d2 where d2: "(if a + bs < n then symMerge I d1 a (a + bs) n else Some d1) = Some d2"
      "sorted_range a n (elems d2)" "rearranged lt (elems d1) (elems d2)" "perm_in a n (elems d1) (elems d2)"
    proof (cases "a + bs < n")
      case t: True
      have "sorted_range a (a + bs) (elems d1)" "sorted_range (a + bs) n (elems d1)"
        using runs_first [OF d1(6)] runs_first [OF runs_rest [OF d1(6)]] t d1(3) by (simp_all add: min_def split: if_splits)
      then show ?thesis using symMerge_sorts [of a "a + bs" n d1] t less.prems(1) len that by auto
    next
      case False
      have "sorted_range a n (elems d1)"
        using runs_first [OF d1(6)] False d1(2) by (cases "a = n") (auto simp: sorted_range_trivial min_def split: if_splits)
      then show ?thesis using False by (intro that) auto
    qed
    have "runs (2 * bs) 0 a (elems d2)" using runs_outside [OF d1(5) d2(4)] d1(2) len by simp
    then have "runs (bs * 2) 0 n (elems d2)"
      using runs_snoc [of "2 * bs" a "elems d2" n] d2(2) d1(3,4) less.prems(1) by (simp add: mult.commute)
    then have "\<exists>d'. merge_loop I n (bs * 2) d2 = Some d' \<and> sorted_range 0 n (elems d') \<and> rearranged lt (elems d2) (elems d')"
      using True less.prems len rearranged_length [OF d2(3)] by (intro less.hyps) auto
    then show ?thesis using True d1(1,7) d2(1,3) rearranged_trans by (subst merge_loop.simps) fastforce
  qed
qed

lemma Stable_sorts:
  "\<exists>d'. Stable I d = Some d' \<and> sorted_list (elems d') \<and> rearranged lt (elems d) (elems d')"
proof -
  let ?n = "length (elems d)"
  have "runs 20 0 0 (elems d)" by (simp add: runs_def)
  then obtain d1 a where d1: "block_sort I ?n 20 d 0 20 = Some (d1, a)" "a \<le> ?n" "?n < a + 20" "20 dvd a"
    "runs 20 0 a (elems d1)" "rearranged lt (elems d) (elems d1)"
    using block_sort_runs [of 20 0 ?n d] by auto
  let ?d2 = "insertionSort I d1 a ?n"
  have len: "length (elems d1) = ?n" by (rule rearranged_length [OF d1(6)])
  have re: "rearranged lt (elems d1) (elems ?d2)" using len by (intro insertionSort_stable) simp
  have 2: "sorted_range a ?n (elems ?d2) \<and> perm_in a ?n (elems d1) (elems ?d2)"
  proof (cases "a < ?n")
    case True
    then show ?thesis using insertionSort_sorts [of a ?n d1] len by auto
  next
    case False
    then have "?d2 = d1" using d1(2) by (simp add: insertionSort_def insertion_loop.simps)
    then show ?thesis using False by (simp add: sorted_range_trivial)
  qed
  have "runs 20 0 a (elems ?d2)" using runs_outside [OF d1(5) conjunct2 [OF 2]] d1(2) len by simp
  then have "runs 20 0 ?n (elems ?d2)" using runs_snoc [of 20 a "elems ?d2" ?n] 2 d1(3,4) by simp
  then obtain d3 where d3: "merge_loop I ?n 20 ?d2 = Some d3" "sorted_range 0 ?n (elems d3)" "rearranged lt (elems ?d2) (elems d3)"
    using merge_loop_sorts [of 20 ?n ?d2] rearranged_length [OF re] len by auto
  have "rearranged lt (elems d) (elems d3)" using d1(6) re d3(3) rearranged_trans by blast
  then show ?thesis using d1(1) d3 rearranged_length [OF \<open>rearranged lt (elems d) (elems d3)\<close>]
    by (auto simp: Stable_def stable_def Len sorted_range_iff [symmetric])
qed

end

end
