(* ===== verification/Sort_Props.thy ===== *)
theory Sort_Props
  imports Sort_Stable_Correct
begin

section \<open>The sort package: instances and properties\<close>

text \<open>
  The collections of the package (ints, strings, reversed collections) are instances of the locale
  of lawful collections; the theorems about the exported functions follow from its lemmas.
\<close>

subsection \<open>The package's own implementations of the interface\<close>

lemma string_less_asym: "string_less s t \<Longrightarrow> \<not> string_less t s"
  by (induction s t rule: string_less.induct) auto

lemma string_less_neg_trans: "\<not> string_less s t \<Longrightarrow> \<not> string_less t u \<Longrightarrow> \<not> string_less s u"
proof (induction s t arbitrary: u rule: string_less.induct)
  case (1 s)
  then show ?case by (cases u) auto
next
  case (2 b t)
  then show ?case by simp
next
  case (3 a s b t)
  then show ?case by (cases u) (auto simp: not_less)
qed

lemma string_less_total: "\<not> string_less s t \<Longrightarrow> \<not> string_less t s \<Longrightarrow> s = t"
  by (induction s t rule: string_less.induct) (auto elim: string_less.elims)

interpretation ints: sort_order IntSlice "\<lambda>x. x" "(<)"
  by unfold_locales (auto simp: IntSlice_def)

interpretation strings: sort_order StringSlice "\<lambda>x. x" string_less
  by unfold_locales (auto simp: StringSlice_def dest: string_less_asym string_less_neg_trans)

subsection \<open>Slices\<close>

text \<open>A less function that compares the elements at its indices.\<close>

definition less_of :: "('a \<Rightarrow> 'a \<Rightarrow> bool) \<Rightarrow> 'a list \<Rightarrow> nat \<Rightarrow> nat \<Rightarrow> bool" where
  "less_of lt x i j = lt (x ! i) (x ! j)"

lemma slice_order:
  assumes "sort_order I elems lt"
  shows "sort_order (lessSwap (less_of lt) slice_swap) (\<lambda>x. x) lt"
proof
  show "lt x y \<Longrightarrow> \<not> lt y x" for x y by (rule sort_order.asym [OF assms])
  show "\<not> lt x y \<Longrightarrow> \<not> lt y z \<Longrightarrow> \<not> lt x z" for x y z by (rule sort_order.neg_trans [OF assms])
qed (simp_all add: lessSwap_def less_of_def)

lemma Slice_Sort: "Slice x lessf = Sort (lessSwap lessf slice_swap) x"
  by (simp add: Slice_def Sort_def lessSwap_def Let_def)

lemma SliceStable_Stable: "SliceStable x lessf = Stable (lessSwap lessf slice_swap) x"
  by (simp add: SliceStable_def Stable_def lessSwap_def)

lemma SliceIsSorted_IsSorted: "SliceIsSorted x lessf = IsSorted (lessSwap lessf slice_swap) x"
proof -
  have "slice_sorted_loop lessf x i = sorted_loop (lessSwap lessf slice_swap) x i" for i
    by (induction i) (simp_all add: sorted_loop.simps [of _ x] lessSwap_def)
  then show ?thesis by (simp add: SliceIsSorted_def IsSorted_def lessSwap_def)
qed

interpretation pairs: sort_order "lessSwap (less_of (\<lambda>p q :: int \<times> nat. fst p < fst q)) slice_swap" "\<lambda>x. x" "\<lambda>p q. fst p < fst q"
  by unfold_locales (auto simp: lessSwap_def less_of_def)

subsection \<open>Properties\<close>

text \<open>
  C8. \<open>Sort\<close> sorts. For every collection with a lawful interface the result holds the same
  elements as the argument and no element is less than one before it; sorting the reversed
  interface sorts in descending order. \<open>Slice\<close> with a less function that compares elements by
  the same order sorts a slice, and \<open>SliceIsSorted\<close> decides whether one is sorted.
\<close>

theorem Sort_correct:
  assumes "sort_order I elems lt"
  shows "mset (elems (Sort I d)) = mset (elems d) \<and> sorted_wrt (\<lambda>x y. \<not> lt y x) (elems (Sort I d)) \<and>
     mset (elems (Sort (Reverse I) d)) = mset (elems d) \<and> sorted_wrt (\<lambda>x y. \<not> lt x y) (elems (Sort (Reverse I) d)) \<and>
     mset (Slice x (less_of lt)) = mset x \<and> sorted_wrt (\<lambda>x y. \<not> lt y x) (Slice x (less_of lt)) \<and>
     (SliceIsSorted x (less_of lt) \<longleftrightarrow> sorted_wrt (\<lambda>x y. \<not> lt y x) x)"
proof -
  have sorts: "mset (elems' (Sort J e)) = mset (elems' e) \<and> sorted_wrt (\<lambda>x y. \<not> lt' y x) (elems' (Sort J e))"
    if "sort_order J elems' lt'" for J :: "'e Interface" and elems' and lt' :: "'b \<Rightarrow> 'b \<Rightarrow> bool" and e
    using sort_order.Sort_sorts [OF that, of e] sort_order.sorted_range_iff [OF that] by metis
  show ?thesis
    using sorts [OF assms, of d] sorts [OF sort_order.Reverse_order [OF assms], of d]
      sorts [OF slice_order [OF assms], of x] sort_order.IsSorted_iff [OF slice_order [OF assms], of x]
    by (simp add: Slice_Sort SliceIsSorted_IsSorted)
qed

theorem Sort_correct_witness:
  "sort_order IntSlice (\<lambda>x. x) (<) \<and> mset (Sort IntSlice [3, 1, 2]) = {#1, 2, 3#} \<and>
   sorted_wrt (\<le>) (Sort IntSlice [3, 1, 2])"
  using Sort_correct [OF ints.sort_order_axioms, of "[3, 1, 2]"] ints.sort_order_axioms
  by (simp add: not_less add_mset_commute)

text \<open>
  C9. \<open>Stable\<close> always returns, with a sorted rearrangement of the elements in which the elements
  that compare equal to any given one stand in their original order; so does \<open>SliceStable\<close>.
\<close>

theorem Stable_correct:
  assumes "sort_order I elems lt"
  shows "(\<exists>d'. Stable I d = Some d' \<and> mset (elems d') = mset (elems d) \<and> sorted_wrt (\<lambda>x y. \<not> lt y x) (elems d') \<and>
     (\<forall>x. filter (\<lambda>y. \<not> lt x y \<and> \<not> lt y x) (elems d') = filter (\<lambda>y. \<not> lt x y \<and> \<not> lt y x) (elems d))) \<and>
    (\<exists>s'. SliceStable s (less_of lt) = Some s' \<and> mset s' = mset s \<and> sorted_wrt (\<lambda>x y. \<not> lt y x) s' \<and>
     (\<forall>x. filter (\<lambda>y. \<not> lt x y \<and> \<not> lt y x) s' = filter (\<lambda>y. \<not> lt x y \<and> \<not> lt y x) s))"
  using sort_order.Stable_sorts [OF assms, of d] sort_order.Stable_sorts [OF slice_order [OF assms], of s]
  by (auto simp: rearranged_def SliceStable_Stable)

theorem Stable_correct_witness:
  "(\<exists>d'. Stable IntSlice [3, 1, 2] = Some d' \<and> sorted_wrt (\<lambda>x y. \<not> y < x) d') \<and>
   (\<exists>s'. SliceStable [(2, 0), (1, 1), (2, 2)] (less_of (\<lambda>p q :: int \<times> nat. fst p < fst q)) = Some s' \<and>
      filter (\<lambda>y. \<not> 2 < fst y \<and> \<not> fst y < 2) s' = [(2, 0), (2, 2)])"
proof (rule conjI)
  show "\<exists>d'. Stable IntSlice [3, 1, 2] = Some d' \<and> sorted_wrt (\<lambda>x y. \<not> y < x) d'"
    using Stable_correct [OF ints.sort_order_axioms, of "[3, 1, 2]" "[]"] by blast
  show "\<exists>s'. SliceStable [(2, 0), (1, 1), (2, 2)] (less_of (\<lambda>p q :: int \<times> nat. fst p < fst q)) = Some s' \<and>
      filter (\<lambda>y. \<not> 2 < fst y \<and> \<not> fst y < 2) s' = [(2, 0), (2, 2)]"
    using conjunct2 [OF Stable_correct [OF pairs.sort_order_axioms, of "[]" "[(2, 0), (1, 1), (2, 2)]"]]
  proof (elim exE conjE)
    fix s' assume s: "SliceStable [(2, 0), (1, 1), (2, 2)] (less_of (\<lambda>p q :: int \<times> nat. fst p < fst q)) = Some s'"
      and f: "\<forall>x :: int \<times> nat. filter (\<lambda>y. \<not> fst x < fst y \<and> \<not> fst y < fst x) s' =
        filter (\<lambda>y. \<not> fst x < fst y \<and> \<not> fst y < fst x) [(2, 0), (1, 1), (2, 2)]"
    have "filter (\<lambda>y. \<not> 2 < fst y \<and> \<not> fst y < 2) s' = [(2, 0), (2, 2)]"
      using spec [OF f, of "(2, 0)"] by simp
    then show ?thesis using s by blast
  qed
qed

text \<open>
  C10. \<open>Ints\<close> computes the sorted list of the specification (the library's \<open>sort\<close>), \<open>Strings\<close>
  the list sorted by the bytewise order, which is total, and \<open>IntsAreSorted\<close> and
  \<open>StringsAreSorted\<close> decide whether a list is sorted.
\<close>

theorem Ints_is_sort:
  "Ints x = sort x \<and> (IntsAreSorted x \<longleftrightarrow> sorted x) \<and>
   mset (Strings s) = mset s \<and> sorted_wrt (\<lambda>a b. a = b \<or> string_less a b) (Strings s) \<and>
   (StringsAreSorted s \<longleftrightarrow> sorted_wrt (\<lambda>a b. a = b \<or> string_less a b) s)"
proof -
  have le: "(\<lambda>a b. \<not> string_less b a) = (\<lambda>a b. a = b \<or> string_less a b)"
    using string_less_asym string_less_total by (auto simp: fun_eq_iff)
  have "sorted (Ints x)" "mset (Ints x) = mset x"
    using ints.Sort_sorts [of x] ints.sorted_range_iff [of "Sort IntSlice x"] by (auto simp: Ints_def not_less)
  then have "Ints x = sort x" using properties_for_sort by metis
  moreover have "mset (Strings s) = mset s \<and> sorted_wrt (\<lambda>a b. \<not> string_less b a) (Strings s)"
    using strings.Sort_sorts [of s] strings.sorted_range_iff [of "Sort StringSlice s"] by (auto simp: Strings_def)
  ultimately show ?thesis
    using ints.IsSorted_iff [of x] strings.IsSorted_iff [of s]
    by (simp add: le IntsAreSorted_def StringsAreSorted_def not_less)
qed

lemma Search_spec:
  assumes "\<And>h k. h \<le> k \<Longrightarrow> k < n \<Longrightarrow> f h \<Longrightarrow> f k"
  shows "Search n f \<le> n \<and> (\<forall>i<Search n f. \<not> f i) \<and> (\<forall>i. Search n f \<le> i \<and> i < n \<longrightarrow> f i)"
  using search_loop_bounds [of 0 n f] search_loop_spec [of 0 n f] assms by (auto simp: Search_def)

text \<open>
  C11. Binary search: for a condition that is false and then true, \<open>Search\<close> returns the first index
  at which it is true, or \<open>n\<close>; so in a sorted list \<open>SearchInts\<close> and \<open>SearchStrings\<close> return where
  the sought element is if it is there, and where it belongs otherwise.
\<close>

theorem Search_correct:
  assumes "\<And>h k. h \<le> k \<Longrightarrow> k < n \<Longrightarrow> f h \<Longrightarrow> f k"
    and "sorted a" and "sorted_wrt (\<lambda>x y. \<not> string_less y x) s"
  shows "Search n f \<le> n \<and> (\<forall>i<Search n f. \<not> f i) \<and> (\<forall>i. Search n f \<le> i \<and> i < n \<longrightarrow> f i) \<and>
    (\<forall>i<SearchInts a x. a ! i < x) \<and> (\<forall>i. SearchInts a x \<le> i \<and> i < length a \<longrightarrow> x \<le> a ! i) \<and>
    (x \<in> set a \<longrightarrow> SearchInts a x < length a \<and> a ! SearchInts a x = x) \<and>
    (t \<in> set s \<longrightarrow> SearchStrings s t < length s \<and> s ! SearchStrings s t = t)"
proof -
  have A: "SearchInts a x \<le> length a \<and> (\<forall>i<SearchInts a x. \<not> x \<le> a ! i) \<and>
      (\<forall>i. SearchInts a x \<le> i \<and> i < length a \<longrightarrow> x \<le> a ! i)"
    unfolding SearchInts_def by (rule Search_spec) (use sorted_nth_mono [OF assms(2)] in fastforce)
  have mem: "SearchInts a x < length a \<and> a ! SearchInts a x = x" if x: "x \<in> set a"
  proof -
    obtain i where i: "i < length a" "a ! i = x" using x by (auto simp: in_set_conv_nth)
    then have le: "SearchInts a x \<le> i" using A by (metis order_refl not_le)
    then show ?thesis using A i sorted_nth_mono [OF assms(2) le i(1)] by force
  qed
  have "\<not> string_less (s ! k) t" if "h \<le> k" "k < length s" "\<not> string_less (s ! h) t" for h k
    using string_less_neg_trans [OF strings.sorted_list_nth [OF assms(3) that(1,2)] that(3)] .
  then have B: "SearchStrings s t \<le> length s \<and> (\<forall>i<SearchStrings s t. \<not> \<not> string_less (s ! i) t) \<and>
      (\<forall>i. SearchStrings s t \<le> i \<and> i < length s \<longrightarrow> \<not> string_less (s ! i) t)"
    unfolding SearchStrings_def by (rule Search_spec)
  have mems: "SearchStrings s t < length s \<and> s ! SearchStrings s t = t" if t: "t \<in> set s"
  proof -
    obtain i where i: "i < length s" "s ! i = t" using t by (auto simp: in_set_conv_nth)
    then have le: "SearchStrings s t \<le> i" using B string_less_asym [of t t] by (metis not_le)
    then have "\<not> string_less t (s ! SearchStrings s t)"
      using strings.sorted_list_nth [OF assms(3) le i(1)] i(2) by simp
    then show ?thesis using B i le string_less_total by force
  qed
  show ?thesis using Search_spec [of n f, OF assms(1)] A mem mems by (simp add: not_le)
qed

theorem Search_correct_witness:
  "SearchInts [1, 3, 5] 3 < 3 \<and> [1, 3, 5 :: int] ! SearchInts [1, 3, 5] 3 = 3"
  using Search_correct [of 0 "\<lambda>_. True" "[1, 3, 5]" "[]" 3] by simp

end
