(* ===== verification/Container_Heap.thy ===== *)
theory Container_Heap
  imports Sort_Laws
begin

section \<open>Priority queues (container/heap)\<close>

text \<open>
  The package keeps the elements of a collection in heap order. Its interface embeds
  \<open>sort.Interface\<close> and adds the methods that append and remove the last element. The element at
  index 0 is a least one, so the heap of the package is the heap of \<open>sort.siftDown\<close> for the
  reversed order (lemma \<open>down_siftDown\<close>), and the lemmas about that apply here.
\<close>

subsection \<open>The code\<close>

record ('d, 'a) heap_Interface =
  h_sort :: "'d Interface"
  h_Push :: "'d \<Rightarrow> 'a \<Rightarrow> 'd"
  h_Pop :: "'d \<Rightarrow> 'd \<times> 'a"

function heap_up :: "'d Interface \<Rightarrow> 'd \<Rightarrow> nat \<Rightarrow> 'd" where
  "heap_up I d j =
     (let i = (j - 1) div 2 in
      if i = j \<or> \<not> Less I d j i then d else heap_up I (Swap I d i j) i)"
  by pat_completeness auto
termination by (relation "measure (\<lambda>(_, _, j). j)") auto

declare heap_up.simps [simp del]

text \<open>
  The loop of \<open>down\<close>, which returns the final index too. Where \<open>2*i + 1\<close> overflows an \<open>int\<close>
  the code leaves the loop; there the unbounded index exceeds every length as well.
\<close>

function down_loop :: "'d Interface \<Rightarrow> 'd \<Rightarrow> nat \<Rightarrow> nat \<Rightarrow> 'd \<times> nat" where
  "down_loop I d i n =
     (let j1 = 2 * i + 1 in
      if j1 \<ge> n then (d, i)
      else
        let j = (if j1 + 1 < n \<and> Less I d (j1 + 1) j1 then j1 + 1 else j1)
        in if \<not> Less I d j i then (d, i)
           else down_loop I (Swap I d i j) j n)"
  by pat_completeness auto
termination by (relation "measure (\<lambda>(_, _, i, n). n - i)") auto

declare down_loop.simps [simp del]

definition heap_down :: "'d Interface \<Rightarrow> 'd \<Rightarrow> nat \<Rightarrow> nat \<Rightarrow> 'd \<times> bool" where
  "heap_down I d i0 n = (case down_loop I d i0 n of (d, i) \<Rightarrow> (d, i > i0))"

fun init_loop :: "'d Interface \<Rightarrow> nat \<Rightarrow> nat \<Rightarrow> 'd \<Rightarrow> 'd" where
  "init_loop I n 0 d = d"
| "init_loop I n (Suc i) d = init_loop I n i (fst (heap_down I d i n))"

definition heap_Init :: "('d, 'a) heap_Interface \<Rightarrow> 'd \<Rightarrow> 'd" where
  "heap_Init h d = (let n = Len (h_sort h) d in init_loop (h_sort h) n (n div 2) d)"

definition heap_Push :: "('d, 'a) heap_Interface \<Rightarrow> 'd \<Rightarrow> 'a \<Rightarrow> 'd" where
  "heap_Push h d x = (let d = h_Push h d x in heap_up (h_sort h) d (Len (h_sort h) d - 1))"

text \<open>
  \<open>Pop\<close> of an empty heap and \<open>Remove\<close> of an index that is not in the heap call \<open>Swap\<close> with an
  index out of range, which panics: \<open>None\<close>.
\<close>

definition heap_Pop :: "('d, 'a) heap_Interface \<Rightarrow> 'd \<Rightarrow> ('d \<times> 'a) option" where
  "heap_Pop h d =
     (if Len (h_sort h) d = 0 then None
      else
        let n = Len (h_sort h) d - 1;
            d = Swap (h_sort h) d 0 n;
            d = fst (heap_down (h_sort h) d 0 n)
        in Some (h_Pop h d))"

definition heap_fix :: "'d Interface \<Rightarrow> 'd \<Rightarrow> nat \<Rightarrow> nat \<Rightarrow> 'd" where
  "heap_fix I d i n = (case heap_down I d i n of (d, moved) \<Rightarrow> if \<not> moved then heap_up I d i else d)"

definition heap_Remove :: "('d, 'a) heap_Interface \<Rightarrow> 'd \<Rightarrow> nat \<Rightarrow> ('d \<times> 'a) option" where
  "heap_Remove h d i =
     (if i \<ge> Len (h_sort h) d then None
      else
        let n = Len (h_sort h) d - 1;
            d = (if n \<noteq> i then heap_fix (h_sort h) (Swap (h_sort h) d i n) i n else d)
        in Some (h_Pop h d))"

definition heap_Fix :: "('d, 'a) heap_Interface \<Rightarrow> 'd \<Rightarrow> nat \<Rightarrow> 'd" where
  "heap_Fix h d i = heap_fix (h_sort h) d i (Len (h_sort h) d)"

text \<open>
  The queue of actions of the go command (cmd/go/internal/work), ordered by priority. Of an
  action only its identity and priority matter here.
\<close>

record Action =
  action_id :: nat
  priority :: int

definition actionQueue :: "(Action list, Action) heap_Interface" where
  "actionQueue =
     \<lparr>h_sort = \<lparr>Len = length, Less = (\<lambda>q i j. priority (q ! i) < priority (q ! j)), Swap = slice_swap\<rparr>,
      h_Push = (\<lambda>q x. q @ [x]),
      h_Pop = (\<lambda>q. let n = length q - 1 in (take n q, q ! n))\<rparr>"

definition actionQueue_push :: "Action list \<Rightarrow> Action \<Rightarrow> Action list" where
  "actionQueue_push q a = heap_Push actionQueue q a"

definition actionQueue_pop :: "Action list \<Rightarrow> (Action list \<times> Action) option" where
  "actionQueue_pop q = heap_Pop actionQueue q"

text \<open>Taking \<open>n\<close> actions from the queue, as the loop that runs the ready actions does.\<close>

fun drain :: "nat \<Rightarrow> Action list \<Rightarrow> Action list option" where
  "drain 0 q = Some []"
| "drain (Suc n) q =
     do { (q, a) \<leftarrow> actionQueue_pop q; as \<leftarrow> drain n q; Some (a # as) }"

subsection \<open>down and siftDown\<close>

lemma down_siftDown: "fst (down_loop I d i n) = siftDown (Reverse I) d i n 0"
proof (induction "n - i" arbitrary: i d rule: less_induct)
  case less
  let ?j = "if 2 * i + 1 + 1 < n \<and> Less I d (2 * i + 1 + 1) (2 * i + 1) then 2 * i + 1 + 1 else 2 * i + 1"
  show ?case
  proof (cases "2 * i + 1 \<ge> n \<or> \<not> Less I d ?j i")
    case True
    then show ?thesis by (subst down_loop.simps, subst siftDown.simps) (auto simp: Let_def Reverse_def)
  next
    case False
    then have "fst (down_loop I (Swap I d i ?j) ?j n) = siftDown (Reverse I) (Swap I d i ?j) ?j n 0"
      by (intro less.hyps) auto
    then show ?thesis
      using False by (subst down_loop.simps, subst siftDown.simps) (auto simp: Let_def Reverse_def)
  qed
qed

lemma down_loop_index: "i \<le> snd (down_loop I d i n) \<and> (snd (down_loop I d i n) = i \<longrightarrow> fst (down_loop I d i n) = d)"
proof (induction "n - i" arbitrary: i d rule: less_induct)
  case less
  let ?j = "if 2 * i + 1 + 1 < n \<and> Less I d (2 * i + 1 + 1) (2 * i + 1) then 2 * i + 1 + 1 else 2 * i + 1"
  show ?case
  proof (cases "2 * i + 1 \<ge> n \<or> \<not> Less I d ?j i")
    case True
    then show ?thesis by (subst (1 2 3) down_loop.simps) (auto simp: Let_def)
  next
    case False
    have "?j \<le> snd (down_loop I (Swap I d i ?j) ?j n)" using less.hyps [of ?j "Swap I d i ?j"] False by auto
    moreover have "down_loop I d i n = down_loop I (Swap I d i ?j) ?j n"
      using False by (subst down_loop.simps) (auto simp: Let_def)
    ultimately show ?thesis by (auto split: if_splits)
  qed
qed

subsection \<open>Heap order\<close>

context sort_order
begin

definition min_heap :: "nat \<Rightarrow> 'a list \<Rightarrow> bool" where
  "min_heap n xs \<longleftrightarrow> (\<forall>r c. child r c \<and> c < n \<longrightarrow> \<not> lt (xs ! c) (xs ! r))"

text \<open>The heap order from \<open>lo\<close> on, as \<open>Init\<close> builds it, and sifting down in it.\<close>

definition heap_from :: "nat \<Rightarrow> nat \<Rightarrow> 'a list \<Rightarrow> bool" where
  "heap_from lo n xs \<longleftrightarrow> (\<forall>r c. lo \<le> r \<and> child r c \<and> c < n \<longrightarrow> \<not> lt (xs ! c) (xs ! r))"

lemma heap_down_from:
  assumes "n \<le> length (elems d)" "lo \<le> i"
    and "\<And>r c. lo \<le> r \<Longrightarrow> child r c \<Longrightarrow> c < n \<Longrightarrow> r \<noteq> i \<Longrightarrow> \<not> lt (elems d ! c) (elems d ! r)"
    and "\<And>p c. lo \<le> p \<Longrightarrow> child p i \<Longrightarrow> child i c \<Longrightarrow> c < n \<Longrightarrow> \<not> lt (elems d ! c) (elems d ! p)"
  shows "perm_in lo n (elems d) (elems (fst (heap_down I d i n))) \<and> heap_from lo n (elems (fst (heap_down I d i n)))"
proof -
  have "sort_order.heap_ex (\<lambda>x y. lt y x) lo n 0 i (elems d)"
    unfolding sort_order.heap_ex_def [OF Reverse_order] using assms(3,4) by simp
  from sort_order.siftDown_heap [OF Reverse_order this assms(2)] assms(1)
  show ?thesis
    by (simp add: heap_down_def split_beta down_siftDown heap_from_def sort_order.is_heap_def [OF Reverse_order])
qed

lemma heap_from_0: "heap_from 0 n xs \<longleftrightarrow> min_heap n xs"
  by (simp add: heap_from_def min_heap_def)

lemma init_loop_heap:
  assumes "n \<le> length (elems d)" "heap_from k n (elems d)"
  shows "perm_in 0 n (elems d) (elems (init_loop I n k d)) \<and> min_heap n (elems (init_loop I n k d))"
  using assms
proof (induction k arbitrary: d)
  case 0
  then show ?case by (simp add: heap_from_0)
next
  case (Suc k)
  let ?d = "fst (heap_down I d k n)"
  have "perm_in k n (elems d) (elems ?d) \<and> heap_from k n (elems ?d)"
    using Suc.prems by (intro heap_down_from) (auto simp: heap_from_def child_def)
  then have 1: "perm_in 0 n (elems d) (elems ?d)" "heap_from k n (elems ?d)" by (auto intro: perm_in_mono)
  have "perm_in 0 n (elems ?d) (elems (init_loop I n k ?d)) \<and> min_heap n (elems (init_loop I n k ?d))"
    using Suc.IH [of ?d] 1 Suc.prems(1) perm_in_length [OF 1(1)] by simp
  then show ?case using 1(1) by (auto intro: perm_in_trans)
qed

lemma heap_top_least:
  assumes "min_heap n xs" "k < n"
  shows "\<not> lt (xs ! k) (xs ! 0)"
  using assms(2)
proof (induction k rule: less_induct)
  case (less k)
  show ?case
  proof (cases k)
    case (Suc m)
    have "child (m div 2) k" using Suc by (auto simp: child_def)
    then have "\<not> lt (xs ! k) (xs ! (m div 2))" using assms(1) less.prems by (auto simp: min_heap_def)
    moreover have "\<not> lt (xs ! (m div 2)) (xs ! 0)" using less Suc by simp
    ultimately show ?thesis by (rule neg_trans)
  qed simp
qed

text \<open>The heap order except between \<open>j\<close> and its parent, as \<open>up\<close> meets it.\<close>

definition up_ex :: "nat \<Rightarrow> nat \<Rightarrow> 'a list \<Rightarrow> bool" where
  "up_ex n j xs \<longleftrightarrow>
     (\<forall>r c. child r c \<and> c < n \<and> c \<noteq> j \<longrightarrow> \<not> lt (xs ! c) (xs ! r)) \<and>
     (\<forall>p c. child p j \<and> child j c \<and> c < n \<longrightarrow> \<not> lt (xs ! c) (xs ! p))"

lemma min_heap_up_ex: "min_heap n xs \<Longrightarrow> up_ex n j xs"
  unfolding up_ex_def min_heap_def
proof (intro conjI allI impI)
  fix p c assume h: "\<forall>r c. child r c \<and> c < n \<longrightarrow> \<not> lt (xs ! c) (xs ! r)" and a: "child p j \<and> child j c \<and> c < n"
  then have "\<not> lt (xs ! c) (xs ! j)" "\<not> lt (xs ! j) (xs ! p)" by (auto simp: child_def)
  then show "\<not> lt (xs ! c) (xs ! p)" by (rule neg_trans)
qed simp

lemma child_unique: "child r c \<Longrightarrow> child r' c \<Longrightarrow> r = r'"
  by (auto simp: child_def)

lemma child_less: "child r c \<Longrightarrow> r < c"
  by (auto simp: child_def)

lemma up_ex_swap:
  assumes h: "up_ex n j xs" and ij: "child i j" "j < n" "n \<le> length xs" and lt: "lt (xs ! j) (xs ! i)"
  shows "up_ex n i (slice_swap xs i j)"
proof -
  have less: "i < j" using ij(1) by (rule child_less)
  have nth: "slice_swap xs i j ! k = (if k = j then xs ! i else if k = i then xs ! j else xs ! k)" if "k < n" for k
    using that ij less by (simp add: slice_swap_nth)
  note h1 = h [unfolded up_ex_def, THEN conjunct1, rule_format]
  note h2 = h [unfolded up_ex_def, THEN conjunct2, rule_format]
  show ?thesis unfolding up_ex_def
  proof (intro conjI allI impI)
    fix r c assume a: "child r c \<and> c < n \<and> c \<noteq> i"
    have rc: "r < c" using a child_less by blast
    consider (eq) "c = j" "r = i" | (below) "c \<noteq> j" "r = j" | (sibling) "c \<noteq> j" "r = i" | (other) "c \<noteq> j" "r \<noteq> i" "r \<noteq> j"
      using a ij(1) child_unique by blast
    then show "\<not> lt (slice_swap xs i j ! c) (slice_swap xs i j ! r)"
    proof cases
      case eq
      then show ?thesis using asym [OF lt] less ij by (simp add: nth)
    next
      case below
      then show ?thesis using h2 [of i c] a ij less by (simp add: nth)
    next
      case sibling
      then have "\<not> lt (xs ! c) (xs ! i)" using h1 [of i c] a by simp
      then have "\<not> lt (xs ! c) (xs ! j)" using neg_trans [of "xs ! c" "xs ! i" "xs ! j"] asym [OF lt] by simp
      then show ?thesis using sibling a rc by (simp add: nth)
    next
      case other
      then show ?thesis using h1 [of r c] a rc by (simp add: nth)
    qed
  next
    fix p c assume a: "child p i \<and> child i c \<and> c < n"
    have p: "p < i" using a child_less by blast
    have pi: "\<not> lt (xs ! i) (xs ! p)" using h1 [of p i] a less ij(2) by simp
    have "\<not> lt (xs ! c) (xs ! i)" if "c \<noteq> j" using h1 [of i c] a that by simp
    then show "\<not> lt (slice_swap xs i j ! c) (slice_swap xs i j ! p)"
      using a p less ij pi child_less [of i c] neg_trans [of "xs ! c" "xs ! i" "xs ! p"] by (auto simp: nth)
  qed
qed

lemma heap_up_ok:
  assumes "up_ex n j (elems d)" "j < n" "n \<le> length (elems d)"
  shows "perm_in 0 n (elems d) (elems (heap_up I d j)) \<and> min_heap n (elems (heap_up I d j))"
  using assms
proof (induction j arbitrary: d rule: less_induct)
  case (less j)
  define i where "i = (j - 1) div 2"
  show ?case
  proof (cases "i = j \<or> \<not> lt (elems d ! j) (elems d ! i)")
    case True
    have "heap_up I d j = d" using True less.prems by (subst heap_up.simps) (auto simp: Let_def Less i_def)
    moreover have "\<not> lt (elems d ! c) (elems d ! r)" if "child r c" "c < n" for r c
    proof (cases "c = j")
      case c: True
      then have "r = i" "i \<noteq> j" using that by (auto simp: child_def i_def)
      then show ?thesis using True c by simp
    qed (use less.prems(1) that in \<open>auto simp: up_ex_def\<close>)
    ultimately show ?thesis by (simp add: min_heap_def)
  next
    case False
    then have ij: "i < j" "child i j" by (auto simp: child_def i_def)
    let ?d = "Swap I d i j"
    have ys: "elems ?d = slice_swap (elems d) i j" using ij less.prems by (intro Swap) auto
    have "up_ex n i (elems ?d)" unfolding ys using False ij less.prems by (intro up_ex_swap) auto
    then have "perm_in 0 n (elems ?d) (elems (heap_up I ?d i)) \<and> min_heap n (elems (heap_up I ?d i))"
      using ij less.prems by (intro less.IH) (auto simp: ys)
    moreover have "heap_up I d j = heap_up I ?d i"
      using False ij less.prems by (subst heap_up.simps) (simp add: Let_def Less i_def [symmetric] del: One_nat_def)
    moreover have "perm_in 0 n (elems d) (elems ?d)" using ij less.prems by (intro Swap_perm) auto
    ultimately show ?thesis by (auto intro: perm_in_trans)
  qed
qed

text \<open>\<open>Fix\<close> and \<open>Remove\<close>: one element, at \<open>i\<close>, may be out of place in either direction.\<close>

lemma heap_fix_ok:
  assumes "i < n" "n \<le> length (elems d)"
    and ok: "\<And>r c. child r c \<Longrightarrow> c < n \<Longrightarrow> r \<noteq> i \<Longrightarrow> c \<noteq> i \<Longrightarrow> \<not> lt (elems d ! c) (elems d ! r)"
    and skip: "\<And>p c. child p i \<Longrightarrow> child i c \<Longrightarrow> c < n \<Longrightarrow> \<not> lt (elems d ! c) (elems d ! p)"
  shows "perm_in 0 n (elems d) (elems (heap_fix I d i n)) \<and> min_heap n (elems (heap_fix I d i n))"
proof (cases "\<exists>p. child p i \<and> lt (elems d ! i) (elems d ! p)")
  case False
  let ?d = "fst (heap_down I d i n)"
  have 1: "perm_in 0 n (elems d) (elems ?d)" "min_heap n (elems ?d)"
    using heap_down_from [of n d 0 i] assms(2) ok skip False by (metis le0 heap_from_0)+
  show ?thesis
  proof (cases "snd (heap_down I d i n)")
    case True
    then show ?thesis using 1 by (simp add: heap_fix_def split_beta)
  next
    case f: False
    have "up_ex n i (elems ?d)" using 1(2) by (rule min_heap_up_ex)
    then have "perm_in 0 n (elems ?d) (elems (heap_up I ?d i)) \<and> min_heap n (elems (heap_up I ?d i))"
      using assms(1,2) perm_in_length [OF 1(1)] by (intro heap_up_ok) auto
    then show ?thesis using 1(1) f by (auto simp: heap_fix_def split_beta intro: perm_in_trans)
  qed
next
  case True
  then obtain p where p: "child p i" "lt (elems d ! i) (elems d ! p)" by blast
  have below: "\<not> lt (elems d ! c) (elems d ! i)" if "child i c" "c < n" for c
    using skip [OF p(1) that] p(2) neg_trans [of "elems d ! c" "elems d ! p" "elems d ! i"] asym by blast
  let ?j = "if 2 * i + 1 + 1 < n \<and> Less I d (2 * i + 1 + 1) (2 * i + 1) then 2 * i + 1 + 1 else 2 * i + 1"
  have "2 * i + 1 \<ge> n \<or> \<not> Less I d ?j i"
    using below [of "2 * i + 1"] below [of "2 * i + 1 + 1"] assms(2) by (auto simp: Less child_def)
  then have "down_loop I d i n = (d, i)" by (subst down_loop.simps) (auto simp: Let_def)
  then have "heap_fix I d i n = heap_up I d i" by (simp add: heap_fix_def heap_down_def)
  moreover have "up_ex n i (elems d)"
    unfolding up_ex_def using ok skip below by blast
  ultimately show ?thesis using heap_up_ok assms(1,2) by simp
qed

end

subsection \<open>The priority queue\<close>

locale heap_interface = sort_order "h_sort h" elems lt
  for h :: "('d, 'a) heap_Interface" and elems :: "'d \<Rightarrow> 'a list" and lt :: "'a \<Rightarrow> 'a \<Rightarrow> bool" +
  assumes Push_law: "elems (h_Push h d x) = elems d @ [x]"
    and Pop_law: "elems d \<noteq> [] \<Longrightarrow> elems (fst (h_Pop h d)) = butlast (elems d) \<and> snd (h_Pop h d) = last (elems d)"
begin

abbreviation heap :: "'d \<Rightarrow> bool" where
  "heap d \<equiv> min_heap (length (elems d)) (elems d)"

lemma Init_heap: "heap (heap_Init h d) \<and> mset (elems (heap_Init h d)) = mset (elems d)"
proof -
  let ?n = "length (elems d)"
  have "heap_from (?n div 2) ?n (elems d)" by (auto simp: heap_from_def child_def)
  then have "perm_in 0 ?n (elems d) (elems (heap_Init h d)) \<and> min_heap ?n (elems (heap_Init h d))"
    using init_loop_heap [of ?n d] by (simp add: heap_Init_def Len Let_def)
  then show ?thesis by (auto simp: perm_in_def)
qed

lemma Push_heap:
  assumes "heap d"
  shows "heap (heap_Push h d x) \<and> mset (elems (heap_Push h d x)) = add_mset x (mset (elems d))"
proof -
  let ?d = "h_Push h d x"
  let ?n = "length (elems d)"
  have "up_ex (Suc ?n) ?n (elems ?d)"
    unfolding up_ex_def
  proof (intro conjI allI impI)
    fix r c assume a: "child r c \<and> c < Suc ?n \<and> c \<noteq> ?n"
    then have "c < ?n" "r < ?n" using child_less [of r c] by auto
    then show "\<not> lt (elems ?d ! c) (elems ?d ! r)" using a assms by (simp add: Push_law nth_append min_heap_def)
  next
    fix p c assume "child p ?n \<and> child ?n c \<and> c < Suc ?n"
    then show "\<not> lt (elems ?d ! c) (elems ?d ! p)" using child_less [of ?n c] by simp
  qed
  then have "perm_in 0 (Suc ?n) (elems ?d) (elems (heap_up (h_sort h) ?d ?n)) \<and>
      min_heap (Suc ?n) (elems (heap_up (h_sort h) ?d ?n))"
    by (intro heap_up_ok) (auto simp: Push_law)
  then show ?thesis by (auto simp: heap_Push_def Len Push_law perm_in_def)
qed

text \<open>The end of \<open>Pop\<close> and \<open>Remove\<close>: the collection's own \<open>Pop\<close> after the last element was put in place.\<close>

lemma Pop_end:
  assumes "elems d = ys @ [x]" "min_heap (length ys) (elems d)"
  shows "min_heap (length ys) ys \<and> elems (fst (h_Pop h d)) = ys \<and> snd (h_Pop h d) = x"
proof -
  have "elems (fst (h_Pop h d)) = ys" "snd (h_Pop h d) = x" using Pop_law [of d] assms(1) by auto
  moreover have "min_heap (length ys) ys"
    unfolding min_heap_def
  proof (intro allI impI)
    fix r c assume a: "child r c \<and> c < length ys"
    then have "\<not> lt ((ys @ [x]) ! c) ((ys @ [x]) ! r)" using assms by (simp add: min_heap_def)
    then show "\<not> lt (ys ! c) (ys ! r)" using a child_less [of r c] by (simp add: nth_append)
  qed
  ultimately show ?thesis by simp
qed

lemma snoc_of_perm:
  assumes "perm_in 0 n xs zs" "length xs = Suc n"
  shows "\<exists>ys. zs = ys @ [xs ! n] \<and> length ys = n"
proof -
  have "length zs = Suc n" "zs ! n = xs ! n" using assms by (auto simp: perm_in_def)
  then have "zs = take n zs @ [xs ! n]" by (metis lessI take_Suc_conv_app_nth take_all order_refl)
  then show ?thesis using \<open>length zs = Suc n\<close> by (intro exI [of _ "take n zs"]) auto
qed

lemma Remove_heap:
  assumes "heap d" "i < length (elems d)"
  shows "\<exists>d'. heap_Remove h d i = Some (d', elems d ! i) \<and> heap d' \<and>
    mset (elems d) = add_mset (elems d ! i) (mset (elems d'))"
proof -
  obtain n where n: "length (elems d) = Suc n" using assms(2) by (cases "length (elems d)") auto
  let ?d1 = "Swap (h_sort h) d i n"
  define d2 where "d2 = (if n \<noteq> i then heap_fix (h_sort h) ?d1 i n else d)"
  have r: "heap_Remove h d i = Some (h_Pop h d2)"
    using assms(2) n by (simp add: heap_Remove_def Len d2_def)
  have "\<exists>ys. elems d2 = ys @ [elems d ! i] \<and> length ys = n \<and> min_heap n (elems d2) \<and> mset (elems d2) = mset (elems d)"
  proof (cases "n = i")
    case True
    have "min_heap n (elems d)" using assms(1) n by (auto simp: min_heap_def)
    then show ?thesis using True snoc_of_perm [of n "elems d" "elems d"] n by (auto simp: d2_def)
  next
    case False
    then have i: "i < n" using assms(2) n by simp
    have ys: "elems ?d1 = slice_swap (elems d) i n" using i n by (intro Swap) auto
    have nth: "elems ?d1 ! k = (if k = n then elems d ! i else if k = i then elems d ! n else elems d ! k)" if "k \<le> n" for k
      using that i n by (simp add: ys slice_swap_nth)
    have "perm_in 0 n (elems ?d1) (elems d2) \<and> min_heap n (elems d2)"
      unfolding d2_def using False
    proof (simp, intro heap_fix_ok)
      show "\<not> lt (elems ?d1 ! c) (elems ?d1 ! r)" if "child r c" "c < n" "r \<noteq> i" "c \<noteq> i" for r c
        using that assms(1) n child_less [OF that(1)] by (simp add: nth min_heap_def)
      show "\<not> lt (elems ?d1 ! c) (elems ?d1 ! p)" if "child p i" "child i c" "c < n" for p c
        using that min_heap_up_ex [OF assms(1), of i] n i child_less [OF that(1)] child_less [OF that(2)]
        by (simp add: nth up_ex_def)
    qed (use i n ys in auto)
    moreover have "mset (elems ?d1) = mset (elems d)" using i n Swap_perm [of 0 i "Suc n" n d] by (auto simp: perm_in_def)
    moreover have "elems ?d1 ! n = elems d ! i" by (simp add: nth)
    ultimately show ?thesis using snoc_of_perm [of n "elems ?d1" "elems d2"] n by (auto simp: ys perm_in_def)
  qed
  then obtain ys where y: "elems d2 = ys @ [elems d ! i]" "length ys = n" "min_heap n (elems d2)" "mset (elems d2) = mset (elems d)"
    by blast
  have "min_heap (length ys) ys \<and> elems (fst (h_Pop h d2)) = ys \<and> snd (h_Pop h d2) = elems d ! i"
    using y by (intro Pop_end) auto
  moreover have "mset (elems d) = add_mset (elems d ! i) (mset ys)" using y(1,4) by simp
  ultimately show ?thesis using r by (intro exI [of _ "fst (h_Pop h d2)"]) (simp add: prod_eq_iff)
qed

lemma Pop_heap:
  assumes "heap d" "elems d \<noteq> []"
  shows "\<exists>d' x. heap_Pop h d = Some (d', x) \<and> heap d' \<and> mset (elems d) = add_mset x (mset (elems d')) \<and>
    (\<forall>y\<in>set (elems d). \<not> lt y x)"
proof -
  obtain n where n: "length (elems d) = Suc n" using assms(2) by (cases "length (elems d)") auto
  let ?d1 = "Swap (h_sort h) d 0 n"
  let ?d2 = "fst (heap_down (h_sort h) ?d1 0 n)"
  have ys: "elems ?d1 = slice_swap (elems d) 0 n" using n by (intro Swap) auto
  have nth: "elems ?d1 ! k = (if k = n then elems d ! 0 else if k = 0 then elems d ! n else elems d ! k)" if "k \<le> n" for k
    using that n by (simp add: ys slice_swap_nth)
  have "perm_in 0 n (elems ?d1) (elems ?d2) \<and> heap_from 0 n (elems ?d2)"
  proof (intro heap_down_from)
    show "\<not> lt (elems ?d1 ! c) (elems ?d1 ! r)" if "0 \<le> r" "child r c" "c < n" "r \<noteq> 0" for r c
      using that assms(1) n child_less [OF that(2)] by (simp add: nth min_heap_def)
  qed (use n ys in \<open>auto simp: child_def\<close>)
  moreover have "mset (elems ?d1) = mset (elems d)" using n Swap_perm [of 0 0 "Suc n" n d] by (auto simp: perm_in_def)
  moreover have "elems ?d1 ! n = elems d ! 0" by (simp add: nth)
  ultimately obtain zs where z: "elems ?d2 = zs @ [elems d ! 0]" "length zs = n" "min_heap n (elems ?d2)" "mset (elems ?d2) = mset (elems d)"
    using snoc_of_perm [of n "elems ?d1" "elems ?d2"] n by (auto simp: ys perm_in_def heap_from_0)
  have "min_heap (length zs) zs \<and> elems (fst (h_Pop h ?d2)) = zs \<and> snd (h_Pop h ?d2) = elems d ! 0"
    using z by (intro Pop_end) auto
  moreover have "mset (elems d) = add_mset (elems d ! 0) (mset zs)" using z(1,4) by simp
  moreover have "heap_Pop h d = Some (h_Pop h ?d2)" using n by (simp add: heap_Pop_def Len)
  moreover have "\<forall>y\<in>set (elems d). \<not> lt y (elems d ! 0)"
    using heap_top_least [OF assms(1)] by (auto simp: in_set_conv_nth)
  ultimately show ?thesis by (intro exI [of _ "fst (h_Pop h ?d2)"] exI [of _ "elems d ! 0"]) (simp add: prod_eq_iff)
qed

lemma Fix_heap:
  assumes "min_heap (length xs) xs" "i < length xs" "elems d = xs[i := v]"
  shows "heap (heap_Fix h d i) \<and> mset (elems (heap_Fix h d i)) = mset (elems d)"
proof -
  let ?n = "length xs"
  have "perm_in 0 ?n (elems d) (elems (heap_fix (h_sort h) d i ?n)) \<and> min_heap ?n (elems (heap_fix (h_sort h) d i ?n))"
  proof (intro heap_fix_ok)
    show "\<not> lt (elems d ! c) (elems d ! r)" if "child r c" "c < ?n" "r \<noteq> i" "c \<noteq> i" for r c
      using that assms(1) child_less [OF that(1)] by (simp add: assms(3) min_heap_def)
    show "\<not> lt (elems d ! c) (elems d ! p)" if "child p i" "child i c" "c < ?n" for p c
      using that min_heap_up_ex [OF assms(1), of i] child_less [OF that(1)] child_less [OF that(2)]
      by (simp add: assms(3) up_ex_def)
  qed (use assms in auto)
  then show ?thesis using assms by (auto simp: heap_Fix_def Len perm_in_def)
qed

end

interpretation action_queue: heap_interface actionQueue "\<lambda>q. q" "\<lambda>a b. priority a < priority b"
  by unfold_locales (auto simp: actionQueue_def butlast_conv_take last_conv_nth Let_def)

subsection \<open>Properties\<close>

text \<open>
  C12. A heap is a priority queue. \<open>Init\<close> puts any collection into heap order, \<open>Push\<close> adds an
  element, \<open>Pop\<close> of a non-empty heap returns an element that no other is less than, \<open>Remove\<close>
  returns the element at the index, \<open>Fix\<close> restores the order after one element has changed; each
  keeps the heap order and exactly the other elements.
\<close>

theorem heap_priority_queue:
  assumes "heap_interface h elems lt"
  shows "(let heap = (\<lambda>d. sort_order.min_heap lt (length (elems d)) (elems d)) in
     heap (heap_Init h d) \<and> mset (elems (heap_Init h d)) = mset (elems d) \<and>
     (heap d \<longrightarrow> heap (heap_Push h d x) \<and> mset (elems (heap_Push h d x)) = add_mset x (mset (elems d))) \<and>
     (heap d \<and> elems d \<noteq> [] \<longrightarrow> (\<exists>d' y. heap_Pop h d = Some (d', y) \<and> heap d' \<and>
        mset (elems d) = add_mset y (mset (elems d')) \<and> (\<forall>z\<in>set (elems d). \<not> lt z y))) \<and>
     (heap d \<and> i < length (elems d) \<longrightarrow> (\<exists>d'. heap_Remove h d i = Some (d', elems d ! i) \<and> heap d' \<and>
        mset (elems d) = add_mset (elems d ! i) (mset (elems d')))) \<and>
     (heap d \<and> i < length (elems d) \<and> elems d1 = (elems d)[i := x] \<longrightarrow>
        heap (heap_Fix h d1 i) \<and> mset (elems (heap_Fix h d1 i)) = mset (elems d1)))"
  unfolding Let_def
  using heap_interface.Init_heap [OF assms, of d] heap_interface.Push_heap [OF assms, of d x]
    heap_interface.Pop_heap [OF assms, of d] heap_interface.Remove_heap [OF assms, of d i]
    heap_interface.Fix_heap [OF assms, of "elems d" i d1 x]
  by blast

theorem heap_priority_queue_witness:
  "sort_order.min_heap (\<lambda>a b. priority a < priority b) 1 [\<lparr>action_id = 0, priority = 5\<rparr>] \<and>
   (\<exists>d' y. heap_Pop actionQueue [\<lparr>action_id = 0, priority = 5\<rparr>] = Some (d', y) \<and>
      {#\<lparr>action_id = 0, priority = 5\<rparr>#} = add_mset y (mset d'))"
proof -
  have "sort_order.min_heap (\<lambda>a b. priority a < priority b) 1 [\<lparr>action_id = 0, priority = 5\<rparr>]"
    by (simp add: action_queue.min_heap_def action_queue.child_def)
  then show ?thesis
    using heap_priority_queue [OF action_queue.heap_interface_axioms, of "[\<lparr>action_id = 0, priority = 5\<rparr>]"]
    by (auto simp: Let_def)
qed

lemma fill_heap:
  "action_queue.heap (foldl actionQueue_push q as)" "mset (foldl actionQueue_push q as) = mset q + mset as"
  if "action_queue.heap q"
  using that
proof (induction as arbitrary: q)
  case (Cons a as)
  {
    case 1
    then show ?case using Cons.IH(1) action_queue.Push_heap [of q a] by (simp add: actionQueue_push_def)
  next
    case 2
    then show ?case using Cons.IH(2) action_queue.Push_heap [of q a] by (simp add: actionQueue_push_def)
  }
qed auto

lemma drain_sorted:
  assumes "action_queue.heap q"
  shows "\<exists>as. drain (length q) q = Some as \<and> mset as = mset q \<and> sorted (map priority as)"
  using assms
proof (induction "length q" arbitrary: q)
  case (Suc n)
  then have "q \<noteq> []" by auto
  then obtain q' a where q': "actionQueue_pop q = Some (q', a)" "action_queue.heap q'" "mset q = add_mset a (mset q')"
    "\<forall>b\<in>set q. \<not> priority b < priority a"
    using action_queue.Pop_heap [OF Suc.prems] by (auto simp: actionQueue_pop_def)
  have "length q = Suc (length q')" using q'(3) by (metis size_add_mset size_mset)
  then have n: "n = length q'" using Suc.hyps(2) by simp
  obtain as where as: "drain (length q') q' = Some as" "mset as = mset q'" "sorted (map priority as)"
    using Suc.hyps(1) [OF n q'(2)] by blast
  have "\<forall>b\<in>set as. priority a \<le> priority b"
    using q'(3,4) mset_eq_setD [OF as(2)] by (metis insert_iff not_less set_mset_add_mset_insert set_mset_mset)
  then show ?case using as q' Suc.hyps(2) n by (auto simp flip: Suc.hyps(2))
qed simp

text \<open>
  C13. The action queue of the go command: filling an empty queue and then draining it yields
  the actions in the order of their priorities, whatever the order they were pushed in.
\<close>

theorem actionQueue_order:
  "\<exists>bs. drain (length as) (foldl actionQueue_push [] as) = Some bs \<and> mset bs = mset as \<and> sorted (map priority bs)"
proof -
  let ?q = "foldl actionQueue_push [] as"
  have "action_queue.heap []" by (simp add: action_queue.min_heap_def)
  then have "action_queue.heap ?q" "mset ?q = mset as" using fill_heap [of "[]" as] by auto
  then show ?thesis using drain_sorted [of ?q] by (metis size_mset)
qed

end
