(* ===== verification/Utf8.thy ===== *)
theory Utf8
  imports Go_Prelude
begin

unbundle bit_operations_syntax

section \<open>UTF-8 (unicode/utf8, runtime/utf8.go)\<close>

text \<open>
  A byte is an 8-bit word; a slice of bytes and a string are lists of bytes. A rune (Go's \<open>int32\<close>)
  is an integer; where the code shifts or converts runes, the conversion is written out. The
  variants of the functions for strings have the code of those for byte slices and are translated
  on their own. A write into a buffer that is too short panics: \<open>None\<close>.
\<close>

subsection \<open>Constants and tables\<close>

type_synonym rune = int

abbreviation RuneError :: rune where "RuneError \<equiv> 0xFFFD"
abbreviation MaxRune :: rune where "MaxRune \<equiv> 0x10FFFF"
abbreviation surrogateMin :: rune where "surrogateMin \<equiv> 0xD800"
abbreviation surrogateMax :: rune where "surrogateMax \<equiv> 0xDFFF"
abbreviation RuneSelf :: byte where "RuneSelf \<equiv> 0x80"
abbreviation rune1Max :: int where "rune1Max \<equiv> 0x7F"
abbreviation rune2Max :: int where "rune2Max \<equiv> 0x7FF"
abbreviation rune3Max :: int where "rune3Max \<equiv> 0xFFFF"
abbreviation locb :: byte where "locb \<equiv> 0x80"
abbreviation hicb :: byte where "hicb \<equiv> 0xBF"

definition first_table :: "byte list" where
  "first_table =
     replicate 128 0xF0 @ \<comment> \<open>as: 0x00-0x7F\<close>
     replicate 66 0xF1 @ \<comment> \<open>xx: 0x80-0xC1\<close>
     replicate 30 0x02 @ \<comment> \<open>s1: 0xC2-0xDF\<close>
     [0x13] @ replicate 12 0x03 @ [0x23, 0x03, 0x03] @ \<comment> \<open>s2, s3, s4, s3: 0xE0-0xEF\<close>
     [0x34, 0x04, 0x04, 0x04, 0x44] @ \<comment> \<open>s5, s6, s7: 0xF0-0xF4\<close>
     replicate 11 0xF1 \<comment> \<open>xx: 0xF5-0xFF\<close>"

definition first :: "byte \<Rightarrow> byte" where
  "first b = first_table ! unat b"

definition acceptRanges :: "(byte \<times> byte) list" where
  "acceptRanges = [(locb, hicb), (0xA0, hicb), (locb, 0x9F), (0x90, hicb), (locb, 0x8F)] @ replicate 11 (0, 0)"

definition accept :: "byte \<Rightarrow> byte \<times> byte" where
  "accept x = acceptRanges ! unat (drop_bit 4 x)"

definition outside :: "byte \<Rightarrow> byte \<times> byte \<Rightarrow> bool" where
  "outside b r \<longleftrightarrow> b < fst r \<or> snd r < b"

definition seq_size :: "byte \<Rightarrow> nat" where
  "seq_size x = unat (x AND 7)"

subsection \<open>Decoding\<close>

definition FullRune :: "byte list \<Rightarrow> bool" where
  "FullRune p =
     (let n = length p in
      if n = 0 then False
      else
        let x = first (p ! 0) in
        if n \<ge> seq_size x then True
        else if n > 1 \<and> outside (p ! 1) (accept x) then True
        else if n > 2 \<and> (p ! 2 < locb \<or> hicb < p ! 2) then True
        else False)"

text \<open>
  The result for a first byte that stands alone: itself if it is ASCII, else \<open>RuneError\<close>; the
  code selects with a mask that is all ones exactly if the low bit of the table's entry is set.
\<close>

definition single :: "byte \<Rightarrow> byte \<Rightarrow> rune" where
  "single p0 x =
     (let m = drop_bit 31 (signed_take_bit 31 (push_bit 31 (uint x)))
      in (uint p0 AND NOT m) OR (RuneError AND m))"

definition DecodeRune :: "byte list \<Rightarrow> rune \<times> nat" where
  "DecodeRune p =
     (let n = length p in
      if n < 1 then (RuneError, 0)
      else
        let p0 = p ! 0; x = first p0 in
        if x \<ge> 0xF0 then (single p0 x, 1)
        else
          let sz = seq_size x in
          if n < sz then (RuneError, 1)
          else
            let b1 = p ! 1 in
            if outside b1 (accept x) then (RuneError, 1)
            else if sz \<le> 2 then (push_bit 6 (uint (p0 AND 0x1F)) OR uint (b1 AND 0x3F), 2)
            else
              let b2 = p ! 2 in
              if b2 < locb \<or> hicb < b2 then (RuneError, 1)
              else if sz \<le> 3
              then (push_bit 12 (uint (p0 AND 0x0F)) OR push_bit 6 (uint (b1 AND 0x3F)) OR uint (b2 AND 0x3F), 3)
              else
                let b3 = p ! 3 in
                if b3 < locb \<or> hicb < b3 then (RuneError, 1)
                else (push_bit 18 (uint (p0 AND 0x07)) OR push_bit 12 (uint (b1 AND 0x3F)) OR
                      push_bit 6 (uint (b2 AND 0x3F)) OR uint (b3 AND 0x3F), 4))"

definition RuneStart :: "byte \<Rightarrow> bool" where
  "RuneStart b \<longleftrightarrow> b AND 0xC0 \<noteq> 0x80"

text \<open>
  The backwards loop of \<open>DecodeLastRune\<close>: it starts one before the last byte and stops at a byte
  that may start a rune or below the limit. Its argument is the index plus one, so that 0 is the
  index \<open>-1\<close>, which the code replaces by 0.
\<close>

fun back_start :: "byte list \<Rightarrow> nat \<Rightarrow> nat \<Rightarrow> nat" where
  "back_start p lim 0 = 0"
| "back_start p lim (Suc start) =
     (if start \<ge> lim then (if RuneStart (p ! start) then start else back_start p lim start) else start)"

definition DecodeLastRune :: "byte list \<Rightarrow> rune \<times> nat" where
  "DecodeLastRune p =
     (let e = length p in
      if e = 0 then (RuneError, 0)
      else
        let r = uint (p ! (e - 1)) in
        if r < 0x80 then (r, 1)
        else
          let lim = e - 4;
              start = back_start p lim (e - 1);
              (r, size) = DecodeRune (drop start p)
          in if start + size \<noteq> e then (RuneError, 1) else (r, size))"

text \<open>The same for strings.\<close>

definition FullRuneInString :: "byte list \<Rightarrow> bool" where
  "FullRuneInString s =
     (let n = length s in
      if n = 0 then False
      else
        let x = first (s ! 0) in
        if n \<ge> seq_size x then True
        else if n > 1 \<and> outside (s ! 1) (accept x) then True
        else if n > 2 \<and> (s ! 2 < locb \<or> hicb < s ! 2) then True
        else False)"

definition DecodeRuneInString :: "byte list \<Rightarrow> rune \<times> nat" where
  "DecodeRuneInString s =
     (let n = length s in
      if n < 1 then (RuneError, 0)
      else
        let s0 = s ! 0; x = first s0 in
        if x \<ge> 0xF0 then (single s0 x, 1)
        else
          let sz = seq_size x in
          if n < sz then (RuneError, 1)
          else
            let s1 = s ! 1 in
            if outside s1 (accept x) then (RuneError, 1)
            else if sz \<le> 2 then (push_bit 6 (uint (s0 AND 0x1F)) OR uint (s1 AND 0x3F), 2)
            else
              let s2 = s ! 2 in
              if s2 < locb \<or> hicb < s2 then (RuneError, 1)
              else if sz \<le> 3
              then (push_bit 12 (uint (s0 AND 0x0F)) OR push_bit 6 (uint (s1 AND 0x3F)) OR uint (s2 AND 0x3F), 3)
              else
                let s3 = s ! 3 in
                if s3 < locb \<or> hicb < s3 then (RuneError, 1)
                else (push_bit 18 (uint (s0 AND 0x07)) OR push_bit 12 (uint (s1 AND 0x3F)) OR
                      push_bit 6 (uint (s2 AND 0x3F)) OR uint (s3 AND 0x3F), 4))"

definition DecodeLastRuneInString :: "byte list \<Rightarrow> rune \<times> nat" where
  "DecodeLastRuneInString s =
     (let e = length s in
      if e = 0 then (RuneError, 0)
      else
        let r = uint (s ! (e - 1)) in
        if r < 0x80 then (r, 1)
        else
          let lim = e - 4;
              start = back_start s lim (e - 1);
              (r, size) = DecodeRuneInString (drop start s)
          in if start + size \<noteq> e then (RuneError, 1) else (r, size))"

subsection \<open>Encoding\<close>

definition RuneLen :: "rune \<Rightarrow> int" where
  "RuneLen r =
     (if r < 0 then -1
      else if r \<le> rune1Max then 1
      else if r \<le> rune2Max then 2
      else if surrogateMin \<le> r \<and> r \<le> surrogateMax then -1
      else if r \<le> rune3Max then 3
      else if r \<le> MaxRune then 4
      else -1)"

text \<open>\<open>byte(r >> k)\<close> and \<open>uint32(r)\<close>.\<close>

definition byte_shr :: "rune \<Rightarrow> nat \<Rightarrow> byte" where
  "byte_shr r k = word_of_int (drop_bit k r)"

definition uint32 :: "rune \<Rightarrow> int" where
  "uint32 r = take_bit 32 r"

definition write_at :: "byte list \<Rightarrow> byte list \<Rightarrow> (byte list \<times> nat) option" where
  "write_at p bs = (if length p < length bs then None else Some (bs @ drop (length bs) p, length bs))"

text \<open>\<open>EncodeRune\<close> fills the start of the buffer and returns the number of bytes written.\<close>

definition EncodeRune :: "byte list \<Rightarrow> rune \<Rightarrow> (byte list \<times> nat) option" where
  "EncodeRune p r =
     (let i = uint32 r in
      if i \<le> rune1Max then write_at p [byte_shr r 0]
      else if i \<le> rune2Max then write_at p [0xC0 OR byte_shr r 6, 0x80 OR byte_shr r 0 AND 0x3F]
      else
        let bad = (i > MaxRune \<or> (surrogateMin \<le> i \<and> i \<le> surrogateMax));
            r = (if bad then RuneError else r)
        in if bad \<or> i \<le> rune3Max
           then write_at p [0xE0 OR byte_shr r 12, 0x80 OR byte_shr r 6 AND 0x3F, 0x80 OR byte_shr r 0 AND 0x3F]
           else write_at p [0xF0 OR byte_shr r 18, 0x80 OR byte_shr r 12 AND 0x3F,
                            0x80 OR byte_shr r 6 AND 0x3F, 0x80 OR byte_shr r 0 AND 0x3F])"

definition appendRuneNonASCII :: "byte list \<Rightarrow> rune \<Rightarrow> byte list" where
  "appendRuneNonASCII p r =
     (let i = uint32 r in
      if i \<le> rune2Max then p @ [0xC0 OR byte_shr r 6, 0x80 OR byte_shr r 0 AND 0x3F]
      else
        let bad = (i > MaxRune \<or> (surrogateMin \<le> i \<and> i \<le> surrogateMax));
            r = (if bad then RuneError else r)
        in if bad \<or> i \<le> rune3Max
           then p @ [0xE0 OR byte_shr r 12, 0x80 OR byte_shr r 6 AND 0x3F, 0x80 OR byte_shr r 0 AND 0x3F]
           else p @ [0xF0 OR byte_shr r 18, 0x80 OR byte_shr r 12 AND 0x3F,
                     0x80 OR byte_shr r 6 AND 0x3F, 0x80 OR byte_shr r 0 AND 0x3F])"

definition AppendRune :: "byte list \<Rightarrow> rune \<Rightarrow> byte list" where
  "AppendRune p r = (if uint32 r \<le> rune1Max then p @ [byte_shr r 0] else appendRuneNonASCII p r)"

definition ValidRune :: "rune \<Rightarrow> bool" where
  "ValidRune r =
     (if 0 \<le> r \<and> r < surrogateMin then True
      else if surrogateMax < r \<and> r \<le> MaxRune then True
      else False)"

subsection \<open>Counting and validity\<close>

text \<open>
  The loops of \<open>RuneCount\<close> and \<open>Valid\<close> advance by the size of each sequence. \<open>step_size\<close> is
  the body's computation of the advance at index \<open>i\<close> in \<open>RuneCount\<close>.
\<close>

definition step_size :: "byte list \<Rightarrow> nat \<Rightarrow> nat" where
  "step_size p i =
     (let c = p ! i in
      if c < RuneSelf then 1
      else
        let x = first c in
        if x = 0xF1 then 1
        else
          let size = seq_size x in
          if i + size > length p then 1
          else if outside (p ! (i + 1)) (accept x) then 1
          else if size = 2 then size
          else if p ! (i + 2) < locb \<or> hicb < p ! (i + 2) then 1
          else if size = 3 then size
          else if p ! (i + 3) < locb \<or> hicb < p ! (i + 3) then 1
          else size)"

text \<open>The body of \<open>Valid\<close>: the advance, or \<open>None\<close> where the code returns false.\<close>

definition valid_step :: "byte list \<Rightarrow> nat \<Rightarrow> nat option" where
  "valid_step p i =
     (let c = p ! i in
      if c < RuneSelf then Some 1
      else
        let x = first c in
        if x = 0xF1 then None
        else
          let size = seq_size x in
          if i + size > length p then None
          else if outside (p ! (i + 1)) (accept x) then None
          else if size = 2 then Some size
          else if p ! (i + 2) < locb \<or> hicb < p ! (i + 2) then None
          else if size = 3 then Some size
          else if p ! (i + 3) < locb \<or> hicb < p ! (i + 3) then None
          else Some size)"

subsection \<open>The first byte\<close>

lemma first_cases:
  "first b =
     (if b < 0x80 then 0xF0 else if b < 0xC2 then 0xF1 else if b < 0xE0 then 0x02
      else if b = 0xE0 then 0x13 else if b = 0xED then 0x23 else if b < 0xF0 then 0x03
      else if b = 0xF0 then 0x34 else if b < 0xF4 then 0x04 else if b = 0xF4 then 0x44 else 0xF1)"
proof -
  have eq: "b = numeral k \<longleftrightarrow> unat b = unat (numeral k :: byte)" for k by (simp add: word_unat_eq_iff)
  have "unat b < 256" using unsigned_less [of b, where ?'a = nat] by simp
  then show ?thesis
    unfolding first_def first_table_def eq word_less_nat_alt
    by (auto simp: nth_append nth_Cons' simp del: nth_replicate intro!: nth_replicate)
qed

lemma seq_size_simps [simp]:
  "seq_size 0xF0 = 0" "seq_size 0xF1 = 1" "seq_size 0x02 = 2" "seq_size 0x13 = 3" "seq_size 0x03 = 3" "seq_size 0x23 = 3"
  "seq_size 0x34 = 4" "seq_size 0x04 = 4" "seq_size 0x44 = 4"
  by (simp_all add: seq_size_def)

lemma accept_simps [simp]:
  "accept 0x02 = (0x80, 0xBF)" "accept 0x13 = (0xA0, 0xBF)" "accept 0x03 = (0x80, 0xBF)" "accept 0x23 = (0x80, 0x9F)"
  "accept 0x34 = (0x90, 0xBF)" "accept 0x04 = (0x80, 0xBF)" "accept 0x44 = (0x80, 0x8F)"
  by (simp_all add: accept_def acceptRanges_def)

lemma single_simps [simp]: "single b 0xF0 = uint b" "single b 0xF1 = RuneError"
  by (simp_all add: single_def)

lemma step_size_pos: "0 < step_size p i"
  by (simp add: step_size_def Let_def first_cases)

lemma valid_step_pos: "valid_step p i = Some k \<Longrightarrow> 0 < k"
  by (auto simp: valid_step_def Let_def first_cases split: if_splits)

function count_loop :: "byte list \<Rightarrow> nat \<Rightarrow> nat \<Rightarrow> nat" where
  "count_loop p i n = (if i < length p then count_loop p (i + step_size p i) (n + 1) else n)"
  by pat_completeness auto
termination
  by (relation "measure (\<lambda>(p, i, _). length p - i)") (auto intro!: diff_less_mono2 simp: step_size_pos)

declare count_loop.simps [simp del]

definition RuneCount :: "byte list \<Rightarrow> nat" where
  "RuneCount p = count_loop p 0 0"

text \<open>The functions on strings repeat the loops of those on slices word for word, so they share the definition.\<close>

definition RuneCountInString :: "byte list \<Rightarrow> nat" where
  "RuneCountInString s = count_loop s 0 0"

definition load32 :: "byte list \<Rightarrow> nat \<Rightarrow> 32 word" where
  "load32 p k = ucast (p ! k) OR push_bit 8 (ucast (p ! (k + 1))) OR
     push_bit 16 (ucast (p ! (k + 2))) OR push_bit 24 (ucast (p ! (k + 3)))"

function skip_ascii :: "byte list \<Rightarrow> byte list" where
  "skip_ascii p =
     (if length p \<ge> 8 then
        (if (load32 p 0 OR load32 p 4) AND 0x80808080 \<noteq> 0 then p else skip_ascii (drop 8 p))
      else p)"
  by pat_completeness auto
termination by (relation "measure length") auto

declare skip_ascii.simps [simp del]

function valid_loop :: "byte list \<Rightarrow> nat \<Rightarrow> bool" where
  "valid_loop p i =
     (if i < length p
      then (case valid_step p i of None \<Rightarrow> False | Some sz \<Rightarrow> valid_loop p (i + sz))
      else True)"
  by pat_completeness auto
termination
  by (relation "measure (\<lambda>(p, i). length p - i)") (auto intro!: diff_less_mono2 dest: valid_step_pos)

declare valid_loop.simps [simp del]

definition Valid :: "byte list \<Rightarrow> bool" where
  "Valid p = valid_loop (skip_ascii p) 0"

definition ValidString :: "byte list \<Rightarrow> bool" where
  "ValidString s = valid_loop (skip_ascii s) 0"

subsection \<open>The runtime's copy (runtime/utf8.go)\<close>

text \<open>\<open>decoderune\<close> returns the rune at index \<open>k\<close> of the string and the index after it.\<close>

definition is_cb :: "byte \<Rightarrow> bool" where
  "is_cb b \<longleftrightarrow> locb \<le> b \<and> b \<le> hicb"

definition decoderune :: "byte list \<Rightarrow> nat \<Rightarrow> rune \<times> nat" where
  "decoderune s k =
     (if k \<ge> length s then (RuneError, k + 1)
      else
        let s = drop k s; err = (RuneError, k + 1) in
        if 0xC0 \<le> s ! 0 \<and> s ! 0 < 0xE0 then
          (if length s > 1 \<and> is_cb (s ! 1) then
             (let r = push_bit 6 (uint (s ! 0 AND 0x1F)) OR uint (s ! 1 AND 0x3F)
              in if rune1Max < r then (r, k + 2) else err)
           else err)
        else if 0xE0 \<le> s ! 0 \<and> s ! 0 < 0xF0 then
          (if length s > 2 \<and> is_cb (s ! 1) \<and> is_cb (s ! 2) then
             (let r = push_bit 12 (uint (s ! 0 AND 0x0F)) OR push_bit 6 (uint (s ! 1 AND 0x3F)) OR uint (s ! 2 AND 0x3F)
              in if rune2Max < r \<and> \<not> (surrogateMin \<le> r \<and> r \<le> surrogateMax) then (r, k + 3) else err)
           else err)
        else if 0xF0 \<le> s ! 0 \<and> s ! 0 < 0xF8 then
          (if length s > 3 \<and> is_cb (s ! 1) \<and> is_cb (s ! 2) \<and> is_cb (s ! 3) then
             (let r = push_bit 18 (uint (s ! 0 AND 0x07)) OR push_bit 12 (uint (s ! 1 AND 0x3F)) OR
                      push_bit 6 (uint (s ! 2 AND 0x3F)) OR uint (s ! 3 AND 0x3F)
              in if rune3Max < r \<and> r \<le> MaxRune then (r, k + 4) else err)
           else err)
        else err)"

definition encoderune :: "byte list \<Rightarrow> rune \<Rightarrow> (byte list \<times> nat) option" where
  "encoderune p r =
     (let i = uint32 r in
      if i \<le> rune1Max then write_at p [byte_shr r 0]
      else if i \<le> rune2Max then write_at p [0xC0 OR byte_shr r 6, 0x80 OR byte_shr r 0 AND 0x3F]
      else
        let bad = (i > MaxRune \<or> (surrogateMin \<le> i \<and> i \<le> surrogateMax));
            r = (if bad then RuneError else r)
        in if bad \<or> i \<le> rune3Max
           then write_at p [0xE0 OR byte_shr r 12, 0x80 OR byte_shr r 6 AND 0x3F, 0x80 OR byte_shr r 0 AND 0x3F]
           else write_at p [0xF0 OR byte_shr r 18, 0x80 OR byte_shr r 12 AND 0x3F,
                            0x80 OR byte_shr r 6 AND 0x3F, 0x80 OR byte_shr r 0 AND 0x3F])"

text \<open>
  \<open>countrunes\<close> counts the iterations of a \<open>range\<close> loop over a string, which the compiler
  implements with \<open>decoderune\<close> for bytes that are not ASCII.
\<close>

definition range_step :: "byte list \<Rightarrow> nat \<Rightarrow> rune \<times> nat" where
  "range_step s k = (if s ! k < RuneSelf then (uint (s ! k), k + 1) else decoderune s k)"

lemma decoderune_pos: "k < snd (decoderune s k)"
  by (simp add: decoderune_def Let_def)

lemma range_step_pos: "k < snd (range_step s k)"
  by (simp add: range_step_def decoderune_pos)

function range_count :: "byte list \<Rightarrow> nat \<Rightarrow> nat \<Rightarrow> nat" where
  "range_count s k n = (if k < length s then range_count s (snd (range_step s k)) (n + 1) else n)"
  by pat_completeness auto
termination
  by (relation "measure (\<lambda>(s, k, _). length s - k)") (auto intro!: diff_less_mono2 simp: range_step_pos)

declare range_count.simps [simp del]

definition countrunes :: "byte list \<Rightarrow> nat" where
  "countrunes s = range_count s 0 0"

end
