(* ===== verification/Utf8_Props.thy ===== *)
theory Utf8_Props
  imports Utf8
begin

unbundle bit_operations_syntax

section \<open>Correctness of UTF-8 encoding and decoding\<close>

subsection \<open>The reference encoding\<close>

text \<open>
  UTF-8 by arithmetic on code points, with the ranges of the Unicode standard (table of well-formed
  byte sequences): bytes are integers here. \<open>dec\<close> decodes the first sequence of a list.
\<close>

definition enc :: "int \<Rightarrow> int list" where
  "enc r =
     (if r < 0x80 then [r]
      else if r < 0x800 then [0xC0 + r div 64, 0x80 + r mod 64]
      else if r < 0x10000 then [0xE0 + r div 4096, 0x80 + r div 64 mod 64, 0x80 + r mod 64]
      else [0xF0 + r div 262144, 0x80 + r div 4096 mod 64, 0x80 + r div 64 mod 64, 0x80 + r mod 64])"

abbreviation cb :: "int \<Rightarrow> bool" where "cb b \<equiv> 0x80 \<le> b \<and> b \<le> 0xBF"

definition dec :: "int list \<Rightarrow> (int \<times> nat) option" where
  "dec p = (case p of
       [] \<Rightarrow> None
     | b0 # p \<Rightarrow>
         if b0 < 0x80 then Some (b0, 1)
         else if b0 < 0xC2 then None
         else if b0 < 0xE0 then (case p of b1 # _ \<Rightarrow>
             if cb b1 then Some ((b0 - 0xC0) * 64 + (b1 - 0x80), 2) else None | _ \<Rightarrow> None)
         else if b0 < 0xF0 then (case p of b1 # b2 # _ \<Rightarrow>
             if cb b1 \<and> cb b2 \<and> (b0 = 0xE0 \<longrightarrow> 0xA0 \<le> b1) \<and> (b0 = 0xED \<longrightarrow> b1 \<le> 0x9F)
             then Some ((b0 - 0xE0) * 4096 + (b1 - 0x80) * 64 + (b2 - 0x80), 3) else None | _ \<Rightarrow> None)
         else if b0 < 0xF5 then (case p of b1 # b2 # b3 # _ \<Rightarrow>
             if cb b1 \<and> cb b2 \<and> cb b3 \<and> (b0 = 0xF0 \<longrightarrow> 0x90 \<le> b1) \<and> (b0 = 0xF4 \<longrightarrow> b1 \<le> 0x8F)
             then Some ((b0 - 0xF0) * 262144 + (b1 - 0x80) * 4096 + (b2 - 0x80) * 64 + (b3 - 0x80), 4)
             else None | _ \<Rightarrow> None)
         else None)"

subsection \<open>Bits and arithmetic\<close>

lemma uint_mask:
  fixes b :: byte
  shows "uint (b AND 0x3F) = uint b mod 64" "uint (b AND 0x1F) = uint b mod 32"
    "uint (b AND 0x0F) = uint b mod 16" "uint (b AND 0x07) = uint b mod 8"
proof -
  have *: "uint (b AND mask n) = uint b mod 2 ^ n" for n
    by (simp add: take_bit_eq_mask [symmetric] take_bit_eq_mod [symmetric] unsigned_take_bit_eq)
  show "uint (b AND 0x3F) = uint b mod 64" "uint (b AND 0x1F) = uint b mod 32"
    "uint (b AND 0x0F) = uint b mod 16" "uint (b AND 0x07) = uint b mod 8"
    using * [of 6] * [of 5] * [of 4] * [of 3] by (simp_all add: mask_eq_exp_minus_1)
qed

lemma push_or:
  fixes a b :: int
  assumes "0 \<le> b" "b < 2 ^ n"
  shows "push_bit n a OR b = a * 2 ^ n + b"
proof -
  have "take_bit n b = b" using assms by (simp add: take_bit_int_eq_self)
  then have "\<not> bit (push_bit n a) k \<or> \<not> bit b k" for k
    by (metis bit_push_bit_iff bit_take_bit_iff not_le)
  then have "push_bit n a + b = push_bit n a OR b" by (intro disjunctive_add) blast
  then show ?thesis by (simp add: push_bit_eq_mult)
qed

lemma uint_tag:
  fixes b :: byte
  shows "uint (0x80 OR b AND 0x3F) = 0x80 + uint b mod 64"
    and "uint b < 32 \<Longrightarrow> uint (0xC0 OR b) = 0xC0 + uint b"
    and "uint b < 16 \<Longrightarrow> uint (0xE0 OR b) = 0xE0 + uint b"
    and "uint b < 8 \<Longrightarrow> uint (0xF0 OR b) = 0xF0 + uint b"
  using push_or [of "uint b mod 64" 6 2] push_or [of "uint b" 5 6] push_or [of "uint b" 4 14] push_or [of "uint b" 3 30]
  by (simp_all add: uint_or uint_mask push_bit_eq_mult)

lemma uint_byte_shr: "uint (byte_shr r k) = r div 2 ^ k mod 256"
  by (simp add: byte_shr_def drop_bit_eq_div unsigned_of_int take_bit_eq_mod)

subsection \<open>The code computes the reference encoding\<close>

definition encode :: "rune \<Rightarrow> byte list" where
  "encode r = AppendRune [] r"

lemma uint32_nonneg: "0 \<le> r \<Longrightarrow> r < 2 ^ 32 \<Longrightarrow> uint32 r = r"
  by (simp add: uint32_def take_bit_int_eq_self)

lemma encode_valid: "ValidRune r \<Longrightarrow> map uint (encode r) = enc r"
proof -
  assume v: "ValidRune r"
  then have r: "0 \<le> r" "r \<le> 0x10FFFF" "r < 0xD800 \<or> 0xDFFF < r" by (auto simp: ValidRune_def split: if_splits)
  have u: "uint32 r = r" using r by (intro uint32_nonneg) auto
  have ok: "(surrogateMin \<le> r \<and> r \<le> surrogateMax) = False" using r(3) by auto
  consider "r < 0x80" | "0x80 \<le> r" "r < 0x800" | "0x800 \<le> r" "r < 0x10000" | "0x10000 \<le> r" by linarith
  then show ?thesis
  proof cases
    case 1
    then show ?thesis using r by (simp add: encode_def AppendRune_def u enc_def uint_byte_shr)
  next
    case 2
    then show ?thesis using r uint_tag(2) [of "byte_shr r 6"]
      by (simp add: encode_def AppendRune_def appendRuneNonASCII_def Let_def u ok enc_def uint_byte_shr uint_tag(1) mod_mod_cancel)
  next
    case 3
    then show ?thesis using r uint_tag(3) [of "byte_shr r 12"]
      by (simp add: encode_def AppendRune_def appendRuneNonASCII_def Let_def u ok enc_def uint_byte_shr uint_tag(1) mod_mod_cancel)
  next
    case 4
    then show ?thesis using r uint_tag(4) [of "byte_shr r 18"]
      by (simp add: encode_def AppendRune_def appendRuneNonASCII_def Let_def u ok enc_def uint_byte_shr uint_tag(1) mod_mod_cancel)
  qed
qed

lemma encode_bad:
  assumes "\<not> ValidRune r" "- (2 ^ 31) \<le> r" "r < 2 ^ 31"
  shows "encode r = encode RuneError"
proof -
  have u: "uint32 r = (if r < 0 then r + 2 ^ 32 else r)"
  proof (cases "r < 0")
    case True
    have "take_bit 32 r = (r + 2 ^ 32) mod 2 ^ 32" by (simp add: take_bit_eq_mod)
    also have "\<dots> = r + 2 ^ 32" using True assms(2) by (intro mod_pos_pos_trivial) auto
    finally show ?thesis using True by (simp add: uint32_def)
  qed (use assms in \<open>simp add: uint32_nonneg\<close>)
  have bad: "uint32 r > 0x10FFFF \<or> (0xD800 \<le> uint32 r \<and> uint32 r \<le> 0xDFFF)" "\<not> uint32 r \<le> 0x7FF"
    using assms by (auto simp: u ValidRune_def split: if_splits)
  have e: "uint32 0xFFFD = 0xFFFD" by (simp add: uint32_def)
  show ?thesis using bad by (auto simp: encode_def AppendRune_def appendRuneNonASCII_def Let_def e)
qed

lemma byte_num: "(b :: byte) < numeral k \<longleftrightarrow> uint b < uint (numeral k :: byte)"
  "b \<le> numeral k \<longleftrightarrow> uint b \<le> uint (numeral k :: byte)" "b = numeral k \<longleftrightarrow> uint b = uint (numeral k :: byte)"
  "numeral k < b \<longleftrightarrow> uint (numeral k :: byte) < uint b" "numeral k \<le> b \<longleftrightarrow> uint (numeral k :: byte) \<le> uint b"
  by (simp_all add: word_less_def word_le_def word_uint_eq_iff)

text \<open>What the byte-level expressions for the rune compute, for bytes in their ranges.\<close>

lemma seq2_value:
  fixes b0 b1 :: byte
  assumes "0xC0 \<le> uint b0" "uint b0 < 0xE0" "0x80 \<le> uint b1" "uint b1 \<le> 0xBF"
  shows "push_bit 6 (uint (b0 AND 0x1F)) OR uint (b1 AND 0x3F) = (uint b0 - 0xC0) * 64 + (uint b1 - 0x80)"
proof -
  have "uint b0 mod 32 = uint b0 - 0xC0" "uint b1 mod 64 = uint b1 - 0x80" using assms by presburger+
  then show ?thesis using assms push_or [of "uint b1 - 0x80" 6 "uint b0 - 0xC0"] by (simp add: uint_mask)
qed

lemma seq3_value:
  fixes b0 b1 b2 :: byte
  assumes "0xE0 \<le> uint b0" "uint b0 < 0xF0" "0x80 \<le> uint b1" "uint b1 \<le> 0xBF" "0x80 \<le> uint b2" "uint b2 \<le> 0xBF"
  shows "push_bit 12 (uint (b0 AND 0x0F)) OR push_bit 6 (uint (b1 AND 0x3F)) OR uint (b2 AND 0x3F) =
    (uint b0 - 0xE0) * 4096 + (uint b1 - 0x80) * 64 + (uint b2 - 0x80)"
proof -
  have m: "uint b0 mod 16 = uint b0 - 0xE0" "uint b1 mod 64 = uint b1 - 0x80" "uint b2 mod 64 = uint b2 - 0x80"
    using assms by presburger+
  have 1: "push_bit 6 (uint (b1 AND 0x3F)) OR uint (b2 AND 0x3F) = (uint b1 - 0x80) * 64 + (uint b2 - 0x80)"
    using assms push_or [of "uint b2 - 0x80" 6 "uint b1 - 0x80"] m by (simp add: uint_mask)
  show ?thesis
    unfolding 1 unfolding uint_mask m
    using assms push_or [of "(uint b1 - 0x80) * 64 + (uint b2 - 0x80)" 12 "uint b0 - 0xE0"] by simp
qed

lemma seq4_value:
  fixes b0 b1 b2 b3 :: byte
  assumes "0xF0 \<le> uint b0" "uint b0 < 0xF8" "0x80 \<le> uint b1" "uint b1 \<le> 0xBF" "0x80 \<le> uint b2" "uint b2 \<le> 0xBF"
    and "0x80 \<le> uint b3" "uint b3 \<le> 0xBF"
  shows "push_bit 18 (uint (b0 AND 0x07)) OR push_bit 12 (uint (b1 AND 0x3F)) OR push_bit 6 (uint (b2 AND 0x3F)) OR
    uint (b3 AND 0x3F) = (uint b0 - 0xF0) * 262144 + (uint b1 - 0x80) * 4096 + (uint b2 - 0x80) * 64 + (uint b3 - 0x80)"
proof -
  have m: "uint b0 mod 8 = uint b0 - 0xF0" "uint b1 mod 64 = uint b1 - 0x80" "uint b2 mod 64 = uint b2 - 0x80"
    "uint b3 mod 64 = uint b3 - 0x80"
    using assms by presburger+
  let ?v = "(uint b1 - 0x80) * 4096 + ((uint b2 - 0x80) * 64 + (uint b3 - 0x80))"
  have 1: "push_bit 6 (uint (b2 AND 0x3F)) OR uint (b3 AND 0x3F) = (uint b2 - 0x80) * 64 + (uint b3 - 0x80)"
    using assms push_or [of "uint b3 - 0x80" 6 "uint b2 - 0x80"] m by (simp add: uint_mask)
  have 2: "push_bit 12 (uint (b1 AND 0x3F)) OR ((uint b2 - 0x80) * 64 + (uint b3 - 0x80)) = ?v"
    using assms push_or [of "(uint b2 - 0x80) * 64 + (uint b3 - 0x80)" 12 "uint b1 - 0x80"] m by (simp add: uint_mask)
  show ?thesis
    unfolding 1 2 unfolding uint_mask m using assms push_or [of ?v 18 "uint b0 - 0xF0"] by simp
qed

text \<open>The result where the bytes do not start with a well-formed sequence.\<close>

definition dec_result :: "int list \<Rightarrow> rune \<times> nat" where
  "dec_result p = (case dec p of Some r \<Rightarrow> r | None \<Rightarrow> (RuneError, if p = [] then 0 else 1))"

lemma DecodeRune_dec: "DecodeRune p = dec_result (map uint p)"
proof (cases p)
  case Nil
  then show ?thesis by (simp add: DecodeRune_def dec_result_def dec_def)
next
  case (Cons b0 q)
  have b0: "0 \<le> uint b0" "uint b0 < 256" using uint_bounded [of b0] by auto
  consider "uint b0 < 0x80" | "0x80 \<le> uint b0" "uint b0 < 0xC2" | "0xC2 \<le> uint b0" "uint b0 < 0xE0"
    | "0xE0 \<le> uint b0" "uint b0 < 0xF0" | "0xF0 \<le> uint b0" "uint b0 < 0xF5" | "0xF5 \<le> uint b0" by linarith
  then show ?thesis
  proof cases
    case 1
    then show ?thesis by (simp add: Cons DecodeRune_def dec_result_def dec_def first_cases byte_num)
  next
    case 2
    then show ?thesis by (simp add: Cons DecodeRune_def dec_result_def dec_def first_cases byte_num)
  next
    case 3
    then show ?thesis
      by (cases q) (simp_all add: Cons DecodeRune_def dec_result_def dec_def first_cases byte_num outside_def seq2_value)
  next
    case 4
    then show ?thesis
      by (cases q; cases "tl q") (auto simp: Cons DecodeRune_def dec_result_def dec_def first_cases byte_num outside_def seq3_value)
  next
    case 5
    then show ?thesis
      by (cases q; cases "tl q"; cases "tl (tl q)")
        (auto simp: Cons DecodeRune_def dec_result_def dec_def first_cases byte_num outside_def seq4_value)
  next
    case 6
    then show ?thesis by (simp add: Cons DecodeRune_def dec_result_def dec_def first_cases byte_num)
  qed
qed

subsection \<open>Round trips of the reference encoding\<close>

lemma ValidRune_iff: "ValidRune r \<longleftrightarrow> 0 \<le> r \<and> r \<le> 0x10FFFF \<and> \<not> (0xD800 \<le> r \<and> r \<le> 0xDFFF)"
  by (auto simp: ValidRune_def)

lemma split64: fixes r :: int shows "r = r div 64 * 64 + r mod 64" "r div 64 = r div 4096 * 64 + r div 64 mod 64"
  "r div 4096 = r div 262144 * 64 + r div 4096 mod 64"
proof -
  have "r div 4096 = r div 64 div 64" "r div 262144 = r div 4096 div 64" by (simp_all flip: zdiv_zmult2_eq)
  then show "r = r div 64 * 64 + r mod 64" "r div 64 = r div 4096 * 64 + r div 64 mod 64"
    "r div 4096 = r div 262144 * 64 + r div 4096 mod 64" by simp_all
qed

lemma dec_enc:
  assumes "ValidRune r"
  shows "dec (enc r @ rest) = Some (r, length (enc r))"
proof -
  have r: "0 \<le> r" "r \<le> 0x10FFFF" "\<not> (0xD800 \<le> r \<and> r \<le> 0xDFFF)" using assms by (auto simp: ValidRune_iff)
  have m: "0 \<le> r mod 64" "r mod 64 < 64" "0 \<le> r div 64 mod 64" "r div 64 mod 64 < 64"
    "0 \<le> r div 4096 mod 64" "r div 4096 mod 64 < 64" by simp_all
  note sp = split64 [of r]
  consider "r < 0x80" | "0x80 \<le> r" "r < 0x800" | "0x800 \<le> r" "r < 0x10000" | "0x10000 \<le> r" by linarith
  then show ?thesis
  proof cases
    case 1
    then show ?thesis by (simp add: enc_def dec_def)
  next
    case 2
    define a b where "a = r div 64" and "b = r mod 64"
    have ab: "r = a * 64 + b" "0 \<le> b" "b < 64" unfolding a_def b_def using m sp by linarith+
    then have "2 \<le> a" "a < 32" using 2 by linarith+
    moreover have "enc r = [0xC0 + a, 0x80 + b]" using 2 by (simp add: enc_def a_def b_def)
    ultimately show ?thesis using ab by (auto simp: dec_def)
  next
    case 3
    define a b c where "a = r div 4096" and "b = r div 64 mod 64" and "c = r mod 64"
    have abc: "r = a * 4096 + b * 64 + c" "0 \<le> b" "b < 64" "0 \<le> c" "c < 64"
      unfolding a_def b_def c_def using m sp by linarith+
    then have "0 \<le> a" "a < 16" "a = 0 \<longrightarrow> 32 \<le> b" "a = 13 \<longrightarrow> b < 32" using 3 r by linarith+
    moreover have "enc r = [0xE0 + a, 0x80 + b, 0x80 + c]" using 3 by (simp add: enc_def a_def b_def c_def)
    ultimately show ?thesis using abc by (auto simp: dec_def)
  next
    case 4
    define a b c e where "a = r div 262144" and "b = r div 4096 mod 64" and "c = r div 64 mod 64" and "e = r mod 64"
    have abc: "r = a * 262144 + b * 4096 + c * 64 + e" "0 \<le> b" "b < 64" "0 \<le> c" "c < 64" "0 \<le> e" "e < 64"
      unfolding a_def b_def c_def e_def using m sp by linarith+
    then have "0 \<le> a" "a < 5" "a = 0 \<longrightarrow> 16 \<le> b" "a = 4 \<longrightarrow> b < 16" using 4 r by linarith+
    moreover have "enc r = [0xF0 + a, 0x80 + b, 0x80 + c, 0x80 + e]"
      using 4 by (simp add: enc_def a_def b_def c_def e_def)
    ultimately show ?thesis using abc by (auto simp: dec_def)
  qed
qed

lemma digits64:
  fixes a b c e :: int
  assumes "0 \<le> b" "b < 64" "0 \<le> c" "c < 64" "0 \<le> e" "e < 64"
  shows "(a * 64 + b) div 64 = a" "(a * 64 + b) mod 64 = b"
    "(a * 4096 + b * 64 + c) div 4096 = a" "(a * 4096 + b * 64 + c) div 64 mod 64 = b" "(a * 4096 + b * 64 + c) mod 64 = c"
    "(a * 262144 + b * 4096 + c * 64 + e) div 262144 = a" "(a * 262144 + b * 4096 + c * 64 + e) div 4096 mod 64 = b"
    "(a * 262144 + b * 4096 + c * 64 + e) div 64 mod 64 = c" "(a * 262144 + b * 4096 + c * 64 + e) mod 64 = e"
proof -
  have d: "(x * 64 + y) div 64 = x" "(x * 64 + y) mod 64 = y" if "0 \<le> y" "y < 64" for x y :: int
    using that by (simp_all add: div_add1_eq)
  have q: "x div 4096 = x div 64 div 64" "x div 262144 = x div 64 div 64 div 64" for x :: int
    by (simp_all flip: zdiv_zmult2_eq)
  have 3: "a * 4096 + b * 64 + c = (a * 64 + b) * 64 + c"
    and 4: "a * 262144 + b * 4096 + c * 64 + e = ((a * 64 + b) * 64 + c) * 64 + e" by simp_all
  show "(a * 64 + b) div 64 = a" "(a * 64 + b) mod 64 = b" using assms by (simp_all only: d)
  show "(a * 4096 + b * 64 + c) div 4096 = a" "(a * 4096 + b * 64 + c) div 64 mod 64 = b" "(a * 4096 + b * 64 + c) mod 64 = c"
    using assms by (simp_all only: 3 q d)
  show "(a * 262144 + b * 4096 + c * 64 + e) div 262144 = a" "(a * 262144 + b * 4096 + c * 64 + e) div 4096 mod 64 = b"
    "(a * 262144 + b * 4096 + c * 64 + e) div 64 mod 64 = c" "(a * 262144 + b * 4096 + c * 64 + e) mod 64 = e"
    using assms by (simp_all only: 4 q d)
qed

lemma enc_dec:
  assumes "dec p = Some (r, n)" and "\<forall>b\<in>set p. 0 \<le> b \<and> b < 256"
  shows "ValidRune r \<and> n = length (enc r) \<and> take n p = enc r \<and> n \<le> length p"
proof (cases p)
  case Nil
  then show ?thesis using assms by (simp add: dec_def)
next
  case (Cons b0 q)
  have b0: "0 \<le> b0" using assms(2) Cons by simp
  consider "b0 < 0x80" | "0xC2 \<le> b0" "b0 < 0xE0" | "0xE0 \<le> b0" "b0 < 0xF0" | "0xF0 \<le> b0" "b0 < 0xF5"
    using assms(1) Cons by (auto simp: dec_def split: if_splits)
  then show ?thesis
  proof cases
    case 1
    then show ?thesis using assms(1) b0 by (auto simp: Cons dec_def enc_def ValidRune_iff)
  next
    case 2
    then obtain b1 q' where q: "q = b1 # q'" "cb b1" "r = (b0 - 0xC0) * 64 + (b1 - 0x80)" "n = 2"
      using assms(1) by (auto simp: Cons dec_def split: list.splits if_splits)
    have "enc r = [b0, b1]" using 2 q digits64(1,2) [of "b1 - 0x80" 0 0 "b0 - 0xC0"] by (simp add: enc_def)
    then show ?thesis using 2 q by (simp add: Cons ValidRune_iff)
  next
    case 3
    then obtain b1 b2 q' where q: "q = b1 # b2 # q'" "cb b1" "cb b2" "b0 = 0xE0 \<longrightarrow> 0xA0 \<le> b1" "b0 = 0xED \<longrightarrow> b1 \<le> 0x9F"
      "r = (b0 - 0xE0) * 4096 + (b1 - 0x80) * 64 + (b2 - 0x80)" "n = 3"
      using assms(1) by (auto simp: Cons dec_def split: list.splits if_splits)
    have "0x800 \<le> r" using 3 q(2-6) by (cases "b0 = 0xE0") auto
    moreover have "r < 0x10000" using 3 q(2,3,6) by auto
    moreover have "\<not> (0xD800 \<le> r \<and> r \<le> 0xDFFF)"
    proof (cases "b0 = 0xED")
      case True
      then show ?thesis using q(2-6) by auto
    next
      case False
      then have "b0 \<le> 0xEC \<or> 0xEE \<le> b0" by linarith
      then show ?thesis using q(2,3,6) by auto
    qed
    ultimately have r: "0x800 \<le> r" "r < 0x10000" "\<not> (0xD800 \<le> r \<and> r \<le> 0xDFFF)" by blast+
    then have "enc r = [b0, b1, b2]"
      using q digits64(3,4,5) [of "b1 - 0x80" "b2 - 0x80" 0 "b0 - 0xE0"] by (simp add: enc_def)
    then show ?thesis using r q by (simp add: Cons ValidRune_iff)
  next
    case 4
    then obtain b1 b2 b3 q' where q: "q = b1 # b2 # b3 # q'" "cb b1" "cb b2" "cb b3" "b0 = 0xF0 \<longrightarrow> 0x90 \<le> b1" "b0 = 0xF4 \<longrightarrow> b1 \<le> 0x8F"
      "r = (b0 - 0xF0) * 262144 + (b1 - 0x80) * 4096 + (b2 - 0x80) * 64 + (b3 - 0x80)" "n = 4"
      using assms(1) by (auto simp: Cons dec_def split: list.splits if_splits)
    have r: "0x10000 \<le> r" using 4 q(2-7) by (cases "b0 = 0xF0") auto
    have r': "r \<le> 0x10FFFF" using 4 q(2-7) by (cases "b0 = 0xF4") auto
    have bounds: "0 \<le> b1 - 0x80" "b1 - 0x80 < 64" "0 \<le> b2 - 0x80" "b2 - 0x80 < 64" "0 \<le> b3 - 0x80" "b3 - 0x80 < 64"
      using q(2-4) by auto
    have d: "r div 262144 = b0 - 0xF0" "r div 4096 mod 64 = b1 - 0x80" "r div 64 mod 64 = b2 - 0x80" "r mod 64 = b3 - 0x80"
      unfolding q(7) by (rule digits64(6-9) [OF bounds])+
    have "enc r = [0xF0 + r div 262144, 0x80 + r div 4096 mod 64, 0x80 + r div 64 mod 64, 0x80 + r mod 64]"
      using r by (simp add: enc_def)
    then have "enc r = [b0, b1, b2, b3]" unfolding d by simp
    moreover have "ValidRune r" using r r' by (simp add: ValidRune_iff)
    ultimately show ?thesis by (simp add: Cons q(1,8))
  qed
qed

end
