(* ===== verification/Utf8_Codec.thy ===== *)
theory Utf8_Codec
  imports Utf8_Props
begin

unbundle bit_operations_syntax

section \<open>UTF-8: strings of runes\<close>

text \<open>
  The decoders and encoders of unicode/utf8 and of the runtime against the reference, and the counting
  and validating loops on concatenations of encoded runes.
\<close>

lemma map_uint_inj: "map uint xs = map (uint :: byte \<Rightarrow> int) ys \<Longrightarrow> xs = ys"
  by (metis injI list.inj_map_strong word_uint_eq_iff)

lemma bytes_range: "\<forall>b\<in>set (map uint (p :: byte list)). 0 \<le> b \<and> b < 256"
proof -
  have "uint b < 256" for b :: byte using uint_bounded [of b] by simp
  then show ?thesis by simp
qed

lemma length_encode: "ValidRune r \<Longrightarrow> length (encode r) = length (enc r)"
  by (metis encode_valid length_map)

lemma enc_length: "0 < length (enc r)" "length (enc r) \<le> 4"
  by (simp_all add: enc_def)

lemma decode_encode: "ValidRune r \<Longrightarrow> DecodeRune (encode r @ rest) = (r, length (encode r))"
  by (simp add: DecodeRune_dec dec_result_def encode_valid dec_enc length_encode)

lemma decode_dec:
  assumes "dec (map uint p) = Some (r, n)"
  shows "ValidRune r \<and> take n p = encode r \<and> n = length (encode r) \<and> n \<le> length p"
proof -
  have e: "ValidRune r" "n = length (enc r)" "take n (map uint p) = enc r" "n \<le> length p"
    using enc_dec [OF assms bytes_range] by auto
  then have "map uint (take n p) = map uint (encode r)" by (simp add: take_map encode_valid)
  then show ?thesis using e map_uint_inj length_encode by metis
qed

lemma encode_decode:
  assumes "DecodeRune p = (r, n)" "\<not> (r = RuneError \<and> n \<le> 1)"
  shows "ValidRune r \<and> take n p = encode r \<and> n = length (encode r) \<and> n \<le> length p"
proof (cases "dec (map uint p)")
  case None
  then show ?thesis using assms by (auto simp: DecodeRune_dec dec_result_def split: if_splits)
next
  case (Some rn)
  then show ?thesis using assms(1) decode_dec by (simp add: DecodeRune_dec dec_result_def)
qed

lemma string_variants:
  "FullRuneInString = FullRune" "DecodeRuneInString = DecodeRune" "DecodeLastRuneInString = DecodeLastRune"
proof -
  show "FullRuneInString = FullRune" by (simp add: fun_eq_iff FullRuneInString_def FullRune_def)
  show d: "DecodeRuneInString = DecodeRune" by (rule ext) (unfold DecodeRuneInString_def DecodeRune_def, rule refl)
  show "DecodeLastRuneInString = DecodeLastRune"
    by (rule ext) (unfold DecodeLastRuneInString_def DecodeLastRune_def d, rule refl)
qed

lemma EncodeRune_writes:
  "EncodeRune p r = (if length p < length (encode r) then None
     else Some (encode r @ drop (length (encode r)) p, length (encode r)))"
  by (simp add: EncodeRune_def encode_def AppendRune_def appendRuneNonASCII_def write_at_def Let_def)

lemma AppendRune_append: "AppendRune p r = p @ encode r"
  by (simp add: encode_def AppendRune_def appendRuneNonASCII_def Let_def)

lemma RuneLen_length: "ValidRune r \<Longrightarrow> RuneLen r = int (length (encode r))"
  by (auto simp: length_encode enc_def RuneLen_def ValidRune_iff)

subsection \<open>Loops over a string\<close>

lemma pre_nth: "(pre @ b0 # b1 # r) ! Suc (length pre) = b1"
  "(pre @ b0 # b1 # b2 # r) ! (length pre + 2) = b2" "(pre @ b0 # b1 # b2 # b3 # r) ! (length pre + 3) = b3"
  "(pre @ b0 # b1 # b2 # r) ! Suc (Suc (length pre)) = b2" "(pre @ b0 # b1 # b2 # b3 # r) ! Suc (Suc (Suc (length pre))) = b3"
  by (simp_all add: nth_append numeral_2_eq_2 numeral_3_eq_3)

lemma steps_decode:
  assumes "q \<noteq> []"
  shows "valid_step (pre @ q) (length pre) = map_option snd (dec (map uint q)) \<and>
    step_size (pre @ q) (length pre) = snd (dec_result (map uint q))"
proof -
  obtain b0 q' where q: "q = b0 # q'" using assms by (cases q) auto
  note defs = q step_size_def valid_step_def dec_result_def dec_def first_cases byte_num outside_def pre_nth
  have b0: "0 \<le> uint b0" "uint b0 < 256" using uint_bounded [of b0] by auto
  consider "uint b0 < 0x80" | "0x80 \<le> uint b0" "uint b0 < 0xC2" | "0xC2 \<le> uint b0" "uint b0 < 0xE0"
    | "0xE0 \<le> uint b0" "uint b0 < 0xF0" | "0xF0 \<le> uint b0" "uint b0 < 0xF5" | "0xF5 \<le> uint b0" by linarith
  then show ?thesis
  proof cases
    case 1
    then show ?thesis by (simp add: defs)
  next
    case 2
    then show ?thesis by (simp add: defs)
  next
    case 3
    then show ?thesis by (cases q') (simp_all add: defs)
  next
    case 4
    then show ?thesis by (cases q'; cases "tl q'") (auto simp: defs)
  next
    case 5
    then show ?thesis by (cases q'; cases "tl q'"; cases "tl (tl q')") (auto simp: defs)
  next
    case 6
    then show ?thesis by (simp add: defs)
  qed
qed

lemma step_size_decode: "i < length p \<Longrightarrow> step_size p i = snd (DecodeRune (drop i p))"
  using steps_decode [of "drop i p" "take i p"] by (simp add: DecodeRune_dec min_def)

lemma valid_step_decode: "i < length p \<Longrightarrow> valid_step p i = map_option snd (dec (map uint (drop i p)))"
  using steps_decode [of "drop i p" "take i p"] by (simp add: min_def)

text \<open>The runtime's decoder agrees where it is used: at bytes that are not ASCII.\<close>

lemma decoderune_eq:
  assumes "k < length s" "\<not> s ! k < RuneSelf"
  shows "decoderune s k = (fst (DecodeRune (drop k s)), k + snd (DecodeRune (drop k s)))"
proof -
  obtain b0 q where q: "drop k s = b0 # q" "b0 = s ! k" using assms(1) drop_nth_Cons by blast
  note defs = decoderune_def DecodeRune_dec dec_result_def dec_def byte_num is_cb_def Let_def q(1)
  have "uint b0 < 256" using uint_bounded [of b0] by auto
  then consider "0x80 \<le> uint b0" "uint b0 < 0xC0" | "0xC0 \<le> uint b0" "uint b0 < 0xC2" | "0xC2 \<le> uint b0" "uint b0 < 0xE0"
    | "0xE0 \<le> uint b0" "uint b0 < 0xF0" | "0xF0 \<le> uint b0" "uint b0 < 0xF8" | "0xF8 \<le> uint b0"
    using assms(2) q(2) by (auto simp: byte_num) linarith
  then show ?thesis
  proof cases
    case 1
    then show ?thesis using assms(1) by (simp add: defs)
  next
    case 2
    then show ?thesis using assms(1) by (cases q) (auto simp: defs seq2_value)
  next
    case 3
    then show ?thesis using assms(1) by (cases q) (auto simp: defs seq2_value)
  next
    case 4
    then show ?thesis using assms(1) by (cases q; cases "tl q"; cases "uint b0 < 0xED"; cases "uint b0 = 0xED") (auto simp: defs seq3_value)
  next
    case 5
    then show ?thesis using assms(1) by (cases q; cases "tl q"; cases "tl (tl q)") (auto simp: defs seq4_value)
  next
    case 6
    then show ?thesis using assms(1) by (simp add: defs)
  qed
qed

lemma range_step_decode:
  assumes "k < length s"
  shows "range_step s k = (fst (DecodeRune (drop k s)), k + snd (DecodeRune (drop k s)))"
proof (cases "s ! k < RuneSelf")
  case True
  then have "first (s ! k) = 0xF0" by (simp add: first_cases)
  then have "DecodeRune (drop k s) = (uint (s ! k), 1)" using assms by (simp add: DecodeRune_def)
  then show ?thesis using True by (simp add: range_step_def)
qed (simp add: range_step_def decoderune_eq assms)

subsection \<open>Validity\<close>

text \<open>Well-formed strings: concatenations of encoded valid runes.\<close>

definition well_formed :: "byte list \<Rightarrow> bool" where
  "well_formed p \<longleftrightarrow> (\<exists>rs. (\<forall>r\<in>set rs. ValidRune r) \<and> p = concat (map encode rs))"

lemma dec_encode: "ValidRune r \<Longrightarrow> dec (map uint (encode r @ rest)) = Some (r, length (encode r))"
  by (simp add: encode_valid dec_enc length_encode)

lemma encode_nonempty: "ValidRune r \<Longrightarrow> encode r \<noteq> []"
  using length_encode enc_length(1) by fastforce

lemma well_formed_Nil [simp]: "well_formed []"
  by (auto simp: well_formed_def intro: exI [of _ "[]"])

lemma well_formed_encode: "ValidRune r \<Longrightarrow> well_formed (encode r @ p) \<longleftrightarrow> well_formed p"
proof
  assume r: "ValidRune r"
  {
    assume "well_formed p"
    then obtain rs where "\<forall>r\<in>set rs. ValidRune r" "p = concat (map encode rs)" by (auto simp: well_formed_def)
    then show "well_formed (encode r @ p)" using r by (auto simp: well_formed_def intro!: exI [of _ "r # rs"])
  }
  assume "well_formed (encode r @ p)"
  then obtain rs where rs: "\<forall>r\<in>set rs. ValidRune r" "encode r @ p = concat (map encode rs)" by (auto simp: well_formed_def)
  then obtain r' rs' where r': "rs = r' # rs'" using encode_nonempty [OF r] by (cases rs) auto
  have "Some (r, length (encode r)) = Some (r', length (encode r'))"
    using dec_encode [OF r, of p] dec_encode [of r' "concat (map encode rs')"] rs r' by simp
  then show "well_formed p" using rs r' by (auto simp: well_formed_def)
qed

lemma well_formed_dec:
  assumes "p \<noteq> []"
  shows "well_formed p \<longleftrightarrow> (\<exists>r n. dec (map uint p) = Some (r, n) \<and> well_formed (drop n p))"
proof
  assume "well_formed p"
  then obtain r rs where rs: "ValidRune r" "\<forall>r\<in>set rs. ValidRune r" "p = encode r @ concat (map encode rs)"
    using assms by (auto simp: well_formed_def) (metis assms concat.simps(1) list.exhaust list.set_intros list.simps(8) list.simps(9) concat.simps(2))
  then show "\<exists>r n. dec (map uint p) = Some (r, n) \<and> well_formed (drop n p)"
    using dec_encode [OF rs(1)] by (auto simp: well_formed_def)
next
  assume "\<exists>r n. dec (map uint p) = Some (r, n) \<and> well_formed (drop n p)"
  then obtain r n where "dec (map uint p) = Some (r, n)" "well_formed (drop n p)" by blast
  then have "ValidRune r" "p = encode r @ drop n p" "well_formed (drop n p)"
    using decode_dec append_take_drop_id by metis+
  then show "well_formed p" using well_formed_encode by metis
qed

lemma valid_loop_iff: "i \<le> length p \<Longrightarrow> valid_loop p i \<longleftrightarrow> well_formed (drop i p)"
proof (induction "length p - i" arbitrary: i rule: less_induct)
  case less
  show ?case
  proof (cases "i < length p")
    case True
    note wf = well_formed_dec [of "drop i p"]
    show ?thesis
    proof (cases "dec (map uint (drop i p))")
      case None
      then show ?thesis using True wf by (subst valid_loop.simps) (simp add: valid_step_decode)
    next
      case (Some rn)
      obtain r n where rn: "rn = (r, n)" by fastforce
      have v: "valid_step p i = Some n" using Some rn valid_step_decode [OF True] by simp
      have n: "0 < n" "i + n \<le> length p"
        using valid_step_pos [OF v] decode_dec [of "drop i p"] Some rn True by auto
      then have "valid_loop p (i + n) \<longleftrightarrow> well_formed (drop (i + n) p)" using True by (intro less.hyps) auto
      then show ?thesis using True wf Some rn v by (subst valid_loop.simps) (simp add: add.commute)
    qed
  next
    case False
    then show ?thesis using less.prems by (subst valid_loop.simps) simp
  qed
qed

lemma encode_ascii: "b < 0x80 \<Longrightarrow> encode (uint b) = [b]" "b < 0x80 \<Longrightarrow> ValidRune (uint b)"
  by (simp_all add: byte_num encode_def AppendRune_def uint32_nonneg byte_shr_def ValidRune_iff)

lemma well_formed_ascii: "\<forall>b\<in>set as. b < 0x80 \<Longrightarrow> well_formed (as @ p) \<longleftrightarrow> well_formed p"
proof (induction as)
  case (Cons a as)
  then show ?case using well_formed_encode [OF encode_ascii(2), of a "as @ p"] encode_ascii(1) [of a] by simp
qed simp

lemma bit_load32:
  assumes "k + 3 < length p" "j < 4"
  shows "bit (load32 p k) (8 * j + 7) = bit (p ! (k + j)) 7"
proof -
  have "j = 0 \<or> j = 1 \<or> j = 2 \<or> j = 3" using assms(2) by auto
  then show ?thesis
    by (auto simp: load32_def bit_or_iff bit_push_bit_iff bit_ucast_iff not_bit_length dest: bit_imp_le_length)
qed

lemma fast_path:
  assumes "length p \<ge> 8" "(load32 p 0 OR load32 p 4) AND 0x80808080 = 0"
  shows "\<forall>b\<in>set (take 8 p). b < 0x80"
proof -
  have ascii: "b < 0x80" if "\<not> bit b 7" for b :: byte
  proof -
    have "\<not> odd (uint b div 128)" using that bit_uint_iff [of b 7] by (simp add: bit_iff_odd)
    moreover have "uint b < 256" using uint_bounded [of b] by simp
    ultimately show ?thesis unfolding byte_num by (simp, presburger)
  qed
  have m: "bit (0x80808080 :: 32 word) 7" "bit (0x80808080 :: 32 word) 15" "bit (0x80808080 :: 32 word) 23"
    "bit (0x80808080 :: 32 word) 31" by simp_all
  have zero: "\<not> bit (load32 p 0) n \<and> \<not> bit (load32 p 4) n" if "bit (0x80808080 :: 32 word) n" for n
    using assms(2) that by (metis bit_0_eq bit_and_iff bit_or_iff bot_apply bot_bool_def)
  have "p ! j < 0x80" if "j < 8" for j
  proof (cases "j < 4")
    case True
    then have "8 * j + 7 \<in> {7, 15, 23, 31}" by auto
    then have "\<not> bit (load32 p 0) (8 * j + 7)" using zero m by auto
    then show ?thesis using bit_load32 [of 0 p j] assms(1) True ascii by simp
  next
    case False
    then have "8 * (j - 4) + 7 \<in> {7, 15, 23, 31}" using that by auto
    then have "\<not> bit (load32 p 4) (8 * (j - 4) + 7)" using zero m by auto
    then show ?thesis using bit_load32 [of 4 p "j - 4"] assms(1) False that ascii by simp
  qed
  then show ?thesis using assms(1) by (auto simp: in_set_conv_nth)
qed

lemma well_formed_skip: "well_formed (skip_ascii p) \<longleftrightarrow> well_formed p"
proof (induction p rule: skip_ascii.induct)
  case (1 p)
  show ?case
  proof (cases "length p \<ge> 8 \<and> (load32 p 0 OR load32 p 4) AND 0x80808080 = 0")
    case True
    then have "well_formed (take 8 p @ drop 8 p) \<longleftrightarrow> well_formed (drop 8 p)"
      by (intro well_formed_ascii fast_path) auto
    then show ?thesis using 1 True by (subst skip_ascii.simps) (simp del: append_take_drop_id add: append_take_drop_id [of 8 p])
  next
    case False
    then show ?thesis by (subst skip_ascii.simps) auto
  qed
qed

lemma Valid_iff: "Valid p \<longleftrightarrow> well_formed p"
  using valid_loop_iff [of 0 "skip_ascii p"] by (simp add: Valid_def well_formed_skip)

subsection \<open>Counting\<close>

lemma count_loop_encoded:
  assumes "\<forall>r\<in>set rs. ValidRune r" "drop i p = concat (map encode rs)" "i \<le> length p"
  shows "count_loop p i n = n + length rs"
  using assms
proof (induction rs arbitrary: i n)
  case Nil
  then show ?case by (subst count_loop.simps) simp
next
  case (Cons r rs)
  have v: "ValidRune r" and d: "drop i p = encode r @ concat (map encode rs)" using Cons.prems by auto
  then have i: "i < length p" using encode_nonempty [OF v] by (metis append_is_Nil_conv drop_eq_Nil not_le)
  have s: "step_size p i = length (encode r)" using step_size_decode [OF i] decode_encode [OF v] d by simp
  have len: "i + length (encode r) \<le> length p" using arg_cong [OF d, of length] i by simp
  have "drop (i + length (encode r)) p = concat (map encode rs)" using d by (metis add.commute append_eq_conv_conj drop_drop)
  then have "count_loop p (i + length (encode r)) (n + 1) = n + 1 + length rs"
    using Cons.IH Cons.prems(1) len by simp
  then show ?case using i s by (subst count_loop.simps) simp
qed

lemma range_count_eq: "i \<le> length p \<Longrightarrow> range_count p i n = count_loop p i n"
proof (induction p i n rule: count_loop.induct)
  case (1 p i n)
  show ?case
  proof (cases "i < length p")
    case True
    have "snd (range_step p i) = i + step_size p i" using True by (simp add: range_step_decode step_size_decode)
    moreover have "i + step_size p i \<le> length p"
      using True step_size_decode [OF True] encode_decode [of "drop i p"]
      by (cases "DecodeRune (drop i p)") (cases "fst (DecodeRune (drop i p)) = RuneError \<and> snd (DecodeRune (drop i p)) \<le> 1", auto)
    ultimately show ?thesis using True 1 by (subst range_count.simps, subst count_loop.simps) simp
  next
    case False
    then show ?thesis by (subst range_count.simps, subst count_loop.simps) simp
  qed
qed

end
