(* ===== verification/Utf8_Top.thy ===== *)
theory Utf8_Top
  imports Utf8_Codec
begin

unbundle bit_operations_syntax

section \<open>UTF-8: partial and last runes, properties\<close>

text \<open>
  The last rune of a buffer and runes that are cut off, and the theorems about the two UTF-8
  implementations.
\<close>

lemma and_push_bit: fixes x y :: int shows "x AND push_bit n y = push_bit n (drop_bit n x AND y)"
  by (rule bit_eqI) (auto simp: bit_and_iff bit_push_bit_iff bit_drop_bit_eq)

lemma RuneStart_iff: "RuneStart b \<longleftrightarrow> \<not> cb (uint b)"
proof -
  have b: "0 \<le> uint b" "uint b < 256" using uint_bounded [of b] by auto
  have "uint b AND push_bit 6 3 = push_bit 6 (drop_bit 6 (uint b) AND 3)"
    by (rule and_push_bit)
  also have "drop_bit 6 (uint b) AND 3 = uint b div 64 mod 4"
    using take_bit_eq_mask [of 2 "drop_bit 6 (uint b)"]
    by (simp add: drop_bit_eq_div take_bit_eq_mod mask_eq_exp_minus_1)
  finally have "uint (b AND 0xC0) = uint b div 64 mod 4 * 64"
    by (simp add: uint_and push_bit_eq_mult)
  moreover have "uint b div 64 mod 4 = uint b div 64" by (rule mod_pos_pos_trivial) (use b in linarith)+
  moreover have "uint b div 64 * 64 = 128 \<longleftrightarrow> cb (uint b)"
  proof -
    define d m where "d = uint b div 64" and "m = uint b mod 64"
    have "uint b = d * 64 + m" "0 \<le> m" "m < 64" by (auto simp: d_def m_def)
    then show ?thesis unfolding d_def [symmetric] by (cases "d \<le> 1"; cases "3 \<le> d") auto
  qed
  ultimately show ?thesis by (simp add: RuneStart_def byte_num)
qed

lemma enc_cont: "ValidRune r \<Longrightarrow> 0 < j \<Longrightarrow> j < length (enc r) \<Longrightarrow> cb (enc r ! j)"
  by (auto simp: enc_def nth_Cons' split: if_splits)

lemma enc_lead: "ValidRune r \<Longrightarrow> \<not> cb (enc r ! 0)"
  by (auto simp: enc_def ValidRune_iff)

lemma back_start_finds:
  assumes "lim \<le> s" "s < k" "RuneStart (p ! s)" "\<And>j. s < j \<Longrightarrow> j < k \<Longrightarrow> \<not> RuneStart (p ! j)"
  shows "back_start p lim k = s"
  using assms
proof (induction k)
  case (Suc k)
  then show ?case by (cases "s = k") auto
qed simp

lemma DecodeLastRune_encode:
  assumes v: "ValidRune r"
  shows "DecodeLastRune (q @ encode r) = (r, length (encode r))"
proof -
  let ?p = "q @ encode r" and ?l = "length (encode r)"
  have l: "0 < ?l" "?l \<le> 4" using enc_length [of r] length_encode [OF v] by auto
  have nth: "uint (?p ! (length q + j)) = enc r ! j" if "j < ?l" for j
    using that encode_valid [OF v] by (metis nth_append_length_plus nth_map)
  have dec: "DecodeRune (encode r) = (r, ?l)" using decode_encode [OF v, of "[]"] by simp
  have last: "uint (?p ! (length q + (?l - 1))) = enc r ! (?l - 1)" using l by (intro nth) simp
  show ?thesis
  proof (cases "?l = 1")
    case True
    then have "enc r = [r]" "r < 0x80" using length_encode [OF v] by (auto simp: enc_def split: if_splits)
    then show ?thesis using last True l by (simp add: DecodeLastRune_def Let_def)
  next
    case False
    have cont: "\<not> RuneStart (?p ! (length q + j))" if "0 < j" "j < ?l" for j
      using that enc_cont [OF v] nth length_encode [OF v] by (simp add: RuneStart_iff)
    have "back_start ?p (length ?p - 4) (length ?p - 1) = length q"
    proof (rule back_start_finds)
      show "RuneStart (?p ! length q)" using nth [of 0] enc_lead [OF v] l by (simp add: RuneStart_iff)
      show "\<not> RuneStart (?p ! j)" if "length q < j" "j < length ?p - 1" for j
        using cont [of "j - length q"] that by simp
      show "length q < length ?p - 1" using l False by (simp add: less_diff_conv del: length_greater_0_conv)
    qed (use l in auto)
    moreover have "\<not> uint (?p ! (length q + (?l - 1))) < 0x80"
      unfolding last using enc_cont [OF v, of "?l - 1"] l False length_encode [OF v] by auto
    moreover have "length q + (?l - 1) = length ?p - 1" using l(1) unfolding length_append by linarith
    ultimately show ?thesis using l dec by (simp add: DecodeLastRune_def Let_def)
  qed
qed

subsection \<open>Incomplete runes\<close>

lemma complete:
  assumes "dec (map uint (p @ q)) = Some (r, length p + length q)"
  shows "ValidRune r \<and> encode r = p @ q"
  using decode_dec [OF assms] by simp

lemma FullRune_incomplete:
  assumes "\<not> FullRune p"
  shows "\<exists>r q. ValidRune r \<and> encode r = p @ q \<and> q \<noteq> []"
proof (cases p)
  case Nil
  have "ValidRune 0" "encode 0 = [] @ [0]" by (simp_all add: ValidRune_iff encode_def AppendRune_def uint32_def byte_shr_def)
  then show ?thesis using Nil by blast
next
  case (Cons b0 p')
  note full = assms [unfolded Cons FullRune_def first_cases byte_num outside_def Let_def]
  have ex: ?thesis if "dec (map uint (p @ q)) = Some (r, length p + length q)" "q \<noteq> []" for q r
    using complete [OF that(1)] that(2) by blast
  have "uint b0 < 256" using uint_bounded [of b0] by auto
  then consider "0xC2 \<le> uint b0" "uint b0 < 0xE0" | "0xE0 \<le> uint b0" "uint b0 < 0xF0" | "0xF0 \<le> uint b0" "uint b0 < 0xF5"
    using full by (auto simp: byte_num split: if_splits)
  then show ?thesis
  proof cases
    case 1
    then have "p' = []" using full by (cases p') (auto simp: byte_num split: if_splits)
    then show ?thesis using 1 by (intro ex [of "[0x80]"]) (auto simp: Cons dec_def)
  next
    case 2
    show ?thesis
    proof (cases p')
      case Nil
      show ?thesis
      proof (cases "uint b0 = 0xE0")
        case True
        then show ?thesis using 2 Nil by (intro ex [of "[0xA0, 0x80]"]) (auto simp: Cons dec_def)
      next
        case False
        then show ?thesis using 2 Nil by (intro ex [of "[0x80, 0x80]"]) (auto simp: Cons dec_def)
      qed
    next
      case c: (Cons b1 p'')
      then have "p'' = []" using full 2 by (cases p'') (auto simp: byte_num split: if_splits)
      moreover from this have "cb (uint b1)" "uint b0 = 0xE0 \<longrightarrow> 0xA0 \<le> uint b1" "uint b0 = 0xED \<longrightarrow> uint b1 \<le> 0x9F"
        using full 2 c by (auto simp: byte_num split: if_splits)
      ultimately show ?thesis using 2 c by (intro ex [of "[0x80]"]) (auto simp: Cons dec_def)
    qed
  next
    case 3
    show ?thesis
    proof (cases p')
      case Nil
      show ?thesis
      proof (cases "uint b0 = 0xF0")
        case True
        then show ?thesis using 3 Nil by (intro ex [of "[0x90, 0x80, 0x80]"]) (auto simp: Cons dec_def)
      next
        case False
        then show ?thesis using 3 Nil by (intro ex [of "[0x80, 0x80, 0x80]"]) (auto simp: Cons dec_def)
      qed
    next
      case c: (Cons b1 p'')
      show ?thesis
      proof (cases p'')
        case Nil
        have "cb (uint b1)" "uint b0 = 0xF0 \<longrightarrow> 0x90 \<le> uint b1" "uint b0 = 0xF4 \<longrightarrow> uint b1 \<le> 0x8F"
          using full 3 c Nil by (auto simp: byte_num split: if_splits)
        then show ?thesis using 3 c Nil by (intro ex [of "[0x80, 0x80]"]) (auto simp: Cons dec_def)
      next
        case d: (Cons b2 p3)
        then have "p3 = []" using full 3 c by (cases p3) (auto simp: byte_num split: if_splits)
        moreover from this have "cb (uint b1)" "uint b0 = 0xF0 \<longrightarrow> 0x90 \<le> uint b1" "uint b0 = 0xF4 \<longrightarrow> uint b1 \<le> 0x8F" "cb (uint b2)"
          using full 3 c d by (auto simp: byte_num split: if_splits)
        ultimately show ?thesis using 3 c d by (intro ex [of "[0x80]"]) (auto simp: Cons dec_def)
      qed
    qed
  qed
qed

lemma first_size: "\<not> first b \<ge> 0xF0 \<Longrightarrow> 2 \<le> seq_size (first b) \<and> seq_size (first b) \<le> 4"
  by (simp add: first_cases split: if_splits)

lemma FullRune_decode:
  assumes "FullRune p"
  shows "DecodeRune (p @ q) = DecodeRune p"
proof -
  have n0: "0 < length p" using assms by (cases p) (auto simp: FullRune_def)
  have eq: "n < length p \<Longrightarrow> (p @ q) ! n = p ! n" for n by (simp add: nth_append)
  define x where "x = first (p ! 0)"
  note D = DecodeRune_def Let_def eq [OF n0] x_def [symmetric]
  show ?thesis
  proof (cases "x \<ge> 0xF0")
    case True
    then show ?thesis using n0 by (simp add: D)
  next
    case x: False
    then have sz: "2 \<le> seq_size x" "seq_size x \<le> 4" using first_size by (auto simp: x_def)
    consider "seq_size x \<le> length p" | "length p < seq_size x" "1 < length p" "outside (p ! 1) (accept x)"
      | "length p < seq_size x" "2 < length p" "p ! 2 < locb \<or> hicb < p ! 2"
      using assms by (auto simp: FullRune_def Let_def x_def split: if_splits)
    then show ?thesis
    proof cases
      case 1
      then show ?thesis using x sz by (auto simp: D eq)
    next
      case 2
      then show ?thesis using x sz n0 by (simp add: D eq)
    next
      case 3
      then show ?thesis using x sz n0 by (simp add: D eq)
    qed
  qed
qed

lemma FullRune_prefix:
  assumes v: "ValidRune r" and e: "encode r = p @ q" "q \<noteq> []"
  shows "\<not> FullRune p"
proof
  assume "FullRune p"
  then have "DecodeRune p = (r, length (p @ q))"
    using FullRune_decode [of p q] decode_encode [OF v, of "[]"] e(1) by simp
  moreover have "\<not> (r = RuneError \<and> length (p @ q) \<le> 1)"
    using RuneLen_length [OF v] e(1) by (auto simp: RuneLen_def)
  ultimately show False using encode_decode [of p r] e(2) by fastforce
qed

subsection \<open>Properties\<close>

text \<open>
  C14. Round trip of UTF-8. The bytes \<open>AppendRune\<close> appends for a valid rune are the reference
  encoding, of length \<open>RuneLen\<close>; \<open>EncodeRune\<close> writes the same bytes at the start of a buffer that
  is long enough and panics on a shorter one; \<open>DecodeRune\<close> recovers the rune and its length
  whatever follows. Conversely, when \<open>DecodeRune\<close> does not report an error (\<open>RuneError\<close> with a
  width of at most 1), the rune is valid and the bytes it consumed are its encoding: there are
  no overlong forms and no surrogates. An invalid \<open>int32\<close> is encoded as \<open>RuneError\<close>.
\<close>

theorem utf8_roundtrip:
  "(ValidRune r \<longrightarrow> map uint (AppendRune [] r) = enc r \<and> AppendRune p r = p @ AppendRune [] r \<and>
      RuneLen r = int (length (AppendRune [] r)) \<and>
      DecodeRune (AppendRune [] r @ rest) = (r, length (AppendRune [] r)) \<and>
      EncodeRune p r = (let bs = AppendRune [] r in
        if length p < length bs then None else Some (bs @ drop (length bs) p, length bs))) \<and>
   (DecodeRune q = (r', n) \<and> \<not> (r' = RuneError \<and> n \<le> 1) \<longrightarrow>
      ValidRune r' \<and> n \<le> length q \<and> take n q = AppendRune [] r') \<and>
   (\<not> ValidRune r'' \<and> - (2 ^ 31) \<le> r'' \<and> r'' < 2 ^ 31 \<longrightarrow>
      AppendRune [] r'' = AppendRune [] RuneError \<and> RuneLen r'' = -1)"
proof -
  have "ValidRune r \<Longrightarrow> map uint (encode r) = enc r \<and> AppendRune p r = p @ encode r \<and>
      RuneLen r = int (length (encode r)) \<and> DecodeRune (encode r @ rest) = (r, length (encode r)) \<and>
      EncodeRune p r = (let bs = encode r in
        if length p < length bs then None else Some (bs @ drop (length bs) p, length bs))"
    unfolding Let_def by (intro conjI encode_valid AppendRune_append RuneLen_length decode_encode EncodeRune_writes)
  moreover have "DecodeRune q = (r', n) \<Longrightarrow> \<not> (r' = RuneError \<and> n \<le> 1) \<Longrightarrow>
      ValidRune r' \<and> n \<le> length q \<and> take n q = encode r'"
    using encode_decode by blast
  moreover have "\<not> ValidRune r'' \<Longrightarrow> - (2 ^ 31) \<le> r'' \<Longrightarrow> r'' < 2 ^ 31 \<Longrightarrow>
      encode r'' = encode RuneError \<and> RuneLen r'' = -1"
    using encode_bad by (auto simp: ValidRune_iff RuneLen_def)
  ultimately show ?thesis unfolding encode_def [symmetric] by blast
qed

theorem utf8_roundtrip_witness:
  "DecodeRune (AppendRune [] 0x20AC @ [1]) = (0x20AC, 3) \<and> take 3 [0xE2, 0x82, 0xAC, 0] = AppendRune [] 0x20AC \<and>
   AppendRune [] 0xD800 = AppendRune [] RuneError"
proof -
  have l: "length (AppendRune [] 0x20AC) = 3" by (simp add: AppendRune_def appendRuneNonASCII_def uint32_def)
  have "DecodeRune [0xE2, 0x82, 0xAC, 0] = (0x20AC, 3)" by code_simp
  then show ?thesis
    using utf8_roundtrip [of "0x20AC" "[]" "[1]" "[0xE2, 0x82, 0xAC, 0]" "0x20AC" 3 "0xD800"] l
    by (simp add: ValidRune_def)
qed

text \<open>
  C15. \<open>Valid\<close> and \<open>ValidString\<close>, with their fast path of eight bytes at a time, accept exactly the
  concatenations of encoded valid runes, and \<open>RuneCount\<close> of such a string is the number of runes.
\<close>

theorem utf8_valid:
  "(Valid s \<longleftrightarrow> (\<exists>rs. (\<forall>r\<in>set rs. ValidRune r) \<and> s = concat (map (AppendRune []) rs))) \<and>
   (ValidString s \<longleftrightarrow> Valid s) \<and>
   ((\<forall>r\<in>set rs. ValidRune r) \<longrightarrow>
      RuneCount (concat (map (AppendRune []) rs)) = length rs \<and> Valid (concat (map (AppendRune []) rs)))"
  using Valid_iff [of s] Valid_iff [of "concat (map encode rs)"] count_loop_encoded [of rs 0 "concat (map encode rs)" 0]
  by (auto simp: well_formed_def encode_def [abs_def] ValidString_def Valid_def RuneCount_def)

theorem utf8_valid_witness:
  "Valid [0x61, 0xC3, 0xA9] \<and> RuneCount [0x61, 0xC3, 0xA9] = 2"
proof -
  have "concat (map (AppendRune []) [0x61, 0xE9]) = [0x61, 0xC3, 0xA9]" by code_simp
  then show ?thesis using utf8_valid [of "[]" "[0x61, 0xE9]"] by (simp add: ValidRune_def)
qed

text \<open>
  C16. The runtime's copy of UTF-8 agrees with the package: at a byte that is not ASCII, where the
  compiler calls it, \<open>decoderune\<close> returns the rune of \<open>DecodeRune\<close> and the index after it, although
  it checks value ranges where the package uses tables; \<open>encoderune\<close> is \<open>EncodeRune\<close>, a \<open>range\<close>
  loop visits \<open>RuneCount\<close> runes, and the functions on strings equal those on byte slices.
\<close>

theorem runtime_utf8_agrees:
  "(k < length s \<longrightarrow> \<not> s ! k < RuneSelf \<longrightarrow>
      decoderune s k = (fst (DecodeRune (drop k s)), k + snd (DecodeRune (drop k s)))) \<and>
   encoderune p r = EncodeRune p r \<and> countrunes s = RuneCount s \<and> RuneCountInString s = RuneCount s \<and>
   DecodeRuneInString s = DecodeRune s \<and> DecodeLastRuneInString s = DecodeLastRune s \<and>
   FullRuneInString s = FullRune s"
  using decoderune_eq [of k s] range_count_eq [of 0 s 0]
  by (simp add: countrunes_def RuneCount_def RuneCountInString_def string_variants encoderune_def EncodeRune_def)

theorem runtime_utf8_agrees_witness:
  "decoderune [0x61, 0xC3, 0xA9] 1 = (fst (DecodeRune [0xC3, 0xA9]), 1 + snd (DecodeRune [0xC3, 0xA9]))"
  using runtime_utf8_agrees [of 1 "[0x61, 0xC3, 0xA9]" "[]" 0] by simp

text \<open>
  C17. Runes at the end of a buffer. \<open>DecodeLastRune\<close> finds the last rune of a buffer that ends in
  an encoded rune, whatever precedes it. \<open>FullRune\<close> is false exactly for the proper prefixes of
  encodings, so more input can still complete them, and where it is true no further input changes
  the result of \<open>DecodeRune\<close>.
\<close>

theorem partial_runes:
  "(ValidRune r \<longrightarrow> DecodeLastRune (q @ AppendRune [] r) = (r, length (AppendRune [] r))) \<and>
   (\<not> FullRune p \<longleftrightarrow> (\<exists>r q. ValidRune r \<and> AppendRune [] r = p @ q \<and> q \<noteq> [])) \<and>
   (FullRune p \<longrightarrow> DecodeRune (p @ q) = DecodeRune p)"
  unfolding encode_def [symmetric]
  using DecodeLastRune_encode FullRune_incomplete FullRune_prefix FullRune_decode by blast

theorem partial_runes_witness:
  "DecodeLastRune ([0xFF] @ AppendRune [] 0x61) = (0x61, length (AppendRune [] 0x61)) \<and>
   DecodeRune ([0xC3, 0xA9] @ [0xFF]) = DecodeRune [0xC3, 0xA9]"
proof -
  have "FullRune [0xC3, 0xA9]" by code_simp
  then show ?thesis
    using partial_runes [of "0x61" "[0xFF]" "[0xC3, 0xA9]"] by (simp add: ValidRune_def)
qed

end
