(* ===== verification/Utf16.thy ===== *)
theory Utf16
  imports Utf8_Props
begin

section \<open>UTF-16 (unicode/utf16)\<close>

text \<open>
  A code unit is a 16-bit word, a rune an integer as in unicode/utf8. The slices that \<open>Encode\<close> and
  \<open>Decode\<close> fill are lists updated by index; an index out of range panics: \<open>None\<close>.
\<close>

abbreviation replacementChar :: rune where "replacementChar \<equiv> 0xFFFD"
abbreviation maxRune :: rune where "maxRune \<equiv> 0x10FFFF"
abbreviation surr1 :: rune where "surr1 \<equiv> 0xD800"
abbreviation surr2 :: rune where "surr2 \<equiv> 0xDC00"
abbreviation surr3 :: rune where "surr3 \<equiv> 0xE000"
abbreviation surrSelf :: rune where "surrSelf \<equiv> 0x10000"

definition IsSurrogate :: "rune \<Rightarrow> bool" where
  "IsSurrogate r \<longleftrightarrow> surr1 \<le> r \<and> r < surr3"

definition utf16_DecodeRune :: "rune \<Rightarrow> rune \<Rightarrow> rune" where
  "utf16_DecodeRune r1 r2 =
     (if surr1 \<le> r1 \<and> r1 < surr2 \<and> surr2 \<le> r2 \<and> r2 < surr3
      then (push_bit 10 (r1 - surr1) OR (r2 - surr2)) + surrSelf
      else replacementChar)"

definition utf16_EncodeRune :: "rune \<Rightarrow> rune \<times> rune" where
  "utf16_EncodeRune r =
     (if r < surrSelf \<or> r > maxRune then (replacementChar, replacementChar)
      else let r = r - surrSelf in (surr1 + (drop_bit 10 r AND 0x3FF), surr2 + (r AND 0x3FF)))"

definition store_at :: "'a list \<Rightarrow> nat \<Rightarrow> 'a \<Rightarrow> 'a list option" where
  "store_at a i x = (if i < length a then Some (a[i := x]) else None)"

fun utf16_Encode_loop :: "rune list \<Rightarrow> nat \<Rightarrow> 16 word list \<Rightarrow> (nat \<times> 16 word list) option" where
  "utf16_Encode_loop [] n a = Some (n, a)"
| "utf16_Encode_loop (v # vs) n a =
     (if 0 \<le> v \<and> v < surr1 \<or> surr3 \<le> v \<and> v < surrSelf then
        do { a \<leftarrow> store_at a n (word_of_int v); utf16_Encode_loop vs (n + 1) a }
      else if surrSelf \<le> v \<and> v \<le> maxRune then
        (case utf16_EncodeRune v of (r1, r2) \<Rightarrow>
           do { a \<leftarrow> store_at a n (word_of_int r1);
                a \<leftarrow> store_at a (n + 1) (word_of_int r2);
                utf16_Encode_loop vs (n + 2) a })
      else
        do { a \<leftarrow> store_at a n (word_of_int replacementChar); utf16_Encode_loop vs (n + 1) a })"

definition utf16_Encode :: "rune list \<Rightarrow> 16 word list option" where
  "utf16_Encode s =
     (let n = fold (\<lambda>v n. if v \<ge> surrSelf then n + 1 else n) s (length s)
      in do { (n, a) \<leftarrow> utf16_Encode_loop s 0 (replicate n 0); Some (take n a) })"

function utf16_Decode_loop :: "16 word list \<Rightarrow> nat \<Rightarrow> nat \<Rightarrow> rune list \<Rightarrow> (nat \<times> rune list) option" where
  "utf16_Decode_loop s i n a =
     (if \<not> i < length s then Some (n, a)
      else
        let r = uint (s ! i) in
        if r < surr1 \<or> surr3 \<le> r then
          do { a \<leftarrow> store_at a n r; utf16_Decode_loop s (i + 1) (n + 1) a }
        else if surr1 \<le> r \<and> r < surr2 \<and> i + 1 < length s \<and> surr2 \<le> uint (s ! (i + 1)) \<and> uint (s ! (i + 1)) < surr3 then
          do { a \<leftarrow> store_at a n (utf16_DecodeRune r (uint (s ! (i + 1)))); utf16_Decode_loop s (i + 2) (n + 1) a }
        else
          do { a \<leftarrow> store_at a n replacementChar; utf16_Decode_loop s (i + 1) (n + 1) a })"
  by pat_completeness auto
termination
  by (relation "measure (\<lambda>(s, i, n, a). length s - i)") auto

declare utf16_Decode_loop.simps [simp del]

definition utf16_Decode :: "16 word list \<Rightarrow> rune list option" where
  "utf16_Decode s = do { (n, a) \<leftarrow> utf16_Decode_loop s 0 0 (replicate (length s) 0); Some (take n a) }"

subsection \<open>Reference definitions\<close>

text \<open>The code units of one rune, and the runes of a sequence of code units.\<close>

definition units_of :: "rune \<Rightarrow> 16 word list" where
  "units_of v =
     (if surrSelf \<le> v \<and> v \<le> maxRune
      then [word_of_int (surr1 + (v - surrSelf) div 1024), word_of_int (surr2 + (v - surrSelf) mod 1024)]
      else if ValidRune v then [word_of_int v] else [0xFFFD])"

abbreviation is_high :: "16 word \<Rightarrow> bool" where "is_high x \<equiv> surr1 \<le> uint x \<and> uint x < surr2"
abbreviation is_low :: "16 word \<Rightarrow> bool" where "is_low x \<equiv> surr2 \<le> uint x \<and> uint x < surr3"

definition pair_rune :: "16 word \<Rightarrow> 16 word \<Rightarrow> rune" where
  "pair_rune x y = 0x10000 + 1024 * (uint x - surr1) + (uint y - surr2)"

fun runes_of :: "16 word list \<Rightarrow> rune list" where
  "runes_of [] = []"
| "runes_of [x] = [if IsSurrogate (uint x) then replacementChar else uint x]"
| "runes_of (x # y # ys) =
     (if is_high x \<and> is_low y then pair_rune x y # runes_of ys
      else (if IsSurrogate (uint x) then replacementChar else uint x) # runes_of (y # ys))"

text \<open>Unpaired surrogates replaced by U+FFFD.\<close>

fun repair :: "16 word list \<Rightarrow> 16 word list" where
  "repair [] = []"
| "repair [x] = [if IsSurrogate (uint x) then 0xFFFD else x]"
| "repair (x # y # ys) =
     (if is_high x \<and> is_low y then x # y # repair ys
      else (if IsSurrogate (uint x) then 0xFFFD else x) # repair (y # ys))"

subsection \<open>Surrogate pairs\<close>

lemma utf16_DecodeRune_eq:
  "surr1 \<le> r1 \<Longrightarrow> r1 < surr2 \<Longrightarrow> surr2 \<le> r2 \<Longrightarrow> r2 < surr3 \<Longrightarrow>
   utf16_DecodeRune r1 r2 = 0x10000 + 1024 * (r1 - surr1) + (r2 - surr2)"
  using push_or [of "r2 - surr2" 10 "r1 - surr1"] by (simp add: utf16_DecodeRune_def push_bit_eq_mult)

lemma utf16_EncodeRune_eq:
  assumes "surrSelf \<le> r" "r \<le> maxRune"
  shows "utf16_EncodeRune r = (surr1 + (r - surrSelf) div 1024, surr2 + (r - surrSelf) mod 1024)"
proof -
  have "x AND 0x3FF = x mod 1024" for x :: int
    using take_bit_eq_mask [of 10 x] by (simp add: take_bit_eq_mod mask_eq_exp_minus_1)
  moreover have "(r - surrSelf) div 1024 < 1024" "0 \<le> (r - surrSelf) div 1024" using assms by linarith+
  ultimately show ?thesis using assms by (simp add: utf16_EncodeRune_def Let_def drop_bit_eq_div)
qed

end
