(* ===== verification/Utf16_Props.thy ===== *)
theory Utf16_Props
  imports Utf16
begin

section \<open>Properties of unicode/utf16\<close>

text \<open>
  The loops of \<open>Encode\<close> and \<open>Decode\<close> fill their slices with what the reference definitions \<open>units_of\<close>
  and \<open>runes_of\<close> say; the theorems about the package follow from laws of these.
\<close>

subsection \<open>Units\<close>

lemma uint16: "uint (word_of_int k :: 16 word) = k mod 65536"
  by (simp add: unsigned_of_int take_bit_eq_mod)

lemma uint16_range: "0 \<le> uint (x :: 16 word)" "uint (x :: 16 word) < 65536"
  using uint_range_size [of x] by (simp_all add: word_size)

lemma uint16_eq: "word_of_int (uint (x :: 16 word)) = x"
  by simp

lemma units_plain: "\<not> IsSurrogate (uint x) \<Longrightarrow> units_of (uint x) = [x]"
  using uint16_range [of x] by (auto simp: units_of_def ValidRune_def IsSurrogate_def)

lemma units_pair:
  assumes "is_high x" "is_low y"
  shows "units_of (pair_rune x y) = [x, y]"
proof -
  have "(pair_rune x y - surrSelf) div 1024 = uint x - surr1" "(pair_rune x y - surrSelf) mod 1024 = uint y - surr2"
  proof -
    define h l where "h = uint x - surr1" and "l = uint y - surr2"
    have "pair_rune x y - surrSelf = l + 1024 * h" "0 \<le> l" "l < 1024" using assms by (simp_all add: pair_rune_def h_def l_def)
    then show "(pair_rune x y - surrSelf) div 1024 = uint x - surr1" "(pair_rune x y - surrSelf) mod 1024 = uint y - surr2"
      by (simp_all flip: h_def l_def)
  qed
  moreover have "surrSelf \<le> pair_rune x y" "pair_rune x y \<le> maxRune" using assms by (simp_all add: pair_rune_def)
  ultimately show ?thesis by (simp add: units_of_def)
qed

lemma units_replacement: "units_of replacementChar = [0xFFFD]"
  by (simp add: units_of_def ValidRune_def)

lemma runes_plain: "\<not> IsSurrogate (uint x) \<Longrightarrow> runes_of (x # xs) = uint x # runes_of xs"
  by (cases xs) (auto simp: IsSurrogate_def)

lemma runes_units: "runes_of (units_of v @ us) = (if ValidRune v then v else replacementChar) # runes_of us"
proof (cases "surrSelf \<le> v \<and> v \<le> maxRune")
  case True
  let ?d = "v - surrSelf"
  define x y where "x = (word_of_int (surr1 + ?d div 1024) :: 16 word)" and "y = (word_of_int (surr2 + ?d mod 1024) :: 16 word)"
  have "0 \<le> ?d div 1024" "?d div 1024 < 1024" using True by linarith+
  then have xy: "uint x = surr1 + ?d div 1024" "uint y = surr2 + ?d mod 1024"
    unfolding x_def y_def uint16 using pos_mod_bound [of 1024 ?d] pos_mod_sign [of 1024 ?d] by simp_all
  have "is_high x \<and> is_low y"
    using \<open>0 \<le> ?d div 1024\<close> \<open>?d div 1024 < 1024\<close> pos_mod_bound [of 1024 ?d] pos_mod_sign [of 1024 ?d] by (simp add: xy)
  moreover have "pair_rune x y = v" using div_mult_mod_eq [of ?d 1024] by (simp add: pair_rune_def xy)
  moreover have "ValidRune v" using True by (simp add: ValidRune_def)
  moreover have "units_of v = [x, y]" using True by (simp only: units_of_def x_def y_def simp_thms if_True)
  ultimately show ?thesis by simp
next
  case False
  then have u: "units_of v = (if ValidRune v then [word_of_int v] else [0xFFFD])" by (simp only: units_of_def if_False simp_thms)
  show ?thesis
  proof (cases "ValidRune v")
    case True
    then have "uint (word_of_int v :: 16 word) = v" "\<not> IsSurrogate v"
      using False by (auto simp: uint16 ValidRune_def IsSurrogate_def split: if_splits)
    then show ?thesis using True u runes_plain [of "word_of_int v" us] by simp
  next
    case invalid: False
    have "uint (0xFFFD :: 16 word) = 0xFFFD" by simp
    then show ?thesis using runes_plain [of "0xFFFD" us] u invalid by (simp add: IsSurrogate_def)
  qed
qed

lemma runes_of_units: "runes_of (concat (map units_of vs)) = map (\<lambda>v. if ValidRune v then v else replacementChar) vs"
  by (induction vs) (simp_all add: runes_units)

lemma units_of_runes: "concat (map units_of (runes_of u)) = repair u"
  by (induction u rule: runes_of.induct) (auto simp: units_plain units_pair units_replacement)

lemma runes_valid: "r \<in> set (runes_of u) \<Longrightarrow> ValidRune r"
proof (induction u rule: runes_of.induct)
  case (2 x)
  then show ?case using uint16_range [of x] by (auto simp: ValidRune_def IsSurrogate_def split: if_splits)
next
  case (3 x y ys)
  have "ValidRune (pair_rune x y)" if "is_high x" "is_low y" using that by (simp add: pair_rune_def ValidRune_def)
  moreover have "ValidRune (if IsSurrogate (uint x) then replacementChar else uint x)"
    using uint16_range [of x] by (auto simp: ValidRune_def IsSurrogate_def)
  ultimately show ?case using 3 by (auto split: if_splits)
qed simp

lemma repair_paired: "(\<And>x. x \<in> set u \<Longrightarrow> \<not> IsSurrogate (uint x)) \<Longrightarrow> repair u = u"
  by (induction u rule: repair.induct) (auto simp: IsSurrogate_def)

subsection \<open>The loops\<close>

lemma store_at_take:
  "n < length a \<Longrightarrow> store_at a n x = Some (a[n := x]) \<and> length (a[n := x]) = length a \<and> take (Suc n) (a[n := x]) = take n a @ [x]"
  by (simp add: store_at_def take_Suc_conv_app_nth)

lemma Encode_units:
  "utf16_Encode_loop (v # vs) n a =
     (case units_of v of
        [x] \<Rightarrow> do { a \<leftarrow> store_at a n x; utf16_Encode_loop vs (n + 1) a }
      | [x, y] \<Rightarrow> do { a \<leftarrow> store_at a n x; a \<leftarrow> store_at a (n + 1) y; utf16_Encode_loop vs (n + 2) a }
      | _ \<Rightarrow> None)"
  using utf16_EncodeRune_eq [of v] by (auto simp: units_of_def ValidRune_def)

lemma units_length: "length (units_of v) = (if surrSelf \<le> v \<and> v \<le> maxRune then 2 else 1)"
  by (simp add: units_of_def)

lemma Encode_loop_eq:
  assumes "n + length (concat (map units_of vs)) \<le> length a"
  shows "\<exists>a'. utf16_Encode_loop vs n a = Some (n + length (concat (map units_of vs)), a') \<and>
    take (n + length (concat (map units_of vs))) a' = take n a @ concat (map units_of vs)"
  using assms
proof (induction vs arbitrary: n a)
  case (Cons v vs)
  let ?m = "length (concat (map units_of vs))"
  show ?case
  proof (cases "units_of v")
    case (Cons x xs)
    show ?thesis
    proof (cases xs)
      case Nil
      then have u: "units_of v = [x]" using Cons by simp
      then have n: "n < length a" "Suc n + ?m \<le> length (a[n := x])" using Cons.prems by simp_all
      show ?thesis using Cons.IH [OF n(2)] store_at_take [OF n(1), of x] u
        by (simp add: Encode_units del: utf16_Encode_loop.simps)
    next
      case (Cons y ys)
      then have u: "units_of v = [x, y]" using \<open>units_of v = x # xs\<close> units_length [of v] by (auto split: if_splits)
      then have n: "n < length a" "Suc n < length (a[n := x])" "Suc (Suc n) + ?m \<le> length (a[n := x, Suc n := y])"
        using Cons.prems by simp_all
      show ?thesis using Cons.IH [OF n(3)] store_at_take [OF n(1), of x] store_at_take [OF n(2), of y] u
        by (simp add: Encode_units del: utf16_Encode_loop.simps)
    qed
  qed (use units_length [of v] in \<open>simp split: if_splits\<close>)
qed simp

lemma fold_count: "fold (\<lambda>v n. if P v then n + 1 else n) s (n :: nat) = n + length (filter P s)"
  by (induction s arbitrary: n) auto

lemma count_units: "length (concat (map units_of s)) \<le> length s + length (filter (\<lambda>v. v \<ge> surrSelf) s)"
  by (induction s) (auto simp: units_length)

lemma Encode_eq: "utf16_Encode s = Some (concat (map units_of s))"
proof -
  define N where "N = length s + length (filter (\<lambda>v. v \<ge> surrSelf) s)"
  obtain a where "utf16_Encode_loop s 0 (replicate N 0) = Some (length (concat (map units_of s)), a)"
    "take (length (concat (map units_of s))) a = concat (map units_of s)"
    using Encode_loop_eq [of 0 s "replicate N 0"] count_units [of s] by (auto simp: N_def)
  then show ?thesis by (simp add: utf16_Encode_def fold_count N_def)
qed

lemma runes_length: "length (runes_of u) \<le> length u"
  by (induction u rule: runes_of.induct) auto

lemma runes_drop:
  assumes "i < length s"
  shows "runes_of (drop i s) =
    (if is_high (s ! i) \<and> Suc i < length s \<and> is_low (s ! Suc i)
     then pair_rune (s ! i) (s ! Suc i) # runes_of (drop (i + 2) s)
     else (if IsSurrogate (uint (s ! i)) then replacementChar else uint (s ! i)) # runes_of (drop (i + 1) s))"
proof (cases "Suc i < length s")
  case True
  then have "drop i s = s ! i # s ! Suc i # drop (i + 2) s" "drop (i + 1) s = s ! Suc i # drop (i + 2) s"
    by (simp_all add: Cons_nth_drop_Suc)
  then show ?thesis using True by simp
next
  case False
  then have "drop i s = [s ! i]" using assms by (simp flip: Cons_nth_drop_Suc)
  then show ?thesis using False by simp
qed

lemma Decode_loop_eq:
  assumes "i \<le> length s" "n + length (runes_of (drop i s)) \<le> length a"
  shows "\<exists>a'. utf16_Decode_loop s i n a = Some (n + length (runes_of (drop i s)), a') \<and>
    take (n + length (runes_of (drop i s))) a' = take n a @ runes_of (drop i s)"
  using assms
proof (induction "length s - i" arbitrary: i n a rule: less_induct)
  case (less i n a)
  show ?case
  proof (cases "i < length s")
    case False
    then have "utf16_Decode_loop s i n a = Some (n, a)" by (subst utf16_Decode_loop.simps) simp
    then show ?thesis using False by simp
  next
    case i: True
    let ?x = "s ! i" and ?y = "s ! Suc i"
    define pair where "pair \<longleftrightarrow> is_high ?x \<and> Suc i < length s \<and> is_low ?y"
    define v where "v = (if pair then pair_rune ?x ?y else if IsSurrogate (uint ?x) then replacementChar else uint ?x)"
    define j where "j = (if pair then i + 2 else i + 1)"
    have rs: "runes_of (drop i s) = v # runes_of (drop j s)" using runes_drop [OF i] by (simp add: v_def j_def pair_def)
    have n: "n < length a" "Suc n + length (runes_of (drop j s)) \<le> length (a[n := v])" using less.prems(2) rs by simp_all
    have j: "j \<le> length s" using i by (auto simp: j_def pair_def)
    have step: "utf16_Decode_loop s i n a = utf16_Decode_loop s j (n + 1) (a[n := v])"
      using i n(1) utf16_DecodeRune_eq [of "uint ?x" "uint ?y"]
      by (subst utf16_Decode_loop.simps) (auto simp: store_at_def v_def j_def pair_def pair_rune_def IsSurrogate_def Let_def)
    have "\<exists>a'. utf16_Decode_loop s j (Suc n) (a[n := v]) = Some (Suc n + length (runes_of (drop j s)), a') \<and>
      take (Suc n + length (runes_of (drop j s))) a' = take (Suc n) (a[n := v]) @ runes_of (drop j s)"
      using less.hyps [of j "Suc n" "a[n := v]"] i j n(2) by (auto simp: j_def)
    then show ?thesis using step rs store_at_take [OF n(1), of v] by simp
  qed
qed

lemma Decode_eq: "utf16_Decode s = Some (runes_of s)"
  using Decode_loop_eq [of 0 s 0 "replicate (length s) 0"] runes_length [of s] by (auto simp: utf16_Decode_def)

subsection \<open>Properties\<close>

lemma EncodeRune_pair:
  assumes v: "surrSelf \<le> v" "v \<le> maxRune"
  shows "case utf16_EncodeRune v of (r1, r2) \<Rightarrow>
    IsSurrogate r1 \<and> IsSurrogate r2 \<and> r1 < surr2 \<and> surr2 \<le> r2 \<and> utf16_DecodeRune r1 r2 = v"
proof -
  let ?d = "v - surrSelf"
  have b: "0 \<le> ?d div 1024" "?d div 1024 < 1024" using v by linarith+
  moreover have m: "0 \<le> ?d mod 1024" "?d mod 1024 < 1024" by simp_all
  ultimately have "utf16_DecodeRune (surr1 + ?d div 1024) (surr2 + ?d mod 1024) = v"
    using div_mult_mod_eq [of ?d 1024] by (subst utf16_DecodeRune_eq) simp_all
  then show ?thesis using b m by (simp add: utf16_EncodeRune_eq [OF v] IsSurrogate_def)
qed

text \<open>
  C33. \<open>Encode\<close> and \<open>Decode\<close> never index out of range. \<open>Encode\<close> gives the units of each rune in turn, and
  \<open>Decode\<close> of them gives the runes back, with U+FFFD for those that are not valid. \<open>Decode\<close> gives valid
  runes only (a high followed by a low surrogate is one rune, any other surrogate U+FFFD), and encoding
  its result gives the input with U+FFFD in the place of the unpaired surrogates, the input itself if
  it has no surrogates. The pair of a supplementary rune is a high and a low surrogate that
  \<open>DecodeRune\<close> puts together again.
\<close>

theorem utf16_correct:
  "utf16_Encode s = Some (concat (map units_of s)) \<and> utf16_Decode u = Some (runes_of u) \<and>
   utf16_Decode (concat (map units_of s)) = Some (map (\<lambda>v. if ValidRune v then v else replacementChar) s) \<and>
   (\<forall>r\<in>set (runes_of u). ValidRune r) \<and> length (runes_of u) \<le> length u \<and>
   utf16_Encode (runes_of u) = Some (repair u) \<and> ((\<forall>x\<in>set u. \<not> IsSurrogate (uint x)) \<longrightarrow> repair u = u) \<and>
   (if surrSelf \<le> v \<and> v \<le> maxRune
    then (case utf16_EncodeRune v of (r1, r2) \<Rightarrow>
      IsSurrogate r1 \<and> IsSurrogate r2 \<and> r1 < surr2 \<and> surr2 \<le> r2 \<and> utf16_DecodeRune r1 r2 = v)
    else utf16_EncodeRune v = (replacementChar, replacementChar))"
proof -
  have "utf16_EncodeRune v = (replacementChar, replacementChar)" if "\<not> (surrSelf \<le> v \<and> v \<le> maxRune)"
    using that by (auto simp: utf16_EncodeRune_def)
  then show ?thesis
    using EncodeRune_pair [of v] Encode_eq [of s] Decode_eq [of "concat (map units_of s)"] runes_of_units [of s]
      Decode_eq [of u] runes_valid [of _ u] runes_length [of u] Encode_eq [of "runes_of u"] units_of_runes [of u]
      repair_paired [of u] by simp
qed

theorem utf16_correct_witness:
  "utf16_Decode [0x61, 0xD83D, 0xDE00] = Some [0x61, 0x1F600] \<and> utf16_Encode [0x61] = Some [0x61]"
proof -
  have "utf16_Decode [0x61, 0xD83D, 0xDE00] = Some [0x61, 0x1F600]"
    using utf16_correct [of "[]" "[0x61, 0xD83D, 0xDE00]" 0] by (simp add: IsSurrogate_def pair_rune_def)
  moreover have "utf16_Encode [0x61] = Some [0x61]"
    using utf16_correct [of "[]" "[0x61]" 0] by (simp add: IsSurrogate_def)
  ultimately show ?thesis by simp
qed

end
