(* ===== verification/Math_Bits.thy ===== *)
theory Math_Bits
  imports Go_Prelude
begin

unbundle bit_operations_syntax

section \<open>Bit counting and extended arithmetic (math/bits)\<close>

text \<open>
  The unsigned types of Go are words of their width. The functions on \<open>uint\<close>, whose width depends
  on the machine, take the constant \<open>UintSize\<close> (32 or 64) as an argument, and their operands are
  64-bit words of which a 32-bit machine uses the lower half. The tables of bits_tables.go are
  lists of bytes. A run-time panic of \<open>Div32\<close> and \<open>Div64\<close> is a value of \<^typ>\<open>'a outcome\<close>.
\<close>

type_synonym uint8 = "8 word"
type_synonym uint16 = "16 word"
type_synonym uint32 = "32 word"
type_synonym uint64 = "64 word"

subsection \<open>Tables\<close>

definition ntz8tab :: "byte list" where
  "ntz8tab =
    [8, 0, 1, 0, 2, 0, 1, 0, 3, 0, 1, 0, 2, 0, 1, 0,
     4, 0, 1, 0, 2, 0, 1, 0, 3, 0, 1, 0, 2, 0, 1, 0,
     5, 0, 1, 0, 2, 0, 1, 0, 3, 0, 1, 0, 2, 0, 1, 0,
     4, 0, 1, 0, 2, 0, 1, 0, 3, 0, 1, 0, 2, 0, 1, 0,
     6, 0, 1, 0, 2, 0, 1, 0, 3, 0, 1, 0, 2, 0, 1, 0,
     4, 0, 1, 0, 2, 0, 1, 0, 3, 0, 1, 0, 2, 0, 1, 0,
     5, 0, 1, 0, 2, 0, 1, 0, 3, 0, 1, 0, 2, 0, 1, 0,
     4, 0, 1, 0, 2, 0, 1, 0, 3, 0, 1, 0, 2, 0, 1, 0,
     7, 0, 1, 0, 2, 0, 1, 0, 3, 0, 1, 0, 2, 0, 1, 0,
     4, 0, 1, 0, 2, 0, 1, 0, 3, 0, 1, 0, 2, 0, 1, 0,
     5, 0, 1, 0, 2, 0, 1, 0, 3, 0, 1, 0, 2, 0, 1, 0,
     4, 0, 1, 0, 2, 0, 1, 0, 3, 0, 1, 0, 2, 0, 1, 0,
     6, 0, 1, 0, 2, 0, 1, 0, 3, 0, 1, 0, 2, 0, 1, 0,
     4, 0, 1, 0, 2, 0, 1, 0, 3, 0, 1, 0, 2, 0, 1, 0,
     5, 0, 1, 0, 2, 0, 1, 0, 3, 0, 1, 0, 2, 0, 1, 0,
     4, 0, 1, 0, 2, 0, 1, 0, 3, 0, 1, 0, 2, 0, 1, 0]"

definition pop8tab :: "byte list" where
  "pop8tab =
    [0, 1, 1, 2, 1, 2, 2, 3, 1, 2, 2, 3, 2, 3, 3, 4,
     1, 2, 2, 3, 2, 3, 3, 4, 2, 3, 3, 4, 3, 4, 4, 5,
     1, 2, 2, 3, 2, 3, 3, 4, 2, 3, 3, 4, 3, 4, 4, 5,
     2, 3, 3, 4, 3, 4, 4, 5, 3, 4, 4, 5, 4, 5, 5, 6,
     1, 2, 2, 3, 2, 3, 3, 4, 2, 3, 3, 4, 3, 4, 4, 5,
     2, 3, 3, 4, 3, 4, 4, 5, 3, 4, 4, 5, 4, 5, 5, 6,
     2, 3, 3, 4, 3, 4, 4, 5, 3, 4, 4, 5, 4, 5, 5, 6,
     3, 4, 4, 5, 4, 5, 5, 6, 4, 5, 5, 6, 5, 6, 6, 7,
     1, 2, 2, 3, 2, 3, 3, 4, 2, 3, 3, 4, 3, 4, 4, 5,
     2, 3, 3, 4, 3, 4, 4, 5, 3, 4, 4, 5, 4, 5, 5, 6,
     2, 3, 3, 4, 3, 4, 4, 5, 3, 4, 4, 5, 4, 5, 5, 6,
     3, 4, 4, 5, 4, 5, 5, 6, 4, 5, 5, 6, 5, 6, 6, 7,
     2, 3, 3, 4, 3, 4, 4, 5, 3, 4, 4, 5, 4, 5, 5, 6,
     3, 4, 4, 5, 4, 5, 5, 6, 4, 5, 5, 6, 5, 6, 6, 7,
     3, 4, 4, 5, 4, 5, 5, 6, 4, 5, 5, 6, 5, 6, 6, 7,
     4, 5, 5, 6, 5, 6, 6, 7, 5, 6, 6, 7, 6, 7, 7, 8]"

definition rev8tab :: "byte list" where
  "rev8tab =
    [0x00, 0x80, 0x40, 0xC0, 0x20, 0xA0, 0x60, 0xE0, 0x10, 0x90, 0x50, 0xD0, 0x30, 0xB0, 0x70, 0xF0,
     0x08, 0x88, 0x48, 0xC8, 0x28, 0xA8, 0x68, 0xE8, 0x18, 0x98, 0x58, 0xD8, 0x38, 0xB8, 0x78, 0xF8,
     0x04, 0x84, 0x44, 0xC4, 0x24, 0xA4, 0x64, 0xE4, 0x14, 0x94, 0x54, 0xD4, 0x34, 0xB4, 0x74, 0xF4,
     0x0C, 0x8C, 0x4C, 0xCC, 0x2C, 0xAC, 0x6C, 0xEC, 0x1C, 0x9C, 0x5C, 0xDC, 0x3C, 0xBC, 0x7C, 0xFC,
     0x02, 0x82, 0x42, 0xC2, 0x22, 0xA2, 0x62, 0xE2, 0x12, 0x92, 0x52, 0xD2, 0x32, 0xB2, 0x72, 0xF2,
     0x0A, 0x8A, 0x4A, 0xCA, 0x2A, 0xAA, 0x6A, 0xEA, 0x1A, 0x9A, 0x5A, 0xDA, 0x3A, 0xBA, 0x7A, 0xFA,
     0x06, 0x86, 0x46, 0xC6, 0x26, 0xA6, 0x66, 0xE6, 0x16, 0x96, 0x56, 0xD6, 0x36, 0xB6, 0x76, 0xF6,
     0x0E, 0x8E, 0x4E, 0xCE, 0x2E, 0xAE, 0x6E, 0xEE, 0x1E, 0x9E, 0x5E, 0xDE, 0x3E, 0xBE, 0x7E, 0xFE,
     0x01, 0x81, 0x41, 0xC1, 0x21, 0xA1, 0x61, 0xE1, 0x11, 0x91, 0x51, 0xD1, 0x31, 0xB1, 0x71, 0xF1,
     0x09, 0x89, 0x49, 0xC9, 0x29, 0xA9, 0x69, 0xE9, 0x19, 0x99, 0x59, 0xD9, 0x39, 0xB9, 0x79, 0xF9,
     0x05, 0x85, 0x45, 0xC5, 0x25, 0xA5, 0x65, 0xE5, 0x15, 0x95, 0x55, 0xD5, 0x35, 0xB5, 0x75, 0xF5,
     0x0D, 0x8D, 0x4D, 0xCD, 0x2D, 0xAD, 0x6D, 0xED, 0x1D, 0x9D, 0x5D, 0xDD, 0x3D, 0xBD, 0x7D, 0xFD,
     0x03, 0x83, 0x43, 0xC3, 0x23, 0xA3, 0x63, 0xE3, 0x13, 0x93, 0x53, 0xD3, 0x33, 0xB3, 0x73, 0xF3,
     0x0B, 0x8B, 0x4B, 0xCB, 0x2B, 0xAB, 0x6B, 0xEB, 0x1B, 0x9B, 0x5B, 0xDB, 0x3B, 0xBB, 0x7B, 0xFB,
     0x07, 0x87, 0x47, 0xC7, 0x27, 0xA7, 0x67, 0xE7, 0x17, 0x97, 0x57, 0xD7, 0x37, 0xB7, 0x77, 0xF7,
     0x0F, 0x8F, 0x4F, 0xCF, 0x2F, 0xAF, 0x6F, 0xEF, 0x1F, 0x9F, 0x5F, 0xDF, 0x3F, 0xBF, 0x7F, 0xFF]"

definition len8tab :: "byte list" where
  "len8tab =
    [0, 1, 2, 2, 3, 3, 3, 3, 4, 4, 4, 4, 4, 4, 4, 4,
     5, 5, 5, 5, 5, 5, 5, 5, 5, 5, 5, 5, 5, 5, 5, 5,
     6, 6, 6, 6, 6, 6, 6, 6, 6, 6, 6, 6, 6, 6, 6, 6,
     6, 6, 6, 6, 6, 6, 6, 6, 6, 6, 6, 6, 6, 6, 6, 6,
     7, 7, 7, 7, 7, 7, 7, 7, 7, 7, 7, 7, 7, 7, 7, 7,
     7, 7, 7, 7, 7, 7, 7, 7, 7, 7, 7, 7, 7, 7, 7, 7,
     7, 7, 7, 7, 7, 7, 7, 7, 7, 7, 7, 7, 7, 7, 7, 7,
     7, 7, 7, 7, 7, 7, 7, 7, 7, 7, 7, 7, 7, 7, 7, 7,
     8, 8, 8, 8, 8, 8, 8, 8, 8, 8, 8, 8, 8, 8, 8, 8,
     8, 8, 8, 8, 8, 8, 8, 8, 8, 8, 8, 8, 8, 8, 8, 8,
     8, 8, 8, 8, 8, 8, 8, 8, 8, 8, 8, 8, 8, 8, 8, 8,
     8, 8, 8, 8, 8, 8, 8, 8, 8, 8, 8, 8, 8, 8, 8, 8,
     8, 8, 8, 8, 8, 8, 8, 8, 8, 8, 8, 8, 8, 8, 8, 8,
     8, 8, 8, 8, 8, 8, 8, 8, 8, 8, 8, 8, 8, 8, 8, 8,
     8, 8, 8, 8, 8, 8, 8, 8, 8, 8, 8, 8, 8, 8, 8, 8,
     8, 8, 8, 8, 8, 8, 8, 8, 8, 8, 8, 8, 8, 8, 8, 8]"


subsection \<open>Lengths and zeros\<close>

definition Len8 :: "uint8 \<Rightarrow> nat" where
  "Len8 x = unat (len8tab ! unat x)"

definition Len16 :: "uint16 \<Rightarrow> nat" where
  "Len16 x =
     (let (x, n) = (if x \<ge> 0x100 then (drop_bit 8 x, 8) else (x, 0))
      in n + unat (len8tab ! unat x))"

definition Len32 :: "uint32 \<Rightarrow> nat" where
  "Len32 x =
     (let (x, n) = (if x \<ge> 0x10000 then (drop_bit 16 x, 16) else (x, 0));
          (x, n) = (if x \<ge> 0x100 then (drop_bit 8 x, n + 8) else (x, n))
      in n + unat (len8tab ! unat x))"

definition Len64 :: "uint64 \<Rightarrow> nat" where
  "Len64 x =
     (let (x, n) = (if x \<ge> 0x100000000 then (drop_bit 32 x, 32) else (x, 0));
          (x, n) = (if x \<ge> 0x10000 then (drop_bit 16 x, n + 16) else (x, n));
          (x, n) = (if x \<ge> 0x100 then (drop_bit 8 x, n + 8) else (x, n))
      in n + unat (len8tab ! unat x))"

definition Len_uint :: "nat \<Rightarrow> uint64 \<Rightarrow> nat" where
  "Len_uint UintSize x = (if UintSize = 32 then Len32 (ucast x) else Len64 x)"

definition LeadingZeros :: "nat \<Rightarrow> uint64 \<Rightarrow> nat" where
  "LeadingZeros UintSize x = UintSize - Len_uint UintSize x"

definition LeadingZeros8 :: "uint8 \<Rightarrow> nat" where
  "LeadingZeros8 x = 8 - Len8 x"

definition LeadingZeros16 :: "uint16 \<Rightarrow> nat" where
  "LeadingZeros16 x = 16 - Len16 x"

definition LeadingZeros32 :: "uint32 \<Rightarrow> nat" where
  "LeadingZeros32 x = 32 - Len32 x"

definition LeadingZeros64 :: "uint64 \<Rightarrow> nat" where
  "LeadingZeros64 x = 64 - Len64 x"

definition deBruijn32 :: uint32 where "deBruijn32 = 0x077CB531"

definition deBruijn32tab :: "byte list" where
  "deBruijn32tab =
    [0, 1, 28, 2, 29, 14, 24, 3, 30, 22, 20, 15, 25, 17, 4, 8,
     31, 27, 13, 23, 21, 19, 16, 7, 26, 12, 18, 6, 11, 5, 10, 9]"

definition deBruijn64 :: uint64 where "deBruijn64 = 0x03f79d71b4ca8b09"

definition deBruijn64tab :: "byte list" where
  "deBruijn64tab =
    [0, 1, 56, 2, 57, 49, 28, 3, 61, 58, 42, 50, 38, 29, 17, 4,
     62, 47, 59, 36, 45, 43, 51, 22, 53, 39, 33, 30, 24, 18, 12, 5,
     63, 55, 48, 27, 60, 41, 37, 16, 46, 35, 44, 21, 52, 32, 23, 11,
     54, 26, 40, 15, 34, 20, 31, 10, 25, 14, 19, 9, 13, 8, 7, 6]"

definition TrailingZeros8 :: "uint8 \<Rightarrow> nat" where
  "TrailingZeros8 x = unat (ntz8tab ! unat x)"

definition TrailingZeros16 :: "uint16 \<Rightarrow> nat" where
  "TrailingZeros16 x =
     (if x = 0 then 16
      else unat (deBruijn32tab ! unat (drop_bit 27 (ucast (x AND - x) * deBruijn32))))"

definition TrailingZeros32 :: "uint32 \<Rightarrow> nat" where
  "TrailingZeros32 x =
     (if x = 0 then 32
      else unat (deBruijn32tab ! unat (drop_bit 27 ((x AND - x) * deBruijn32))))"

definition TrailingZeros64 :: "uint64 \<Rightarrow> nat" where
  "TrailingZeros64 x =
     (if x = 0 then 64
      else unat (deBruijn64tab ! unat (drop_bit 58 ((x AND - x) * deBruijn64))))"

definition TrailingZeros :: "nat \<Rightarrow> uint64 \<Rightarrow> nat" where
  "TrailingZeros UintSize x = (if UintSize = 32 then TrailingZeros32 (ucast x) else TrailingZeros64 x)"

subsection \<open>Counting ones\<close>

abbreviation m0 :: uint64 where "m0 \<equiv> 0x5555555555555555"
abbreviation m1 :: uint64 where "m1 \<equiv> 0x3333333333333333"
abbreviation m2 :: uint64 where "m2 \<equiv> 0x0f0f0f0f0f0f0f0f"
abbreviation m3 :: uint64 where "m3 \<equiv> 0x00ff00ff00ff00ff"
abbreviation m4 :: uint64 where "m4 \<equiv> 0x0000ffff0000ffff"

definition OnesCount8 :: "uint8 \<Rightarrow> nat" where
  "OnesCount8 x = unat (pop8tab ! unat x)"

definition OnesCount16 :: "uint16 \<Rightarrow> nat" where
  "OnesCount16 x = unat (pop8tab ! unat (drop_bit 8 x) + pop8tab ! unat (x AND 0xff))"

definition OnesCount32 :: "uint32 \<Rightarrow> nat" where
  "OnesCount32 x = unat (pop8tab ! unat (drop_bit 24 x) + pop8tab ! unat (drop_bit 16 x AND 0xff) +
     pop8tab ! unat (drop_bit 8 x AND 0xff) + pop8tab ! unat (x AND 0xff))"

definition OnesCount64 :: "uint64 \<Rightarrow> nat" where
  "OnesCount64 x =
     (let x = (drop_bit 1 x AND m0) + (x AND m0);
          x = (drop_bit 2 x AND m1) + (x AND m1);
          x = (drop_bit 4 x + x) AND m2;
          x = x + drop_bit 8 x;
          x = x + drop_bit 16 x;
          x = x + drop_bit 32 x
      in unat (x AND 0x7f))"

definition OnesCount :: "nat \<Rightarrow> uint64 \<Rightarrow> nat" where
  "OnesCount UintSize x = (if UintSize = 32 then OnesCount32 (ucast x) else OnesCount64 x)"

subsection \<open>Rotation and reversal\<close>

text \<open>\<open>uint(k) & (n - 1)\<close> of a signed \<open>k\<close>: its residue, since \<open>n\<close> is a power of two.\<close>

definition rot_amount :: "nat \<Rightarrow> int \<Rightarrow> nat" where
  "rot_amount n k = nat (k AND (int n - 1))"

definition RotateLeft8 :: "uint8 \<Rightarrow> int \<Rightarrow> uint8" where
  "RotateLeft8 x k = (let s = rot_amount 8 k in push_bit s x OR drop_bit (8 - s) x)"

definition RotateLeft16 :: "uint16 \<Rightarrow> int \<Rightarrow> uint16" where
  "RotateLeft16 x k = (let s = rot_amount 16 k in push_bit s x OR drop_bit (16 - s) x)"

definition RotateLeft32 :: "uint32 \<Rightarrow> int \<Rightarrow> uint32" where
  "RotateLeft32 x k = (let s = rot_amount 32 k in push_bit s x OR drop_bit (32 - s) x)"

definition RotateLeft64 :: "uint64 \<Rightarrow> int \<Rightarrow> uint64" where
  "RotateLeft64 x k = (let s = rot_amount 64 k in push_bit s x OR drop_bit (64 - s) x)"

definition RotateLeft :: "nat \<Rightarrow> uint64 \<Rightarrow> int \<Rightarrow> uint64" where
  "RotateLeft UintSize x k =
     (if UintSize = 32 then ucast (RotateLeft32 (ucast x) k) else RotateLeft64 x k)"

definition ReverseBytes16 :: "uint16 \<Rightarrow> uint16" where
  "ReverseBytes16 x = drop_bit 8 x OR push_bit 8 x"

definition ReverseBytes32 :: "uint32 \<Rightarrow> uint32" where
  "ReverseBytes32 x =
     (let x = (drop_bit 8 x AND ucast m3) OR push_bit 8 (x AND ucast m3)
      in drop_bit 16 x OR push_bit 16 x)"

definition ReverseBytes64 :: "uint64 \<Rightarrow> uint64" where
  "ReverseBytes64 x =
     (let x = (drop_bit 8 x AND m3) OR push_bit 8 (x AND m3);
          x = (drop_bit 16 x AND m4) OR push_bit 16 (x AND m4)
      in drop_bit 32 x OR push_bit 32 x)"

definition ReverseBytes :: "nat \<Rightarrow> uint64 \<Rightarrow> uint64" where
  "ReverseBytes UintSize x = (if UintSize = 32 then ucast (ReverseBytes32 (ucast x)) else ReverseBytes64 x)"

definition Reverse8 :: "uint8 \<Rightarrow> uint8" where
  "Reverse8 x = rev8tab ! unat x"

definition Reverse16 :: "uint16 \<Rightarrow> uint16" where
  "Reverse16 x = ucast (rev8tab ! unat (drop_bit 8 x)) OR push_bit 8 (ucast (rev8tab ! unat (x AND 0xff)))"

definition Reverse32 :: "uint32 \<Rightarrow> uint32" where
  "Reverse32 x =
     (let x = (drop_bit 1 x AND ucast m0) OR push_bit 1 (x AND ucast m0);
          x = (drop_bit 2 x AND ucast m1) OR push_bit 2 (x AND ucast m1);
          x = (drop_bit 4 x AND ucast m2) OR push_bit 4 (x AND ucast m2)
      in ReverseBytes32 x)"

definition Reverse64 :: "uint64 \<Rightarrow> uint64" where
  "Reverse64 x =
     (let x = (drop_bit 1 x AND m0) OR push_bit 1 (x AND m0);
          x = (drop_bit 2 x AND m1) OR push_bit 2 (x AND m1);
          x = (drop_bit 4 x AND m2) OR push_bit 4 (x AND m2)
      in ReverseBytes64 x)"

definition Reverse_uint :: "nat \<Rightarrow> uint64 \<Rightarrow> uint64" where
  "Reverse_uint UintSize x = (if UintSize = 32 then ucast (Reverse32 (ucast x)) else Reverse64 x)"

subsection \<open>Arithmetic with carries\<close>

definition Add32 :: "uint32 \<Rightarrow> uint32 \<Rightarrow> uint32 \<Rightarrow> uint32 \<times> uint32" where
  "Add32 x y carry =
     (let sum64 = (ucast x :: uint64) + ucast y + ucast carry
      in (ucast sum64, ucast (drop_bit 32 sum64)))"

definition Add64 :: "uint64 \<Rightarrow> uint64 \<Rightarrow> uint64 \<Rightarrow> uint64 \<times> uint64" where
  "Add64 x y carry =
     (let sum = x + y + carry
      in (sum, drop_bit 63 ((x AND y) OR ((x OR y) AND NOT sum))))"

definition Add :: "nat \<Rightarrow> uint64 \<Rightarrow> uint64 \<Rightarrow> uint64 \<Rightarrow> uint64 \<times> uint64" where
  "Add UintSize x y carry =
     (if UintSize = 32 then (case Add32 (ucast x) (ucast y) (ucast carry) of (s, c) \<Rightarrow> (ucast s, ucast c))
      else Add64 x y carry)"

definition Sub32 :: "uint32 \<Rightarrow> uint32 \<Rightarrow> uint32 \<Rightarrow> uint32 \<times> uint32" where
  "Sub32 x y borrow =
     (let diff = x - y - borrow
      in (diff, drop_bit 31 ((NOT x AND y) OR (NOT (x XOR y) AND diff))))"

definition Sub64 :: "uint64 \<Rightarrow> uint64 \<Rightarrow> uint64 \<Rightarrow> uint64 \<times> uint64" where
  "Sub64 x y borrow =
     (let diff = x - y - borrow
      in (diff, drop_bit 63 ((NOT x AND y) OR (NOT (x XOR y) AND diff))))"

definition Sub :: "nat \<Rightarrow> uint64 \<Rightarrow> uint64 \<Rightarrow> uint64 \<Rightarrow> uint64 \<times> uint64" where
  "Sub UintSize x y borrow =
     (if UintSize = 32 then (case Sub32 (ucast x) (ucast y) (ucast borrow) of (d, b) \<Rightarrow> (ucast d, ucast b))
      else Sub64 x y borrow)"

definition Mul32 :: "uint32 \<Rightarrow> uint32 \<Rightarrow> uint32 \<times> uint32" where
  "Mul32 x y =
     (let tmp = (ucast x :: uint64) * ucast y
      in (ucast (drop_bit 32 tmp), ucast tmp))"

abbreviation mask32 :: uint64 where "mask32 \<equiv> 0xffffffff"
abbreviation two32 :: uint64 where "two32 \<equiv> 0x100000000"

definition Mul64 :: "uint64 \<Rightarrow> uint64 \<Rightarrow> uint64 \<times> uint64" where
  "Mul64 x y =
     (let x0 = x AND mask32;
          x1 = drop_bit 32 x;
          y0 = y AND mask32;
          y1 = drop_bit 32 y;
          w0 = x0 * y0;
          t = x1 * y0 + drop_bit 32 w0;
          w1 = t AND mask32;
          w2 = drop_bit 32 t;
          w1 = w1 + x0 * y1
      in (x1 * y1 + w2 + drop_bit 32 w1, x * y))"

definition Mul :: "nat \<Rightarrow> uint64 \<Rightarrow> uint64 \<Rightarrow> uint64 \<times> uint64" where
  "Mul UintSize x y =
     (if UintSize = 32 then (case Mul32 (ucast x) (ucast y) of (h, l) \<Rightarrow> (ucast h, ucast l))
      else Mul64 x y)"

text \<open>The integer division of Go panics for a divisor of zero.\<close>

definition Div32 :: "uint32 \<Rightarrow> uint32 \<Rightarrow> uint32 \<Rightarrow> (uint32 \<times> uint32) outcome" where
  "Div32 hi lo y =
     (if y \<noteq> 0 \<and> y \<le> hi then Panic ''integer overflow''
      else
        let z = push_bit 32 (ucast hi :: uint64) OR ucast lo
        in if y = 0 then Panic ''integer divide by zero''
           else Ret (ucast (z div ucast y), ucast (z mod ucast y)))"

text \<open>
  The correction loop of \<open>Div64\<close>, for either half of the quotient: while the estimate \<open>q\<close> is too
  large it is decremented, until the partial remainder leaves 32 bits. It ends because the
  condition is false for \<open>q = 0\<close>.
\<close>

function adjust :: "uint64 \<Rightarrow> uint64 \<Rightarrow> uint64 \<Rightarrow> uint64 \<Rightarrow> uint64 \<Rightarrow> uint64 \<times> uint64" where
  "adjust yn1 yn0 un q rhat =
     (if q \<ge> two32 \<or> q * yn0 > two32 * rhat + un
      then
        let q = q - 1; rhat = rhat + yn1
        in if rhat \<ge> two32 then (q, rhat) else adjust yn1 yn0 un q rhat
      else (q, rhat))"
  by pat_completeness auto
termination
proof (relation "measure (\<lambda>(_, _, _, q, _). unat q)")
  fix yn1 yn0 un q rhat x xa :: uint64
  assume "q \<ge> two32 \<or> q * yn0 > two32 * rhat + un" "x = q - 1"
  then have "q \<noteq> 0" by auto
  then have "unat (q - 1) < unat q" by (simp add: unat_minus_one unat_gt_0)
  then show "((yn1, yn0, un, x, xa), (yn1, yn0, un, q, rhat)) \<in> measure (\<lambda>(_, _, _, q, _). unat q)"
    using \<open>x = q - 1\<close> by simp
qed simp

declare adjust.simps [simp del]

definition Div64 :: "uint64 \<Rightarrow> uint64 \<Rightarrow> uint64 \<Rightarrow> (uint64 \<times> uint64) outcome" where
  "Div64 hi lo y =
     (if y = 0 then Panic ''integer divide by zero''
      else if y \<le> hi then Panic ''integer overflow''
      else
        let s = LeadingZeros64 y;
            y = push_bit s y;
            yn1 = drop_bit 32 y;
            yn0 = y AND mask32;
            un32 = push_bit s hi OR drop_bit (64 - s) lo;
            un10 = push_bit s lo;
            un1 = drop_bit 32 un10;
            un0 = un10 AND mask32;
            q1 = un32 div yn1;
            rhat = un32 - q1 * yn1;
            (q1, rhat) = adjust yn1 yn0 un1 q1 rhat;
            un21 = un32 * two32 + un1 - q1 * y;
            q0 = un21 div yn1;
            rhat = un21 - q0 * yn1;
            (q0, rhat) = adjust yn1 yn0 un0 q0 rhat
        in Ret (q1 * two32 + q0, drop_bit s (un21 * two32 + un0 - q0 * y)))"

definition Div :: "nat \<Rightarrow> uint64 \<Rightarrow> uint64 \<Rightarrow> uint64 \<Rightarrow> (uint64 \<times> uint64) outcome" where
  "Div UintSize hi lo y =
     (if UintSize = 32
      then (case Div32 (ucast hi) (ucast lo) (ucast y) of
              Ret (q, r) \<Rightarrow> Ret (ucast q, ucast r) | Panic e \<Rightarrow> Panic e | Throw e \<Rightarrow> Throw e | Park \<Rightarrow> Park)
      else Div64 hi lo y)"

definition Rem32 :: "uint32 \<Rightarrow> uint32 \<Rightarrow> uint32 \<Rightarrow> uint32 outcome" where
  "Rem32 hi lo y =
     (if y = 0 then Panic ''integer divide by zero''
      else Ret (ucast ((push_bit 32 (ucast hi :: uint64) OR ucast lo) mod ucast y)))"

definition Rem64 :: "uint64 \<Rightarrow> uint64 \<Rightarrow> uint64 \<Rightarrow> uint64 outcome" where
  "Rem64 hi lo y =
     (if y = 0 then Panic ''integer divide by zero''
      else (case Div64 (hi mod y) lo y of
              Ret (_, rem) \<Rightarrow> Ret rem | Panic e \<Rightarrow> Panic e | Throw e \<Rightarrow> Throw e | Park \<Rightarrow> Park))"

definition Rem :: "nat \<Rightarrow> uint64 \<Rightarrow> uint64 \<Rightarrow> uint64 \<Rightarrow> uint64 outcome" where
  "Rem UintSize hi lo y =
     (if UintSize = 32
      then (case Rem32 (ucast hi) (ucast lo) (ucast y) of
              Ret r \<Rightarrow> Ret (ucast r) | Panic e \<Rightarrow> Panic e | Throw e \<Rightarrow> Throw e | Park \<Rightarrow> Park)
      else Rem64 hi lo y)"

end
