(* ===== verification/Math_Bits_Laws.thy ===== *)
theory Math_Bits_Laws
  imports Math_Bits
begin

unbundle bit_operations_syntax

section \<open>Lengths, trailing zeros and the tables\<close>

text \<open>
  What the tables of bits_tables.go hold, by evaluating all 256 entries of each, and what the length
  and trailing-zero functions compute: the least number of bits that represents the operand, and
  the index of the lowest bit that is set (by a de Bruijn sequence).
\<close>

subsection \<open>Tables\<close>

text \<open>A statement about all entries of a table of 256 bytes, on integers so that it evaluates.\<close>

definition tab_all :: "(int \<Rightarrow> int \<Rightarrow> bool) \<Rightarrow> byte list \<Rightarrow> bool" where
  "tab_all P tab \<longleftrightarrow> map fst (zip [0..255] tab) = [0..255] \<and> list_all (\<lambda>(i, v). P i (uint v)) (zip [0..255] tab)"

lemma tab_allD: "tab_all P tab \<Longrightarrow> n < 256 \<Longrightarrow> P (int n) (uint (tab ! n))"
proof -
  assume t: "tab_all P tab" and n: "n < 256"
  have "length (map fst (zip [0..255] tab)) = length ([0..255] :: int list)" using t by (simp only: tab_all_def)
  then have "n < length (zip [0..255] tab)" using n by simp
  moreover from this have "zip [0..255] tab ! n = (int n, tab ! n)" by simp
  ultimately show ?thesis using t unfolding tab_all_def list_all_length by (metis (no_types, lifting) case_prod_conv)
qed

definition ones8 :: "int \<Rightarrow> int" where
  "ones8 n = n mod 2 + n div 2 mod 2 + n div 4 mod 2 + n div 8 mod 2 + n div 16 mod 2 + n div 32 mod 2 + n div 64 mod 2 + n div 128 mod 2"

lemma len8tab_all: "tab_all (\<lambda>n k. k \<le> 8 \<and> n < 2 ^ nat k \<and> (k = 0 \<or> 2 ^ nat k \<le> n * 2)) len8tab"
  by code_simp

lemma ntz8tab_all: "tab_all (\<lambda>n k. if n = 0 then k = 8 else n mod 2 ^ nat k = 0 \<and> n div 2 ^ nat k mod 2 = 1) ntz8tab"
  by code_simp

lemma pop8tab_all: "tab_all (\<lambda>n k. k = ones8 n) pop8tab"
  by code_simp

lemma rev8tab_all: "tab_all (\<lambda>n v. list_all (\<lambda>i. bit v i = bit n (7 - i)) [0..<8]) rev8tab"
  by code_simp

subsection \<open>Lengths\<close>

text \<open>\<open>k\<close> is the number of bits needed to represent \<open>n\<close>.\<close>

definition bit_len :: "nat \<Rightarrow> nat \<Rightarrow> bool" where
  "bit_len n k \<longleftrightarrow> n < 2 ^ k \<and> (k = 0 \<or> 2 ^ k \<le> n * 2)"

lemma len8: "n < 256 \<Longrightarrow> bit_len n (unat (len8tab ! n)) \<and> unat (len8tab ! n) \<le> 8"
proof -
  assume n: "n < 256"
  define k where "k = unat (len8tab ! n)"
  have u: "uint (len8tab ! n) = int k" by (simp add: k_def)
  have "k \<le> 8" "int n < 2 ^ k" "k = 0 \<or> 2 ^ k \<le> int n * 2"
    using tab_allD [OF len8tab_all n] unfolding u by simp_all
  moreover have "(2 :: int) ^ k = int (2 ^ k)" by simp
  ultimately have "bit_len n k \<and> k \<le> 8" unfolding bit_len_def by linarith
  then show ?thesis by (simp add: k_def)
qed

lemma bit_len_shift:
  assumes "bit_len (n div 2 ^ j) k" "2 ^ j \<le> n"
  shows "bit_len n (j + k)"
proof -
  have "n < 2 ^ j * 2 ^ k" using assms(1) by (simp add: bit_len_def less_mult_imp_div_less div_less_iff_less_mult mult.commute)
  moreover have "2 ^ j * 2 ^ k \<le> n * 2"
  proof (cases "k = 0")
    case True
    then show ?thesis using assms(2) by simp
  next
    case False
    then have "2 ^ k \<le> n div 2 ^ j * 2" using assms(1) by (simp add: bit_len_def)
    then have "2 ^ j * 2 ^ k \<le> 2 ^ j * (n div 2 ^ j) * 2" by (simp add: mult.assoc)
    also have "\<dots> \<le> n * 2" by simp
    finally show ?thesis .
  qed
  ultimately show ?thesis by (simp add: bit_len_def power_add)
qed

lemma unat_drop_bit: "unat (drop_bit k (x :: 'a::len word)) = unat x div 2 ^ k"
proof -
  have "unat (drop_bit k x) = drop_bit k (unat x)" using take_bit_nat_eq_self [OF unsigned_less [of x, where ?'a = nat]] by (simp add: unsigned_drop_bit_eq)
  then show ?thesis by (simp only: drop_bit_eq_div)
qed

text \<open>One halving step: the remaining value and the bits counted so far.\<close>

definition halve :: "nat \<Rightarrow> nat \<times> nat \<Rightarrow> nat \<times> nat" where
  "halve j p = (if 2 ^ j \<le> fst p then (fst p div 2 ^ j, snd p + j) else p)"

definition count8 :: "nat \<times> nat \<Rightarrow> nat" where
  "count8 p = snd p + unat (len8tab ! fst p)"

lemma count8: "m < 256 \<Longrightarrow> bit_len m (count8 (m, n) - n) \<and> n \<le> count8 (m, n) \<and> count8 (m, n) \<le> n + 8"
  using len8 [of m] by (simp add: count8_def)

definition counts :: "nat \<Rightarrow> (nat \<times> nat \<Rightarrow> nat) \<Rightarrow> bool" where
  "counts w f \<longleftrightarrow> (\<forall>m n. m < 2 ^ w \<longrightarrow> n \<le> f (m, n) \<and> bit_len m (f (m, n) - n) \<and> f (m, n) \<le> n + w)"

lemma counts_count8: "counts 8 count8"
  using count8 by (auto simp: counts_def)

lemma counts_halve:
  assumes c: "counts w f"
  shows "counts (w + w) (f \<circ> halve w)"
  unfolding counts_def
proof (intro allI impI)
  fix m n :: nat assume m: "m < 2 ^ (w + w)"
  show "n \<le> (f \<circ> halve w) (m, n) \<and> bit_len m ((f \<circ> halve w) (m, n) - n) \<and> (f \<circ> halve w) (m, n) \<le> n + (w + w)"
  proof (cases "2 ^ w \<le> m")
    case True
    let ?r = "f (m div 2 ^ w, n + w)"
    have "m div 2 ^ w < 2 ^ w" using m by (simp add: power_add less_mult_imp_div_less)
    then have "n + w \<le> ?r" "bit_len (m div 2 ^ w) (?r - (n + w))" "?r \<le> n + w + w"
      using c by (auto simp: counts_def)
    moreover from this have "bit_len m (w + (?r - (n + w)))" using bit_len_shift True by blast
    moreover have "w + (?r - (n + w)) = ?r - n" using calculation(1) by simp
    ultimately show ?thesis using True by (simp add: halve_def)
  next
    case False
    then have "n \<le> f (m, n)" "bit_len m (f (m, n) - n)" "f (m, n) \<le> n + w" using c by (auto simp: counts_def)
    then show ?thesis using False by (simp add: halve_def)
  qed
qed

lemma counts_0:
  assumes "counts w f" "m < 2 ^ w"
  shows "bit_len m (f (m, 0)) \<and> f (m, 0) \<le> w"
  using assms(1) [unfolded counts_def, rule_format, OF assms(2), of 0] by simp

lemma Len16_halve: "Len16 x = (count8 \<circ> halve 8) (unat x, 0)"
  by (simp add: Len16_def halve_def count8_def unat_drop_bit word_le_nat_alt Let_def flip: div_mult2_eq)

lemma Len32_halve: "Len32 x = (count8 \<circ> halve 8 \<circ> halve 16) (unat x, 0)"
  by (simp add: Len32_def halve_def count8_def unat_drop_bit word_le_nat_alt Let_def flip: div_mult2_eq)

lemma Len64_halve: "Len64 x = (count8 \<circ> halve 8 \<circ> halve 16 \<circ> halve 32) (unat x, 0)"
  by (simp add: Len64_def halve_def count8_def unat_drop_bit word_le_nat_alt Let_def flip: div_mult2_eq)

lemma Len_spec:
  "bit_len (unat x8) (Len8 x8) \<and> Len8 x8 \<le> 8" "bit_len (unat x16) (Len16 x16) \<and> Len16 x16 \<le> 16"
  "bit_len (unat x32) (Len32 x32) \<and> Len32 x32 \<le> 32" "bit_len (unat x64) (Len64 x64) \<and> Len64 x64 \<le> 64"
proof -
  have c16: "counts 16 (count8 \<circ> halve 8)" using counts_halve [OF counts_count8] by simp
  have c32: "counts 32 (count8 \<circ> halve 8 \<circ> halve 16)" using counts_halve [OF c16] by simp
  have c64: "counts 64 (count8 \<circ> halve 8 \<circ> halve 16 \<circ> halve 32)" using counts_halve [OF c32] by simp
  have lt: "unat x8 < 256" "unat x16 < 2 ^ 16" "unat x32 < 2 ^ 32" "unat x64 < 2 ^ 64"
    using unsigned_less [of x8, where ?'a = nat] unsigned_less [of x16, where ?'a = nat]
      unsigned_less [of x32, where ?'a = nat] unsigned_less [of x64, where ?'a = nat] by simp_all
  show "bit_len (unat x8) (Len8 x8) \<and> Len8 x8 \<le> 8" using len8 [OF lt(1)] by (simp add: Len8_def)
  show "bit_len (unat x16) (Len16 x16) \<and> Len16 x16 \<le> 16" using counts_0 [OF c16 lt(2)] by (simp only: Len16_halve)
  show "bit_len (unat x32) (Len32 x32) \<and> Len32 x32 \<le> 32" using counts_0 [OF c32 lt(3)] by (simp only: Len32_halve)
  show "bit_len (unat x64) (Len64 x64) \<and> Len64 x64 \<le> 64" using counts_0 [OF c64 lt(4)] by (simp only: Len64_halve)
qed

subsection \<open>Trailing zeros\<close>

text \<open>\<open>k\<close> is the index of the lowest bit that is set.\<close>

definition low_bit :: "'a::len word \<Rightarrow> nat \<Rightarrow> bool" where
  "low_bit x k \<longleftrightarrow> bit x k \<and> (\<forall>j<k. \<not> bit x j)"

lemma low_bit_ex: "x \<noteq> 0 \<Longrightarrow> \<exists>k. low_bit x k"
proof -
  assume "x \<noteq> 0"
  then obtain i where i: "bit x i" using bit_eqI [of x 0] by auto
  then have "bit x (LEAST i. bit x i)" by (rule LeastI)
  moreover have "\<forall>j<LEAST i. bit x i. \<not> bit x j" using not_less_Least by blast
  ultimately show ?thesis unfolding low_bit_def by blast
qed

lemma bit_odd: "bit (2 * z + 1 :: int) j \<longleftrightarrow> j = 0 \<or> bit z (j - 1)"
  by (cases j) (simp_all add: bit_Suc bit_0)

lemma int_and_neg_odd: "(2 * z + 1) AND - (2 * z + 1) = (1 :: int)"
proof -
  have n: "- (2 * z + 1) = 2 * NOT z + 1" by (simp add: not_int_def)
  show ?thesis unfolding n by (rule bit_eqI) (auto simp only: bit_and_iff bit_odd bit_not_iff bit_1_iff)
qed

lemma isolate_low_bit:
  assumes "low_bit x k"
  shows "x AND - x = push_bit k 1"
proof -
  define z where "z = drop_bit (Suc k) (uint x)"
  have b: "bit (uint x) j = bit x j" if "j < LENGTH('a)" for j using that by (simp add: bit_uint_iff)
  have k: "k < LENGTH('a)" "bit (uint x) k" "\<And>j. j < k \<Longrightarrow> \<not> bit (uint x) j"
    using assms bit_imp_le_length [of x k] by (auto simp: low_bit_def bit_uint_iff)
  have "uint x = push_bit k (2 * z + 1)"
  proof (rule bit_eqI)
    fix j
    show "bit (uint x) j = bit (push_bit k (2 * z + 1)) j"
    proof (cases "j \<le> k")
      case True
      then show ?thesis using k(2,3) by (auto simp: bit_push_bit_iff bit_odd le_less)
    next
      case False
      then have "Suc k + (j - k - 1) = j" by simp
      then show ?thesis using False by (simp add: bit_push_bit_iff bit_odd z_def bit_drop_bit_eq del: drop_bit_Suc)
    qed
  qed
  then have "uint x AND - uint x = push_bit k (1 :: int)"
    using int_and_neg_odd [of z] by (metis push_bit_and push_bit_minus)
  then have "word_of_int (uint x AND - uint x) = (push_bit k 1 :: 'a word)" by simp
  then show ?thesis by (simp add: of_int_and_eq)
qed

lemma low_bit_length: "low_bit (x :: 'a::len word) k \<Longrightarrow> k < LENGTH('a)"
  by (auto simp: low_bit_def dest: bit_imp_le_length)

lemma deBruijn64_all:
  "list_all (\<lambda>k. unat (deBruijn64tab ! unat (drop_bit 58 (push_bit k 1 * deBruijn64))) = k) [0..<64]"
  by code_simp

lemma deBruijn32_all:
  "list_all (\<lambda>k. unat (deBruijn32tab ! unat (drop_bit 27 (push_bit k 1 * deBruijn32))) = k) [0..<32]"
  by code_simp

lemma TrailingZeros64_low: "low_bit x k \<Longrightarrow> TrailingZeros64 x = k"
  using deBruijn64_all low_bit_length [of x k] isolate_low_bit [of x k]
  by (auto simp: TrailingZeros64_def list_all_iff low_bit_def)

lemma TrailingZeros32_low: "low_bit x k \<Longrightarrow> TrailingZeros32 x = k"
  using deBruijn32_all low_bit_length [of x k] isolate_low_bit [of x k]
  by (auto simp: TrailingZeros32_def list_all_iff low_bit_def)

lemma TrailingZeros16_low: "low_bit x k \<Longrightarrow> TrailingZeros16 x = k"
proof -
  assume l: "low_bit x k"
  have "k < 16" using low_bit_length [OF l] by simp
  moreover from this have "(ucast (push_bit k 1 :: uint16) :: uint32) = push_bit k 1"
    by (intro bit_eqI) (auto simp: bit_unsigned_iff bit_exp_iff)
  ultimately show ?thesis
    using l deBruijn32_all isolate_low_bit [OF l] by (auto simp: TrailingZeros16_def list_all_iff low_bit_def)
qed

lemma low_bit_unique: "low_bit x k \<Longrightarrow> low_bit x j \<Longrightarrow> k = j"
  unfolding low_bit_def by (metis linorder_neqE_nat)

lemma low_bit_uint:
  assumes "uint x mod 2 ^ k = 0" "uint x div 2 ^ k mod 2 = 1"
  shows "low_bit x k"
proof -
  have k: "bit (uint x) k" using assms(2) by (simp add: bit_iff_odd odd_iff_mod_2_eq_one)
  moreover have "\<not> bit (uint x) j" if "j < k" for j
    using assms(1) bit_take_bit_iff [of k "uint x" j] that by (simp add: take_bit_eq_mod)
  ultimately show ?thesis by (auto simp: low_bit_def bit_uint_iff)
qed

lemma TrailingZeros8_low: "low_bit x k \<Longrightarrow> TrailingZeros8 x = k"
proof -
  assume l: "low_bit x k"
  define v where "v = unat (ntz8tab ! unat x)"
  have u: "uint (ntz8tab ! unat x) = int v" by (simp add: v_def)
  have lt: "unat x < 256" using unsigned_less [of x, where ?'a = nat] by simp
  have "x \<noteq> 0" using l by (auto simp: low_bit_def)
  then have "low_bit x v"
    using tab_allD [OF ntz8tab_all lt] unfolding u by (intro low_bit_uint) (simp_all add: uint_0_iff)
  then show ?thesis using low_bit_unique [OF l] by (simp add: TrailingZeros8_def v_def)
qed

end
