(* ===== verification/Math_Bits_Order.thy ===== *)
theory Math_Bits_Order
  imports Math_Bits_Laws
begin

unbundle bit_operations_syntax

section \<open>Rotations and reversals of words\<close>

text \<open>
  The rotations are the library's \<^const>\<open>word_rotl\<close>, the reversals are permutations of the bits,
  each stage of which exchanges neighbouring fields.
\<close>

subsection \<open>Rotation and reversal\<close>

lemma rot_amount: "rot_amount (2 ^ j) k = nat (k mod 2 ^ j)"
proof -
  have "k AND (int (2 ^ j) - 1) = k mod 2 ^ j"
    by (simp add: take_bit_eq_mod flip: take_bit_eq_mask mask_eq_exp_minus_1)
  then show ?thesis by (simp only: rot_amount_def)
qed

lemma rotate_rotl:
  fixes x :: "'a::len word"
  assumes "s < LENGTH('a)"
  shows "push_bit s x OR drop_bit (LENGTH('a) - s) x = word_rotl s x"
proof (rule bit_word_eqI)
  fix n assume n: "n < LENGTH('a)"
  show "bit (push_bit s x OR drop_bit (LENGTH('a) - s) x) n = bit (word_rotl s x) n"
  proof (cases "s \<le> n")
    case True
    then have "n + (LENGTH('a) - s) = n - s + LENGTH('a)" using assms by simp
    then have "(n + (LENGTH('a) - s)) mod LENGTH('a) = n - s" using n by (simp only: mod_add_self2) simp
    then show ?thesis using True n assms by (auto simp: bit_simps dest: bit_imp_le_length)
  next
    case False
    then show ?thesis using n assms by (auto simp: bit_simps add.commute)
  qed
qed

lemma rotate_rotl_width:
  "s < 8 \<Longrightarrow> push_bit s x8 OR drop_bit (8 - s) x8 = word_rotl s (x8 :: uint8)"
  "s < 16 \<Longrightarrow> push_bit s x16 OR drop_bit (16 - s) x16 = word_rotl s (x16 :: uint16)"
  "s < 32 \<Longrightarrow> push_bit s x32 OR drop_bit (32 - s) x32 = word_rotl s (x32 :: uint32)"
  "s < 64 \<Longrightarrow> push_bit s x64 OR drop_bit (64 - s) x64 = word_rotl s (x64 :: uint64)"
  using rotate_rotl [of s x8] rotate_rotl [of s x16] rotate_rotl [of s x32] rotate_rotl [of s x64] by simp_all

lemma RotateLeft_rotl:
  "RotateLeft8 x8 k = word_rotl (nat (k mod 8)) x8" "RotateLeft16 x16 k = word_rotl (nat (k mod 16)) x16"
  "RotateLeft32 x32 k = word_rotl (nat (k mod 32)) x32" "RotateLeft64 x64 k = word_rotl (nat (k mod 64)) x64"
proof -
  have s: "nat (k mod 8) < 8" "nat (k mod 16) < 16" "nat (k mod 32) < 32" "nat (k mod 64) < 64" by (simp_all add: nat_less_iff)
  have r: "rot_amount 8 k = nat (k mod 8)" "rot_amount 16 k = nat (k mod 16)"
    "rot_amount 32 k = nat (k mod 32)" "rot_amount 64 k = nat (k mod 64)"
    using rot_amount [of 3 k] rot_amount [of 4 k] rot_amount [of 5 k] rot_amount [of 6 k] by simp_all
  show "RotateLeft8 x8 k = word_rotl (nat (k mod 8)) x8" "RotateLeft16 x16 k = word_rotl (nat (k mod 16)) x16"
    "RotateLeft32 x32 k = word_rotl (nat (k mod 32)) x32" "RotateLeft64 x64 k = word_rotl (nat (k mod 64)) x64"
    unfolding RotateLeft8_def RotateLeft16_def RotateLeft32_def RotateLeft64_def Let_def r
    by (rule rotate_rotl_width, rule s)+
qed

lemma rotl_undo: "word_rotl (nat (- k mod 64)) (word_rotl (nat (k mod 64)) x) = (x :: uint64)"
proof (cases "k mod 64 = 0")
  case True
  moreover have "word_rotl 0 x = x" for x :: uint64 by (rule bit_word_eqI) (simp add: bit_simps)
  ultimately show ?thesis by (simp add: zmod_zminus1_eq_if)
next
  case False
  define b where "b = nat (k mod 64)"
  have b: "0 < b" "b < 64" using False by (simp_all add: b_def nat_less_iff)
  have "nat (- k mod 64) = 64 - b" using False by (simp add: zmod_zminus1_eq_if b_def nat_diff_distrib)
  moreover have "word_rotl (64 - b) = (word_rotr b :: uint64 \<Rightarrow> _)"
    using b by (simp add: word_rotl_eq_word_rotr)
  ultimately show ?thesis by (simp add: b_def [symmetric])
qed

text \<open>A stage of the reversals exchanges neighbouring fields of \<open>s\<close> bits.\<close>

definition swap_index :: "nat \<Rightarrow> nat \<Rightarrow> nat" where
  "swap_index s n = (if even (n div s) then n + s else n - s)"

definition field_mask :: "nat \<Rightarrow> 'a::len word \<Rightarrow> bool" where
  "field_mask s m \<longleftrightarrow> (\<forall>n<LENGTH('a). bit m n = even (n div s))"

lemma swap_fields:
  assumes m: "field_mask s m" and n: "n < LENGTH('a)" and s: "0 < s"
  shows "bit ((drop_bit s x AND m) OR push_bit s (x AND m)) n = bit (x :: 'a::len word) (swap_index s n)"
proof (cases "s \<le> n")
  case True
  then have "(n - s) div s = n div s - 1" "0 < n div s"
    using s by (simp_all add: le_div_geq div_greater_zero_iff)
  moreover have "n - s < LENGTH('a)" using n by simp
  ultimately show ?thesis
    using m n True by (auto simp: bit_simps swap_index_def field_mask_def add.commute)
next
  case False
  then show ?thesis using m n by (auto simp: bit_simps swap_index_def field_mask_def add.commute)
qed

lemma swap_halves:
  assumes "n < LENGTH('a)" "LENGTH('a) = 2 * s"
  shows "bit (drop_bit s x OR push_bit s x) n = bit (x :: 'a::len word) (swap_index s n)"
proof (cases "s \<le> n")
  case True
  then have "n div s = 1" using assms by (intro div_nat_eqI) auto
  then show ?thesis using True assms by (auto simp: bit_simps swap_index_def dest: bit_imp_le_length)
next
  case False
  then show ?thesis using assms by (auto simp: bit_simps swap_index_def add.commute)
qed

lemma field_mask_eval: "field_mask s (m :: 'a::len word) \<longleftrightarrow> list_all (\<lambda>n. bit m n = even (n div s)) [0..<LENGTH('a)]"
  by (auto simp: field_mask_def list_all_iff)

lemma field_masks:
  "field_mask 1 m0" "field_mask 2 m1" "field_mask 4 m2" "field_mask 8 m3" "field_mask 16 m4"
  unfolding field_mask_eval by code_simp+

lemma field_masks32:
  "field_mask 1 (ucast m0 :: uint32)" "field_mask 2 (ucast m1 :: uint32)" "field_mask 4 (ucast m2 :: uint32)"
  "field_mask 8 (ucast m3 :: uint32)"
  unfolding field_mask_eval by code_simp+

lemma swap_indices_64:
  "list_all (\<lambda>n. swap_index 32 n < 64 \<and> 8 * (7 - n div 8) + n mod 8 < 64 \<and> swap_index 16 (swap_index 32 n) < 64 \<and>
     swap_index 8 (swap_index 16 (swap_index 32 n)) = 8 * (7 - n div 8) + n mod 8 \<and>
     swap_index 4 (8 * (7 - n div 8) + n mod 8) < 64 \<and> swap_index 2 (swap_index 4 (8 * (7 - n div 8) + n mod 8)) < 64 \<and>
     swap_index 1 (swap_index 2 (swap_index 4 (8 * (7 - n div 8) + n mod 8))) = 63 - n) [0..<64]"
  by code_simp

lemma swap_indices_32:
  "list_all (\<lambda>n. swap_index 16 n < 32 \<and> 8 * (3 - n div 8) + n mod 8 < 32 \<and> swap_index 8 (swap_index 16 n) = 8 * (3 - n div 8) + n mod 8 \<and>
     swap_index 4 (8 * (3 - n div 8) + n mod 8) < 32 \<and> swap_index 2 (swap_index 4 (8 * (3 - n div 8) + n mod 8)) < 32 \<and>
     swap_index 1 (swap_index 2 (swap_index 4 (8 * (3 - n div 8) + n mod 8))) = 31 - n) [0..<32]"
  by code_simp

lemma swap_fields64:
  fixes x :: uint64
  assumes "n < 64"
  shows "bit ((drop_bit 1 x AND m0) OR push_bit 1 (x AND m0)) n = bit x (swap_index 1 n)"
    "bit ((drop_bit 2 x AND m1) OR push_bit 2 (x AND m1)) n = bit x (swap_index 2 n)"
    "bit ((drop_bit 4 x AND m2) OR push_bit 4 (x AND m2)) n = bit x (swap_index 4 n)"
    "bit ((drop_bit 8 x AND m3) OR push_bit 8 (x AND m3)) n = bit x (swap_index 8 n)"
    "bit ((drop_bit 16 x AND m4) OR push_bit 16 (x AND m4)) n = bit x (swap_index 16 n)"
    "bit (drop_bit 32 x OR push_bit 32 x) n = bit x (swap_index 32 n)"
proof -
  have n: "n < LENGTH(64)" "LENGTH(64) = 2 * 32" using assms by simp_all
  show "bit ((drop_bit 1 x AND m0) OR push_bit 1 (x AND m0)) n = bit x (swap_index 1 n)"
    "bit ((drop_bit 2 x AND m1) OR push_bit 2 (x AND m1)) n = bit x (swap_index 2 n)"
    "bit ((drop_bit 4 x AND m2) OR push_bit 4 (x AND m2)) n = bit x (swap_index 4 n)"
    "bit ((drop_bit 8 x AND m3) OR push_bit 8 (x AND m3)) n = bit x (swap_index 8 n)"
    "bit ((drop_bit 16 x AND m4) OR push_bit 16 (x AND m4)) n = bit x (swap_index 16 n)"
    "bit (drop_bit 32 x OR push_bit 32 x) n = bit x (swap_index 32 n)"
    by (rule swap_fields swap_halves field_masks n zero_less_one zero_less_numeral)+
qed

lemma swap_fields32:
  fixes x :: uint32
  assumes "n < 32"
  shows "bit ((drop_bit 1 x AND ucast m0) OR push_bit 1 (x AND ucast m0)) n = bit x (swap_index 1 n)"
    "bit ((drop_bit 2 x AND ucast m1) OR push_bit 2 (x AND ucast m1)) n = bit x (swap_index 2 n)"
    "bit ((drop_bit 4 x AND ucast m2) OR push_bit 4 (x AND ucast m2)) n = bit x (swap_index 4 n)"
    "bit ((drop_bit 8 x AND ucast m3) OR push_bit 8 (x AND ucast m3)) n = bit x (swap_index 8 n)"
    "bit (drop_bit 16 x OR push_bit 16 x) n = bit x (swap_index 16 n)"
proof -
  have n: "n < LENGTH(32)" "LENGTH(32) = 2 * 16" using assms by simp_all
  show "bit ((drop_bit 1 x AND ucast m0) OR push_bit 1 (x AND ucast m0)) n = bit x (swap_index 1 n)"
    "bit ((drop_bit 2 x AND ucast m1) OR push_bit 2 (x AND ucast m1)) n = bit x (swap_index 2 n)"
    "bit ((drop_bit 4 x AND ucast m2) OR push_bit 4 (x AND ucast m2)) n = bit x (swap_index 4 n)"
    "bit ((drop_bit 8 x AND ucast m3) OR push_bit 8 (x AND ucast m3)) n = bit x (swap_index 8 n)"
    "bit (drop_bit 16 x OR push_bit 16 x) n = bit x (swap_index 16 n)"
    by (rule swap_fields swap_halves field_masks32 n zero_less_one zero_less_numeral)+
qed

lemma ReverseBytes64_bit:
  assumes "n < 64"
  shows "bit (ReverseBytes64 x) n = bit x (8 * (7 - n div 8) + n mod 8)"
proof -
  have i: "swap_index 32 n < 64" "swap_index 16 (swap_index 32 n) < 64"
    "swap_index 8 (swap_index 16 (swap_index 32 n)) = 8 * (7 - n div 8) + n mod 8"
    using swap_indices_64 assms unfolding list_all_length by simp_all
  show ?thesis
    unfolding ReverseBytes64_def Let_def swap_fields64(6) [OF assms] swap_fields64(5) [OF i(1)] swap_fields64(4) [OF i(2)] i(3) ..
qed

lemma ReverseBytes32_bit:
  assumes "n < 32"
  shows "bit (ReverseBytes32 x) n = bit x (8 * (3 - n div 8) + n mod 8)"
proof -
  have i: "swap_index 16 n < 32" "swap_index 8 (swap_index 16 n) = 8 * (3 - n div 8) + n mod 8"
    using swap_indices_32 assms unfolding list_all_length by simp_all
  show ?thesis
    unfolding ReverseBytes32_def Let_def swap_fields32(5) [OF assms] swap_fields32(4) [OF i(1)] i(2) ..
qed

lemma Reverse64_bit:
  assumes "n < 64"
  shows "bit (Reverse64 x) n = bit x (63 - n)"
proof -
  let ?n = "8 * (7 - n div 8) + n mod 8"
  have i: "?n < 64" "swap_index 4 ?n < 64" "swap_index 2 (swap_index 4 ?n) < 64"
    "swap_index 1 (swap_index 2 (swap_index 4 ?n)) = 63 - n"
    using swap_indices_64 assms unfolding list_all_length by simp_all
  show ?thesis
    unfolding Reverse64_def Let_def ReverseBytes64_bit [OF assms] swap_fields64(3) [OF i(1)] swap_fields64(2) [OF i(2)]
      swap_fields64(1) [OF i(3)] i(4) ..
qed

lemma Reverse32_bit:
  assumes "n < 32"
  shows "bit (Reverse32 x) n = bit x (31 - n)"
proof -
  let ?n = "8 * (3 - n div 8) + n mod 8"
  have i: "?n < 32" "swap_index 4 ?n < 32" "swap_index 2 (swap_index 4 ?n) < 32"
    "swap_index 1 (swap_index 2 (swap_index 4 ?n)) = 31 - n"
    using swap_indices_32 assms unfolding list_all_length by simp_all
  show ?thesis
    unfolding Reverse32_def Let_def ReverseBytes32_bit [OF assms] swap_fields32(3) [OF i(1)] swap_fields32(2) [OF i(2)]
      swap_fields32(1) [OF i(3)] i(4) ..
qed

lemma swap_indices_16: "list_all (\<lambda>n. swap_index 8 n = 8 * (1 - n div 8) + n mod 8) [0..<16]"
  by code_simp

lemma ReverseBytes16_bit:
  assumes "n < 16"
  shows "bit (ReverseBytes16 x) n = bit x (8 * (1 - n div 8) + n mod 8)"
proof -
  have "n < LENGTH(16)" "LENGTH(16) = 2 * 8" using assms by simp_all
  moreover have "swap_index 8 n = 8 * (1 - n div 8) + n mod 8"
    using swap_indices_16 assms unfolding list_all_iff by auto
  ultimately show ?thesis using swap_halves [of n 8 x] by (simp only: ReverseBytes16_def)
qed

lemma Reverse8_bit:
  assumes "n < 8"
  shows "bit (Reverse8 x) n = bit x (7 - n)"
proof -
  have "unat x < 256" using unsigned_less [of x, where ?'a = nat] by simp
  from tab_allD [OF rev8tab_all this] have "bit (uint (rev8tab ! unat x)) n = bit (uint x) (7 - n)"
    using assms unfolding list_all_length by simp
  then show ?thesis using assms by (auto simp: Reverse8_def bit_uint_iff)
qed

lemma Reverse16_bit:
  assumes "n < 16"
  shows "bit (Reverse16 x) n = bit x (15 - n)"
proof -
  have d: "rev8tab ! unat (drop_bit 8 x) = Reverse8 (ucast (drop_bit 8 x))" "rev8tab ! unat (x AND 0xff) = Reverse8 (ucast x)"
  proof -
    have "unat x < 65536" using unsigned_less [of x, where ?'a = nat] by simp
    then have "unat (drop_bit 8 x) < 256" by (simp add: unat_drop_bit)
    then show "rev8tab ! unat (drop_bit 8 x) = Reverse8 (ucast (drop_bit 8 x))"
      by (simp add: Reverse8_def unsigned_ucast_eq take_bit_nat_eq_self)
    have "unat (x AND 0xff) = take_bit 8 (unat x)" by (simp add: unsigned_and_eq take_bit_eq_mask mask_eq_exp_minus_1)
    then show "rev8tab ! unat (x AND 0xff) = Reverse8 (ucast x)" by (simp add: Reverse8_def unsigned_ucast_eq)
  qed
  show ?thesis
  proof (cases "n < 8")
    case True
    then show ?thesis using Reverse8_bit [of n "ucast (drop_bit 8 x)"]
      by (auto simp add: Reverse16_def d bit_simps)
  next
    case False
    then have "n - 8 < 8" "7 - (n - 8) = 15 - n" using assms by auto
    then show ?thesis using Reverse8_bit [of "n - 8" "ucast x"] False assms
      by (auto simp add: Reverse16_def d bit_simps dest: bit_imp_le_length)
  qed
qed

end
