(* ===== verification/Math_Bits_Arith.thy ===== *)
theory Math_Bits_Arith
  imports Math_Bits_Laws
begin

unbundle bit_operations_syntax

section \<open>Arithmetic on two words\<close>

text \<open>
  The sums, differences, products and quotients of math/bits represent numbers of twice the width
  as a pair of words. \<open>Div64\<close> is Knuth's algorithm D for two digits of 32 bits; the lemma
  \<open>adjust_quotient\<close> shows that the correction loop ends in the exact digit.
\<close>

subsection \<open>Carries\<close>

lemma drop_top_bit: "drop_bit (LENGTH('a) - 1) (x :: 'a::len word) = of_bool (bit x (LENGTH('a) - 1))"
proof (rule bit_word_eqI)
  fix n assume "n < LENGTH('a)"
  show "bit (drop_bit (LENGTH('a) - 1) x) n = bit (of_bool (bit x (LENGTH('a) - 1)) :: 'a word) n"
    by (cases n) (auto simp: bit_simps dest: bit_imp_le_length)
qed

lemma top_bit_iff: "bit (x :: 'a::len word) (LENGTH('a) - 1) \<longleftrightarrow> 2 ^ (LENGTH('a) - 1) \<le> unat x"
proof -
  have "unat x div 2 ^ (LENGTH('a) - 1) = of_bool (bit x (LENGTH('a) - 1))"
    using arg_cong [OF drop_top_bit [of x], of unat] unfolding unat_drop_bit by simp
  then show ?thesis by (metis div_eq_0_iff not_less of_bool_eq_0_iff power_not_zero zero_neq_numeral)
qed

lemmas top64 = drop_top_bit [where 'a = 64, simplified] top_bit_iff [where 'a = 64, simplified]
lemmas top32 = drop_top_bit [where 'a = 32, simplified] top_bit_iff [where 'a = 32, simplified]

lemma u64: "unat (x :: uint64) < 2 ^ 64"
  using unsigned_less [of x, where ?'a = nat] by simp

lemma u32: "unat (x :: uint32) < 2 ^ 32"
  using unsigned_less [of x, where ?'a = nat] by simp

lemma unat_ucast64: "unat (ucast (x :: uint32) :: uint64) = unat x"
  using u32 [of x] by (simp add: unsigned_ucast_eq take_bit_nat_eq_self)

lemma unat_ucast32: "unat (ucast (x :: uint64) :: uint32) = unat x mod 2 ^ 32"
  by (simp add: unsigned_ucast_eq take_bit_eq_mod)

lemma Add64_exact:
  assumes "carry \<le> 1" "Add64 x y carry = (s, carryOut)"
  shows "unat s + 2 ^ 64 * unat carryOut = unat x + unat y + unat carry" "carryOut \<le> 1"
proof -
  have c: "unat carry \<le> 1" using assms(1) by (simp add: word_le_nat_alt)
  have s: "s = x + y + carry" using assms(2) by (simp add: Add64_def Let_def)
  let ?S = "unat x + unat y + unat carry"
  have "unat s = ?S mod 2 ^ 64" unfolding s by (simp add: unat_word_ariths mod_simps)
  then have us: "unat s = (if ?S < 2 ^ 64 then ?S else ?S - 2 ^ 64)"
    using u64 [of x] u64 [of y] c by (simp add: mod_if)
  have co: "carryOut = of_bool (bit x 63 \<and> bit y 63 \<or> (bit x 63 \<or> bit y 63) \<and> \<not> bit s 63)"
  proof -
    let ?e = "(x AND y) OR ((x OR y) AND NOT s)"
    have "carryOut = drop_bit 63 ?e" using assms(2) s by (auto simp: Add64_def Let_def)
    also have "\<dots> = of_bool (bit ?e 63)" by (rule top64(1))
    finally show ?thesis by (simp add: bit_simps)
  qed
  show "unat s + 2 ^ 64 * unat carryOut = ?S"
    unfolding co top64(2) using us u64 [of x] u64 [of y] c by (auto split: if_splits)
  show "carryOut \<le> 1" unfolding co by simp
qed

lemma Sub64_exact:
  assumes "borrow \<le> 1" "Sub64 x y borrow = (d, borrowOut)"
  shows "unat d + unat y + unat borrow = unat x + 2 ^ 64 * unat borrowOut" "borrowOut \<le> 1"
proof -
  have c: "unat borrow \<le> 1" using assms(1) by (simp add: word_le_nat_alt)
  have d: "d = x - y - borrow" using assms(2) by (simp add: Sub64_def Let_def)
  have "x = d + y + borrow" by (simp add: d)
  then have "unat x = (unat d + unat y + unat borrow) mod 2 ^ 64" by (simp add: unat_word_ariths mod_simps)
  then have ux: "unat x = (if unat d + unat y + unat borrow < 2 ^ 64 then unat d + unat y + unat borrow
      else unat d + unat y + unat borrow - 2 ^ 64)"
    using u64 [of d] u64 [of y] c by (simp add: mod_if)
  have co: "borrowOut = of_bool (\<not> bit x 63 \<and> bit y 63 \<or> (bit x 63 \<longleftrightarrow> bit y 63) \<and> bit d 63)"
  proof -
    let ?e = "(NOT x AND y) OR (NOT (x XOR y) AND d)"
    have "borrowOut = drop_bit 63 ?e" using assms(2) d by (auto simp: Sub64_def Let_def)
    also have "\<dots> = of_bool (bit ?e 63)" by (rule top64(1))
    finally show ?thesis by (auto simp: bit_simps)
  qed
  show "unat d + unat y + unat borrow = unat x + 2 ^ 64 * unat borrowOut"
    unfolding co top64(2) using ux u64 [of d] u64 [of y] c by (auto split: if_splits)
  show "borrowOut \<le> 1" unfolding co by simp
qed

lemma Sub32_exact:
  assumes "borrow \<le> 1" "Sub32 x y borrow = (d, borrowOut)"
  shows "unat d + unat y + unat borrow = unat x + 2 ^ 32 * unat borrowOut" "borrowOut \<le> 1"
proof -
  have c: "unat borrow \<le> 1" using assms(1) by (simp add: word_le_nat_alt)
  have d: "d = x - y - borrow" using assms(2) by (simp add: Sub32_def Let_def)
  have "x = d + y + borrow" by (simp add: d)
  then have "unat x = (unat d + unat y + unat borrow) mod 2 ^ 32" by (simp add: unat_word_ariths mod_simps)
  then have ux: "unat x = (if unat d + unat y + unat borrow < 2 ^ 32 then unat d + unat y + unat borrow
      else unat d + unat y + unat borrow - 2 ^ 32)"
    using u32 [of d] u32 [of y] c by (simp add: mod_if)
  have co: "borrowOut = of_bool (\<not> bit x 31 \<and> bit y 31 \<or> (bit x 31 \<longleftrightarrow> bit y 31) \<and> bit d 31)"
  proof -
    let ?e = "(NOT x AND y) OR (NOT (x XOR y) AND d)"
    have "borrowOut = drop_bit 31 ?e" using assms(2) d by (auto simp: Sub32_def Let_def)
    also have "\<dots> = of_bool (bit ?e 31)" by (rule top32(1))
    finally show ?thesis by (auto simp: bit_simps)
  qed
  show "unat d + unat y + unat borrow = unat x + 2 ^ 32 * unat borrowOut"
    unfolding co top32(2) using ux u32 [of d] u32 [of y] c by (auto split: if_splits)
  show "borrowOut \<le> 1" unfolding co by simp
qed

lemma Add32_exact:
  assumes "carry \<le> 1" "Add32 x y carry = (s, carryOut)"
  shows "unat s + 2 ^ 32 * unat carryOut = unat x + unat y + unat carry" "carryOut \<le> 1"
proof -
  have c: "unat carry \<le> 1" using assms(1) by (simp add: word_le_nat_alt)
  let ?S = "unat x + unat y + unat carry"
  let ?w = "(ucast x :: uint64) + ucast y + ucast carry"
  have w: "unat ?w = ?S" using u32 [of x] u32 [of y] c by (simp add: unat_word_ariths unat_ucast64)
  have "unat s = ?S mod 2 ^ 32" "unat carryOut = ?S div 2 ^ 32 mod 2 ^ 32"
    using assms(2) w by (auto simp: Add32_def Let_def unat_ucast32 unat_drop_bit)
  moreover have "?S div 2 ^ 32 \<le> 1" using u32 [of x] u32 [of y] c by simp
  ultimately show "unat s + 2 ^ 32 * unat carryOut = ?S" "carryOut \<le> 1"
    by (simp_all add: word_le_nat_alt)
qed

subsection \<open>Products\<close>

lemma unat_and_mask32: "unat (x AND mask32 :: uint64) = unat x mod 2 ^ 32"
proof -
  have "unat x AND (2 ^ 32 - 1) = unat x mod 2 ^ 32"
    by (simp only: take_bit_eq_mod flip: take_bit_eq_mask mask_eq_exp_minus_1)
  then show ?thesis by (simp add: unsigned_and_eq)
qed

lemma unat_mult_small: "unat x * unat y < 2 ^ 64 \<Longrightarrow> unat (x * y :: uint64) = unat x * unat y"
  by (simp add: unat_word_ariths)

lemma unat_add_small: "unat x + unat y < 2 ^ 64 \<Longrightarrow> unat (x + y :: uint64) = unat x + unat y"
  by (simp add: unat_word_ariths)

lemma mult_digits: "(a :: nat) < 2 ^ 32 \<Longrightarrow> b < 2 ^ 32 \<Longrightarrow> a * b \<le> (2 ^ 32 - 1) * (2 ^ 32 - 1)"
  by (rule mult_le_mono) simp_all

lemma digits_less:
  assumes "m < B" "r < (B :: nat)"
  shows "B * m + r < B * B"
proof -
  have "B * m + r < B * Suc m" using assms(2) by simp
  also have "\<dots> \<le> B * B" using assms(1) by (intro mult_le_mono2) simp
  finally show ?thesis .
qed

lemma Mul64_exact:
  assumes "Mul64 x y = (hi, lo)"
  shows "unat hi * 2 ^ 64 + unat lo = unat x * unat y"
proof -
  define B :: nat where "B = 2 ^ 32"
  define x0 x1 y0 y1 where "x0 = unat x mod B" and "x1 = unat x div B" and "y0 = unat y mod B" and "y1 = unat y div B"
  have b: "x0 < B" "x1 < B" "y0 < B" "y1 < B"
    using u64 [of x] u64 [of y] by (auto simp: x0_def x1_def y0_def y1_def B_def less_mult_imp_div_less)
  have xy: "unat x = x1 * B + x0" "unat y = y1 * B + y0" by (simp_all add: x0_def x1_def y0_def y1_def)
  have max: "x0 * y0 \<le> (B - 1) * (B - 1)" "x1 * y0 \<le> (B - 1) * (B - 1)" "x0 * y1 \<le> (B - 1) * (B - 1)" "x1 * y1 \<le> (B - 1) * (B - 1)"
    using b mult_digits unfolding B_def by auto
  define t where "t = x1 * y0 + x0 * y0 div B"
  define w where "w = t mod B + x0 * y1"
  have d: "x0 * y0 div B < B" using max(1) by (simp add: B_def less_mult_imp_div_less)
  have t: "t < B * B" using max(2) d by (simp add: t_def B_def)
  have w: "w < B * B" using max(3) mod_less_divisor [of B t] by (simp add: w_def B_def)
  have "t div B < B" "w div B < B" using t w by (simp_all add: less_mult_imp_div_less)
  then have h: "x1 * y1 + t div B + w div B < B * B" using max(4) by (simp add: B_def)
  have hi: "unat hi = x1 * y1 + t div B + w div B"
  proof -
    let ?x0 = "x AND mask32" and ?x1 = "drop_bit 32 x" and ?y0 = "y AND mask32" and ?y1 = "drop_bit 32 y"
    let ?t = "?x1 * ?y0 + drop_bit 32 (?x0 * ?y0)"
    let ?w = "(?t AND mask32) + ?x0 * ?y1"
    note u = unat_mult_small unat_add_small unat_drop_bit unat_and_mask32
    have d: "unat ?x0 = x0" "unat ?x1 = x1" "unat ?y0 = y0" "unat ?y1 = y1"
      by (simp_all only: u x0_def x1_def y0_def y1_def B_def)
    have BB: "2 ^ 64 = B * B" "2 ^ 32 = B" by (simp_all add: B_def)
    have m: "unat (?x0 * ?y0) = x0 * y0" "unat (?x1 * ?y0) = x1 * y0" "unat (?x0 * ?y1) = x0 * y1" "unat (?x1 * ?y1) = x1 * y1"
      using max by (auto simp: unat_mult_small d B_def)
    have t': "unat ?t = t" using t by (subst unat_add_small) (simp_all only: m unat_drop_bit t_def BB)
    have w': "unat ?w = w" using w by (subst unat_add_small) (simp_all only: m unat_and_mask32 t' w_def BB)
    have "x1 * y1 + t div B < B * B" using h by linarith
    then have "unat (?x1 * ?y1 + drop_bit 32 ?t) = x1 * y1 + t div B"
      by (subst unat_add_small) (simp_all only: m unat_drop_bit t' BB)
    then have "unat (?x1 * ?y1 + drop_bit 32 ?t + drop_bit 32 ?w) = x1 * y1 + t div B + w div B"
      using h by (subst unat_add_small) (simp_all only: unat_drop_bit w' BB)
    moreover have "hi = ?x1 * ?y1 + drop_bit 32 ?t + drop_bit 32 ?w" using assms by (simp only: Mul64_def Let_def prod.inject)
    ultimately show ?thesis by simp
  qed
  have prod: "unat x * unat y = B * B * (x1 * y1 + t div B + w div B) + B * (w mod B) + x0 * y0 mod B"
  proof -
    have "unat x * unat y = B * B * (x1 * y1) + B * (x1 * y0 + x0 * y1) + x0 * y0" unfolding xy by (simp add: algebra_simps)
    also have "\<dots> = B * B * (x1 * y1) + B * (t + x0 * y1) + x0 * y0 mod B"
      using mult_div_mod_eq [of B "x0 * y0"] by (simp add: t_def algebra_simps)
    also have "\<dots> = B * B * (x1 * y1 + t div B) + B * w + x0 * y0 mod B"
      using mult_div_mod_eq [of B t] unfolding w_def by (metis (no_types, lifting) add.assoc add_mult_distrib2 mult.assoc)
    also have "\<dots> = B * B * (x1 * y1 + t div B + w div B) + B * (w mod B) + x0 * y0 mod B"
      using mult_div_mod_eq [of B w] by (metis (no_types, lifting) add.assoc add_mult_distrib2 mult.assoc)
    finally show ?thesis .
  qed
  have "w mod B < B" "x0 * y0 mod B < B" by (simp_all add: B_def)
  then have "B * (w mod B) + x0 * y0 mod B < B * B" by (rule digits_less)
  then have "unat x * unat y mod (B * B) = B * (w mod B) + x0 * y0 mod B" unfolding prod by (simp only: add.assoc mod_mult_self4) simp
  moreover have "unat lo = unat x * unat y mod (B * B)" using assms by (auto simp: Mul64_def Let_def unat_word_ariths B_def)
  ultimately show ?thesis unfolding hi prod by (simp add: B_def)
qed

lemma Mul32_exact:
  assumes "Mul32 x y = (hi, lo)"
  shows "unat hi * 2 ^ 32 + unat lo = unat x * unat y"
proof -
  have "unat x * unat y < 2 ^ 64" using mult_digits [OF u32 [of x] u32 [of y]] by simp
  then have w: "unat (ucast x * ucast y :: uint64) = unat x * unat y" by (simp add: unat_mult_small unat_ucast64)
  have "unat x * unat y div 2 ^ 32 < 2 ^ 32" using \<open>unat x * unat y < 2 ^ 64\<close> by simp
  then have "unat hi = unat x * unat y div 2 ^ 32" "unat lo = unat x * unat y mod 2 ^ 32"
    using assms w by (auto simp: Mul32_def Let_def unat_ucast32 unat_drop_bit)
  then show ?thesis by simp
qed

subsection \<open>Quotients\<close>

text \<open>
  One digit of the quotient: \<open>u * B + un\<close> divided by the normalised divisor \<open>yn1 * B + yn0\<close>, from
  an estimate that is not too small. The loop's test is exact: it holds as long as the estimate
  exceeds the digit, and when the partial remainder leaves 32 bits the estimate cannot exceed it.
\<close>

lemma quotient_digit:
  assumes "u < y" "n < (B :: nat)"
  shows "(u * B + n) div y < B"
proof -
  have "u * B + n < Suc u * B" using assms(2) by simp
  also have "\<dots> \<le> y * B" using assms(1) by (intro mult_le_mono1) simp
  finally show ?thesis by (simp add: less_mult_imp_div_less mult.commute)
qed

lemma quotient_test:
  assumes "q * a + r = u" "0 < a * B + (c :: nat)"
  shows "B * r + n < q * c \<longleftrightarrow> (u * B + n) div (a * B + c) < q"
proof -
  have "B * r + n < q * c \<longleftrightarrow> u * B + n < q * (a * B + c)"
    unfolding assms(1) [symmetric] by (simp add: algebra_simps)
  then show ?thesis using assms(2) by (simp add: div_less_iff_less_mult)
qed

lemma quotient_break:
  assumes u: "q * a + r = u" "u < a * B + c" and "B \<le> r" "c < (B :: nat)"
  shows "q \<le> (u * B + n) div (a * B + c)"
proof -
  have "q < B"
  proof (rule ccontr)
    assume "\<not> q < B"
    then have "B * a + B \<le> u" unfolding u(1) [symmetric] using assms(3) by (intro add_mono mult_le_mono1) simp_all
    then show False using u(2) assms(4) by (simp add: mult.commute)
  qed
  then have "q * c \<le> B * B" using assms(4) by (intro mult_le_mono) simp_all
  also have "\<dots> \<le> r * B" using assms(3) by simp
  finally have "q * (a * B + c) \<le> u * B + n" unfolding u(1) [symmetric] by (simp add: algebra_simps)
  moreover have "0 < a * B + c" using u(2) by linarith
  ultimately show ?thesis by (simp add: less_eq_div_iff_mult_less_eq del: add_gr_0)
qed

abbreviation B32 :: nat where "B32 \<equiv> 2 ^ 32"

lemma two32_nat: "2 ^ 64 = B32 * B32" "unat two32 = B32" "x \<ge> two32 \<longleftrightarrow> B32 \<le> unat x"
  by (simp_all add: word_le_nat_alt)

lemma unat_shift_add:
  assumes "unat r < B32" "unat n < B32"
  shows "unat (two32 * r + n) = B32 * unat r + unat n"
proof -
  have 1: "B32 * unat r + unat n < B32 * B32" using assms by (rule digits_less)
  then have "unat (two32 * r) = B32 * unat r" by (subst unat_mult_small) (simp_all add: two32_nat)
  then show ?thesis using 1 by (subst unat_add_small) (simp_all add: two32_nat)
qed

lemma adjust_test:
  assumes "unat q * unat yn1 + unat rhat = u" "unat rhat < B32" "u < unat yn1 * B32 + unat yn0" "unat yn0 < B32" "unat un < B32"
  shows "(q \<ge> two32 \<or> q * yn0 > two32 * rhat + un) \<longleftrightarrow> (u * B32 + unat un) div (unat yn1 * B32 + unat yn0) < unat q"
proof (cases "q \<ge> two32")
  case True
  then show ?thesis using quotient_digit [OF assms(3,5)] by (simp add: two32_nat)
next
  case False
  then have "unat q * unat yn0 < B32 * B32" using assms(4) by (intro mult_strict_mono) (simp_all add: two32_nat)
  then have 1: "unat (q * yn0) = unat q * unat yn0" by (intro unat_mult_small) simp
  have "0 < unat yn1 * B32 + unat yn0" using assms(3) by linarith
  from quotient_test [OF assms(1) this, of "unat un"] show ?thesis
    using False 1 unat_shift_add [OF assms(2,5)] by (simp add: word_less_nat_alt)
qed

lemma adjust_quotient:
  assumes "unat q * unat yn1 + unat rhat = u" "Q \<le> unat q" "unat rhat < B32"
    and y: "u < unat yn1 * B32 + unat yn0" "unat yn0 < B32" "unat yn1 < B32" "unat un < B32"
    and Q: "Q = (u * B32 + unat un) div (unat yn1 * B32 + unat yn0)"
  shows "unat (fst (adjust yn1 yn0 un q rhat)) = Q"
  using assms(1-3)
proof (induction "unat q" arbitrary: q rhat rule: less_induct)
  case less
  note test = adjust_test [OF less.prems(1,3) y(1,2,4), folded Q]
  show ?case
  proof (cases "Q < unat q")
    case False
    then show ?thesis using less.prems(2) test by (subst adjust.simps) simp
  next
    case True
    then have "q \<noteq> 0" by auto
    then have q1: "unat (q - 1) = unat q - 1" "0 < unat q" using True by (simp_all add: unat_minus_one)
    have r1: "unat (rhat + yn1) = unat rhat + unat yn1"
      using less.prems(3) y(3) by (subst unat_add_small) simp_all
    have u: "unat (q - 1) * unat yn1 + unat (rhat + yn1) = u"
      unfolding q1 r1 less.prems(1) [symmetric] using q1(2) by (cases "unat q") (simp_all add: algebra_simps)
    have Qq: "Q \<le> unat (q - 1)" using True q1 by simp
    show ?thesis
    proof (cases "rhat + yn1 \<ge> two32")
      case big: True
      then have "unat (q - 1) \<le> Q" unfolding Q using quotient_break [OF u y(1) _ y(2)] by (simp add: two32_nat)
      then show ?thesis using test True big Qq by (subst adjust.simps) (simp add: Let_def)
    next
      case small: False
      then have "unat (fst (adjust yn1 yn0 un (q - 1) (rhat + yn1))) = Q"
        using less.hyps [of "q - 1" "rhat + yn1"] q1 u Qq by (simp add: two32_nat)
      then show ?thesis using test True small by (subst adjust.simps) (simp add: Let_def)
    qed
  qed
qed

text \<open>One step of the long division: the digit and the remainder it leaves, computed modulo \<open>2 ^ 64\<close>.\<close>

lemma division_step:
  fixes u y n :: uint64
  defines "yn1 \<equiv> drop_bit 32 y" and "yn0 \<equiv> y AND mask32" and "N \<equiv> unat u * B32 + unat n"
  defines "q \<equiv> fst (adjust yn1 yn0 n (u div yn1) (u - u div yn1 * yn1))"
  assumes "u < y" "2 ^ 63 \<le> unat y" "unat n < B32"
  shows "unat q = N div unat y" "unat (u * two32 + n - q * y) = N mod unat y"
proof -
  have d: "unat yn1 = unat y div B32" "unat yn0 = unat y mod B32" by (simp_all only: yn1_def yn0_def unat_drop_bit unat_and_mask32)
  have y: "unat yn1 * B32 + unat yn0 = unat y" by (simp add: d)
  have y1: "0 < unat yn1" "unat yn1 < B32" "unat yn0 < B32" using assms(6) u64 [of y] by (simp_all add: d less_mult_imp_div_less div_greater_zero_iff)
  have uy: "unat u < unat y" using assms(5) by (simp add: word_less_nat_alt)
  have q0: "unat (u div yn1) = unat u div unat yn1" by (rule unat_div)
  have r0: "u - u div yn1 * yn1 = u mod yn1" by (simp add: minus_div_mult_eq_mod)
  have e: "unat (u div yn1) * unat yn1 + unat (u mod yn1) = unat u" by (simp add: unat_div unat_mod)
  have "N < Suc (unat u) * B32" using assms(7) by (simp add: N_def)
  also have "\<dots> \<le> Suc (unat u div unat yn1) * unat yn1 * B32"
    using dividend_less_div_times [OF y1(1), of "unat u"] by (intro mult_le_mono1) simp
  also have "\<dots> \<le> Suc (unat u div unat yn1) * unat y" unfolding y [symmetric] by (simp add: algebra_simps)
  finally have le: "N div unat y \<le> unat (u div yn1)"
    unfolding q0 using less_mult_imp_div_less less_Suc_eq_le by blast
  show q: "unat q = N div unat y"
    unfolding q_def r0
  proof (rule adjust_quotient [OF e le])
    show "unat (u mod yn1) < B32" using y1 mod_less_divisor [OF y1(1), of "unat u"] by (simp add: unat_mod)
    show "unat u < unat yn1 * B32 + unat yn0" unfolding y by (rule uy)
    show "N div unat y = (unat u * B32 + unat n) div (unat yn1 * B32 + unat yn0)" unfolding y N_def ..
  qed (use y1 assms(7) in auto)
  have "of_nat N = of_nat (N div unat y) * of_nat (unat y) + (of_nat (N mod unat y) :: uint64)"
    by (metis div_mult_mod_eq of_nat_add of_nat_mult)
  moreover have "of_nat N = u * two32 + n" by (simp add: N_def)
  moreover have "of_nat (N div unat y) = q" unfolding q [symmetric] by simp
  ultimately have "u * two32 + n - q * y = of_nat (N mod unat y)" by simp
  moreover have "N mod unat y < 2 ^ 64" using u64 [of y] uy by (intro less_trans [OF mod_less_divisor u64 [of y]]) simp
  ultimately show "unat (u * two32 + n - q * y) = N mod unat y" by (simp add: unat_of_nat)
qed

lemma unat_push_bit: "unat (push_bit s (x :: uint64)) = unat x * 2 ^ s mod 2 ^ 64"
proof -
  have "unat (push_bit s x) = take_bit 64 (push_bit s (unat x))" by (simp add: unsigned_push_bit_eq)
  then show ?thesis by (simp only: push_bit_eq_mult take_bit_eq_mod)
qed

lemma LeadingZeros64_normalises:
  assumes "y \<noteq> 0"
  shows "LeadingZeros64 y < 64" "unat (push_bit (LeadingZeros64 y) y) = unat y * 2 ^ LeadingZeros64 y"
    "2 ^ 63 \<le> unat y * 2 ^ LeadingZeros64 y" "unat y * 2 ^ LeadingZeros64 y < 2 ^ 64"
proof -
  define k where "k = Len64 y"
  have "k = 0 \<Longrightarrow> unat y < 1" using Len_spec(4) [of y] by (simp add: bit_len_def k_def)
  then have k: "k \<le> 64" "unat y < 2 ^ k" "2 ^ k \<le> unat y * 2" "k \<noteq> 0"
    using Len_spec(4) [of y] assms by (auto simp: bit_len_def k_def unat_eq_0)
  have s: "LeadingZeros64 y = 64 - k" by (simp add: LeadingZeros64_def k_def)
  have p: "(2 :: nat) ^ k * 2 ^ (64 - k) = 2 ^ 64" using k(1) by (simp flip: power_add)
  show "LeadingZeros64 y < 64" using k(1,4) s by simp
  show lt: "unat y * 2 ^ LeadingZeros64 y < 2 ^ 64"
    unfolding s p [symmetric] using k(2) by simp
  have "2 ^ 64 \<le> unat y * 2 * 2 ^ LeadingZeros64 y" unfolding s p [symmetric] using k(3) by simp
  then show "2 ^ 63 \<le> unat y * 2 ^ LeadingZeros64 y" by simp
  show "unat (push_bit (LeadingZeros64 y) y) = unat y * 2 ^ LeadingZeros64 y" using lt by (simp add: unat_push_bit)
qed

text \<open>Shifting the dividend by the same amount: its upper and lower word.\<close>

lemma shift_dividend:
  assumes "s < 64" "unat hi * 2 ^ s < 2 ^ 64"
  shows "unat (push_bit s hi OR drop_bit (64 - s) lo) * 2 ^ 64 + unat (push_bit s lo :: uint64) =
    (unat hi * 2 ^ 64 + unat lo) * 2 ^ s"
proof -
  let ?d = "drop_bit (64 - s) lo"
  have p: "(2 :: nat) ^ (64 - s) * 2 ^ s = 2 ^ 64" using assms(1) by (simp flip: power_add)
  have disj: "\<not> bit (push_bit s hi) n \<or> \<not> bit ?d n" for n
    using assms(1) bit_imp_le_length [of lo "64 - s + n"] by (auto simp: bit_simps)
  have "unat hi < 2 ^ (64 - s)" using assms(2) unfolding p [symmetric] by simp
  then have "Suc (unat hi) * 2 ^ s \<le> 2 ^ 64" unfolding p [symmetric] by (intro mult_le_mono1) simp
  moreover have "unat lo div 2 ^ (64 - s) < 2 ^ s" using u64 [of lo] p by (simp add: less_mult_imp_div_less mult.commute)
  ultimately have "unat hi * 2 ^ s + unat lo div 2 ^ (64 - s) < 2 ^ 64" by simp
  then have "unat (push_bit s hi + ?d) = unat hi * 2 ^ s + unat lo div 2 ^ (64 - s)"
    using assms(2) by (subst unat_add_small) (simp_all add: unat_push_bit unat_drop_bit)
  then have U: "unat (push_bit s hi OR ?d) = unat hi * 2 ^ s + unat lo div 2 ^ (64 - s)"
    using disjunctive_add [of "push_bit s hi" ?d, OF disj] by simp
  have "unat lo * 2 ^ s div 2 ^ 64 = unat lo div 2 ^ (64 - s)" unfolding p [symmetric] by simp
  then have "unat lo * 2 ^ s = unat lo div 2 ^ (64 - s) * 2 ^ 64 + unat lo * 2 ^ s mod 2 ^ 64"
    by (metis div_mult_mod_eq)
  then show ?thesis unfolding U unat_push_bit by (simp add: algebra_simps)
qed

text \<open>The two digits together, after the common shift is undone.\<close>

lemma unshift_division:
  assumes N: "N * 2 ^ s = U * 2 ^ 64 + (L1 * B32 + L0)" and Y: "Y = y * 2 ^ s" "0 < y"
    and q1: "q1 = (U * B32 + L1) div Y" and U': "U' = (U * B32 + L1) mod Y"
    and q0: "q0 = (U' * B32 + L0) div Y" and R: "R = (U' * B32 + L0) mod Y"
  shows "N = (q1 * B32 + q0) * y + R div 2 ^ s \<and> R div 2 ^ s < (y :: nat)"
proof -
  have "N * 2 ^ s = (U * B32 + L1) * B32 + L0" unfolding N by simp
  also have "U * B32 + L1 = q1 * Y + U'" unfolding q1 U' by simp
  also have "(q1 * Y + U') * B32 + L0 = q1 * B32 * Y + (U' * B32 + L0)" by (simp add: algebra_simps)
  also have "U' * B32 + L0 = q0 * Y + R" unfolding q0 R by simp
  finally have eq: "N * 2 ^ s = (q1 * B32 + q0) * y * 2 ^ s + R" unfolding Y by (simp add: algebra_simps)
  then have "2 ^ s dvd R" by (metis dvd_add_right_iff dvd_triv_right)
  then have r: "R = R div 2 ^ s * 2 ^ s" by simp
  then have "N * 2 ^ s = ((q1 * B32 + q0) * y + R div 2 ^ s) * 2 ^ s" using eq by (metis add_mult_distrib)
  then have "N = (q1 * B32 + q0) * y + R div 2 ^ s" by simp
  moreover have "R < y * 2 ^ s" unfolding R Y(1) using Y(2) by simp
  ultimately show ?thesis by (simp add: less_mult_imp_div_less)
qed

lemma Div64_exact:
  assumes "y \<noteq> 0" "hi < y"
  shows "\<exists>q r. Div64 hi lo y = Ret (q, r) \<and> unat hi * 2 ^ 64 + unat lo = unat q * unat y + unat r \<and> r < y"
proof -
  define s where "s = LeadingZeros64 y"
  define Y where "Y = push_bit s y"
  define U where "U = push_bit s hi OR drop_bit (64 - s) lo"
  define L where "L = push_bit s lo"
  let ?n1 = "drop_bit 32 Y" and ?n0 = "Y AND mask32" and ?L1 = "drop_bit 32 L" and ?L0 = "L AND mask32"
  define q1 where "q1 = fst (adjust ?n1 ?n0 ?L1 (U div ?n1) (U - U div ?n1 * ?n1))"
  define U' where "U' = U * two32 + ?L1 - q1 * Y"
  define q0 where "q0 = fst (adjust ?n1 ?n0 ?L0 (U' div ?n1) (U' - U' div ?n1 * ?n1))"
  define R where "R = U' * two32 + ?L0 - q0 * Y"
  have ret: "Div64 hi lo y = Ret (q1 * two32 + q0, drop_bit s R)"
    using assms by (simp add: Div64_def Let_def s_def Y_def U_def L_def q1_def U'_def q0_def R_def case_prod_beta not_le)
  note n = LeadingZeros64_normalises [OF assms(1), folded s_def]
  have Y: "unat Y = unat y * 2 ^ s" "2 ^ 63 \<le> unat Y" using n by (simp_all add: Y_def)
  let ?N = "unat hi * 2 ^ 64 + unat lo"
  have "unat hi * 2 ^ s < unat Y" using assms(2) by (simp add: Y(1) word_less_nat_alt)
  then have UL: "unat U * 2 ^ 64 + unat L = ?N * 2 ^ s"
    unfolding U_def L_def using n(1) u64 [of Y] by (intro shift_dividend) simp_all
  have L: "unat L = unat ?L1 * B32 + unat ?L0" "unat ?L1 < B32" "unat ?L0 < B32"
    using u64 [of L] by (simp_all add: unat_drop_bit unat_and_mask32 less_mult_imp_div_less)
  have "?N < Suc (unat hi) * 2 ^ 64" using u64 [of lo] by simp
  also have "\<dots> \<le> unat y * 2 ^ 64" using assms(2) by (intro mult_le_mono1) (simp add: word_less_nat_alt)
  finally have "unat U * 2 ^ 64 + unat L < unat Y * 2 ^ 64" unfolding UL Y by (simp add: mult.commute)
  then have UY: "U < Y" unfolding word_less_nat_alt by simp
  note d1 = division_step [OF UY Y(2) L(2), folded q1_def, folded U'_def]
  have U'Y: "U' < Y" unfolding word_less_nat_alt d1 using Y(2) by simp
  note d0 = division_step [OF U'Y Y(2) L(3), folded q0_def, folded R_def]
  have "unat q1 < B32" "unat q0 < B32"
    using quotient_digit [OF _ L(2)] quotient_digit [OF _ L(3)] UY U'Y unfolding d1(1) d0(1) word_less_nat_alt by blast+
  then have q: "unat (q1 * two32 + q0) = unat q1 * B32 + unat q0" using unat_shift_add [of q1 q0] by (simp add: mult.commute)
  have "0 < unat y" using assms(1) by (simp add: unat_gt_0)
  from unshift_division [OF UL [symmetric, unfolded L(1)] Y(1) this d1 d0] show ?thesis
    unfolding ret q [symmetric] by (auto simp: unat_drop_bit word_less_nat_alt)
qed

end
