(* ===== verification/Math_Bits_Ones.thy ===== *)
theory Math_Bits_Ones
  imports Math_Bits_Arith
begin

unbundle bit_operations_syntax

section \<open>Counting ones\<close>

text \<open>
  \<open>OnesCount64\<close> adds neighbouring fields in parallel. The reference is the sum of the bits,
  \<open>fields 1 k\<close>; each stage of the code turns a sum of fields of \<open>w\<close> bits into the same sum of
  fields of \<open>2 * w\<close> bits (\<open>pair_sum\<close>).
\<close>

fun fields :: "nat \<Rightarrow> nat \<Rightarrow> nat \<Rightarrow> nat" where
  "fields w 0 x = 0"
| "fields w (Suc k) x = x mod 2 ^ w + fields w k (x div 2 ^ w)"

fun pair_sum :: "nat \<Rightarrow> nat \<Rightarrow> nat \<Rightarrow> nat" where
  "pair_sum w 0 x = 0"
| "pair_sum w (Suc k) x = (x mod 2 ^ w + x div 2 ^ w mod 2 ^ w) + 2 ^ (2 * w) * pair_sum w k (x div 2 ^ (2 * w))"

fun pair_mask :: "nat \<Rightarrow> nat \<Rightarrow> nat" where
  "pair_mask w 0 = 0"
| "pair_mask w (Suc k) = (2 ^ w - 1) + 2 ^ (2 * w) * pair_mask w k"

fun fields_le :: "nat \<Rightarrow> nat \<Rightarrow> nat \<Rightarrow> nat \<Rightarrow> bool" where
  "fields_le w 0 c x = True"
| "fields_le w (Suc k) c x \<longleftrightarrow> x mod 2 ^ w \<le> c \<and> fields_le w k c (x div 2 ^ w)"

lemma fields_one: "fields 1 k n = card {i. i < k \<and> bit n i}"
proof (induction k arbitrary: n)
  case (Suc k)
  have "{i. i < Suc k \<and> bit n i} = (if odd n then {0} else {}) \<union> Suc ` {i. i < k \<and> bit (n div 2) i}"
    by (auto simp: image_iff bit_0 bit_Suc less_Suc_eq_0_disj)
  moreover have "card (Suc ` {i. i < k \<and> bit (n div 2) i}) = fields 1 k (n div 2)"
    by (simp add: card_image Suc.IH del: One_nat_def)
  ultimately show ?case by (auto simp: mod_2_eq_odd card_insert_if simp del: One_nat_def)
qed simp

lemma pair_less: "0 < w \<Longrightarrow> x mod 2 ^ w + y mod 2 ^ w < (2 :: nat) ^ (2 * w)"
proof -
  assume w: "0 < w"
  have "x mod 2 ^ w < 2 ^ w" "y mod 2 ^ w < (2 :: nat) ^ w" by simp_all
  moreover have "(2 :: nat) ^ w * 2 \<le> 2 ^ w * 2 ^ w" using w by (intro mult_le_mono2) (simp add: self_le_power)
  ultimately have "x mod 2 ^ w + y mod 2 ^ w < 2 ^ w * 2 ^ w" by linarith
  then show ?thesis by (simp add: mult_2 power_add)
qed

lemma fields_pair_sum: "0 < w \<Longrightarrow> fields (2 * w) k (pair_sum w k x) = fields w (2 * k) x"
proof (induction k arbitrary: x)
  case (Suc k)
  have "x div 2 ^ (2 * w) = x div 2 ^ w div 2 ^ w" by (simp add: mult_2 power_add div_mult2_eq)
  then show ?case using Suc pair_less [of w x "x div 2 ^ w"] by simp
qed simp

lemma pair_sum_less: "0 < w \<Longrightarrow> pair_sum w k x < 2 ^ (2 * w * k)"
proof (induction k arbitrary: x)
  case (Suc k)
  let ?M = "2 ^ (2 * w) :: nat"
  have "pair_sum w k (x div ?M) + 1 \<le> 2 ^ (2 * w * k)" using Suc by (simp add: Suc_le_eq)
  then have "?M * (pair_sum w k (x div ?M) + 1) \<le> ?M * 2 ^ (2 * w * k)" by (rule mult_le_mono2)
  then show ?case using pair_less [OF Suc.prems, of x "x div 2 ^ w"] by (simp add: power_add algebra_simps)
qed simp

lemma low_high_or: "m < 2 ^ n \<Longrightarrow> m + 2 ^ n * r = m OR push_bit n (r :: nat)"
proof -
  assume "m < 2 ^ n"
  then have "take_bit n m = m" by (simp add: take_bit_nat_eq_self)
  then have "\<not> bit m i \<or> \<not> bit (push_bit n r) i" for i by (metis bit_push_bit_iff bit_take_bit_iff not_less)
  from disjunctive_add [OF this] show ?thesis by (simp add: push_bit_eq_mult mult.commute)
qed

lemma and_pair_mask:
  "x AND pair_mask w (Suc k) = x mod 2 ^ w + 2 ^ (2 * w) * (x div 2 ^ (2 * w) AND pair_mask w k)"
proof -
  have p: "(2 :: nat) ^ w \<le> 2 ^ (2 * w)" by simp
  have "2 ^ w - 1 < (2 :: nat) ^ (2 * w)" "x mod 2 ^ w < 2 ^ (2 * w)"
    using p by (simp_all add: less_le_trans [OF _ p])
  then have "pair_mask w (Suc k) = (2 ^ w - 1) OR push_bit (2 * w) (pair_mask w k)"
    "x mod 2 ^ w + 2 ^ (2 * w) * (x div 2 ^ (2 * w) AND pair_mask w k) =
      x mod 2 ^ w OR push_bit (2 * w) (x div 2 ^ (2 * w) AND pair_mask w k)"
    by (simp_all add: low_high_or)
  moreover have "x AND (2 ^ w - 1) = x mod 2 ^ w"
    by (simp only: take_bit_eq_mod flip: take_bit_eq_mask mask_eq_exp_minus_1)
  moreover have "x AND push_bit (2 * w) (pair_mask w k) = push_bit (2 * w) (x div 2 ^ (2 * w) AND pair_mask w k)"
    by (rule bit_eqI) (auto simp: bit_simps simp flip: drop_bit_eq_div)
  moreover have "x AND (a OR b) = (x AND a) OR (x AND b)" for a b :: nat by (rule bit_eqI) (auto simp: bit_simps)
  ultimately show ?thesis by (simp del: pair_mask.simps One_nat_def)
qed

lemma masked_pair_sum: "(x div 2 ^ w AND pair_mask w k) + (x AND pair_mask w k) = pair_sum w k x"
proof (induction k arbitrary: x)
  case (Suc k)
  have "x div 2 ^ w div 2 ^ (2 * w) = x div 2 ^ (2 * w) div 2 ^ w" by (simp flip: div_mult2_eq add: mult.commute)
  then show ?case
    unfolding and_pair_mask pair_sum.simps Suc [of "x div 2 ^ (2 * w)", symmetric] add_mult_distrib2 by simp
qed simp

text \<open>The third stage adds before it masks, which is the same where no field overflows.\<close>

lemma low_div: "z < m \<Longrightarrow> (z + m * d) div m = (d :: nat)"
  by simp

lemma sum_then_mask:
  assumes "fields_le w (2 * k) c x" "2 * c < 2 ^ w"
  shows "(x div 2 ^ w + x) AND pair_mask w k = pair_sum w k x"
  using assms(1)
proof (induction k arbitrary: x)
  case (Suc k)
  let ?W = "2 ^ w :: nat"
  define a b x' where "a = x mod ?W" and "b = x div ?W mod ?W" and "x' = x div ?W div ?W"
  have W2: "2 ^ (2 * w) = ?W * ?W" by (simp add: mult_2 power_add)
  have x: "x = a + ?W * (b + ?W * x')" by (simp add: a_def b_def x'_def)
  have f: "a \<le> c" "b \<le> c" "fields_le w (2 * k) c x'" using Suc.prems by (simp_all add: a_def b_def x'_def)
  have c: "x' mod ?W \<le> c \<or> k = 0" using f(3) by (cases k) simp_all
  have "x div ?W = b + ?W * x'" by (simp add: b_def x'_def)
  then have "x div ?W + x = (b + ?W * x') + (a + ?W * (b + ?W * x'))" using x by simp
  then have eq: "x div ?W + x = (a + b) + ?W * (b + x' + ?W * x')" by (simp add: algebra_simps)
  have ab: "a + b < ?W" using f assms(2) by simp
  then have lo: "(x div ?W + x) mod ?W = a + b" unfolding eq by simp
  have "(x div ?W + x) div ?W = b + x' + ?W * x'" unfolding eq using ab by simp
  then have hi: "(x div ?W + x) div (?W * ?W) = (b + x') div ?W + x'" by (simp add: div_mult2_eq)
  have "(b + x') div ?W = x' div ?W" if "x' mod ?W \<le> c"
  proof -
    have "b + x' mod ?W < ?W" using that f(2) assms(2) by linarith
    then have "(b + x' mod ?W + ?W * (x' div ?W)) div ?W = x' div ?W" by (rule low_div)
    moreover have "b + x' mod ?W + ?W * (x' div ?W) = b + x'" by simp
    ultimately show ?thesis by (simp only:)
  qed
  then have "((b + x') div ?W + x') AND pair_mask w k = pair_sum w k x'" using c Suc.IH [OF f(3)] by auto
  then show ?case unfolding and_pair_mask W2 lo hi pair_sum.simps by (simp add: a_def b_def x'_def div_mult2_eq)
qed simp

lemma fields_le_pair_sum: "0 < w \<Longrightarrow> fields_le w (2 * k) c x \<Longrightarrow> fields_le (2 * w) k (2 * c) (pair_sum w k x)"
proof (induction k arbitrary: x)
  case (Suc k)
  have "x div 2 ^ (2 * w) = x div 2 ^ w div 2 ^ w" by (simp add: mult_2 power_add div_mult2_eq)
  then show ?case using Suc pair_less [of w x "x div 2 ^ w"] by simp
qed simp

text \<open>The last stages add shifted copies; only the lowest byte matters, and no byte overflows.\<close>

definition byte_at :: "nat \<Rightarrow> nat \<Rightarrow> nat" where
  "byte_at i x = x div 256 ^ i mod 256"

definition add_shifted :: "nat \<Rightarrow> nat \<Rightarrow> nat" where
  "add_shifted j x = x + x div 256 ^ j"

lemma add_shifted_step:
  assumes "byte_at 0 x + byte_at j x < 256"
  shows "add_shifted j x mod 256 = byte_at 0 x + byte_at j x" "add_shifted j x div 256 = add_shifted j (x div 256)"
proof -
  have "add_shifted j x = (byte_at 0 x + byte_at j x) + 256 * (x div 256 + x div 256 ^ j div 256)"
    by (simp add: add_shifted_def byte_at_def)
  moreover have "x div 256 ^ j div 256 = x div 256 div 256 ^ j" by (simp flip: div_mult2_eq add: mult.commute)
  ultimately have eq: "add_shifted j x = (byte_at 0 x + byte_at j x) + 256 * add_shifted j (x div 256)" by (simp only: add_shifted_def)
  show "add_shifted j x mod 256 = byte_at 0 x + byte_at j x" "add_shifted j x div 256 = add_shifted j (x div 256)"
    unfolding eq using assms by simp_all
qed

lemma byte_at_add_shifted:
  assumes "\<forall>i. byte_at i x \<le> c" "2 * c < 256"
  shows "byte_at i (add_shifted j x) = byte_at i x + byte_at (i + j) x"
  using assms(1)
proof (induction i arbitrary: x)
  case 0
  then have "byte_at 0 x + byte_at j x < 256" using assms(2) by (metis add_mono le_less_trans mult_2)
  then show ?case using add_shifted_step(1) by (simp add: byte_at_def)
next
  case (Suc i)
  have sh: "byte_at n (x div 256) = byte_at (Suc n) x" for n by (simp add: byte_at_def div_mult2_eq)
  have "byte_at 0 x + byte_at j x < 256" using Suc.prems assms(2) by (metis add_mono le_less_trans mult_2)
  then have "byte_at (Suc i) (add_shifted j x) = byte_at i (add_shifted j (x div 256))"
    using add_shifted_step(2) by (simp add: byte_at_def div_mult2_eq)
  also have "\<dots> = byte_at (Suc i) x + byte_at (Suc i + j) x" using Suc.IH [of "x div 256"] Suc.prems by (simp add: sh)
  finally show ?case .
qed

lemma fields8_le:
  assumes "fields_le 8 k c x" "x < 256 ^ k"
  shows "byte_at i x \<le> c"
  using assms
proof (induction k arbitrary: x i)
  case (Suc k)
  have "x div 256 < 256 ^ k" using Suc.prems(2) by (simp add: less_mult_imp_div_less mult.commute)
  then have "byte_at j (x div 256) \<le> c" for j using Suc by simp
  then show ?case using Suc.prems(1) by (cases i) (simp_all add: byte_at_def div_mult2_eq)
qed (simp add: byte_at_def)

lemma fields8_sum: "fields 8 k x = (\<Sum>i<k. byte_at i x)"
proof (induction k arbitrary: x)
  case (Suc k)
  have "byte_at i (x div 256) = byte_at (Suc i) x" for i by (simp add: byte_at_def div_mult2_eq)
  then show ?case using Suc [of "x div 256"] by (simp add: sum.lessThan_Suc_shift byte_at_def del: sum.lessThan_Suc)
qed simp

lemma sum8: "(\<Sum>i<8. f i) = f 0 + f 1 + f 2 + f 3 + f 4 + f 5 + f 6 + f 7" for f :: "nat \<Rightarrow> nat"
  by (simp add: eval_nat_numeral)

lemma sum_bytes:
  assumes "fields_le 8 8 8 x" "x < 2 ^ 64"
  shows "add_shifted 4 (add_shifted 2 (add_shifted 1 x)) mod 128 = fields 8 8 x"
proof -
  have b0: "\<forall>i. byte_at i x \<le> 8" using fields8_le [of 8 8 x] assms by simp
  let ?x1 = "add_shifted 1 x"
  note e1 = byte_at_add_shifted [OF b0, of _ 1, simplified]
  have b1: "\<forall>i. byte_at i ?x1 \<le> 16" using b0 by (simp add: e1 add_mono [where b = 8 and d = 8, simplified])
  let ?x2 = "add_shifted 2 ?x1"
  note e2 = byte_at_add_shifted [OF b1, of _ 2, simplified]
  have b2: "\<forall>i. byte_at i ?x2 \<le> 32" using b1 by (simp add: e2 add_mono [where b = 16 and d = 16, simplified])
  note e3 = byte_at_add_shifted [OF b2, of _ 4, simplified]
  have s: "byte_at 0 (add_shifted 4 ?x2) = fields 8 8 x"
    unfolding fields8_sum sum8 by (simp add: e3 e2 e1) (simp add: numeral_2_eq_2 numeral_3_eq_3)
  moreover have "byte_at 0 (add_shifted 4 ?x2) \<le> 64"
    using b2 by (simp add: e3 add_mono [where b = 32 and d = 32, simplified])
  moreover have "add_shifted 4 ?x2 mod 128 = byte_at 0 (add_shifted 4 ?x2) mod 128"
    by (simp add: byte_at_def mod_mod_cancel)
  ultimately show ?thesis by simp
qed

subsection \<open>The functions\<close>

lemma pair_mask_closed: "pair_mask w k * 2 ^ (2 * w) + (2 ^ w - 1) = pair_mask w k + (2 ^ w - 1) * (2 ^ (2 * w)) ^ k"
proof (induction k)
  case (Suc k)
  define m M P where "m = (2 :: nat) ^ w - 1" and "M = (2 :: nat) ^ (2 * w)" and "P = pair_mask w k"
  have "P * M + m = P + m * M ^ k" using Suc by (simp only: m_def M_def P_def)
  then have "(m + M * P) * M + m = m + M * (P + m * M ^ k)" by (simp add: algebra_simps)
  then have "(m + M * P) * M + m = (m + M * P) + m * M ^ Suc k" by (simp add: algebra_simps)
  then show ?case by (simp only: m_def M_def P_def pair_mask.simps)
qed simp

lemma pair_masks: "unat m0 = pair_mask 1 32" "unat m1 = pair_mask 2 16" "unat m2 = pair_mask 4 8"
  using pair_mask_closed [of 1 32] pair_mask_closed [of 2 16] pair_mask_closed [of 4 8] by simp_all

lemma fields_le_1: "fields_le 1 k 1 x"
  by (induction k arbitrary: x) simp_all

lemma masked_add:
  assumes "unat m = pair_mask w k" "0 < w" "w * k = 32"
  shows "unat ((drop_bit w x AND m) + (x AND m) :: uint64) = pair_sum w k (unat x)"
proof -
  have "unat (drop_bit w x AND m) + unat (x AND m) = pair_sum w k (unat x)"
    using masked_pair_sum [of "unat x" w k] by (simp add: unsigned_and_eq unat_drop_bit assms(1))
  moreover have "pair_sum w k (unat x) < 2 ^ 64" 
    using pair_sum_less [OF assms(2), of k "unat x"] assms(3) by (simp only: mult.assoc) simp
  ultimately show ?thesis by (simp only: unat_add_small)
qed

text \<open>A number whose fields are at most \<open>c\<close> is at most \<open>c\<close> in every field.\<close>

lemma fields_le_bound:
  assumes "fields_le w k c x" "x < (2 ^ w) ^ k"
  shows "x * 2 ^ w + c \<le> x + c * (2 ^ w) ^ k"
  using assms
proof (induction k arbitrary: x)
  case (Suc k)
  define W a x' where "W = (2 :: nat) ^ w" and "a = x mod W" and "x' = x div W"
  have x: "x = a + W * x'" "a \<le> c" using Suc.prems(1) by (simp_all add: W_def a_def x'_def)
  have "x' < W ^ k" using Suc.prems(2) by (simp add: W_def x'_def less_mult_imp_div_less mult.commute)
  then have "x' * W + c \<le> x' + c * W ^ k" using Suc by (simp add: W_def x'_def)
  then have "W * (x' * W + c) \<le> W * (x' + c * W ^ k)" by (rule mult_le_mono2)
  moreover obtain e where c: "c = a + e" using x(2) le_Suc_ex by blast
  moreover have "e \<le> W * e" by (simp add: W_def)
  ultimately have "x * W + c \<le> x + c * (W * W ^ k)" unfolding x(1) by (simp only: algebra_simps)
  then show ?case by (simp add: W_def)
qed simp

lemma OnesCount64_fields: "OnesCount64 x = fields 1 64 (unat x)"
proof -
  define y1 where "y1 = (drop_bit 1 x AND m0) + (x AND m0)"
  define y2 where "y2 = (drop_bit 2 y1 AND m1) + (y1 AND m1)"
  define y3 where "y3 = (drop_bit 4 y2 + y2) AND m2"
  have u: "unat y1 = pair_sum 1 32 (unat x)" "unat y2 = pair_sum 2 16 (unat y1)"
    unfolding y1_def y2_def by (rule masked_add pair_masks | simp)+
  have "fields_le 2 32 2 (unat y1)" using fields_le_pair_sum [of 1 32 1 "unat x"] fields_le_1 [of 64 "unat x"] by (simp add: u)
  then have le2: "fields_le 4 16 4 (unat y2)" using fields_le_pair_sum [of 2 16 2 "unat y1"] by (simp add: u)
  then have "15 * unat y2 \<le> 4 * 2 ^ 64" using fields_le_bound [OF le2] u64 [of y2] by simp
  then have "unat (drop_bit 4 y2 + y2) = unat y2 div 16 + unat y2"
    by (subst unat_add_small) (simp_all add: unat_drop_bit)
  then have u3: "unat y3 = pair_sum 4 8 (unat y2)"
    using sum_then_mask [of 4 8 4 "unat y2"] le2 by (simp add: y3_def unsigned_and_eq flip: pair_masks)
  have le3: "fields_le 8 8 8 (unat y3)" using fields_le_pair_sum [of 4 8 4 "unat y2"] le2 by (simp add: u3)
  then have "255 * unat y3 \<le> 8 * 2 ^ 64" using fields_le_bound [OF le3] u64 [of y3] by simp
  then have lt: "8 * unat y3 < 2 ^ 64" by simp
  define y4 where "y4 = y3 + drop_bit 8 y3"
  define y5 where "y5 = y4 + drop_bit 16 y4"
  have v4: "unat y4 = add_shifted 1 (unat y3)"
    unfolding y4_def add_shifted_def using lt by (subst unat_add_small) (simp_all add: unat_drop_bit)
  have lt4: "unat y4 \<le> 2 * unat y3" unfolding v4 add_shifted_def by simp
  have v5: "unat y5 = add_shifted 2 (unat y4)"
    unfolding y5_def add_shifted_def using lt lt4 by (subst unat_add_small) (simp_all add: unat_drop_bit)
  have lt5: "unat y5 \<le> 2 * unat y4" unfolding v5 add_shifted_def by simp
  have v6: "unat (y5 + drop_bit 32 y5) = add_shifted 4 (unat y5)"
    unfolding add_shifted_def using lt lt4 lt5 by (subst unat_add_small) (simp_all add: unat_drop_bit)
  have "OnesCount64 x = unat ((y5 + drop_bit 32 y5) AND 0x7f)"
    by (simp only: OnesCount64_def Let_def y1_def y2_def y3_def y4_def y5_def)
  also have "\<dots> = add_shifted 4 (unat y5) mod 128"
    using take_bit_eq_mask [of 7 "add_shifted 4 (unat y5)"]
    by (simp add: unsigned_and_eq v6 take_bit_eq_mod mask_eq_exp_minus_1)
  also have "\<dots> = fields 8 8 (unat y3)" unfolding v5 v4 using sum_bytes [OF le3] u64 [of y3] by simp
  also have "\<dots> = fields 1 64 (unat x)"
    using fields_pair_sum [of 4 8 "unat y2"] fields_pair_sum [of 2 16 "unat y1"] fields_pair_sum [of 1 32 "unat x"] by (simp add: u u3)
  finally show ?thesis .
qed

text \<open>The shorter words are counted by a table.\<close>

lemma fields_8: "fields 1 8 n = n mod 2 + n div 2 mod 2 + n div 4 mod 2 + n div 8 mod 2 + n div 16 mod 2 + n div 32 mod 2 +
    n div 64 mod 2 + n div 128 mod 2"
proof -
  have "fields 1 (Suc (Suc (Suc (Suc (Suc (Suc (Suc (Suc 0)))))))) n =
    n mod 2 + n div 2 mod 2 + n div 4 mod 2 + n div 8 mod 2 + n div 16 mod 2 + n div 32 mod 2 + n div 64 mod 2 + n div 128 mod 2"
    by (simp flip: div_mult2_eq)
  moreover have "Suc (Suc (Suc (Suc (Suc (Suc (Suc (Suc 0))))))) = 8" by simp
  ultimately show ?thesis by (simp only:)
qed

lemma pop8: "n < 256 \<Longrightarrow> unat (pop8tab ! n) = fields 1 8 n"
proof -
  assume n: "n < 256"
  have "uint (pop8tab ! n) = int (fields 1 8 n)"
    using tab_allD [OF pop8tab_all n] unfolding ones8_def fields_8 by (simp add: zdiv_int zmod_int)
  then show ?thesis by (simp only: unat_eq_nat_uint nat_int)
qed

lemma fields_add: "fields 1 (j + k) n = fields 1 j n + fields 1 k (n div 2 ^ j)"
  by (induction j arbitrary: n) (simp_all add: div_mult2_eq del: One_nat_def)

lemma fields_mod: "fields 1 k (n mod 2 ^ k) = fields 1 k n"
  unfolding fields_one by (rule arg_cong [of _ _ card]) (auto simp: bit_take_bit_iff simp flip: take_bit_eq_mod)

lemma fields_le_k: "fields 1 k n \<le> k"
  by (induction k arbitrary: n) (simp_all add: add_le_mono [of _ 1, simplified] del: One_nat_def)

lemma unat_and_ff:
  "unat (x16 AND 0xff :: uint16) = unat x16 mod 256" "unat (x32 AND 0xff :: uint32) = unat x32 mod 256"
  using take_bit_eq_mask [of 8 "unat x16"] take_bit_eq_mask [of 8 "unat x32"]
  by (simp_all add: unsigned_and_eq take_bit_eq_mod mask_eq_exp_minus_1)

lemma pop8_mod: "unat (pop8tab ! (n mod 256)) = fields 1 8 n"
  using pop8 [of "n mod 256"] fields_mod [of 8 n] by simp

lemma OnesCount_fields:
  "OnesCount8 x8 = fields 1 8 (unat x8)" "OnesCount16 x16 = fields 1 16 (unat x16)" "OnesCount32 x32 = fields 1 32 (unat x32)"
proof -
  note u = unat_drop_bit unat_and_ff unat_word_ariths pop8_mod
  have lt: "unat x8 < 256" "unat x16 < 65536" using unsigned_less [of x8, where ?'a = nat] unsigned_less [of x16, where ?'a = nat] by simp_all
  then show "OnesCount8 x8 = fields 1 8 (unat x8)" by (simp only: OnesCount8_def pop8)
  have "unat x16 div 256 < 256" using lt(2) by simp
  moreover have "fields 1 16 (unat x16) = fields 1 8 (unat x16) + fields 1 8 (unat x16 div 256)"
    using fields_add [of 8 8 "unat x16"] by simp
  ultimately show "OnesCount16 x16 = fields 1 16 (unat x16)"
    using fields_le_k [of 16 "unat x16"] by (simp add: OnesCount16_def u pop8 del: One_nat_def)
  have "unat x32 div 2 ^ 24 < 256" using u32 [of x32] by simp
  moreover have "fields 1 32 (unat x32) = fields 1 8 (unat x32) + fields 1 8 (unat x32 div 2 ^ 8) +
      fields 1 8 (unat x32 div 2 ^ 16) + fields 1 8 (unat x32 div 2 ^ 24)"
    using fields_add [of 8 24 "unat x32"] fields_add [of 8 16 "unat x32 div 2 ^ 8"] fields_add [of 8 8 "unat x32 div 2 ^ 16"]
    by (simp flip: div_mult2_eq del: One_nat_def)
  ultimately show "OnesCount32 x32 = fields 1 32 (unat x32)"
    using fields_le_k [of 32 "unat x32"] by (simp add: OnesCount32_def u pop8 del: One_nat_def)
qed

lemma card_bits: "card {i. bit (x :: 'a::len word) i} = fields 1 LENGTH('a) (unat x)"
  unfolding fields_one by (rule arg_cong [of _ _ card]) (auto simp: bit_unsigned_iff dest: bit_imp_le_length)

end
