(* ===== verification/Math_Bits_Props.thy ===== *)
theory Math_Bits_Props
  imports Math_Bits_Order Math_Bits_Ones
begin

unbundle bit_operations_syntax

section \<open>Properties of math/bits\<close>

text \<open>
  The theorems about math/bits, put together from the lemmas on tables and counts, on rotations and
  reversals, and on the extended arithmetic.
\<close>

lemma bit_len_iff: "bit_len n k \<longleftrightarrow> n < 2 ^ k \<and> (0 < k \<longrightarrow> 2 ^ (k - 1) \<le> n)"
  by (cases k) (auto simp: bit_len_def)

lemma TrailingZeros_spec:
  "x8 \<noteq> 0 \<Longrightarrow> low_bit x8 (TrailingZeros8 x8)" "x16 \<noteq> 0 \<Longrightarrow> low_bit x16 (TrailingZeros16 x16)"
  "x32 \<noteq> 0 \<Longrightarrow> low_bit x32 (TrailingZeros32 x32)" "x64 \<noteq> 0 \<Longrightarrow> low_bit x64 (TrailingZeros64 x64)"
  using low_bit_ex TrailingZeros8_low TrailingZeros16_low TrailingZeros32_low TrailingZeros64_low by metis+

lemma TrailingZeros_0: "TrailingZeros8 0 = 8" "TrailingZeros16 0 = 16" "TrailingZeros32 0 = 32" "TrailingZeros64 0 = 64"
  by (simp_all add: TrailingZeros8_def ntz8tab_def TrailingZeros16_def TrailingZeros32_def TrailingZeros64_def)

lemma counts_all:
  "(\<forall>x. (unat x < 2 ^ Len64 x \<and> (0 < Len64 x \<longrightarrow> 2 ^ (Len64 x - 1) \<le> unat x)) \<and> LeadingZeros64 x + Len64 x = 64) \<and>
   (\<forall>x. (unat x < 2 ^ Len32 x \<and> (0 < Len32 x \<longrightarrow> 2 ^ (Len32 x - 1) \<le> unat x)) \<and> LeadingZeros32 x + Len32 x = 32) \<and>
   (\<forall>x. (unat x < 2 ^ Len16 x \<and> (0 < Len16 x \<longrightarrow> 2 ^ (Len16 x - 1) \<le> unat x)) \<and> LeadingZeros16 x + Len16 x = 16) \<and>
   (\<forall>x. (unat x < 2 ^ Len8 x \<and> (0 < Len8 x \<longrightarrow> 2 ^ (Len8 x - 1) \<le> unat x)) \<and> LeadingZeros8 x + Len8 x = 8) \<and>
   (\<forall>x. OnesCount64 x = card {n. bit x n}) \<and> (\<forall>x. OnesCount32 x = card {n. bit x n}) \<and>
   (\<forall>x. OnesCount16 x = card {n. bit x n}) \<and> (\<forall>x. OnesCount8 x = card {n. bit x n}) \<and>
   (\<forall>x. if x = 0 then TrailingZeros64 x = 64 else bit x (TrailingZeros64 x) \<and> (\<forall>j<TrailingZeros64 x. \<not> bit x j)) \<and>
   (\<forall>x. if x = 0 then TrailingZeros32 x = 32 else bit x (TrailingZeros32 x) \<and> (\<forall>j<TrailingZeros32 x. \<not> bit x j)) \<and>
   (\<forall>x. if x = 0 then TrailingZeros16 x = 16 else bit x (TrailingZeros16 x) \<and> (\<forall>j<TrailingZeros16 x. \<not> bit x j)) \<and>
   (\<forall>x. if x = 0 then TrailingZeros8 x = 8 else bit x (TrailingZeros8 x) \<and> (\<forall>j<TrailingZeros8 x. \<not> bit x j))"
proof -
  note len = Len_spec [unfolded bit_len_iff]
  have "(unat x < 2 ^ Len64 x \<and> (0 < Len64 x \<longrightarrow> 2 ^ (Len64 x - 1) \<le> unat x)) \<and> LeadingZeros64 x + Len64 x = 64" for x
    using len(4) [of x] by (simp add: LeadingZeros64_def)
  moreover have "(unat x < 2 ^ Len32 x \<and> (0 < Len32 x \<longrightarrow> 2 ^ (Len32 x - 1) \<le> unat x)) \<and> LeadingZeros32 x + Len32 x = 32" for x
    using len(3) [of x] by (simp add: LeadingZeros32_def)
  moreover have "(unat x < 2 ^ Len16 x \<and> (0 < Len16 x \<longrightarrow> 2 ^ (Len16 x - 1) \<le> unat x)) \<and> LeadingZeros16 x + Len16 x = 16" for x
    using len(2) [of x] by (simp add: LeadingZeros16_def)
  moreover have "(unat x < 2 ^ Len8 x \<and> (0 < Len8 x \<longrightarrow> 2 ^ (Len8 x - 1) \<le> unat x)) \<and> LeadingZeros8 x + Len8 x = 8" for x
    using len(1) [of x] by (simp add: LeadingZeros8_def)
  ultimately show ?thesis
    using TrailingZeros_spec TrailingZeros_0
    by (simp add: OnesCount64_fields OnesCount_fields card_bits low_bit_def del: One_nat_def)
qed

lemma rotations_all:
  "RotateLeft64 x k = word_rotl (nat (k mod 64)) x \<and> RotateLeft64 (RotateLeft64 x k) (- k) = x \<and>
   RotateLeft32 x32 k = word_rotl (nat (k mod 32)) x32 \<and> RotateLeft16 x16 k = word_rotl (nat (k mod 16)) x16 \<and>
   RotateLeft8 x8 k = word_rotl (nat (k mod 8)) x8 \<and>
   (\<forall>n<64. bit (Reverse64 x) n = bit x (63 - n)) \<and> (\<forall>n<32. bit (Reverse32 x32) n = bit x32 (31 - n)) \<and>
   (\<forall>n<16. bit (Reverse16 x16) n = bit x16 (15 - n)) \<and> (\<forall>n<8. bit (Reverse8 x8) n = bit x8 (7 - n)) \<and>
   (\<forall>n<64. bit (ReverseBytes64 x) n = bit x (8 * (7 - n div 8) + n mod 8)) \<and>
   (\<forall>n<32. bit (ReverseBytes32 x32) n = bit x32 (8 * (3 - n div 8) + n mod 8)) \<and>
   (\<forall>n<16. bit (ReverseBytes16 x16) n = bit x16 (8 * (1 - n div 8) + n mod 8))"
proof -
  have "RotateLeft64 (RotateLeft64 x k) (- k) = x" unfolding RotateLeft_rotl by (rule rotl_undo)
  then show ?thesis
    by (simp add: RotateLeft_rotl Reverse64_bit Reverse32_bit Reverse16_bit Reverse8_bit
        ReverseBytes64_bit ReverseBytes32_bit ReverseBytes16_bit)
qed

text \<open>
  C18. The counts of math/bits, its rotations and reversals. \<open>Len\<close> is the least number of bits that
  represents the operand, \<open>LeadingZeros\<close> the rest of the width, \<open>OnesCount\<close> the number of bits that are
  set (for 64 bits by adding fields in parallel, for the others by a table), and \<open>TrailingZeros\<close>,
  computed with a de Bruijn sequence or a table, is the index of the lowest bit set, or the width
  for 0. \<open>RotateLeft\<close> by any signed amount is the rotation of the word library by the amount modulo
  the width, so rotating by the negated amount undoes it; the bit \<open>n\<close> of a reversed word is the bit
  \<open>n\<close> from its other end, and \<open>ReverseBytes\<close> reverses the order of the bytes and keeps the bits
  within each.
\<close>

theorem bit_counts_and_rotations:
  "((\<forall>x. (unat x < 2 ^ Len64 x \<and> (0 < Len64 x \<longrightarrow> 2 ^ (Len64 x - 1) \<le> unat x)) \<and> LeadingZeros64 x + Len64 x = 64) \<and>
   (\<forall>x. (unat x < 2 ^ Len32 x \<and> (0 < Len32 x \<longrightarrow> 2 ^ (Len32 x - 1) \<le> unat x)) \<and> LeadingZeros32 x + Len32 x = 32) \<and>
   (\<forall>x. (unat x < 2 ^ Len16 x \<and> (0 < Len16 x \<longrightarrow> 2 ^ (Len16 x - 1) \<le> unat x)) \<and> LeadingZeros16 x + Len16 x = 16) \<and>
   (\<forall>x. (unat x < 2 ^ Len8 x \<and> (0 < Len8 x \<longrightarrow> 2 ^ (Len8 x - 1) \<le> unat x)) \<and> LeadingZeros8 x + Len8 x = 8) \<and>
   (\<forall>x. OnesCount64 x = card {n. bit x n}) \<and> (\<forall>x. OnesCount32 x = card {n. bit x n}) \<and>
   (\<forall>x. OnesCount16 x = card {n. bit x n}) \<and> (\<forall>x. OnesCount8 x = card {n. bit x n}) \<and>
   (\<forall>x. if x = 0 then TrailingZeros64 x = 64 else bit x (TrailingZeros64 x) \<and> (\<forall>j<TrailingZeros64 x. \<not> bit x j)) \<and>
   (\<forall>x. if x = 0 then TrailingZeros32 x = 32 else bit x (TrailingZeros32 x) \<and> (\<forall>j<TrailingZeros32 x. \<not> bit x j)) \<and>
   (\<forall>x. if x = 0 then TrailingZeros16 x = 16 else bit x (TrailingZeros16 x) \<and> (\<forall>j<TrailingZeros16 x. \<not> bit x j)) \<and>
   (\<forall>x. if x = 0 then TrailingZeros8 x = 8 else bit x (TrailingZeros8 x) \<and> (\<forall>j<TrailingZeros8 x. \<not> bit x j))) \<and>
   (RotateLeft64 x k = word_rotl (nat (k mod 64)) x \<and> RotateLeft64 (RotateLeft64 x k) (- k) = x \<and>
   RotateLeft32 x32 k = word_rotl (nat (k mod 32)) x32 \<and> RotateLeft16 x16 k = word_rotl (nat (k mod 16)) x16 \<and>
   RotateLeft8 x8 k = word_rotl (nat (k mod 8)) x8 \<and>
   (\<forall>n<64. bit (Reverse64 x) n = bit x (63 - n)) \<and> (\<forall>n<32. bit (Reverse32 x32) n = bit x32 (31 - n)) \<and>
   (\<forall>n<16. bit (Reverse16 x16) n = bit x16 (15 - n)) \<and> (\<forall>n<8. bit (Reverse8 x8) n = bit x8 (7 - n)) \<and>
   (\<forall>n<64. bit (ReverseBytes64 x) n = bit x (8 * (7 - n div 8) + n mod 8)) \<and>
   (\<forall>n<32. bit (ReverseBytes32 x32) n = bit x32 (8 * (3 - n div 8) + n mod 8)) \<and>
   (\<forall>n<16. bit (ReverseBytes16 x16) n = bit x16 (8 * (1 - n div 8) + n mod 8)))"
  by (rule conjI [OF counts_all rotations_all])

theorem bit_counts_and_rotations_witness:
  "bit (0x50 :: uint64) (TrailingZeros64 0x50) \<and> unat (0x50 :: uint64) < 2 ^ Len64 0x50 \<and>
   bit (Reverse64 1) 63 = bit (1 :: uint64) (63 - 63)"
proof (intro conjI)
  have "(0x50 :: uint64) \<noteq> 0" by simp
  then show "bit (0x50 :: uint64) (TrailingZeros64 0x50)" "unat (0x50 :: uint64) < 2 ^ Len64 0x50"
    using conjunct1 [OF bit_counts_and_rotations] by meson+
  have "(63 :: nat) < 64" by simp
  then show "bit (Reverse64 1) 63 = bit (1 :: uint64) (63 - 63)"
    using conjunct2 [OF bit_counts_and_rotations [of 1 0]] by meson
qed

text \<open>
  C19. Carries, borrows and full products. The results of \<open>Add\<close>, \<open>Sub\<close> and \<open>Mul\<close> represent the
  exact sum, difference and product of the operands, with a carry of 0 or 1.
\<close>

theorem extended_arithmetic:
  "(c \<le> 1 \<longrightarrow> (case Add64 x y c of (s, c') \<Rightarrow> unat s + 2 ^ 64 * unat c' = unat x + unat y + unat c \<and> c' \<le> 1)) \<and>
   (c \<le> 1 \<longrightarrow> (case Sub64 x y c of (d, b) \<Rightarrow> unat d + unat y + unat c = unat x + 2 ^ 64 * unat b \<and> b \<le> 1)) \<and>
   (case Mul64 x y of (hi, lo) \<Rightarrow> unat hi * 2 ^ 64 + unat lo = unat x * unat y) \<and>
   (c' \<le> 1 \<longrightarrow> (case Add32 x' y' c' of (s, c'') \<Rightarrow> unat s + 2 ^ 32 * unat c'' = unat x' + unat y' + unat c' \<and> c'' \<le> 1)) \<and>
   (c' \<le> 1 \<longrightarrow> (case Sub32 x' y' c' of (d, b) \<Rightarrow> unat d + unat y' + unat c' = unat x' + 2 ^ 32 * unat b \<and> b \<le> 1)) \<and>
   (case Mul32 x' y' of (hi, lo) \<Rightarrow> unat hi * 2 ^ 32 + unat lo = unat x' * unat y')"
proof -
  obtain s k d b hi lo s' k' d' b' hi' lo' where
    e: "Add64 x y c = (s, k)" "Sub64 x y c = (d, b)" "Mul64 x y = (hi, lo)"
      "Add32 x' y' c' = (s', k')" "Sub32 x' y' c' = (d', b')" "Mul32 x' y' = (hi', lo')"
    by (meson surj_pair)
  show ?thesis
    unfolding e prod.case
    by (intro conjI impI Add64_exact [OF _ e(1)] Sub64_exact [OF _ e(2)] Mul64_exact [OF e(3)]
        Add32_exact [OF _ e(4)] Sub32_exact [OF _ e(5)] Mul32_exact [OF e(6)])
qed

theorem extended_arithmetic_witness:
  "case Add64 (- 1) 1 0 of (s, c') \<Rightarrow> unat s + 2 ^ 64 * unat c' = unat (- 1 :: uint64) + unat (1 :: uint64) + unat (0 :: uint64) \<and> c' \<le> 1"
  using extended_arithmetic [of 0 "- 1" 1] by simp

text \<open>
  C20. \<open>Div64\<close> (Knuth's algorithm D on two digits of 32 bits) returns the exact quotient and
  remainder of a number of 128 bits by one of 64 when the quotient fits, and panics otherwise;
  \<open>Rem64\<close> returns the remainder for every divisor other than 0.
\<close>

theorem Div64_correct:
  "Div64 hi lo y =
     (if y = 0 then Panic ''integer divide by zero'' else if y \<le> hi then Panic ''integer overflow''
      else Ret (of_nat ((unat hi * 2 ^ 64 + unat lo) div unat y), of_nat ((unat hi * 2 ^ 64 + unat lo) mod unat y))) \<and>
   Rem64 hi lo y =
     (if y = 0 then Panic ''integer divide by zero'' else Ret (of_nat ((unat hi * 2 ^ 64 + unat lo) mod unat y)))"
proof -
  let ?N = "\<lambda>hi. unat hi * 2 ^ 64 + unat lo"
  have div: "Div64 hi lo y = Ret (of_nat (?N hi div unat y), of_nat (?N hi mod unat y))" if y: "y \<noteq> 0" "hi < y" for hi
  proof -
    obtain q r where r: "Div64 hi lo y = Ret (q, r)" "?N hi = unat q * unat y + unat r" "r < y" using Div64_exact [OF y] by blast
    then have "?N hi div unat y = unat q" "?N hi mod unat y = unat r" by (auto simp: word_less_nat_alt)
    moreover have "of_nat (unat q) = q" "of_nat (unat r) = r" by simp_all
    ultimately show ?thesis using r(1) by (simp only:)
  qed
  have "hi mod y < y" if "y \<noteq> 0" using that by (simp add: word_less_nat_alt unat_mod unat_gt_0)
  moreover have "?N (hi mod y) mod unat y = ?N hi mod unat y" unfolding unat_mod by (metis mod_add_left_eq mod_mult_left_eq)
  ultimately have "Rem64 hi lo y = Ret (of_nat (?N hi mod unat y))" if "y \<noteq> 0"
    using that div [of "hi mod y"] by (simp add: Rem64_def)
  moreover have "Rem64 hi lo 0 = Panic ''integer divide by zero''" by (simp add: Rem64_def)
  moreover have "Div64 hi lo y = Panic ''integer overflow''" if "y \<noteq> 0" "y \<le> hi" using that by (simp add: Div64_def)
  moreover have "Div64 hi lo 0 = Panic ''integer divide by zero''" by (simp add: Div64_def)
  ultimately show ?thesis using div [of hi] by (auto simp: not_le)
qed

end
