(* ===== verification/Strconv.thy ===== *)
theory Strconv
  imports Math_Bits
begin

unbundle bit_operations_syntax

section \<open>Numbers and strings (strconv: atoi.go, itoa.go, atob.go)\<close>

text \<open>
  Strings are lists of bytes. A \<open>uint64\<close> is a natural number below \<open>2 ^ 64\<close>, with the reductions
  of the unsigned operations written out where they can wrap; an \<open>int64\<close> or \<open>int\<close> is an integer.
  The constant \<open>IntSize\<close> of the machine, 32 or 64, is an argument. Where the code panics the
  result is \<open>None\<close>.
\<close>

definition bytes :: "string \<Rightarrow> byte list" where
  "bytes s = map of_char s"

definition two64 :: nat where "two64 = 2 ^ 64"

text \<open>\<open>int64(u)\<close> and \<open>int(i)\<close>.\<close>

definition int64 :: "nat \<Rightarrow> int" where
  "int64 u = signed_take_bit 63 (int u)"

definition int_of :: "nat \<Rightarrow> int \<Rightarrow> int" where
  "int_of IntSize i = signed_take_bit (IntSize - 1) i"

subsection \<open>Formatting (itoa.go)\<close>

definition digits :: "byte list" where
  "digits = bytes ''0123456789abcdefghijklmnopqrstuvwxyz''"

abbreviation nSmalls :: nat where "nSmalls \<equiv> 100"

definition smallsString :: "byte list" where
  "smallsString = bytes (
     ''00010203040506070809'' @ ''10111213141516171819'' @ ''20212223242526272829'' @
     ''30313233343536373839'' @ ''40414243444546474849'' @ ''50515253545556575859'' @
     ''60616263646566676869'' @ ''70717273747576777879'' @ ''80818283848586878889'' @
     ''90919293949596979899'')"

definition small :: "nat \<Rightarrow> byte list" where
  "small i = (if i < 10 then take 1 (drop i digits) else take 2 (drop (i * 2) smallsString))"

definition isPowerOfTwo :: "int \<Rightarrow> bool" where
  "isPowerOfTwo x \<longleftrightarrow> x AND (x - 1) = 0"

text \<open>
  \<open>formatBits\<close> fills a buffer of 65 bytes from its end. The list is the filled part \<open>a[i:]\<close>; a
  write before the start of the buffer panics.
\<close>

definition put :: "byte \<Rightarrow> byte list \<Rightarrow> byte list option" where
  "put c a = (if length a < 65 then Some (c # a) else None)"

lemma put_length: "put c a = Some a' \<Longrightarrow> length a' = Suc (length a) \<and> length a < 65"
  by (auto simp: put_def split: if_splits)

text \<open>Two digits at a time: the loop that runs \<open>j\<close> times, and the loop while 100 or more remain.\<close>

fun pairs_loop :: "nat \<Rightarrow> nat \<Rightarrow> byte list \<Rightarrow> (nat \<times> byte list) option" where
  "pairs_loop 0 us a = Some (us, a)"
| "pairs_loop (Suc j) us a =
     (let is = us mod 100 * 2 in
      do { a \<leftarrow> put (smallsString ! (is + 1)) a; a \<leftarrow> put (smallsString ! is) a; pairs_loop j (us div 100) a })"

function nine_loop :: "nat \<Rightarrow> byte list \<Rightarrow> (nat \<times> byte list) option" where
  "nine_loop u a =
     (if u \<ge> 1000000000 then
        let q = u div 1000000000; us = u - q * 1000000000 in
        do { (us, a) \<leftarrow> pairs_loop 4 us a; a \<leftarrow> put (smallsString ! (us * 2 + 1)) a; nine_loop q a }
      else Some (u, a))"
  by pat_completeness auto
termination by (relation "measure (\<lambda>(u, _). u)") (auto intro: div_less_dividend)

function hundred_loop :: "nat \<Rightarrow> byte list \<Rightarrow> (nat \<times> byte list) option" where
  "hundred_loop us a =
     (if us \<ge> 100 then
        let is = us mod 100 * 2 in
        do { a \<leftarrow> put (smallsString ! (is + 1)) a; a \<leftarrow> put (smallsString ! is) a; hundred_loop (us div 100) a }
      else Some (us, a))"
  by pat_completeness auto
termination by (relation "measure (\<lambda>(us, _). us)") (auto intro: div_less_dividend)

function shift_loop :: "nat \<Rightarrow> nat \<Rightarrow> nat \<Rightarrow> nat \<Rightarrow> nat \<Rightarrow> byte list \<Rightarrow> (nat \<times> byte list) option" where
  "shift_loop IntSize b m shift u a =
     (if u \<ge> b then
        do { a \<leftarrow> put (digits ! (u mod 2 ^ IntSize AND m)) a; shift_loop IntSize b m shift (drop_bit shift u) a }
      else Some (u, a))"
  by pat_completeness auto
termination by (relation "measure (\<lambda>(_, _, _, _, _, a). 65 - length a)") (auto dest: put_length)

function div_loop :: "nat \<Rightarrow> nat \<Rightarrow> byte list \<Rightarrow> (nat \<times> byte list) option" where
  "div_loop b u a =
     (if u \<ge> b then
        let q = u div b in
        do { a \<leftarrow> put (digits ! (u - q * b)) a; div_loop b q a }
      else Some (u, a))"
  by pat_completeness auto
termination by (relation "measure (\<lambda>(_, _, a). 65 - length a)") (auto dest: put_length)

declare nine_loop.simps [simp del] hundred_loop.simps [simp del] shift_loop.simps [simp del] div_loop.simps [simp del]

text \<open>The base-10 branch; the first loop runs on 32-bit machines only.\<close>

definition format10 :: "nat \<Rightarrow> nat \<Rightarrow> byte list \<Rightarrow> byte list option" where
  "format10 IntSize u a =
     do { (u, a) \<leftarrow> (if IntSize = 32 then nine_loop u a else Some (u, a));
          (us, a) \<leftarrow> hundred_loop (u mod 2 ^ IntSize) a;
          let is = us * 2 in
          do { a \<leftarrow> put (smallsString ! (is + 1)) a;
               if us \<ge> 10 then put (smallsString ! is) a else Some a } }"

definition format_pow2 :: "nat \<Rightarrow> nat \<Rightarrow> nat \<Rightarrow> byte list \<Rightarrow> byte list option" where
  "format_pow2 IntSize base u a =
     (let shift = TrailingZeros IntSize (of_nat base) mod 8; m = base - 1 in
      do { (u, a) \<leftarrow> shift_loop IntSize base m shift u a; put (digits ! (u mod 2 ^ IntSize)) a })"

definition format_any :: "nat \<Rightarrow> nat \<Rightarrow> byte list \<Rightarrow> byte list option" where
  "format_any base u a = do { (u, a) \<leftarrow> div_loop base u a; put (digits ! u) a }"

definition formatBits :: "nat \<Rightarrow> byte list \<Rightarrow> nat \<Rightarrow> int \<Rightarrow> bool \<Rightarrow> bool \<Rightarrow> (byte list \<times> byte list) option" where
  "formatBits IntSize dst u base neg appending =
     (if base < 2 \<or> base > int (length digits) then None
      else
        let u = (if neg then (two64 - u) mod two64 else u) in
        do { a \<leftarrow> (if base = 10 then format10 IntSize u []
                  else if isPowerOfTwo base then format_pow2 IntSize (nat base) u []
                  else format_any (nat base) u []);
             a \<leftarrow> (if neg then put 0x2D a else Some a);
             Some (if appending then (dst @ a, []) else ([], a)) })"

definition FormatUint :: "nat \<Rightarrow> nat \<Rightarrow> int \<Rightarrow> byte list option" where
  "FormatUint IntSize i base =
     (if i < nSmalls \<and> base = 10 then Some (small i)
      else map_option snd (formatBits IntSize [] i base False False))"

text \<open>\<open>uint64(i)\<close> of a signed number.\<close>

definition uint64_of :: "int \<Rightarrow> nat" where
  "uint64_of i = nat (i mod int two64)"

definition FormatInt :: "nat \<Rightarrow> int \<Rightarrow> int \<Rightarrow> byte list option" where
  "FormatInt IntSize i base =
     (if 0 \<le> i \<and> i < int nSmalls \<and> base = 10 then Some (small (nat i))
      else map_option snd (formatBits IntSize [] (uint64_of i) base (i < 0) False))"

definition Itoa :: "nat \<Rightarrow> int \<Rightarrow> byte list option" where
  "Itoa IntSize i = FormatInt IntSize i 10"

definition AppendInt :: "nat \<Rightarrow> byte list \<Rightarrow> int \<Rightarrow> int \<Rightarrow> byte list option" where
  "AppendInt IntSize dst i base =
     (if 0 \<le> i \<and> i < int nSmalls \<and> base = 10 then Some (dst @ small (nat i))
      else map_option fst (formatBits IntSize dst (uint64_of i) base (i < 0) True))"

definition AppendUint :: "nat \<Rightarrow> byte list \<Rightarrow> nat \<Rightarrow> int \<Rightarrow> byte list option" where
  "AppendUint IntSize dst i base =
     (if i < nSmalls \<and> base = 10 then Some (dst @ small i)
      else map_option fst (formatBits IntSize dst i base False True))"

subsection \<open>Parsing (atoi.go)\<close>

text \<open>
  The reasons for a failed conversion; \<open>ErrBase\<close> and \<open>ErrBitSize\<close> stand for the error values whose
  texts name the base and the bit size.
\<close>

datatype error = ErrRange | ErrSyntax | ErrBase int | ErrBitSize int

record NumError =
  ne_Func :: string
  ne_Num :: "byte list"
  ne_Err :: error

definition syntaxError :: "string \<Rightarrow> byte list \<Rightarrow> NumError" where
  "syntaxError fn str = \<lparr>ne_Func = fn, ne_Num = str, ne_Err = ErrSyntax\<rparr>"

definition rangeError :: "string \<Rightarrow> byte list \<Rightarrow> NumError" where
  "rangeError fn str = \<lparr>ne_Func = fn, ne_Num = str, ne_Err = ErrRange\<rparr>"

definition baseError :: "string \<Rightarrow> byte list \<Rightarrow> int \<Rightarrow> NumError" where
  "baseError fn str base = \<lparr>ne_Func = fn, ne_Num = str, ne_Err = ErrBase base\<rparr>"

definition bitSizeError :: "string \<Rightarrow> byte list \<Rightarrow> int \<Rightarrow> NumError" where
  "bitSizeError fn str bitSize = \<lparr>ne_Func = fn, ne_Num = str, ne_Err = ErrBitSize bitSize\<rparr>"

definition lower :: "byte \<Rightarrow> byte" where
  "lower c = c OR 0x20"

definition is_digit :: "byte \<Rightarrow> bool" where
  "is_digit c \<longleftrightarrow> 0x30 \<le> c \<and> c \<le> 0x39"

text \<open>
  \<open>underscoreOK\<close>: the loop carries the class of the last character seen, one of the bytes
  \<open>^\<close>, \<open>0\<close>, \<open>_\<close> and \<open>!\<close>.
\<close>

fun underscore_loop :: "bool \<Rightarrow> byte list \<Rightarrow> byte \<Rightarrow> bool" where
  "underscore_loop hex [] saw \<longleftrightarrow> saw \<noteq> 0x5F"
| "underscore_loop hex (c # s) saw =
     (if is_digit c \<or> hex \<and> 0x61 \<le> lower c \<and> lower c \<le> 0x66 then underscore_loop hex s 0x30
      else if c = 0x5F then (if saw \<noteq> 0x30 then False else underscore_loop hex s 0x5F)
      else if saw = 0x5F then False
      else underscore_loop hex s 0x21)"

definition underscoreOK :: "byte list \<Rightarrow> bool" where
  "underscoreOK s =
     (let s = (if length s \<ge> 1 \<and> (s ! 0 = 0x2D \<or> s ! 0 = 0x2B) then drop 1 s else s) in
      if length s \<ge> 2 \<and> s ! 0 = 0x30 \<and> (lower (s ! 1) = 0x62 \<or> lower (s ! 1) = 0x6F \<or> lower (s ! 1) = 0x78)
      then underscore_loop (lower (s ! 1) = 0x78) (drop 2 s) 0x30
      else underscore_loop False s 0x5E)"

text \<open>The base a prefix implies, and the rest of the string, for a base argument of 0.\<close>

definition implied_base :: "byte list \<Rightarrow> nat \<times> byte list" where
  "implied_base s =
     (if s ! 0 = 0x30 then
        (if length s \<ge> 3 \<and> lower (s ! 1) = 0x62 then (2, drop 2 s)
         else if length s \<ge> 3 \<and> lower (s ! 1) = 0x6F then (8, drop 2 s)
         else if length s \<ge> 3 \<and> lower (s ! 1) = 0x78 then (16, drop 2 s)
         else (8, drop 1 s))
      else (10, s))"

definition digit_of :: "byte \<Rightarrow> byte option" where
  "digit_of c =
     (if is_digit c then Some (c - 0x30)
      else if 0x61 \<le> lower c \<and> lower c \<le> 0x7A then Some (lower c - 0x61 + 10)
      else None)"

text \<open>
  The loop of \<open>ParseUint\<close>: \<open>Inl\<close> is a return with an error and a value, \<open>Inr\<close> the value and
  whether an underscore was seen.
\<close>

fun parse_loop :: "bool \<Rightarrow> nat \<Rightarrow> nat \<Rightarrow> nat \<Rightarrow> byte list \<Rightarrow> bool \<Rightarrow> nat \<Rightarrow> nat \<times> error + nat \<times> bool" where
  "parse_loop base0 base cutoff maxVal [] underscores n = Inr (n, underscores)"
| "parse_loop base0 base cutoff maxVal (c # s) underscores n =
     (if c = 0x5F \<and> base0 then parse_loop base0 base cutoff maxVal s True n
      else case digit_of c of
        None \<Rightarrow> Inl (0, ErrSyntax)
      | Some d \<Rightarrow>
          if d \<ge> of_nat base then Inl (0, ErrSyntax)
          else if n \<ge> cutoff then Inl (maxVal, ErrRange)
          else
            let n = n * base mod two64; n1 = (n + unat d) mod two64 in
            if n1 < n \<or> n1 > maxVal then Inl (maxVal, ErrRange)
            else parse_loop base0 base cutoff maxVal s underscores n1)"

definition ParseUint :: "nat \<Rightarrow> byte list \<Rightarrow> int \<Rightarrow> int \<Rightarrow> nat \<times> NumError option" where
  "ParseUint IntSize s base bitSize =
     (let fn = ''ParseUint'' in
      if s = [] then (0, Some (syntaxError fn s))
      else if base \<noteq> 0 \<and> (base < 2 \<or> base > 36) then (0, Some (baseError fn s base))
      else
        let base0 = (base = 0);
            s0 = s;
            (base, s) = (if base0 then implied_base s else (nat base, s))
        in
        if bitSize < 0 \<or> bitSize > 64 then (0, Some (bitSizeError fn s0 bitSize))
        else
          let bitSize = (if bitSize = 0 then IntSize else nat bitSize);
              cutoff = (two64 - 1) div base + 1;
              maxVal = (2 ^ bitSize mod two64 + (two64 - 1)) mod two64
          in case parse_loop base0 base cutoff maxVal s False 0 of
               Inl (v, e) \<Rightarrow> (v, Some \<lparr>ne_Func = fn, ne_Num = s0, ne_Err = e\<rparr>)
             | Inr (n, underscores) \<Rightarrow>
                 if underscores \<and> \<not> underscoreOK s0 then (0, Some (syntaxError fn s0)) else (n, None))"

text \<open>The end of \<open>ParseInt\<close>, after the unsigned conversion: the check of the signed range.\<close>

definition signed_range :: "nat \<Rightarrow> byte list \<Rightarrow> bool \<Rightarrow> nat \<Rightarrow> int \<Rightarrow> int \<times> NumError option" where
  "signed_range IntSize s0 neg un bitSize =
     (let bitSize = (if bitSize = 0 then int IntSize else bitSize);
          cutoff = 2 ^ nat (bitSize - 1) mod two64
      in
      if \<not> neg \<and> un \<ge> cutoff then (int64 (cutoff - 1), Some (rangeError ''ParseInt'' s0))
      else if neg \<and> un > cutoff then (signed_take_bit 63 (- int64 cutoff), Some (rangeError ''ParseInt'' s0))
      else (if neg then signed_take_bit 63 (- int64 un) else int64 un, None))"

definition ParseInt :: "nat \<Rightarrow> byte list \<Rightarrow> int \<Rightarrow> int \<Rightarrow> int \<times> NumError option" where
  "ParseInt IntSize s base bitSize =
     (if s = [] then (0, Some (syntaxError ''ParseInt'' s))
      else
        let s0 = s;
            neg = (s ! 0 = 0x2D);
            s = (if s ! 0 = 0x2B \<or> neg then drop 1 s else s);
            (un, err) = ParseUint IntSize s base bitSize
        in case err of
             Some e \<Rightarrow>
               if ne_Err e \<noteq> ErrRange then (0, Some (e\<lparr>ne_Func := ''ParseInt'', ne_Num := s0\<rparr>))
               else signed_range IntSize s0 neg un bitSize
           | None \<Rightarrow> signed_range IntSize s0 neg un bitSize)"

text \<open>
  \<open>Atoi\<close> handles short strings itself; \<open>ch - '0'\<close> wraps for the bytes below the digits, and the
  arithmetic is that of \<open>int\<close>.
\<close>

fun atoi_loop :: "nat \<Rightarrow> byte list \<Rightarrow> int \<Rightarrow> int option" where
  "atoi_loop IntSize [] n = Some n"
| "atoi_loop IntSize (ch # s) n =
     (let ch = ch - 0x30 in
      if ch > 9 then None else atoi_loop IntSize s (int_of IntSize (n * 10 + uint ch)))"

definition Atoi :: "nat \<Rightarrow> byte list \<Rightarrow> int \<times> NumError option" where
  "Atoi IntSize s =
     (let sLen = length s in
      if IntSize = 32 \<and> 0 < sLen \<and> sLen < 10 \<or> IntSize = 64 \<and> 0 < sLen \<and> sLen < 19 then
        (let s0 = s;
             signed = (s ! 0 = 0x2D \<or> s ! 0 = 0x2B);
             s = (if signed then drop 1 s else s)
         in if signed \<and> length s < 1 then (0, Some \<lparr>ne_Func = ''Atoi'', ne_Num = s0, ne_Err = ErrSyntax\<rparr>)
            else case atoi_loop IntSize s 0 of
                   None \<Rightarrow> (0, Some \<lparr>ne_Func = ''Atoi'', ne_Num = s0, ne_Err = ErrSyntax\<rparr>)
                 | Some n \<Rightarrow> (if s0 ! 0 = 0x2D then int_of IntSize (- n) else n, None))
      else
        (case ParseInt IntSize s 10 0 of
           (i64, None) \<Rightarrow> (int_of IntSize i64, None)
         | (i64, Some e) \<Rightarrow> (int_of IntSize i64, Some (e\<lparr>ne_Func := ''Atoi''\<rparr>))))"

subsection \<open>Booleans (atob.go)\<close>

definition ParseBool :: "byte list \<Rightarrow> bool \<times> NumError option" where
  "ParseBool str =
     (if str \<in> set (map bytes [''1'', ''t'', ''T'', ''true'', ''TRUE'', ''True'']) then (True, None)
      else if str \<in> set (map bytes [''0'', ''f'', ''F'', ''false'', ''FALSE'', ''False'']) then (False, None)
      else (False, Some (syntaxError ''ParseBool'' str)))"

definition FormatBool :: "bool \<Rightarrow> byte list" where
  "FormatBool b = (if b then bytes ''true'' else bytes ''false'')"

definition AppendBool :: "byte list \<Rightarrow> bool \<Rightarrow> byte list" where
  "AppendBool dst b = (if b then dst @ bytes ''true'' else dst @ bytes ''false'')"

end
