(* ===== verification/Strconv_Format.thy ===== *)
theory Strconv_Format
  imports Strconv Math_Bits_Laws
begin

unbundle bit_operations_syntax

section \<open>Formatting computes the digits\<close>

text \<open>
  The reference is the positional notation \<open>ndigits b n\<close>, most significant digit first. Each of the
  three branches of \<open>formatBits\<close> writes exactly these digits in front of the buffer, which never
  runs out of room for a number of 64 bits.
\<close>

function ndigits :: "nat \<Rightarrow> nat \<Rightarrow> nat list" where
  "ndigits b n = (if b < 2 \<or> n < b then [n] else ndigits b (n div b) @ [n mod b])"
  by pat_completeness auto
termination by (relation "measure snd") (auto intro: div_less_dividend)

declare ndigits.simps [simp del]

definition text_of :: "nat \<Rightarrow> nat \<Rightarrow> byte list" where
  "text_of b n = map (\<lambda>d. digits ! d) (ndigits b n)"

lemma text_of_small: "n < b \<Longrightarrow> text_of b n = [digits ! n]"
  by (simp add: text_of_def ndigits.simps [of b n])

lemma text_of_step: "2 \<le> b \<Longrightarrow> b \<le> n \<Longrightarrow> text_of b n = text_of b (n div b) @ [digits ! (n mod b)]"
  by (simp add: text_of_def ndigits.simps [of b n])

lemma ndigits_length: "2 \<le> b \<Longrightarrow> n < b ^ Suc k \<Longrightarrow> length (ndigits b n) \<le> Suc k"
proof (induction k arbitrary: n)
  case 0
  then show ?case by (simp add: ndigits.simps [of b n])
next
  case (Suc k)
  have "n div b < b ^ Suc k" using Suc.prems by (simp add: less_mult_imp_div_less mult.commute)
  then show ?case using Suc by (subst ndigits.simps) simp
qed

lemma text_of_length: "2 \<le> b \<Longrightarrow> n < 2 ^ 64 \<Longrightarrow> length (text_of b n) \<le> 64"
proof -
  assume b: "2 \<le> b" and n: "n < 2 ^ 64"
  have "(2 :: nat) ^ Suc 63 \<le> b ^ Suc 63" using b by (rule power_mono) simp
  then show ?thesis using n ndigits_length [OF b, of n 63] by (simp add: text_of_def)
qed

lemma put_ok [simp]: "length a < 65 \<Longrightarrow> put c a = Some (c # a)"
  by (simp add: put_def)

subsection \<open>Any base\<close>

lemma format_any_text: "2 \<le> b \<Longrightarrow> length (text_of b u) + length a \<le> 65 \<Longrightarrow> format_any b u a = Some (text_of b u @ a)"
proof (induction u arbitrary: a rule: less_induct)
  case (less u)
  show ?case
  proof (cases "b \<le> u")
    case True
    note t = text_of_step [OF less.prems(1) True]
    have "u div b < u" using less.prems(1) True by simp
    then have "format_any b (u div b) (digits ! (u mod b) # a) = Some (text_of b (u div b) @ digits ! (u mod b) # a)"
      using less t by simp
    then show ?thesis
      using True less.prems(2) t
      by (simp add: format_any_def div_loop.simps [of b u] Let_def modulo_nat_def mult.commute)
  next
    case False
    then show ?thesis using less.prems by (simp add: format_any_def div_loop.simps [of b u] text_of_small)
  qed
qed

subsection \<open>Powers of two\<close>

lemma shift_loop_div:
  assumes "0 < k" "k < IntSize"
  shows "shift_loop IntSize (2 ^ k) (2 ^ k - 1) k u a = div_loop (2 ^ k) u a"
proof (induction "65 - length a" arbitrary: u a rule: less_induct)
  case less
  have "u mod 2 ^ IntSize AND (2 ^ k - 1) = u mod 2 ^ IntSize mod 2 ^ k"
    by (simp only: take_bit_eq_mod flip: take_bit_eq_mask mask_eq_exp_minus_1)
  also have "\<dots> = u mod 2 ^ k" using assms(2) by (simp add: mod_mod_cancel le_imp_power_dvd)
  also have "\<dots> = u - u div 2 ^ k * 2 ^ k" by (simp add: modulo_nat_def)
  finally have d: "u mod 2 ^ IntSize AND (2 ^ k - 1) = u - u div 2 ^ k * 2 ^ k" .
  show ?case
  proof (cases "length a < 65")
    case True
    then show ?thesis
      using less [of "digits ! (u - u div 2 ^ k * 2 ^ k) # a" "u div 2 ^ k"]
      by (subst shift_loop.simps, subst div_loop.simps) (simp add: d drop_bit_eq_div Let_def del: One_nat_def)
  next
    case False
    then show ?thesis by (subst shift_loop.simps, subst div_loop.simps) (simp add: put_def)
  qed
qed

lemma div_loop_less: "0 < b \<Longrightarrow> div_loop b u a = Some (u', a') \<Longrightarrow> u' < b"
  by (induction b u a rule: div_loop.induct) (subst (asm) (2) div_loop.simps, auto simp: Let_def split: if_splits bind_splits)

lemma format_pow2_eq:
  assumes k: "0 < k" "k < 8" "k < IntSize" and tz: "TrailingZeros IntSize (2 ^ k) = k"
  shows "format_pow2 IntSize (2 ^ k) u a = format_any (2 ^ k) u a"
proof (cases "div_loop (2 ^ k) u a")
  case (Some p)
  obtain u' a' where p: "p = (u', a')" by force
  have "u' < 2 ^ k" using div_loop_less [of "2 ^ k"] Some p by auto
  also have "(2 :: nat) ^ k \<le> 2 ^ IntSize" using k by (intro power_increasing) auto
  finally show ?thesis using assms Some p by (simp add: format_pow2_def format_any_def shift_loop_div del: One_nat_def)
qed (use assms in \<open>simp add: format_pow2_def format_any_def shift_loop_div del: One_nat_def\<close>)

lemma powers_of_two: "list_all (\<lambda>b. isPowerOfTwo b = (b \<in> {2, 4, 8, 16, 32})) [2..36]"
  by code_simp

lemma TrailingZeros_pow2: "k \<in> {1, 2, 3, 4, 5} \<Longrightarrow> IntSize = 32 \<or> IntSize = 64 \<Longrightarrow> TrailingZeros IntSize (2 ^ k) = k"
proof -
  assume k: "k \<in> {1, 2, 3, 4, 5}" and i: "IntSize = 32 \<or> IntSize = 64"
  have "low_bit (2 ^ k :: uint64) k" "low_bit (2 ^ k :: uint32) k" using k by (auto simp: low_bit_def bit_exp_iff)
  moreover have "(ucast (2 ^ k :: uint64) :: uint32) = 2 ^ k" using k by auto
  ultimately show ?thesis
    using i TrailingZeros64_low [of "2 ^ k" k] TrailingZeros32_low [of "2 ^ k" k] by (auto simp: TrailingZeros_def)
qed

lemma format_pow2_text:
  assumes "b \<in> {2, 4, 8, 16, 32}" "IntSize = 32 \<or> IntSize = 64"
  shows "format_pow2 IntSize b u a = format_any b u a"
proof -
  obtain k :: nat where "k \<in> {1, 2, 3, 4, 5}" "b = 2 ^ k"
  proof -
    have "b = 2 ^ 1 \<or> b = 2 ^ 2 \<or> b = 2 ^ 3 \<or> b = 2 ^ 4 \<or> b = 2 ^ 5" using assms(1) by auto
    then show ?thesis using that by blast
  qed
  then show ?thesis using format_pow2_eq [of k IntSize u a] TrailingZeros_pow2 [of k IntSize] assms(2) by auto
qed

subsection \<open>Base ten\<close>

text \<open>The last \<open>k\<close> digits.\<close>

fun pad10 :: "nat \<Rightarrow> nat \<Rightarrow> byte list" where
  "pad10 0 n = []"
| "pad10 (Suc k) n = pad10 k (n div 10) @ [digits ! (n mod 10)]"

lemma concat_pairs_nth:
  "r < n \<Longrightarrow> concat (map (\<lambda>r. [f r, g r]) [0..<n]) ! (r * 2) = f r \<and> concat (map (\<lambda>r. [f r, g r]) [0..<n]) ! (r * 2 + 1) = g r"
proof (induction n)
  case (Suc n)
  have "length (concat (map (\<lambda>r. [f r, g r]) [0..<n])) = n * 2" by (induction n) simp_all
  then show ?case using Suc by (cases "r = n") (simp_all add: nth_append)
qed simp

lemma smalls_pairs: "smallsString = concat (map (\<lambda>r. [digits ! (r div 10), digits ! (r mod 10)]) [0..<100])"
  by (simp add: smallsString_def digits_def bytes_def upt_rec)

lemma smalls_digits:
  assumes "r < 100"
  shows "smallsString ! (r * 2) = digits ! (r div 10)" "smallsString ! (r * 2 + 1) = digits ! (r mod 10)"
  using concat_pairs_nth [OF assms, of "\<lambda>r. digits ! (r div 10)" "\<lambda>r. digits ! (r mod 10)"] unfolding smalls_pairs by blast+

lemma text_pad: "10 ^ k \<le> n \<Longrightarrow> text_of 10 n = text_of 10 (n div 10 ^ k) @ pad10 k n"
proof (induction k arbitrary: n)
  case (Suc k)
  have "10 \<le> n" using Suc.prems by (simp add: order_trans [OF _ Suc.prems])
  moreover have "10 ^ k \<le> n div 10" using Suc.prems by (simp add: less_eq_div_iff_mult_less_eq mult.commute)
  ultimately show ?case using Suc.IH [of "n div 10"] text_of_step [of 10 n] by (simp add: div_mult2_eq)
qed simp

lemma pairs_loop_pad:
  "length a + 2 * j \<le> 65 \<Longrightarrow> pairs_loop j us a = Some (us div 100 ^ j, pad10 (2 * j) us @ a)"
proof (induction j arbitrary: us a)
  case (Suc j)
  have r: "us mod 100 < 100" by simp
  have "us mod (10 * 10) = 10 * (us div 10 mod 10) + us mod 10" by (rule mod_mult2_eq)
  then have d: "us mod 100 div 10 = us div 10 mod 10" "us mod 100 mod 10 = us mod 10" by simp_all
  have e: "us div 100 div 100 ^ j = us div 100 ^ Suc j" "us div 10 div 10 = us div 100" by (simp_all flip: div_mult2_eq)
  show ?case
    using Suc.prems Suc.IH [of "digits ! (us div 10 mod 10) # digits ! (us mod 10) # a" "us div 100"] smalls_digits [OF r]
    by (simp add: d e Let_def)
qed simp

definition last_digits :: "nat \<Rightarrow> byte list \<Rightarrow> byte list option" where
  "last_digits us a =
     (let is = us * 2 in
      do { a \<leftarrow> put (smallsString ! (is + 1)) a; if us \<ge> 10 then put (smallsString ! is) a else Some a })"

lemma last_digits_text:
  assumes "us < 100" "length (text_of 10 us) + length a \<le> 65"
  shows "last_digits us a = Some (text_of 10 us @ a)"
proof (cases "us < 10")
  case True
  then show ?thesis using assms smalls_digits [OF assms(1)] by (simp add: last_digits_def Let_def text_of_small)
next
  case False
  then have "text_of 10 us = [digits ! (us div 10), digits ! (us mod 10)]"
    using assms(1) text_of_step [of 10 us] by (simp add: text_of_small)
  then show ?thesis using False assms smalls_digits [OF assms(1)] by (simp add: last_digits_def Let_def)
qed

lemma hundred_loop_text:
  "length (text_of 10 u) + length a \<le> 65 \<Longrightarrow> do { (us, a) \<leftarrow> hundred_loop u a; last_digits us a } = Some (text_of 10 u @ a)"
proof (induction u arbitrary: a rule: less_induct)
  case (less u)
  show ?case
  proof (cases "100 \<le> u")
    case True
    have t: "text_of 10 u = text_of 10 (u div 100) @ pad10 2 u" using text_pad [of 2 u] True by simp
    have p: "pairs_loop 1 u a = Some (u div 100, pad10 2 u @ a)" using less.prems t pairs_loop_pad [of a 1 u] by (simp add: numeral_2_eq_2)
    have "hundred_loop u a = do { (us, a) \<leftarrow> pairs_loop 1 u a; hundred_loop us a }"
      using True by (subst hundred_loop.simps) (simp add: Let_def)
    then show ?thesis using less.IH [of "u div 100" "pad10 2 u @ a"] less.prems t p True by simp
  next
    case False
    then show ?thesis using less.prems last_digits_text [of u a] by (subst hundred_loop.simps) simp
  qed
qed

lemma pad10_front: "pad10 (Suc k) n = digits ! (n div 10 ^ k mod 10) # pad10 k n"
  by (induction k arbitrary: n) (simp_all add: div_mult2_eq)

lemma pad10_length [simp]: "length (pad10 k n) = k"
  by (induction k arbitrary: n) simp_all

lemma mod_div_10: "(n mod (10 * m)) div 10 = n div 10 mod (m :: nat)" "(n mod (10 * m)) mod 10 = n mod 10"
  using mod_mult2_eq [of n 10 m] by simp_all

lemma pad10_mod: "pad10 k (n mod 10 ^ (k + j)) = pad10 k n"
  by (induction k arbitrary: n) (simp_all add: mod_div_10)

lemma div_mod_power10: "n mod 10 ^ 9 div 10 ^ 8 = n div 10 ^ 8 mod (10 :: nat)"
  using mod_mult2_eq [of n "10 ^ 8" 10] by simp

lemma nine_loop_text:
  "length (text_of 10 u) + length a \<le> 65 \<Longrightarrow>
   \<exists>u' a'. nine_loop u a = Some (u', a') \<and> u' < 1000000000 \<and> text_of 10 u' @ a' = text_of 10 u @ a"
proof (induction u arbitrary: a rule: less_induct)
  case (less u)
  let ?B = "1000000000 :: nat"
  show ?case
  proof (cases "?B \<le> u")
    case True
    let ?us = "u mod ?B"
    have t: "text_of 10 u = text_of 10 (u div ?B) @ pad10 9 u" using text_pad [of 9 u] True by simp
    then have room: "length a + 9 \<le> 65" "length (text_of 10 (u div ?B)) + (9 + length a) \<le> 65" using less.prems by simp_all
    have "pairs_loop 4 ?us a = Some (?us div 100 ^ 4, pad10 8 ?us @ a)" using room(1) pairs_loop_pad [of a 4 ?us] by simp
    moreover have "?us div 100 ^ 4 = u div 10 ^ 8 mod 10" using div_mod_power10 [of u] by simp
    moreover have "pad10 8 ?us = pad10 8 u" using pad10_mod [of 8 u 1] by simp
    ultimately have p: "pairs_loop 4 ?us a = Some (u div 10 ^ 8 mod 10, pad10 8 u @ a)" by simp
    have "put (smallsString ! (u div 10 ^ 8 mod 10 * 2 + 1)) (pad10 8 u @ a) = Some (pad10 (Suc 8) u @ a)"
      unfolding pad10_front using smalls_digits(2) [of "u div 10 ^ 8 mod 10"] room(1) by simp
    moreover have "u - u div ?B * ?B = ?us" by (simp add: modulo_nat_def)
    ultimately have "nine_loop u a = nine_loop (u div ?B) (pad10 9 u @ a)"
      using True p by (subst nine_loop.simps) (simp add: Let_def del: pad10.simps)
    then show ?thesis using less.IH [of "u div ?B" "pad10 9 u @ a"] room(2) t True by simp
  next
    case False
    then show ?thesis by (subst nine_loop.simps) simp
  qed
qed

lemma format10_text:
  assumes "IntSize = 32 \<or> IntSize = 64" "u < 2 ^ 64" "length (text_of 10 u) + length a \<le> 65"
  shows "format10 IntSize u a = Some (text_of 10 u @ a)"
proof (cases "IntSize = 32")
  case True
  obtain u' a' where n: "nine_loop u a = Some (u', a')" "u' < 1000000000" "text_of 10 u' @ a' = text_of 10 u @ a"
    using nine_loop_text [OF assms(3)] by blast
  have "length (text_of 10 u') + length a' \<le> 65" using assms(3) arg_cong [OF n(3), of length] by simp
  then show ?thesis
    using True n hundred_loop_text [of u' a'] by (simp add: format10_def last_digits_def [abs_def] case_prod_unfold)
next
  case False
  then have "IntSize = 64" using assms(1) by simp
  then show ?thesis
    using hundred_loop_text [OF assms(3)] assms(2) by (simp add: format10_def last_digits_def [abs_def] case_prod_unfold)
qed

subsection \<open>The functions\<close>

definition signed_text :: "nat \<Rightarrow> int \<Rightarrow> byte list" where
  "signed_text b i = (if i < 0 then 0x2D # text_of b (nat (- i)) else text_of b (nat i))"

lemma magnitude:
  assumes "- (2 ^ 63) \<le> i" "i < 2 ^ 64"
  shows "(if i < 0 then (two64 - uint64_of i) mod two64 else uint64_of i) = nat \<bar>i\<bar>"
proof (cases "i < 0")
  case True
  have "(i + int two64) mod int two64 = i + int two64" using True assms(1) by (intro mod_pos_pos_trivial) (simp_all add: two64_def)
  then have "uint64_of i = nat (i + int two64)" by (simp add: uint64_of_def)
  then have "two64 - uint64_of i = nat (- i)" using True assms(1) by (simp add: two64_def nat_add_distrib nat_diff_distrib' flip: nat_numeral) (simp add: nat_eq_iff)
  moreover have "nat (- i) < two64" using True assms(1) by (simp add: two64_def nat_less_iff)
  ultimately show ?thesis using True by simp
next
  case False
  then show ?thesis using assms(2) by (simp add: uint64_of_def two64_def)
qed

lemma formatBits_text:
  assumes "IntSize = 32 \<or> IntSize = 64" "2 \<le> base" "base \<le> 36" "- (2 ^ 63) \<le> i" "i < 2 ^ 64"
  shows "formatBits IntSize dst (uint64_of i) base (i < 0) app =
    Some (if app then (dst @ signed_text (nat base) i, []) else ([], signed_text (nat base) i))"
proof -
  let ?u = "nat \<bar>i\<bar>" and ?b = "nat base"
  have neg: "(if i < 0 then (two64 - uint64_of i) mod two64 else uint64_of i) = ?u"
    using assms(4,5) by (rule magnitude)
  have u: "?u < 2 ^ 64" using assms(4,5) by (auto simp: nat_less_iff)
  have b: "2 \<le> ?b" using assms(2) by simp
  have room: "length (text_of ?b ?u) \<le> 64" using text_of_length [OF b u] .
  have any: "format_any ?b ?u [] = Some (text_of ?b ?u)" using format_any_text [OF b, of ?u "[]"] room by simp
  have p2: "isPowerOfTwo base \<longleftrightarrow> base \<in> {2, 4, 8, 16, 32}" 
  proof -
    have "base \<in> set [2..36]" using assms(2,3) by (simp only: set_upto atLeastAtMost_iff)
    then show ?thesis using powers_of_two unfolding list_all_iff by blast
  qed
  have "(if base = 10 then format10 IntSize ?u [] else if isPowerOfTwo base then format_pow2 IntSize ?b ?u []
      else format_any ?b ?u []) = Some (text_of ?b ?u)"
    using format10_text [OF assms(1) u, of "[]"] room any format_pow2_text [of ?b IntSize ?u "[]"] assms(1) p2
    by auto
  then show ?thesis
    using assms(2,3) room by (auto simp: formatBits_def neg Let_def signed_text_def digits_def bytes_def)
qed

end
