(* ===== verification/Strconv_Parse.thy ===== *)
theory Strconv_Parse
  imports Strconv_Format
begin

unbundle bit_operations_syntax

section \<open>Parsing computes the value of the digits\<close>

text \<open>
  The reference is the value of a list of digits, \<open>value b ds\<close>. The loop of \<open>ParseUint\<close> detects an
  overflow before and after each step; the lemma \<open>parse_step\<close> shows that this is exact, so the loop
  fails exactly where the exact value exceeds the largest value allowed.
\<close>

text \<open>The digits of a base: \<open>0\<close> to \<open>9\<close>, then letters of either case.\<close>

definition char_digit :: "byte \<Rightarrow> nat option" where
  "char_digit c =
     (if 0x30 \<le> c \<and> c \<le> 0x39 then Some (unat c - 0x30)
      else if 0x61 \<le> c \<and> c \<le> 0x7A then Some (unat c - 0x61 + 10)
      else if 0x41 \<le> c \<and> c \<le> 0x5A then Some (unat c - 0x41 + 10)
      else None)"

definition digit_val :: "nat \<Rightarrow> byte \<Rightarrow> nat option" where
  "digit_val b c = (case char_digit c of Some d \<Rightarrow> if d < b then Some d else None | None \<Rightarrow> None)"

fun digit_vals :: "nat \<Rightarrow> byte list \<Rightarrow> nat list option" where
  "digit_vals b [] = Some []"
| "digit_vals b (c # s) = do { d \<leftarrow> digit_val b c; ds \<leftarrow> digit_vals b s; Some (d # ds) }"

text \<open>
  The number that a string stands for. With base 0 a prefix gives the base: \<open>0b\<close>, \<open>0o\<close> and \<open>0x\<close>, in
  either case and followed by something, or \<open>0\<close> for base 8.
\<close>

definition literal_base :: "byte list \<Rightarrow> nat \<times> byte list" where
  "literal_base s =
     (case s of
        z # c # d # t \<Rightarrow>
          if z \<noteq> 0x30 then (10, s)
          else if c = 0x62 \<or> c = 0x42 then (2, d # t)
          else if c = 0x6F \<or> c = 0x4F then (8, d # t)
          else if c = 0x78 \<or> c = 0x58 then (16, d # t)
          else (8, c # d # t)
      | z # t \<Rightarrow> if z = 0x30 then (8, t) else (10, s)
      | [] \<Rightarrow> (10, s))"

definition value_from :: "nat \<Rightarrow> nat \<Rightarrow> nat list \<Rightarrow> nat" where
  "value_from b n ds = foldl (\<lambda>n d. n * b + d) n ds"

definition meaning :: "int \<Rightarrow> byte list \<Rightarrow> nat option" where
  "meaning base s =
     (case (if base = 0 then literal_base s else (nat base, s)) of (b, t) \<Rightarrow>
        if s = [] then None else map_option (value_from b 0) (digit_vals b t))"

definition cutoff_of :: "nat \<Rightarrow> nat" where
  "cutoff_of b = (two64 - 1) div b + 1"

text \<open>The code tells digits apart by setting the bit that makes a letter lower case.\<close>

lemma byte_all: "list_all P (map of_nat [0..<256]) \<Longrightarrow> P (c :: byte)"
proof -
  assume *: "list_all P (map of_nat [0..<256])"
  have "unat c < 256" using unsigned_less [of c, where ?'a = nat] by simp
  then have "of_nat (unat c) \<in> set (map of_nat [0..<256] :: byte list)" by force
  then show "P c" using * by (auto simp: list_all_iff)
qed

lemma digit_of_char: "map_option unat (digit_of c) = char_digit c"
  by (rule byte_all [of "\<lambda>c. map_option unat (digit_of c) = char_digit c"]) code_simp

lemma lower_iff:
  "(lower c = 0x62 \<longleftrightarrow> c = 0x62 \<or> c = 0x42) \<and> (lower c = 0x6F \<longleftrightarrow> c = 0x6F \<or> c = 0x4F) \<and>
   (lower c = 0x78 \<longleftrightarrow> c = 0x78 \<or> c = 0x58)"
  by (rule byte_all [of "\<lambda>c. (lower c = 0x62 \<longleftrightarrow> c = 0x62 \<or> c = 0x42) \<and> (lower c = 0x6F \<longleftrightarrow> c = 0x6F \<or> c = 0x4F) \<and>
   (lower c = 0x78 \<longleftrightarrow> c = 0x78 \<or> c = 0x58)"]) code_simp

lemma digit_val_code:
  "digit_val b c = (case digit_of c of Some d \<Rightarrow> if unat d < b then Some (unat d) else None | None \<Rightarrow> None)"
  by (simp add: digit_val_def digit_of_char [symmetric] split: option.split)

lemma implied_base_literal: "s \<noteq> [] \<Longrightarrow> implied_base s = literal_base s"
  by (auto simp: implied_base_def literal_base_def lower_iff split: list.split)

lemma value_from_simps [simp]:
  "value_from b n [] = n" "value_from b n (d # ds) = value_from b (n * b + d) ds"
  "value_from b n (xs @ ys) = value_from b (value_from b n xs) ys"
  by (simp_all add: value_from_def)

lemma value_from_ge: "0 < b \<Longrightarrow> n \<le> value_from b n ds"
proof (induction ds arbitrary: n)
  case (Cons d ds)
  have "n \<le> n * b + d" using Cons.prems by (simp add: trans_le_add1)
  then show ?case using Cons.IH [of "n * b + d"] Cons.prems by simp
qed simp

lemma parse_step:
  assumes b: "2 \<le> b" "b \<le> 36" and n: "n \<le> m" "m < two64" and d: "d < b"
  shows "(n \<ge> cutoff_of b \<or> (let n' = n * b mod two64; n1 = (n' + d) mod two64 in n1 < n' \<or> n1 > m)) \<longleftrightarrow> n * b + d > m"
    "\<not> n * b + d > m \<Longrightarrow> (n * b mod two64 + d) mod two64 = n * b + d"
proof -
  show "\<not> n * b + d > m \<Longrightarrow> (n * b mod two64 + d) mod two64 = n * b + d" using n(2) by simp
  show "(n \<ge> cutoff_of b \<or> (let n' = n * b mod two64; n1 = (n' + d) mod two64 in n1 < n' \<or> n1 > m)) \<longleftrightarrow> n * b + d > m"
  proof (cases "n \<ge> cutoff_of b")
    case True
    then have "(two64 - 1) div b < n" by (simp add: cutoff_of_def)
    then have "two64 - 1 < n * b" using b(1) by (simp add: div_less_iff_less_mult)
    then show ?thesis using True n(2) by simp
  next
    case False
    then have "n \<le> (two64 - 1) div b" by (simp add: cutoff_of_def)
    then have nb: "n * b < two64" using b(1) by (simp add: less_eq_div_iff_mult_less_eq two64_def)
    show ?thesis
    proof (cases "n * b + d < two64")
      case True
      then show ?thesis using nb False by (simp add: Let_def)
    next
      case over: False
      have "d < two64" using d b(2) by (simp add: two64_def)
      then have "(n * b + d) mod two64 = n * b + d - two64" "n * b + d - two64 < n * b" using over nb by (simp_all add: mod_if)
      then show ?thesis using over nb False n(2) by (simp add: Let_def)
    qed
  qed
qed

lemma parse_loop_Cons:
  assumes b: "2 \<le> b" "b \<le> 36" and n: "n \<le> m" "m < two64"
  shows "parse_loop False b (cutoff_of b) m (c # s) us n =
    (case digit_val b c of None \<Rightarrow> Inl (0, ErrSyntax)
     | Some d \<Rightarrow> if n * b + d > m then Inl (m, ErrRange) else parse_loop False b (cutoff_of b) m s us (n * b + d))"
proof (cases "digit_of c")
  case (Some d)
  have "unat (of_nat b :: byte) = b" using b by (simp add: unat_of_nat)
  then have lt: "(of_nat b \<le> d) = (\<not> unat d < b)" by (simp add: word_le_nat_alt not_less)
  show ?thesis
  proof (cases "unat d < b")
    case True
    then show ?thesis
      using Some lt parse_step [OF b n True] by (auto simp: digit_val_code Let_def)
  qed (simp add: Some digit_val_code lt)
qed (simp add: digit_val_code)

lemma parse_loop_digits:
  assumes b: "2 \<le> b" "b \<le> 36" and m: "m < two64"
  shows "n \<le> m \<Longrightarrow> digit_vals b s = Some ds \<Longrightarrow>
    parse_loop False b (cutoff_of b) m (s @ rest) us n =
     (if value_from b n ds \<le> m then parse_loop False b (cutoff_of b) m rest us (value_from b n ds) else Inl (m, ErrRange))"
proof (induction s arbitrary: n ds)
  case (Cons c s)
  obtain d ds' where d: "digit_val b c = Some d" "digit_vals b s = Some ds'" "ds = d # ds'"
    using Cons.prems(2) by (auto split: bind_splits)
  have "n * b + d \<le> value_from b (n * b + d) ds'" using b by (intro value_from_ge) simp
  then show ?case
    using parse_loop_Cons [OF b Cons.prems(1) m, of c "s @ rest" us] Cons.IH [of "n * b + d" ds'] d by auto
qed simp

subsection \<open>ParseUint\<close>

abbreviation word_size :: "nat \<Rightarrow> bool" where "word_size w \<equiv> w = 32 \<or> w = 64"

definition bits_of :: "nat \<Rightarrow> int \<Rightarrow> nat" where
  "bits_of w bitSize = (if bitSize = 0 then w else nat bitSize)"

lemma bits_of: "word_size w \<Longrightarrow> 0 \<le> bitSize \<Longrightarrow> bitSize \<le> 64 \<Longrightarrow> 0 < bits_of w bitSize \<and> bits_of w bitSize \<le> 64"
  by (auto simp: bits_of_def)

lemma maxVal: "k \<le> 64 \<Longrightarrow> (2 ^ k mod two64 + (two64 - 1)) mod two64 = 2 ^ k - 1"
proof (cases "k = 64")
  case False
  assume "k \<le> 64"
  then have "(2 :: nat) ^ k < 2 ^ 64" using False by (intro power_strict_increasing) auto
  moreover have "(2 :: nat) ^ k + (two64 - 1) = two64 + (2 ^ k - 1)" by (simp add: two64_def)
  ultimately have "(2 ^ k mod two64 + (two64 - 1)) mod two64 = (two64 + (2 ^ k - 1)) mod two64"
    by (simp add: two64_def add.commute)
  also have "\<dots> = 2 ^ k - 1" using \<open>2 ^ k < 2 ^ 64\<close> unfolding mod_add_self1 two64_def by (intro mod_less) linarith
  finally show ?thesis .
qed (simp add: two64_def)

lemma ParseUint_loop:
  assumes "s \<noteq> []" "2 \<le> base" "base \<le> 36" "word_size w" "0 \<le> bitSize" "bitSize \<le> 64"
  shows "ParseUint w s base bitSize =
    (case parse_loop False (nat base) (cutoff_of (nat base)) (2 ^ bits_of w bitSize - 1) s False 0 of
       Inl (v, e) \<Rightarrow> (v, Some \<lparr>ne_Func = ''ParseUint'', ne_Num = s, ne_Err = e\<rparr>)
     | Inr (n, us) \<Rightarrow> if us \<and> \<not> underscoreOK s then (0, Some (syntaxError ''ParseUint'' s)) else (n, None))"
  using assms maxVal [of "bits_of w bitSize"] bits_of [OF assms(4-6)] unfolding ParseUint_def Let_def
  by (simp add: bits_of_def [symmetric] cutoff_of_def [symmetric] not_less del: One_nat_def Suc_eq_plus1)

lemma ParseUint_digits:
  assumes "s \<noteq> []" "2 \<le> base" "base \<le> 36" "word_size w" "0 \<le> bitSize" "bitSize \<le> 64"
    and "digit_vals (nat base) s = Some ds"
  shows "ParseUint w s base bitSize =
    (let m = 2 ^ bits_of w bitSize - 1 in
     if value_from (nat base) 0 ds \<le> m then (value_from (nat base) 0 ds, None) else (m, Some (rangeError ''ParseUint'' s)))"
proof -
  let ?m = "2 ^ bits_of w bitSize - 1 :: nat"
  have "(2 :: nat) ^ bits_of w bitSize \<le> 2 ^ 64" using bits_of [OF assms(4-6)] by (intro power_increasing) auto
  then have "?m < two64" unfolding two64_def by (simp add: Suc_le_eq less_le_trans [OF diff_less])
  then show ?thesis
    using ParseUint_loop [OF assms(1-6)] parse_loop_digits [of "nat base" ?m 0 s ds "[]" False] assms
    by (simp add: rangeError_def Let_def)
qed

lemma digit_vals_no_underscore: "digit_vals b s = Some ds \<Longrightarrow> 0x5F \<notin> set s"
  by (induction s arbitrary: ds) (auto simp: digit_val_def char_digit_def split: bind_splits)

lemma parse_loop_base0: "0x5F \<notin> set s \<Longrightarrow> parse_loop True b cutoff m s us n = parse_loop False b cutoff m s us n"
  by (induction s arbitrary: n) (auto simp: Let_def split: option.split)

lemma literal_base_range: "literal_base s = (b, t) \<Longrightarrow> 2 \<le> b \<and> b \<le> 36"
  by (auto simp: literal_base_def split: list.splits if_splits)

lemma ParseUint_meaning:
  assumes base: "base = 0 \<or> 2 \<le> base \<and> base \<le> 36" and size: "word_size w" "0 \<le> bitSize" "bitSize \<le> 64"
    and v: "meaning base s = Some v"
  shows "ParseUint w s base bitSize =
    (let m = 2 ^ bits_of w bitSize - 1 in if v \<le> m then (v, None) else (m, Some (rangeError ''ParseUint'' s)))"
proof (cases "base = 0")
  case False
  then show ?thesis
    using ParseUint_digits [of s base w bitSize] base size v by (auto simp: meaning_def split: if_splits)
next
  case True
  obtain b t where bt: "literal_base s = (b, t)" by fastforce
  then obtain ds where s: "s \<noteq> []" and ds: "digit_vals b t = Some ds" "v = value_from b 0 ds"
    using v True by (auto simp: meaning_def split: if_splits)
  have b: "2 \<le> b" "b \<le> 36" using literal_base_range [OF bt] by simp_all
  let ?m = "2 ^ bits_of w bitSize - 1 :: nat"
  have "(2 :: nat) ^ bits_of w bitSize \<le> 2 ^ 64" using bits_of [OF size] by (intro power_increasing) auto
  then have "?m < two64" unfolding two64_def by (simp add: Suc_le_eq less_le_trans [OF diff_less])
  then have "parse_loop True b (cutoff_of b) ?m t False 0 = (if v \<le> ?m then Inr (v, False) else Inl (?m, ErrRange))"
    using parse_loop_digits [OF b, of ?m 0 t ds "[]" False] parse_loop_base0 [OF digit_vals_no_underscore [OF ds(1)]] ds by simp
  moreover have "ParseUint w s base bitSize =
    (case parse_loop True b (cutoff_of b) ?m t False 0 of
       Inl (v, e) \<Rightarrow> (v, Some \<lparr>ne_Func = ''ParseUint'', ne_Num = s, ne_Err = e\<rparr>)
     | Inr (n, us) \<Rightarrow> if us \<and> \<not> underscoreOK s then (0, Some (syntaxError ''ParseUint'' s)) else (n, None))"
    using s True size maxVal [of "bits_of w bitSize"] bits_of [OF size] implied_base_literal [OF s] bt unfolding ParseUint_def Let_def
    by (simp add: bits_of_def [symmetric] cutoff_of_def [symmetric] not_less del: One_nat_def Suc_eq_plus1)
  ultimately show ?thesis by (simp add: rangeError_def Let_def)
qed

lemma ParseUint_bad:
  assumes "2 \<le> base" "base \<le> 36" "word_size w" "0 \<le> bitSize" "bitSize \<le> 64"
    and "digit_vals (nat base) p = Some ds" "digit_val (nat base) c = None"
  shows "ParseUint w (p @ c # rest) base bitSize =
    (let m = 2 ^ bits_of w bitSize - 1 in
     if value_from (nat base) 0 ds \<le> m then (0, Some (syntaxError ''ParseUint'' (p @ c # rest)))
     else (m, Some (rangeError ''ParseUint'' (p @ c # rest))))"
proof -
  let ?m = "2 ^ bits_of w bitSize - 1 :: nat" and ?b = "nat base"
  have "(2 :: nat) ^ bits_of w bitSize \<le> 2 ^ 64" using bits_of [OF assms(3-5)] by (intro power_increasing) auto
  then have m: "?m < two64" unfolding two64_def by (simp add: Suc_le_eq less_le_trans [OF diff_less])
  have b: "2 \<le> ?b" "?b \<le> 36" using assms(1,2) by simp_all
  show ?thesis
    using ParseUint_loop [of "p @ c # rest", OF _ assms(1-5)] parse_loop_digits [OF b m, of 0 p ds "c # rest" False]
      parse_loop_Cons [OF b _ m, of "value_from ?b 0 ds" c rest False] assms(6,7)
    by (simp add: rangeError_def syntaxError_def Let_def)
qed

subsection \<open>ParseInt\<close>

lemma int64_small: "u < 2 ^ 63 \<Longrightarrow> int64 u = int u"
  by (simp add: int64_def signed_take_bit_int_eq_self)

lemma int64_top: "int64 (2 ^ 63) = - (2 ^ 63)"
  by (simp add: int64_def signed_take_bit_eq_if_negative)

lemma signed_range_eq:
  assumes k: "k = bits_of w bitSize" "0 < k" "k \<le> 64" "0 \<le> bitSize"
  shows "signed_range w s0 neg un bitSize =
    (if neg then (if un \<le> 2 ^ (k - 1) then (- int un, None) else (- (2 ^ (k - 1)), Some (rangeError ''ParseInt'' s0)))
     else (if un < 2 ^ (k - 1) then (int un, None) else (2 ^ (k - 1) - 1, Some (rangeError ''ParseInt'' s0))))"
proof -
  let ?c = "2 ^ (k - 1) :: nat"
  have c: "?c \<le> 2 ^ 63" using k(3) by (intro power_increasing) auto
  have e: "2 ^ nat ((if bitSize = 0 then int w else bitSize) - 1) mod two64 = ?c"
  proof -
    have "nat ((if bitSize = 0 then int w else bitSize) - 1) = k - 1" using k by (auto simp: bits_of_def)
    moreover have "?c < two64" using c by (simp add: two64_def)
    ultimately show ?thesis by simp
  qed
  have neg: "signed_take_bit 63 (- int64 u) = - int u" if "u \<le> 2 ^ 63" for u
    using that by (cases "u = 2 ^ 63") (simp_all add: int64_top [simplified] int64_small signed_take_bit_int_eq_self signed_take_bit_eq_if_negative)
  have "int64 (?c - 1) = 2 ^ (k - 1) - 1" using c by (subst int64_small) (simp_all add: of_nat_diff Suc_le_eq)
  then show ?thesis
    unfolding signed_range_def Let_def e using c neg [of ?c] neg [of un] int64_small [of un] by (auto simp: not_le not_less)
qed

lemma ParseInt_split:
  assumes "s \<noteq> []"
  defines "neg \<equiv> s ! 0 = 0x2D" and "t \<equiv> if s ! 0 = 0x2B \<or> s ! 0 = 0x2D then drop 1 s else s"
  shows "ParseInt w s base bitSize =
    (case ParseUint w t base bitSize of
       (un, None) \<Rightarrow> signed_range w s neg un bitSize
     | (un, Some e) \<Rightarrow> if ne_Err e = ErrRange then signed_range w s neg un bitSize
                      else (0, Some (e\<lparr>ne_Func := ''ParseInt'', ne_Num := s\<rparr>)))"
  using assms(1) by (auto simp: ParseInt_def Let_def neg_def t_def split: prod.split option.split)

text \<open>
  The value for a number after an optional sign. For a single bit the largest unsigned value equals the
  cutoff, and the error of a negative number out of range is lost.
\<close>

lemma ParseInt_value:
  assumes s: "s \<noteq> []" "t = (if s ! 0 = 0x2B \<or> s ! 0 = 0x2D then drop 1 s else s)"
    and size: "k = bits_of w bitSize" "0 < k" "k \<le> 64" "0 \<le> bitSize" and one: "k \<noteq> 1 \<or> v \<le> 1 \<or> s ! 0 \<noteq> 0x2D"
    and t: "ParseUint w t base bitSize =
      (let m = 2 ^ k - 1 in if v \<le> m then (v, None) else (m, Some (rangeError ''ParseUint'' t)))"
  shows "ParseInt w s base bitSize =
    (if s ! 0 = 0x2D
     then (if v \<le> 2 ^ (k - 1) then (- int v, None) else (- (2 ^ (k - 1)), Some (rangeError ''ParseInt'' s)))
     else (if v < 2 ^ (k - 1) then (int v, None) else (2 ^ (k - 1) - 1, Some (rangeError ''ParseInt'' s))))"
proof -
  note r = signed_range_eq [OF size]
  obtain j where j: "k = Suc j" using size(2) by (cases k) auto
  have p: "(2 :: nat) ^ k = 2 * 2 ^ (k - 1)" "(1 :: nat) \<le> 2 ^ (k - 1)" unfolding j by simp_all
  have two: "(2 :: nat) \<le> 2 ^ (k - 1)" if k1: "k \<noteq> 1"
  proof -
    obtain i where "j = Suc i" using k1 j by (cases j) auto
    then show ?thesis unfolding j by simp
  qed
  show ?thesis
    unfolding ParseInt_split [OF s(1)] s(2) [symmetric] t Let_def
    using p two one by (cases "k = 1") (auto simp: r rangeError_def)
qed

lemma ParseInt_digits:
  assumes s: "s \<noteq> []" "t \<noteq> []" "t = (if s ! 0 = 0x2B \<or> s ! 0 = 0x2D then drop 1 s else s)"
    and a: "2 \<le> base" "base \<le> 36" "word_size w" "0 \<le> bitSize" "bitSize \<le> 64" "bitSize \<noteq> 1"
    and ds: "digit_vals (nat base) t = Some ds"
  shows "ParseInt w s base bitSize =
    (let k = bits_of w bitSize; v = value_from (nat base) 0 ds in
     if s ! 0 = 0x2D
     then (if v \<le> 2 ^ (k - 1) then (- int v, None) else (- (2 ^ (k - 1)), Some (rangeError ''ParseInt'' s)))
     else (if v < 2 ^ (k - 1) then (int v, None) else (2 ^ (k - 1) - 1, Some (rangeError ''ParseInt'' s))))"
proof -
  have k: "0 < bits_of w bitSize" "bits_of w bitSize \<le> 64" "bits_of w bitSize \<noteq> 1"
    using a bits_of [OF a(3-5)] by (auto simp: bits_of_def)
  show ?thesis
    unfolding Let_def
    by (rule ParseInt_value [OF s(1,3) refl k(1,2) a(4) _ ParseUint_digits [OF s(2) a(1-5) ds]]) (use k(3) in blast)
qed

subsection \<open>Parsing what was formatted\<close>

lemma digit_digits: "d < 36 \<Longrightarrow> digit_of (digits ! d) = Some (of_nat d) \<and> digits ! d \<noteq> 0x2D \<and> digits ! d \<noteq> 0x2B"
proof -
  have "list_all (\<lambda>d. digit_of (digits ! d) = Some (of_nat d) \<and> digits ! d \<noteq> 0x2D \<and> digits ! d \<noteq> 0x2B) [0..<36]"
    by (simp add: upt_rec digits_def bytes_def digit_of_def is_digit_def lower_def)
  then show "d < 36 \<Longrightarrow> ?thesis" by (simp add: list_all_iff)
qed

lemma ndigits_less: "2 \<le> b \<Longrightarrow> d \<in> set (ndigits b n) \<Longrightarrow> d < b"
proof (induction n rule: less_induct)
  case (less n)
  then show ?case using less.IH [of "n div b"] by (cases "n < b") (auto simp: ndigits.simps [of b n])
qed

lemma digit_vals_map: "b \<le> 36 \<Longrightarrow> \<forall>d\<in>set ds. d < b \<Longrightarrow> digit_vals b (map (\<lambda>d. digits ! d) ds) = Some ds"
  by (induction ds) (auto simp: digit_val_code digit_digits unat_of_nat)

lemma digit_vals_text: "2 \<le> b \<Longrightarrow> b \<le> 36 \<Longrightarrow> digit_vals b (text_of b n) = Some (ndigits b n)"
  unfolding text_of_def using ndigits_less by (intro digit_vals_map) blast+

lemma value_ndigits: "2 \<le> b \<Longrightarrow> value_from b 0 (ndigits b n) = n"
proof (induction n rule: less_induct)
  case (less n)
  then show ?case by (cases "n < b") (simp_all add: ndigits.simps [of b n])
qed

lemma text_of_nonempty: "text_of b n \<noteq> []"
  by (simp add: text_of_def ndigits.simps [of b n])

lemma text_of_hd: "2 \<le> b \<Longrightarrow> b \<le> 36 \<Longrightarrow> text_of b n ! 0 \<noteq> 0x2D \<and> text_of b n ! 0 \<noteq> 0x2B"
proof -
  assume b: "2 \<le> b" "b \<le> 36"
  have ne: "ndigits b n \<noteq> []" by (simp add: ndigits.simps [of b n])
  then have "ndigits b n ! 0 < b" using ndigits_less [OF b(1), of "ndigits b n ! 0" n] by simp
  then show ?thesis using digit_digits [of "ndigits b n ! 0"] ne b(2) by (simp add: text_of_def)
qed

subsection \<open>Atoi\<close>

lemma digit_val_10: "digit_val 10 c = (if c - 0x30 > 9 then None else Some (unat (c - 0x30)))"
proof (cases "is_digit c")
  case True
  then show ?thesis
    by (auto simp: digit_val_code digit_of_def is_digit_def word_le_nat_alt word_less_nat_alt unat_sub_if_size word_size)
next
  case False
  have "unat c < 256" using unsigned_less [of c, where ?'a = nat] by simp
  then have "c - 0x30 > 9"
    using False by (auto simp: is_digit_def word_le_nat_alt word_less_nat_alt unat_sub_if_size word_size not_le)
  moreover have "\<not> unat (lower c - 0x61 + 10) < 10" if "0x61 \<le> lower c" "lower c \<le> 0x7A"
  proof -
    have "unat (lower c - 0x61) = unat (lower c) - 97" "unat (lower c) \<le> 122"
      using that by (simp_all add: word_le_nat_alt unat_sub)
    then have "unat (lower c - 0x61 + 10) = unat (lower c) - 97 + 10" by (subst unat_word_ariths) simp
    then show ?thesis by simp
  qed
  ultimately show ?thesis using False by (auto simp: digit_val_code digit_of_def)
qed

lemma digit_vals_None:
  "digit_vals b s = None \<Longrightarrow> \<exists>p c rest ds. s = p @ c # rest \<and> digit_vals b p = Some ds \<and> digit_val b c = None"
proof (induction s)
  case (Cons c s)
  show ?case
  proof (cases "digit_val b c")
    case None
    then have "c # s = [] @ c # s \<and> digit_vals b [] = Some [] \<and> digit_val b c = None" by simp
    then show ?thesis by blast
  next
    case (Some d)
    then obtain p c' rest ds where "s = p @ c' # rest" "digit_vals b p = Some ds" "digit_val b c' = None"
      using Cons by (auto split: bind_splits)
    then have "c # s = (c # p) @ c' # rest \<and> digit_vals b (c # p) = Some (d # ds) \<and> digit_val b c' = None" using Some by simp
    then show ?thesis by blast
  qed
qed simp

lemma digit_vals_bound: "digit_vals b s = Some ds \<Longrightarrow> value_from b n ds < (n + 1) * b ^ length s"
proof (induction s arbitrary: n ds)
  case (Cons c s)
  then obtain d ds' where d: "digit_val b c = Some d" "digit_vals b s = Some ds'" "ds = d # ds'" by (auto split: bind_splits)
  have "d + 1 \<le> b" using d(1) by (auto simp: digit_val_def split: option.splits if_splits)
  then have "(n * b + d + 1) * b ^ length s \<le> (n + 1) * b * b ^ length s" by (intro mult_le_mono1) simp
  then show ?case using Cons.IH [OF d(2), of "n * b + d"] d(3) by (simp add: algebra_simps)
qed simp

lemma int_of_id: "0 < w \<Longrightarrow> - (2 ^ (w - 1)) \<le> i \<Longrightarrow> i < 2 ^ (w - 1) \<Longrightarrow> int_of w i = i"
  by (simp add: int_of_def signed_take_bit_int_eq_self)

lemma int_of_nonneg: "0 < w \<Longrightarrow> 0 \<le> i \<Longrightarrow> i < 2 ^ (w - 1) \<Longrightarrow> int_of w i = i"
  by (rule int_of_id) (auto intro: order_trans [of _ 0])

lemma atoi_loop_digits:
  assumes w: "0 < w"
  shows "(n + 1) * 10 ^ length s \<le> 2 ^ (w - 1) \<Longrightarrow>
    atoi_loop w s (int n) = map_option (\<lambda>ds. int (value_from 10 n ds)) (digit_vals 10 s)"
proof (induction s arbitrary: n)
  case (Cons c s)
  show ?case
  proof (cases "c - 0x30 > 9")
    case True
    then show ?thesis by (simp add: digit_val_10 Let_def)
  next
    case False
    define d where "d = unat (c - 0x30)"
    have "d \<le> 9" using False by (simp add: d_def word_less_nat_alt not_less)
    then have "(n * 10 + d + 1) * 10 ^ length s \<le> (n + 1) * 10 * 10 ^ length s" by (intro mult_le_mono1) simp
    also have "\<dots> \<le> 2 ^ (w - 1)" using Cons.prems by (simp add: algebra_simps)
    finally have le: "(n * 10 + d + 1) * 10 ^ length s \<le> 2 ^ (w - 1)" .
    have "n * 10 + d < (n * 10 + d + 1) * 10 ^ length s" by (rule less_le_trans [of _ "(n * 10 + d + 1) * 1"]) (simp, rule mult_le_mono2, simp)
    then have "n * 10 + d < 2 ^ (w - 1)" using le by (rule less_le_trans)
    then have "int (n * 10 + d) < int (2 ^ (w - 1))" by (simp only: of_nat_less_iff)
    then have "int_of w (int n * 10 + uint (c - 0x30)) = int (n * 10 + d)"
      using w by (subst int_of_nonneg) (simp_all add: d_def)
    then show ?thesis using False Cons.IH [OF le] by (simp add: digit_val_10 Let_def d_def [symmetric] map_option_case split: option.split)
  qed
qed simp

lemma short_digits:
  assumes "w = 32 \<and> n < 10 \<or> w = 64 \<and> n < 19"
  shows "(10 :: nat) ^ n \<le> 2 ^ (w - 1)" "(10 :: nat) ^ n \<le> 2 ^ w - 1"
proof -
  have "n \<le> k \<Longrightarrow> (10 :: nat) ^ n \<le> 10 ^ k" for k by (rule power_increasing) simp_all
  from this [of 9] this [of 18] show "(10 :: nat) ^ n \<le> 2 ^ (w - 1)" "(10 :: nat) ^ n \<le> 2 ^ w - 1"
    using assms by auto
qed

lemma ParseInt_short_bad:
  assumes s: "s \<noteq> []" "t = (if s ! 0 = 0x2B \<or> s ! 0 = 0x2D then drop 1 s else s)"
    and w: "word_size w" "w = 32 \<and> length s < 10 \<or> w = 64 \<and> length s < 19"
    and bad: "t = [] \<or> digit_vals 10 t = None"
  shows "ParseInt w s 10 0 = (0, Some \<lparr>ne_Func = ''ParseInt'', ne_Num = s, ne_Err = ErrSyntax\<rparr>)"
proof (cases "t = []")
  case True
  then show ?thesis unfolding ParseInt_split [OF s(1)] s(2) [symmetric] by (simp add: ParseUint_def Let_def syntaxError_def)
next
  case False
  then obtain p c rest ds where p: "t = p @ c # rest" "digit_vals 10 p = Some ds" "digit_val 10 c = None"
    using bad digit_vals_None by blast
  have "length t \<le> length s" using s(2) by simp
  then have "length p < length s" using p(1) by simp
  then have "(10 :: nat) ^ length p \<le> 2 ^ w - 1" using w(2) by (intro short_digits) auto
  then have "value_from 10 0 ds \<le> 2 ^ bits_of w 0 - 1"
    using digit_vals_bound [OF p(2), of 0] by (simp add: bits_of_def)
  then show ?thesis
    unfolding ParseInt_split [OF s(1)] s(2) [symmetric] p(1)
    using ParseUint_bad [of 10 w 0 p ds c rest] w(1) p(2,3) by (simp add: syntaxError_def Let_def)
qed

lemma signed_range_bounds:
  assumes "k = bits_of w bitSize" "0 < k" "k \<le> 64" "0 \<le> bitSize"
  shows "- (2 ^ (k - 1)) \<le> fst (signed_range w s0 neg un bitSize) \<and> fst (signed_range w s0 neg un bitSize) < 2 ^ (k - 1)"
proof -
  define c P where "c = (2 :: nat) ^ (k - 1)" and "P = (2 :: int) ^ (k - 1)"
  have "int c = P" "0 < P" by (simp_all add: c_def P_def)
  then show ?thesis unfolding signed_range_eq [OF assms] P_def [symmetric] c_def [symmetric] by auto
qed

lemma ParseInt_bounds:
  assumes "word_size w"
  shows "- (2 ^ (w - 1)) \<le> fst (ParseInt w s 10 0) \<and> fst (ParseInt w s 10 0) < 2 ^ (w - 1)"
proof (cases "s = []")
  case False
  have "w = bits_of w 0" "0 < w" "w \<le> 64" using assms by (auto simp: bits_of_def)
  from signed_range_bounds [OF this, of s] show ?thesis
    unfolding ParseInt_split [OF False] by (auto split: prod.split option.split)
qed (simp add: ParseInt_def)

lemma Atoi_short:
  assumes w: "w = 32 \<and> 0 < length s \<and> length s < 10 \<or> w = 64 \<and> 0 < length s \<and> length s < 19"
    and t: "t = (if s ! 0 = 0x2B \<or> s ! 0 = 0x2D then drop 1 s else s)"
  shows "Atoi w s = (if t = [] \<or> digit_vals 10 t = None then (0, Some \<lparr>ne_Func = ''Atoi'', ne_Num = s, ne_Err = ErrSyntax\<rparr>)
     else let v = int (value_from 10 0 (the (digit_vals 10 t))) in (if s ! 0 = 0x2D then - v else v, None))"
proof -
  have "s \<noteq> []" "length t \<le> length s" using w t by auto
  then have pow: "(10 :: nat) ^ length t \<le> 2 ^ (w - 1)" using w by (intro short_digits) auto
  have w0: "0 < w" using w by auto
  have loop: "atoi_loop w t 0 = map_option (\<lambda>ds. int (value_from 10 0 ds)) (digit_vals 10 t)"
    using atoi_loop_digits [OF w0, of 0 t] pow by simp
  have neg: "int_of w (- int (value_from 10 0 ds)) = - int (value_from 10 0 ds)" if "digit_vals 10 t = Some ds" for ds
  proof -
    have "value_from 10 0 ds \<le> 2 ^ (w - 1)" using digit_vals_bound [OF that, of 0] pow by simp
    then have "int (value_from 10 0 ds) \<le> int (2 ^ (w - 1))" by (simp only: of_nat_le_iff)
    then show ?thesis using w0 by (intro int_of_id) (simp_all add: le_less_trans [of "- int (value_from 10 0 ds)" 0])
  qed
  have "Atoi w s = (if t = [] then (0, Some \<lparr>ne_Func = ''Atoi'', ne_Num = s, ne_Err = ErrSyntax\<rparr>)
     else case atoi_loop w t 0 of None \<Rightarrow> (0, Some \<lparr>ne_Func = ''Atoi'', ne_Num = s, ne_Err = ErrSyntax\<rparr>)
        | Some n \<Rightarrow> (if s ! 0 = 0x2D then int_of w (- n) else n, None))"
    unfolding Atoi_def Let_def if_P [OF w] using \<open>s \<noteq> []\<close> by (simp add: t disj_commute)
  then show ?thesis by (cases "digit_vals 10 t") (simp_all add: loop neg Let_def)
qed

lemma Atoi_ParseInt:
  assumes w: "word_size w"
  shows "Atoi w s = (case ParseInt w s 10 0 of (i, e) \<Rightarrow> (i, map_option (\<lambda>e. e\<lparr>ne_Func := ''Atoi''\<rparr>) e))"
proof (cases "w = 32 \<and> 0 < length s \<and> length s < 10 \<or> w = 64 \<and> 0 < length s \<and> length s < 19")
  case True
  define t where "t = (if s ! 0 = 0x2B \<or> s ! 0 = 0x2D then drop 1 s else s)"
  have s: "s \<noteq> []" and len: "w = 32 \<and> length s < 10 \<or> w = 64 \<and> length s < 19" using True by auto
  note short = Atoi_short [OF True t_def]
  show ?thesis
  proof (cases "t = [] \<or> digit_vals 10 t = None")
    case bad: True
    then show ?thesis using short ParseInt_short_bad [OF s t_def w len bad] by simp
  next
    case False
    then obtain ds where t: "t \<noteq> []" "digit_vals 10 t = Some ds" by auto
    have "length t \<le> length s" by (simp add: t_def)
    then have "(10 :: nat) ^ length t \<le> 2 ^ (w - 1)" using len by (intro short_digits) auto
    then have "value_from 10 0 ds < 2 ^ (w - 1)" using digit_vals_bound [OF t(2), of 0] by simp
    then show ?thesis
      using short t ParseInt_digits [OF s t(1) t_def, of 10 w 0 ds] w by (simp add: Let_def bits_of_def)
  qed
next
  case False
  obtain i e where p: "ParseInt w s 10 0 = (i, e)" by force
  have "int_of w i = i" using ParseInt_bounds [OF w, of s] w p by (intro int_of_id) auto
  then show ?thesis unfolding Atoi_def Let_def if_not_P [OF False] p by (cases e) simp_all
qed

end
