(* ===== verification/Strconv_Props.thy ===== *)
theory Strconv_Props
  imports Strconv_Parse
begin

section \<open>Properties of strconv\<close>

text \<open>
  The theorems about the conversions of integers: formatting, parsing, that each inverts the other,
  and the agreement of the fast path of \<open>Atoi\<close> with \<open>ParseInt\<close>.
\<close>

lemma small_text: "n < 100 \<Longrightarrow> small n = text_of 10 n"
proof -
  assume n: "n < 100"
  show ?thesis
  proof (cases "n < 10")
    case True
    moreover have "n < length digits" using True by (simp add: digits_def bytes_def)
    ultimately show ?thesis by (simp add: small_def text_of_small take_Suc hd_drop_conv_nth)
  next
    case False
    have l: "n * 2 + 1 < length smallsString" using n by (simp add: smallsString_def bytes_def)
    then have "take 2 (drop (n * 2) smallsString) = [smallsString ! (n * 2), smallsString ! (n * 2 + 1)]"
      by (simp add: numeral_2_eq_2 take_Suc_conv_app_nth)
    then show ?thesis
      using False n smalls_digits [OF n] text_of_step [of 10 n] by (simp add: small_def text_of_small)
  qed
qed

lemma FormatInt_text:
  assumes "word_size w" "2 \<le> base" "base \<le> 36" "- (2 ^ 63) \<le> i" "i < 2 ^ 63"
  shows "FormatInt w i base = Some (signed_text (nat base) i)"
  using formatBits_text [OF assms(1-4), of "[]" False] assms small_text [of "nat i"]
  by (auto simp: FormatInt_def signed_text_def)

lemma FormatUint_text:
  assumes "word_size w" "2 \<le> base" "base \<le> 36" "u < 2 ^ 64"
  shows "FormatUint w u base = Some (text_of (nat base) u)"
proof -
  have "uint64_of (int u) = u" using assms(4) by (simp add: uint64_of_def two64_def)
  then show ?thesis
    using formatBits_text [OF assms(1-3), of "int u" "[]" False] assms(4) small_text [of u]
    by (auto simp: FormatUint_def signed_text_def)
qed

lemma AppendUint_text:
  assumes "word_size w" "2 \<le> base" "base \<le> 36" "u < 2 ^ 64"
  shows "AppendUint w dst u base = Some (dst @ text_of (nat base) u)"
proof -
  have "uint64_of (int u) = u" using assms(4) by (simp add: uint64_of_def two64_def)
  then show ?thesis
    using formatBits_text [OF assms(1-3), of "int u" dst True] assms(4) small_text [of u]
    by (auto simp: AppendUint_def signed_text_def)
qed

text \<open>The digits as characters, without the table of the code.\<close>

definition digit_char :: "nat \<Rightarrow> byte" where
  "digit_char d = (if d < 10 then 0x30 + of_nat d else 0x61 + of_nat (d - 10))"

lemma digits_char: "d < 36 \<Longrightarrow> digits ! d = digit_char d"
proof -
  have "list_all (\<lambda>d. digits ! d = digit_char d) [0..<36]"
    by (simp add: upt_rec digits_def bytes_def digit_char_def)
  then show "d < 36 \<Longrightarrow> ?thesis" by (simp add: list_all_iff)
qed

lemma text_of_chars: "2 \<le> b \<Longrightarrow> b \<le> 36 \<Longrightarrow> text_of b n = map digit_char (ndigits b n)"
  unfolding text_of_def using ndigits_less [of b _ n] by (intro map_cong) (auto intro!: digits_char intro: less_le_trans)

lemma ParseUint_text:
  assumes "2 \<le> base" "base \<le> 36" "word_size w" "u < 2 ^ 64"
  shows "ParseUint w (text_of (nat base) u) base 64 = (u, None)"
  using ParseUint_digits [OF text_of_nonempty assms(1-3), of 64 "nat base" u "ndigits (nat base) u"]
    digit_vals_text [of "nat base" u] value_ndigits [of "nat base" u] assms by (simp add: bits_of_def Let_def)

lemma ParseInt_text:
  assumes "2 \<le> base" "base \<le> 36" "word_size w" "0 \<le> bitSize" "bitSize \<le> 64" "bitSize \<noteq> 1"
    and i: "- (2 ^ (bits_of w bitSize - 1)) \<le> i" "i < 2 ^ (bits_of w bitSize - 1)"
  shows "ParseInt w (signed_text (nat base) i) base bitSize = (i, None)"
proof -
  let ?b = "nat base" and ?u = "nat \<bar>i\<bar>"
  have b: "2 \<le> ?b" "?b \<le> 36" using assms(1,2) by simp_all
  have t: "signed_text ?b i = (if i < 0 then 0x2D # text_of ?b ?u else text_of ?b ?u)" by (simp add: signed_text_def)
  have hd: "signed_text ?b i ! 0 = 0x2D \<longleftrightarrow> i < 0" "signed_text ?b i ! 0 \<noteq> 0x2B"
    unfolding t using text_of_hd [OF b, of ?u] by auto
  have tl: "text_of ?b ?u = (if signed_text ?b i ! 0 = 0x2B \<or> signed_text ?b i ! 0 = 0x2D then drop 1 (signed_text ?b i) else signed_text ?b i)"
    using hd by (auto simp: t)
  define c where "c = (2 :: nat) ^ (bits_of w bitSize - 1)"
  have "int c = 2 ^ (bits_of w bitSize - 1)" by (simp add: c_def)
  then have "i < 0 \<Longrightarrow> ?u \<le> c" "\<not> i < 0 \<Longrightarrow> ?u < c" using i by (auto simp: nat_le_iff nat_less_iff)
  then show ?thesis
    using ParseInt_digits [OF _ text_of_nonempty tl assms(1-6) digit_vals_text [OF b]] text_of_nonempty [of ?b ?u]
    unfolding value_ndigits [OF b(1)] Let_def hd c_def [symmetric] by (auto simp: t)
qed

text \<open>
  C21. \<open>FormatInt\<close> of every \<open>int64\<close> and \<open>FormatUint\<close> of every \<open>uint64\<close>, with their three algorithms
  (table lookup two digits at a time, shifts, division) and the fast path for small numbers, return the
  positional notation of the number in every base from 2 to 36, with the digits \<open>0\<close> to \<open>9\<close> and \<open>a\<close> to \<open>z\<close>
  and a minus sign for negative numbers, on 32-bit and 64-bit machines, and never leave the buffer of
  65 bytes; \<open>AppendInt\<close> and \<open>AppendUint\<close> append the same text; for any other base they panic.
\<close>

theorem format_correct:
  "(word_size w \<and> 2 \<le> base \<and> base \<le> 36 \<and> - (2 ^ 63) \<le> i \<and> i < 2 ^ 63 \<and> u < 2 ^ 64 \<longrightarrow>
     (let text = (\<lambda>n. map digit_char (ndigits (nat base) n));
          signed = (if i < 0 then 0x2D # text (nat (- i)) else text (nat i)) in
      FormatInt w i base = Some signed \<and> AppendInt w dst i base = Some (dst @ signed) \<and>
      FormatUint w u base = Some (text u) \<and> AppendUint w dst u base = Some (dst @ text u))) \<and>
   (base < 2 \<or> 36 < base \<longrightarrow> FormatInt w i base = None \<and> FormatUint w u base = None \<and>
      AppendInt w dst i base = None \<and> AppendUint w dst u base = None)"
proof (intro impI conjI)
  assume a: "word_size w \<and> 2 \<le> base \<and> base \<le> 36 \<and> - (2 ^ 63) \<le> i \<and> i < 2 ^ 63 \<and> u < 2 ^ 64"
  then have t: "map digit_char (ndigits (nat base) n) = text_of (nat base) n" for n
    by (intro text_of_chars [symmetric]) auto
  have signed: "(if i < 0 then 0x2D # text_of (nat base) (nat (- i)) else text_of (nat base) (nat i)) = signed_text (nat base) i"
    by (simp add: signed_text_def)
  have "FormatInt w i base = Some (signed_text (nat base) i)" using a by (intro FormatInt_text) auto
  moreover have "AppendInt w dst i base = Some (dst @ signed_text (nat base) i)"
    using a formatBits_text [of w base i dst True] small_text [of "nat i"] by (auto simp: AppendInt_def signed_text_def)
  moreover have "FormatUint w u base = Some (text_of (nat base) u)" using a by (intro FormatUint_text) auto
  moreover have "AppendUint w dst u base = Some (dst @ text_of (nat base) u)" using a by (intro AppendUint_text) auto
  ultimately show "let text = (\<lambda>n. map digit_char (ndigits (nat base) n));
          signed = (if i < 0 then 0x2D # text (nat (- i)) else text (nat i)) in
      FormatInt w i base = Some signed \<and> AppendInt w dst i base = Some (dst @ signed) \<and>
      FormatUint w u base = Some (text u) \<and> AppendUint w dst u base = Some (dst @ text u)"
    unfolding Let_def t signed by blast
qed (auto simp: FormatInt_def FormatUint_def AppendInt_def AppendUint_def formatBits_def digits_def bytes_def)

theorem format_correct_witness:
  "FormatInt 64 (- 255) 16 = Some [0x2D, 0x66, 0x66] \<and> FormatUint 64 (2 ^ 64 - 1) 16 = 
     Some [0x66, 0x66, 0x66, 0x66, 0x66, 0x66, 0x66, 0x66, 0x66, 0x66, 0x66, 0x66, 0x66, 0x66, 0x66, 0x66]"
proof -
  have "ndigits 16 255 = [15, 15]" "ndigits 16 18446744073709551615 = [15, 15, 15, 15, 15, 15, 15, 15, 15, 15, 15, 15, 15, 15, 15, 15]"
    by (simp_all add: ndigits.simps)
  then show ?thesis
    using format_correct [of 64 16 "- 255" "2 ^ 64 - 1" "[]"] by (simp add: Let_def digit_char_def)
qed

text \<open>
  C22. \<open>ParseUint\<close> on 32-bit and 64-bit machines, for a base from 2 to 36, or base 0 and a number without
  underscores whose prefix gives the base: the value if it fits in the bit size, else the largest
  value and \<open>ErrRange\<close>. With a base from 2 to 36 the result is 0 and \<open>ErrSyntax\<close> at the first byte that is not a
  digit of the base, if the digits before it are in range. The empty string, a base other
  than 0 and 2 to 36 and a bit size outside 0 to 64 are errors.
\<close>

theorem ParseUint_correct:
  "word_size w \<and> (base = 0 \<or> 2 \<le> base \<and> base \<le> 36) \<and> 0 \<le> bitSize \<and> bitSize \<le> 64 \<longrightarrow>
     (let m = 2 ^ (if bitSize = 0 then w else nat bitSize) - 1 in
      (meaning base s = Some v \<longrightarrow>
        ParseUint w s base bitSize = (if v \<le> m then (v, None) else (m, Some (rangeError ''ParseUint'' s)))) \<and>
      (base \<noteq> 0 \<and> digit_vals (nat base) p = Some ds \<and> value_from (nat base) 0 ds \<le> m \<and> digit_val (nat base) c = None \<longrightarrow>
        ParseUint w (p @ c # rest) base bitSize = (0, Some (syntaxError ''ParseUint'' (p @ c # rest))))) \<and>
     ParseUint w [] base bitSize = (0, Some (syntaxError ''ParseUint'' [])) \<and>
     (base' \<noteq> 0 \<and> (base' < 2 \<or> 36 < base') \<longrightarrow>
        ParseUint w (c # rest) base' bitSize = (0, Some (baseError ''ParseUint'' (c # rest) base'))) \<and>
     (bitSize' < 0 \<or> 64 < bitSize' \<longrightarrow>
        ParseUint w (c # rest) base bitSize' = (0, Some (bitSizeError ''ParseUint'' (c # rest) bitSize')))"
proof (intro impI)
  assume a: "word_size w \<and> (base = 0 \<or> 2 \<le> base \<and> base \<le> 36) \<and> 0 \<le> bitSize \<and> bitSize \<le> 64"
  then have "ParseUint w (c # rest) base bitSize' = (0, Some (bitSizeError ''ParseUint'' (c # rest) bitSize'))"
    if "bitSize' < 0 \<or> 64 < bitSize'"
    using that by (auto simp: ParseUint_def Let_def split: prod.split)
  then show "(let m = 2 ^ (if bitSize = 0 then w else nat bitSize) - 1 in
      (meaning base s = Some v \<longrightarrow>
        ParseUint w s base bitSize = (if v \<le> m then (v, None) else (m, Some (rangeError ''ParseUint'' s)))) \<and>
      (base \<noteq> 0 \<and> digit_vals (nat base) p = Some ds \<and> value_from (nat base) 0 ds \<le> m \<and> digit_val (nat base) c = None \<longrightarrow>
        ParseUint w (p @ c # rest) base bitSize = (0, Some (syntaxError ''ParseUint'' (p @ c # rest))))) \<and>
     ParseUint w [] base bitSize = (0, Some (syntaxError ''ParseUint'' [])) \<and>
     (base' \<noteq> 0 \<and> (base' < 2 \<or> 36 < base') \<longrightarrow>
        ParseUint w (c # rest) base' bitSize = (0, Some (baseError ''ParseUint'' (c # rest) base'))) \<and>
     (bitSize' < 0 \<or> 64 < bitSize' \<longrightarrow>
        ParseUint w (c # rest) base bitSize' = (0, Some (bitSizeError ''ParseUint'' (c # rest) bitSize')))"
    using a ParseUint_meaning [of base w bitSize s v] ParseUint_bad [of base w bitSize p ds c rest]
    unfolding bits_of_def by (auto simp: Let_def ParseUint_def)
qed

theorem ParseUint_correct_witness:
  "ParseUint 64 [0x31, 0x32] 10 8 = (12, None) \<and> ParseUint 64 [0x39, 0x39, 0x39] 10 8 = (255, Some (rangeError ''ParseUint'' [0x39, 0x39, 0x39])) \<and>
   ParseUint 64 [0x30, 0x58, 0x31, 0x66] 0 8 = (31, None) \<and>
   ParseUint 64 [0x31, 0x78] 10 8 = (0, Some (syntaxError ''ParseUint'' [0x31, 0x78]))"
proof -
  have d: "meaning 10 [0x31, 0x32] = Some 12" "meaning 10 [0x39, 0x39, 0x39] = Some 999"
    "meaning 0 [0x30, 0x58, 0x31, 0x66] = Some 31" "digit_vals 10 [0x31] = Some [1]" "digit_val 10 0x78 = None"
    by code_simp+
  show ?thesis
    using ParseUint_correct [of 64 10 8 "[0x31, 0x32]" 12] ParseUint_correct [of 64 10 8 "[0x39, 0x39, 0x39]" 999]
      ParseUint_correct [of 64 0 8 "[0x30, 0x58, 0x31, 0x66]" 31]
      ParseUint_correct [of 64 10 8 "[]" 0 "[0x31]" "[1]" "0x78" "[]"] d by (simp add: Let_def)
qed

text \<open>
  C23. Round trip of numbers: what \<open>FormatUint\<close> and \<open>FormatInt\<close> print in any base is parsed back to
  the same number, and \<open>Atoi\<close> reads what \<open>Itoa\<close> prints for every \<open>int\<close> of the machine.
\<close>

theorem parse_format:
  "word_size w \<and> 2 \<le> base \<and> base \<le> 36 \<longrightarrow>
     (u < 2 ^ 64 \<longrightarrow> (\<exists>t. FormatUint w u base = Some t \<and> ParseUint w t base 64 = (u, None))) \<and>
     (- (2 ^ 63) \<le> i \<and> i < 2 ^ 63 \<longrightarrow> (\<exists>t. FormatInt w i base = Some t \<and> ParseInt w t base 64 = (i, None))) \<and>
     (- (2 ^ (w - 1)) \<le> j \<and> j < 2 ^ (w - 1) \<longrightarrow> (\<exists>t. Itoa w j = Some t \<and> Atoi w t = (j, None)))"
proof (intro impI conjI)
  assume a: "word_size w \<and> 2 \<le> base \<and> base \<le> 36"
  show "\<exists>t. FormatUint w u base = Some t \<and> ParseUint w t base 64 = (u, None)" if "u < 2 ^ 64"
    using a that FormatUint_text [of w base u] ParseUint_text [of base w u] by auto
  show "\<exists>t. FormatInt w i base = Some t \<and> ParseInt w t base 64 = (i, None)" if "- (2 ^ 63) \<le> i \<and> i < 2 ^ 63"
    using a that FormatInt_text [of w base i] ParseInt_text [of base w 64 i] by (auto simp: bits_of_def)
  show "\<exists>t. Itoa w j = Some t \<and> Atoi w t = (j, None)" if j: "- (2 ^ (w - 1)) \<le> j \<and> j < 2 ^ (w - 1)"
  proof -
    have "(2 :: int) ^ (w - 1) \<le> 2 ^ 63" using a by (intro power_increasing) auto
    then have "Itoa w j = Some (signed_text 10 j)" using a j FormatInt_text [of w 10 j] by (auto simp: Itoa_def)
    moreover have "ParseInt w (signed_text 10 j) 10 0 = (j, None)"
      using a j ParseInt_text [of 10 w 0 j] by (auto simp: bits_of_def)
    ultimately show ?thesis using a Atoi_ParseInt [of w "signed_text 10 j"] by simp
  qed
qed

theorem parse_format_witness: "\<exists>t. FormatInt 32 (- 7) 36 = Some t \<and> ParseInt 32 t 36 64 = (- 7, None)"
  using parse_format [of 32 36 0 "- 7" 0] by simp

lemma meaning_hd:
  assumes "meaning base s = Some v"
  shows "s \<noteq> []" and "s ! 0 \<noteq> 0x2B" and "s ! 0 \<noteq> 0x2D"
proof -
  show "s \<noteq> []" using assms by (auto simp: meaning_def split: prod.splits if_splits)
  then obtain z t where s: "s = z # t" by (cases s) auto
  have "digit_val b 0x2B = None" "digit_val b 0x2D = None" for b by (simp_all add: digit_val_def char_digit_def)
  moreover have "z = 0x30 \<or> (\<exists>b. digit_val b z \<noteq> None)"
    using assms unfolding s meaning_def literal_base_def by (auto split: if_splits list.splits bind_splits)
  ultimately show "s ! 0 \<noteq> 0x2B" and "s ! 0 \<noteq> 0x2D" unfolding s by (auto simp: nth_Cons_0)
qed

lemma ParseInt_meaning:
  assumes base: "base = 0 \<or> 2 \<le> base \<and> base \<le> 36" and size: "word_size w" "0 \<le> bitSize" "bitSize \<le> 64"
    and v: "meaning base s = Some v"
  defines "h \<equiv> 2 ^ ((if bitSize = 0 then w else nat bitSize) - 1)"
  shows "bitSize \<noteq> 1 \<or> v \<le> 1 \<Longrightarrow> ParseInt w (0x2D # s) base bitSize =
      (if v \<le> h then (- int v, None) else (- int h, Some (rangeError ''ParseInt'' (0x2D # s))))"
    and "t = s \<or> t = 0x2B # s \<Longrightarrow> ParseInt w t base bitSize =
      (if v < h then (int v, None) else (int h - 1, Some (rangeError ''ParseInt'' t)))"
proof -
  note k = bits_of [OF size]
  have one: "bits_of w bitSize = 1 \<Longrightarrow> bitSize = 1" using size by (auto simp: bits_of_def split: if_splits)
  note hd = meaning_hd [OF v]
  note r = ParseInt_value [OF _ _ refl conjunct1 [OF k] conjunct2 [OF k] size(2) _ ParseUint_meaning [OF base size v]]
  have h: "h = 2 ^ (bits_of w bitSize - 1)" by (simp add: h_def bits_of_def)
  show "bitSize \<noteq> 1 \<or> v \<le> 1 \<Longrightarrow> ParseInt w (0x2D # s) base bitSize =
      (if v \<le> h then (- int v, None) else (- int h, Some (rangeError ''ParseInt'' (0x2D # s))))"
    unfolding h using r [of "0x2D # s"] one by auto
  show "t = s \<or> t = 0x2B # s \<Longrightarrow> ParseInt w t base bitSize =
      (if v < h then (int v, None) else (int h - 1, Some (rangeError ''ParseInt'' t)))"
    unfolding h using r [of s] r [of "0x2B # s"] hd by auto
qed

text \<open>
  C24. \<open>ParseInt\<close> of an optional sign and a number, in a base from 2 to 36, or base 0 with a prefix and
  no underscores, on 32-bit and 64-bit machines: the value if it fits in a signed integer of the bit size,
  else the nearest bound and \<open>ErrRange\<close>. This is stated for all bit sizes from 0 to 64 but for numbers below -1
  with bit size 1. \<open>Atoi\<close>, whose fast path handles short strings without calling \<open>ParseInt\<close>, agrees with
  \<open>ParseInt\<close> in base 10 with the bit size of an \<open>int\<close> on every string, up to the function name in the error.
\<close>

theorem ParseInt_correct:
  "(word_size w \<and> (base = 0 \<or> 2 \<le> base \<and> base \<le> 36) \<and> 0 \<le> bitSize \<and> bitSize \<le> 64 \<and> meaning base s = Some v \<longrightarrow>
     (let h = 2 ^ ((if bitSize = 0 then w else nat bitSize) - 1) in
      (bitSize \<noteq> 1 \<or> v \<le> 1 \<longrightarrow> ParseInt w (0x2D # s) base bitSize =
        (if v \<le> h then (- int v, None) else (- int h, Some (rangeError ''ParseInt'' (0x2D # s))))) \<and>
      (\<forall>t \<in> {s, 0x2B # s}. ParseInt w t base bitSize =
        (if v < h then (int v, None) else (int h - 1, Some (rangeError ''ParseInt'' t)))))) \<and>
   (word_size w \<longrightarrow> Atoi w t = (case ParseInt w t 10 0 of (i, e) \<Rightarrow> (i, map_option (\<lambda>e. e\<lparr>ne_Func := ''Atoi''\<rparr>) e)))"
proof (intro conjI impI)
  assume "word_size w \<and> (base = 0 \<or> 2 \<le> base \<and> base \<le> 36) \<and> 0 \<le> bitSize \<and> bitSize \<le> 64 \<and> meaning base s = Some v"
  then show "let h = 2 ^ ((if bitSize = 0 then w else nat bitSize) - 1) in
      (bitSize \<noteq> 1 \<or> v \<le> 1 \<longrightarrow> ParseInt w (0x2D # s) base bitSize =
        (if v \<le> h then (- int v, None) else (- int h, Some (rangeError ''ParseInt'' (0x2D # s))))) \<and>
      (\<forall>t \<in> {s, 0x2B # s}. ParseInt w t base bitSize =
        (if v < h then (int v, None) else (int h - 1, Some (rangeError ''ParseInt'' t))))"
    using ParseInt_meaning [of base w bitSize s v] unfolding Let_def by blast
qed (rule Atoi_ParseInt)

theorem ParseInt_correct_witness:
  "ParseInt 64 [0x2D, 0x37] 10 8 = (- 7, None) \<and> ParseInt 64 [0x2B, 0x30, 0x31, 0x37] 0 0 = (15, None) \<and>
   ParseInt 64 [0x35] 10 1 = (0, Some (rangeError ''ParseInt'' [0x35])) \<and>
   Atoi 64 [0x2B, 0x37] = (case ParseInt 64 [0x2B, 0x37] 10 0 of (i, e) \<Rightarrow> (i, map_option (\<lambda>e. e\<lparr>ne_Func := ''Atoi''\<rparr>) e))"
proof -
  have "meaning 10 [0x37] = Some 7" "meaning 0 [0x30, 0x31, 0x37] = Some 15" "meaning 10 [0x35] = Some 5" by code_simp+
  then show ?thesis
    using ParseInt_correct [of 64 10 8 "[0x37]" 7 "[0x2B, 0x37]"] ParseInt_correct [of 64 0 0 "[0x30, 0x31, 0x37]" 15 "[]"]
      ParseInt_correct [of 64 10 1 "[0x35]" 5 "[]"] by (simp add: Let_def)
qed

text \<open>
  For a bit size of 1 a negative number that is out of range is returned without an error: the
  largest unsigned value 1 is not above the cutoff 1, so the range error of \<open>ParseUint\<close> is dropped.
\<close>

lemma ParseInt_one_bit: "ParseInt 64 [0x2D, 0x35] 10 1 = (- 1, None)"
proof -
  have "digit_vals 10 [0x35] = Some [5]" by code_simp
  then have "ParseUint 64 [0x35] 10 1 = (1, Some (rangeError ''ParseUint'' [0x35]))"
    using ParseUint_digits [of "[0x35]" 10 64 1 "[5]"] by (simp add: bits_of_def Let_def)
  then show ?thesis
    using ParseInt_split [of "[0x2D, 0x35]" 64 10 1] signed_range_eq [of 1 64 1 "[0x2D, 0x35]" True 1]
    by (simp add: rangeError_def bits_of_def)
qed

text \<open>The documentation promises \<open>ErrSyntax\<close> for invalid digits; after an overflow it is \<open>ErrRange\<close>.\<close>

lemma ParseUint_range_first: "ParseUint 64 [0x39, 0x39, 0x39, 0x78] 10 8 = (255, Some (rangeError ''ParseUint'' [0x39, 0x39, 0x39, 0x78]))"
proof -
  have "digit_vals 10 [0x39, 0x39, 0x39] = Some [9, 9, 9]" "digit_val 10 0x78 = None" by code_simp+
  then show ?thesis using ParseUint_bad [of 10 64 8 "[0x39, 0x39, 0x39]" "[9, 9, 9]" "0x78" "[]"] by (simp add: bits_of_def Let_def)
qed

end
