(* ===== verification/Hash_State.thy ===== *)
theory Hash_State
  imports Go_Prelude
begin

unbundle bit_operations_syntax

section \<open>The interface of the hash packages\<close>

text \<open>
  A hash consumes bytes with \<open>Write\<close>, appends its value to a slice with \<open>Sum\<close>, and saves and
  restores its state with \<open>MarshalBinary\<close> and \<open>UnmarshalBinary\<close>. The locale states what the
  package hash promises of these; the hashes of hash/adler32 and hash/fnv are shown to keep it.
\<close>

locale streaming_hash =
  fixes Write :: "byte list \<Rightarrow> 's \<Rightarrow> 's"
    and Sum :: "'s \<Rightarrow> byte list \<Rightarrow> byte list"
    and Marshal :: "'s \<Rightarrow> byte list"
    and Unmarshal :: "byte list \<Rightarrow> string + 's"
  assumes Write_Nil: "Write [] s = s"
    and Write_append: "Write (p @ q) s = Write q (Write p s)"
    and Sum_appends: "Sum s b = b @ Sum s []"
    and Unmarshal_Marshal: "Unmarshal (Marshal s) = Inr s"
    and Unmarshal_inv: "Unmarshal b = Inr s \<Longrightarrow> b = Marshal s"
begin

text \<open>Data may be written in any pieces.\<close>

lemma Write_chunks: "fold Write chunks s = Write (concat chunks) s"
  by (induction chunks arbitrary: s) (simp_all add: Write_Nil Write_append)

text \<open>A hash can be saved and continued later, with the value as if it had never stopped.\<close>

lemma resume: "Unmarshal (Marshal (Write p s)) = Inr s' \<Longrightarrow> Sum (Write q s') b = b @ Sum (Write (p @ q) s) []"
  using Sum_appends [of "Write q s'" b] by (simp add: Unmarshal_Marshal Write_append)

lemma Unmarshal_iff: "Unmarshal b = Inr s \<longleftrightarrow> b = Marshal s"
  using Unmarshal_inv Unmarshal_Marshal by blast

end

subsection \<open>Big-endian bytes\<close>

definition be32 :: "32 word \<Rightarrow> byte list" where
  "be32 x = [ucast (drop_bit 24 x), ucast (drop_bit 16 x), ucast (drop_bit 8 x), ucast x]"

definition be64 :: "64 word \<Rightarrow> byte list" where
  "be64 x = [ucast (drop_bit 56 x), ucast (drop_bit 48 x), ucast (drop_bit 40 x), ucast (drop_bit 32 x),
             ucast (drop_bit 24 x), ucast (drop_bit 16 x), ucast (drop_bit 8 x), ucast x]"

text \<open>The bytes of a word and the word of the bytes, with the check \<open>_ = b[3]\<close> as a panic.\<close>

definition appendUint32 :: "byte list \<Rightarrow> 32 word \<Rightarrow> byte list" where
  "appendUint32 b x = b @ [ucast (drop_bit 24 x), ucast (drop_bit 16 x), ucast (drop_bit 8 x), ucast x]"

definition readUint32 :: "byte list \<Rightarrow> 32 word option" where
  "readUint32 b =
     (if \<not> 3 < length b then None
      else Some (ucast (b ! 3) OR push_bit 8 (ucast (b ! 2)) OR push_bit 16 (ucast (b ! 1)) OR push_bit 24 (ucast (b ! 0))))"

definition appendUint64 :: "byte list \<Rightarrow> 64 word \<Rightarrow> byte list" where
  "appendUint64 b x =
     b @ [ucast (drop_bit 56 x), ucast (drop_bit 48 x), ucast (drop_bit 40 x), ucast (drop_bit 32 x),
          ucast (drop_bit 24 x), ucast (drop_bit 16 x), ucast (drop_bit 8 x), ucast x]"

definition readUint64 :: "byte list \<Rightarrow> 64 word option" where
  "readUint64 b =
     (if \<not> 7 < length b then None
      else Some (ucast (b ! 7) OR push_bit 8 (ucast (b ! 6)) OR push_bit 16 (ucast (b ! 5)) OR push_bit 24 (ucast (b ! 4)) OR
                 push_bit 32 (ucast (b ! 3)) OR push_bit 40 (ucast (b ! 2)) OR push_bit 48 (ucast (b ! 1)) OR
                 push_bit 56 (ucast (b ! 0))))"

lemma be_length [simp]: "length (be32 x) = 4" "length (be64 y) = 8"
  by (simp_all add: be32_def be64_def)

lemma append_be [simp]: "appendUint32 b x = b @ be32 x" "appendUint64 b y = b @ be64 y"
  by (simp_all add: appendUint32_def appendUint64_def be32_def be64_def)

text \<open>Reading is Horner's scheme on the bytes.\<close>

definition join8 :: "'a::len word \<Rightarrow> byte \<Rightarrow> 'a word" where
  "join8 a b = push_bit 8 a OR ucast b"

lemma join8_split: "join8 (drop_bit 8 x) (ucast x) = x"
  by (rule bit_word_eqI) (auto simp: join8_def bit_simps)

lemma join8_drop: "drop_bit k x = y \<Longrightarrow> join8 (drop_bit (8 + k) x) (ucast y) = y"
  using join8_split [of y] by (auto simp: drop_bit_drop_bit)

lemma readUint32_join: "3 < length b \<Longrightarrow> readUint32 b = Some (join8 (join8 (join8 (ucast (b ! 0)) (b ! 1)) (b ! 2)) (b ! 3))"
  by (simp add: readUint32_def join8_def push_bit_or or.assoc or.commute or.left_commute)

lemma readUint64_join:
  "7 < length b \<Longrightarrow> readUint64 b = Some (join8 (join8 (join8 (join8 (join8 (join8 (join8
     (ucast (b ! 0)) (b ! 1)) (b ! 2)) (b ! 3)) (b ! 4)) (b ! 5)) (b ! 6)) (b ! 7))"
  by (simp add: readUint64_def join8_def push_bit_or or.assoc or.commute or.left_commute)

lemma top_byte: "ucast (ucast (drop_bit 24 x) :: byte) = drop_bit 24 (x :: 32 word)"
  "ucast (ucast (drop_bit 56 y) :: byte) = drop_bit 56 (y :: 64 word)"
  by (rule bit_word_eqI, auto simp: bit_simps dest: bit_imp_le_length)+

lemma read_be32: "readUint32 (be32 x) = Some x"
  using join8_drop [of 16 x, OF refl] join8_drop [of 8 x, OF refl] join8_split [of x]
  by (simp add: readUint32_join be32_def top_byte)

lemma list4: "length b = 4 \<Longrightarrow> b = [b ! 0, b ! 1, b ! 2, b ! 3]"
  by (auto simp: list_eq_iff_nth_eq less_Suc_eq numeral_eq_Suc)

lemma byte_beyond: "8 \<le> n \<Longrightarrow> \<not> bit (x :: byte) n"
  using bit_imp_le_length [of x n] by auto

lemma be32_read: "length b = 4 \<Longrightarrow> readUint32 b = Some x \<Longrightarrow> be32 x = b"
  by (subst list4 [of b]) (auto simp: readUint32_def be32_def bit_simps byte_beyond intro!: bit_word_eqI)

lemma read_be64: "readUint64 (be64 x @ b) = Some x"
  using join8_drop [of 48 x, OF refl] join8_drop [of 40 x, OF refl] join8_drop [of 32 x, OF refl] join8_drop [of 24 x, OF refl]
    join8_drop [of 16 x, OF refl] join8_drop [of 8 x, OF refl] join8_split [of x]
  by (simp add: readUint64_join be64_def top_byte)

lemma list8: "length b = 8 \<Longrightarrow> b = [b ! 0, b ! 1, b ! 2, b ! 3, b ! 4, b ! 5, b ! 6, b ! 7]"
  by (auto simp: list_eq_iff_nth_eq less_Suc_eq numeral_eq_Suc)

lemma be64_read: "length b = 8 \<Longrightarrow> readUint64 b = Some x \<Longrightarrow> be64 x = b"
  by (subst list8 [of b]) (auto simp: readUint64_def be64_def bit_simps byte_beyond intro!: bit_word_eqI)

lemma readUint64_take: "8 \<le> length b \<Longrightarrow> readUint64 b = readUint64 (take 8 b)"
  by (simp add: readUint64_def)

end
