(* ===== verification/Hash_Adler32.thy ===== *)
theory Hash_Adler32
  imports Hash_State
begin

unbundle bit_operations_syntax

section \<open>Adler-32 (hash/adler32)\<close>

text \<open>
  The digest holds the two 16-bit sums of RFC 1950. \<open>update\<close> adds up to \<open>nmax\<close> bytes in 32-bit
  arithmetic before it reduces the sums modulo 65521, four bytes at a time.
\<close>

type_synonym digest = "32 word"

definition adler_mod :: "32 word" where "adler_mod = 65521"
definition adler_nmax :: nat where "adler_nmax = 5552"
definition adler_magic :: "byte list" where "adler_magic = [0x61, 0x64, 0x6C, 0x01]"

definition adler_Reset :: digest where
  "adler_Reset = 1"

definition adler_New :: digest where
  "adler_New = adler_Reset"

definition adler_appendUint32 :: "byte list \<Rightarrow> 32 word \<Rightarrow> byte list" where
  "adler_appendUint32 b x = b @ [ucast (drop_bit 24 x), ucast (drop_bit 16 x), ucast (drop_bit 8 x), ucast x]"

definition adler_readUint32 :: "byte list \<Rightarrow> 32 word option" where
  "adler_readUint32 b =
     (if \<not> 3 < length b then None
      else Some (ucast (b ! 3) OR push_bit 8 (ucast (b ! 2)) OR push_bit 16 (ucast (b ! 1)) OR push_bit 24 (ucast (b ! 0))))"

definition adler_MarshalBinary :: "digest \<Rightarrow> byte list" where
  "adler_MarshalBinary d = (let b = []; b = b @ adler_magic; b = adler_appendUint32 b d in b)"

text \<open>The error is \<open>Inl\<close>; the digest is not changed then.\<close>

definition adler_UnmarshalBinary :: "byte list \<Rightarrow> string + digest" where
  "adler_UnmarshalBinary b =
     (if length b < length adler_magic \<or> take (length adler_magic) b \<noteq> adler_magic
      then Inl ''hash/adler32: invalid hash state identifier''
      else if length b \<noteq> length adler_magic + 4 then Inl ''hash/adler32: invalid hash state size''
      else case adler_readUint32 (drop (length adler_magic) b) of
             None \<Rightarrow> Inl ''index out of range'' | Some d \<Rightarrow> Inr d)"

fun adler_quads :: "32 word \<Rightarrow> 32 word \<Rightarrow> byte list \<Rightarrow> 32 word \<times> 32 word \<times> byte list" where
  "adler_quads s1 s2 (p0 # p1 # p2 # p3 # p) =
     (let s1 = s1 + ucast p0; s2 = s2 + s1;
          s1 = s1 + ucast p1; s2 = s2 + s1;
          s1 = s1 + ucast p2; s2 = s2 + s1;
          s1 = s1 + ucast p3; s2 = s2 + s1
      in adler_quads s1 s2 p)"
| "adler_quads s1 s2 p = (s1, s2, p)"

fun adler_bytes :: "32 word \<Rightarrow> 32 word \<Rightarrow> byte list \<Rightarrow> 32 word \<times> 32 word" where
  "adler_bytes s1 s2 [] = (s1, s2)"
| "adler_bytes s1 s2 (x # p) = (let s1 = s1 + ucast x; s2 = s2 + s1 in adler_bytes s1 s2 p)"

function adler_blocks :: "32 word \<Rightarrow> 32 word \<Rightarrow> byte list \<Rightarrow> 32 word \<times> 32 word" where
  "adler_blocks s1 s2 p =
     (if p = [] then (s1, s2)
      else
        let (p, q) = (if length p > adler_nmax then (take adler_nmax p, drop adler_nmax p) else (p, []));
            (s1, s2, p) = adler_quads s1 s2 p;
            (s1, s2) = adler_bytes s1 s2 p
        in adler_blocks (s1 mod adler_mod) (s2 mod adler_mod) q)"
  by pat_completeness auto
termination
  by (relation "measure (\<lambda>(s1, s2, p). length p)") (auto simp: adler_nmax_def split: if_splits)

declare adler_blocks.simps [simp del]

definition adler_update :: "digest \<Rightarrow> byte list \<Rightarrow> digest" where
  "adler_update d p =
     (let s1 = d AND 0xFFFF; s2 = drop_bit 16 d;
          (s1, s2) = adler_blocks s1 s2 p
      in push_bit 16 s2 OR s1)"

definition adler_Write :: "byte list \<Rightarrow> digest \<Rightarrow> digest" where
  "adler_Write p d = adler_update d p"

definition adler_Sum32 :: "digest \<Rightarrow> 32 word" where
  "adler_Sum32 d = d"

definition adler_Sum :: "digest \<Rightarrow> byte list \<Rightarrow> byte list" where
  "adler_Sum d b = b @ [ucast (drop_bit 24 d), ucast (drop_bit 16 d), ucast (drop_bit 8 d), ucast d]"

definition adler_Checksum :: "byte list \<Rightarrow> 32 word" where
  "adler_Checksum data = adler_update 1 data"

subsection \<open>The sums of RFC 1950\<close>

definition adler_step :: "byte \<Rightarrow> nat \<times> nat \<Rightarrow> nat \<times> nat" where
  "adler_step x ab = (let a = (fst ab + unat x) mod 65521 in (a, (snd ab + a) mod 65521))"

definition raw_step :: "byte \<Rightarrow> nat \<times> nat \<Rightarrow> nat \<times> nat" where
  "raw_step x ab = (let a = fst ab + unat x in (a, snd ab + a))"

lemma step_pair: "raw_step x (a, b) = (a + unat x, b + (a + unat x))"
  "adler_step x (a, b) = ((a + unat x) mod 65521, (b + (a + unat x) mod 65521) mod 65521)"
  by (simp_all add: raw_step_def adler_step_def Let_def)

lemma quads_bytes: "(case adler_quads s1 s2 p of (s1, s2, p) \<Rightarrow> adler_bytes s1 s2 p) = adler_bytes s1 s2 p"
  by (induction s1 s2 p rule: adler_quads.induct) (simp_all only: adler_quads.simps adler_bytes.simps Let_def prod.case)

lemma byte_le: "unat (x :: byte) \<le> 255"
  using unsigned_less [where 'a = nat and w = x] by simp

text \<open>The sums stay below \<open>2 ^ 32\<close> for as many bytes as the bound of \<open>nmax\<close> allows.\<close>

lemma adler_bytes_raw:
  assumes "2 * (unat s2 + length p * unat s1) + 255 * length p * (length p + 1) < 2 ^ 33" "unat s1 + 255 * length p < 2 ^ 32"
    "adler_bytes s1 s2 p = (t1, t2)"
  shows "fold raw_step p (unat s1, unat s2) = (unat t1, unat t2)"
  using assms
proof (induction p arbitrary: s1 s2)
  case (Cons x p)
  let ?n = "length p" and ?s1 = "s1 + ucast x :: 32 word"
  have x: "unat (ucast x :: 32 word) = unat x" "unat x \<le> 255" using byte_le [of x] by (simp_all add: unsigned_ucast_eq take_bit_nat_eq_self)
  have u1: "unat ?s1 = unat s1 + unat x" using Cons.prems(2) x by (subst unat_add_lem [THEN iffD1]) simp_all
  have "2 * (unat s2 + length (x # p) * unat s1) + 255 * length (x # p) * (length (x # p) + 1) =
    2 * unat s2 + 2 * unat s1 + 2 * (?n * unat s1) + 255 * (?n * ?n) + 765 * ?n + 510" by (simp add: algebra_simps)
  moreover have "2 * (unat s2 + unat s1 + unat x + ?n * (unat s1 + unat x)) + 255 * ?n * (?n + 1) =
    2 * unat s2 + 2 * unat s1 + 2 * unat x + 2 * (?n * unat s1) + 2 * (?n * unat x) + 255 * (?n * ?n) + 255 * ?n"
    by (simp add: algebra_simps)
  moreover have "?n * unat x \<le> ?n * 255" using x(2) by (rule mult_le_mono2)
  ultimately have b: "2 * (unat s2 + unat s1 + unat x + ?n * (unat s1 + unat x)) + 255 * ?n * (?n + 1) < 2 ^ 33"
    using Cons.prems(1) x(2) by linarith
  have u2: "unat (s2 + ?s1) = unat s2 + unat s1 + unat x"
    using b by (subst unat_add_lem [THEN iffD1]) (simp_all add: u1)
  have "fold raw_step p (unat ?s1, unat (s2 + ?s1)) = (unat t1, unat t2)"
    by (rule Cons.IH) (use b Cons.prems(2,3) x(2) in \<open>simp_all add: u1 u2 Let_def add.assoc\<close>)
  then show ?case by (simp only: fold.simps comp_apply step_pair u1 u2 add.assoc)
qed simp

lemma raw_mod:
  "(a', b') = fold raw_step p (a, b) \<Longrightarrow>
   fold adler_step p (a, b) = (if p = [] then (a, b) else (a' mod 65521, b' mod 65521))"
proof -
  have "fold adler_step p (c, d) = (a' mod 65521, b' mod 65521)"
    if "(a', b') = fold raw_step p (a, b)" "c mod 65521 = a mod 65521" "d mod 65521 = b mod 65521" "p \<noteq> []" for a b c d a' b'
    using that
  proof (induction p arbitrary: a b c d)
    case (Cons x p)
    have m: "(c + unat x) mod 65521 = (a + unat x) mod 65521" using Cons.prems(2) by (metis mod_add_left_eq)
    then have "(d + (c + unat x) mod 65521) mod 65521 = (b + (a + unat x)) mod 65521"
      using Cons.prems(3) by (metis mod_add_eq mod_mod_trivial)
    then show ?case
      using Cons.IH [of "a + unat x" "b + (a + unat x)" "(c + unat x) mod 65521" "(d + (c + unat x) mod 65521) mod 65521"]
        Cons.prems(1) m by (cases "p = []") (simp_all add: adler_step_def raw_step_def Let_def)
  qed simp
  then show "(a', b') = fold raw_step p (a, b) \<Longrightarrow> ?thesis" by auto
qed

lemma adler_bytes_mod:
  assumes "unat s1 < 65536" "unat s2 < 65536" "length p \<le> adler_nmax" "p \<noteq> []" "adler_bytes s1 s2 p = (t1, t2)"
  shows "fold adler_step p (unat s1, unat s2) = (unat (t1 mod adler_mod), unat (t2 mod adler_mod))"
proof -
  let ?n = "length p"
  have n: "?n \<le> 5552" using assms(3) by (simp add: adler_nmax_def)
  have "?n * unat s1 \<le> 5552 * 65535" using n assms(1) by (intro mult_le_mono) simp_all
  moreover have "?n * (?n + 1) \<le> 5552 * 5553" using n by (intro mult_le_mono) simp_all
  ultimately have "2 * (unat s2 + ?n * unat s1) + 255 * (?n * (?n + 1)) < 2 ^ 33" using assms(2) by simp
  then have "fold raw_step p (unat s1, unat s2) = (unat t1, unat t2)"
    using adler_bytes_raw [OF _ _ assms(5)] assms(1) n by (simp add: mult.assoc)
  from raw_mod [OF this [symmetric]]
  have "fold adler_step p (unat s1, unat s2) = (unat t1 mod 65521, unat t2 mod 65521)" using assms(4) by simp
  moreover have "unat adler_mod = 65521" by (simp add: adler_mod_def)
  ultimately show ?thesis by (simp add: unat_mod)
qed

lemma adler_blocks_eq:
  assumes "unat s1 < 65536" "unat s2 < 65536" "adler_blocks s1 s2 p = (t1, t2)"
  shows "fold adler_step p (unat s1, unat s2) = (unat t1, unat t2) \<and> unat t1 < 65536 \<and> unat t2 < 65536"
  using assms
proof (induction "length p" arbitrary: s1 s2 p rule: less_induct)
  case less
  show ?case
  proof (cases "p = []")
    case True
    then show ?thesis using less.prems by (simp add: adler_blocks.simps)
  next
    case False
    define q where "q = take adler_nmax p"
    define r where "r = drop adler_nmax p"
    obtain u1 u2 where u: "adler_bytes s1 s2 q = (u1, u2)" by (metis surj_pair)
    have pq: "p = q @ r" "q \<noteq> []" "length q \<le> adler_nmax" "length r < length p"
      using False by (auto simp: q_def r_def adler_nmax_def)
    have "(if length p > adler_nmax then (take adler_nmax p, drop adler_nmax p) else (p, [])) = (q, r)"
      by (simp add: q_def r_def)
    then have step: "adler_blocks s1 s2 p = adler_blocks (u1 mod adler_mod) (u2 mod adler_mod) r"
    proof -
      obtain v1 v2 v where v: "adler_quads s1 s2 q = (v1, v2, v)" by (metis surj_pair)
      then have "adler_bytes v1 v2 v = (u1, u2)" using quads_bytes [of s1 s2 q] u by simp
      then show ?thesis
        using False v \<open>_ = (q, r)\<close> by (subst adler_blocks.simps) (simp only: if_False Let_def prod.case)
    qed
    have m: "unat (x mod adler_mod) < 65536" for x
      using mod_less_divisor [of 65521 "unat x"] by (simp add: unat_mod adler_mod_def)
    show ?thesis
      using less.hyps [OF pq(4) m m less.prems(3) [unfolded step]] adler_bytes_mod [OF less.prems(1,2) pq(3,2) u]
      by (simp add: pq(1))
  qed
qed

text \<open>The two sums in a digest.\<close>

definition sums :: "digest \<Rightarrow> nat \<times> nat" where
  "sums d = (unat (d AND 0xFFFF), unat (drop_bit 16 d))"

lemma low16: "d AND 0xFFFF = take_bit 16 (d :: 32 word)"
  using take_bit_eq_mask [of 16 d] by (simp add: mask_eq_exp_minus_1)

lemma sums_nat: "sums d = (unat d mod 65536, unat d div 65536)"
proof -
  have "unat (take_bit 16 d) = unat d mod 65536" unfolding unsigned_take_bit_eq by (simp add: take_bit_eq_mod)
  moreover have "unat (drop_bit 16 d) = unat d div 65536" unfolding unat_drop_bit_eq by (simp add: drop_bit_eq_div)
  ultimately show ?thesis by (simp add: sums_def low16)
qed

lemma sums_less: "unat (d AND 0xFFFF) < 65536" "unat (drop_bit 16 d) < 65536" for d :: digest
  using sums_nat [of d] unsigned_less [where 'a = nat and w = d] by (auto simp: sums_def less_mult_imp_div_less)

lemma sums_pack:
  assumes "unat (t1 :: 32 word) < 65536" "unat (t2 :: 32 word) < 65536"
  shows "sums (push_bit 16 t2 OR t1) = (unat t1, unat t2)"
proof -
  have t: "take_bit 16 t1 = t1" "take_bit 16 t2 = t2"
    using assms by (simp_all add: word_unat_eq_iff unsigned_take_bit_eq take_bit_nat_eq_self)
  have hi: "bit t1 n \<Longrightarrow> n < 16" "bit t2 n \<Longrightarrow> n < 16" for n
    using t bit_take_bit_iff [of 16 t1 n] bit_take_bit_iff [of 16 t2 n] by auto
  have "take_bit 16 (push_bit 16 t2 OR t1) = t1" "drop_bit 16 (push_bit 16 t2 OR t1) = t2"
    by (auto simp: bit_simps dest: hi intro!: bit_word_eqI)
  then show ?thesis by (simp add: sums_def low16)
qed

lemma sums_value: "unat d = snd (sums d) * 65536 + fst (sums d)"
  by (simp add: sums_nat)

lemma sums_inject: "sums c = sums d \<Longrightarrow> c = d"
  using sums_value [of c] sums_value [of d] by (simp add: word_unat_eq_iff)

lemma sums_update: "sums (adler_update d p) = fold adler_step p (sums d)"
proof -
  obtain t1 t2 where t: "adler_blocks (d AND 0xFFFF) (drop_bit 16 d) p = (t1, t2)" by (metis surj_pair)
  then show ?thesis using adler_blocks_eq [OF sums_less t] by (simp add: adler_update_def Let_def sums_pack) (simp add: sums_def)
qed

lemma adler_update_append: "adler_update d (p @ q) = adler_update (adler_update d p) q"
  by (rule sums_inject) (simp add: sums_update)

lemma adler_bytes_be: "adler_appendUint32 b x = b @ be32 x" "adler_readUint32 c = readUint32 c"
  by (simp_all add: adler_appendUint32_def adler_readUint32_def be32_def readUint32_def)

lemma adler_magic_length [simp]: "length adler_magic = 4"
  by (simp add: adler_magic_def)

interpretation adler: streaming_hash adler_Write adler_Sum adler_MarshalBinary adler_UnmarshalBinary
proof unfold_locales
  show "adler_Write [] s = s" for s by (rule sums_inject) (simp add: adler_Write_def sums_update)
  show "adler_Write (p @ q) s = adler_Write q (adler_Write p s)" for p q s
    by (simp add: adler_Write_def adler_update_append)
  show "adler_Sum s b = b @ adler_Sum s []" for s b by (simp add: adler_Sum_def)
  show "adler_UnmarshalBinary (adler_MarshalBinary s) = Inr s" for s
    by (simp add: adler_UnmarshalBinary_def adler_MarshalBinary_def adler_bytes_be read_be32)
  show "b = adler_MarshalBinary s" if "adler_UnmarshalBinary b = Inr s" for b s
  proof -
    have b: "take 4 b = adler_magic" "length (drop 4 b) = 4" "readUint32 (drop 4 b) = Some s"
      using that by (auto simp: adler_UnmarshalBinary_def adler_bytes_be split: if_splits option.splits)
    then show ?thesis
      using be32_read [OF b(2,3)] append_take_drop_id [of 4 b] by (simp add: adler_MarshalBinary_def adler_bytes_be)
  qed
qed

text \<open>
  C34. \<open>update\<close> computes the two sums of RFC 1950, reduced modulo 65521 at every byte, for data of any
  length and any digest: the 32-bit sums do not overflow between reductions. Data may be written in
  pieces, and a digest that was saved is restored; any other bytes are refused.
\<close>

theorem adler32_correct:
  "sums (adler_update d p) = fold adler_step p (sums d) \<and>
   unat (adler_update d p) = snd (fold adler_step p (sums d)) * 65536 + fst (fold adler_step p (sums d)) \<and>
   fold adler_Write chunks d = adler_update d (concat chunks) \<and>
   adler_Checksum p = adler_Sum32 (adler_Write p adler_New) \<and> sums adler_New = (1, 0) \<and>
   (adler_UnmarshalBinary b = Inr d \<longleftrightarrow> b = adler_MarshalBinary d)"
  using sums_update [of d p] sums_value [of "adler_update d p"] adler.Write_chunks [of chunks d] adler.Unmarshal_iff [of b d]
  by (simp add: adler_Write_def adler_Checksum_def adler_Sum32_def adler_New_def adler_Reset_def) (simp add: sums_def)

end
