(* ===== verification/Hash_Fnv.thy ===== *)
theory Hash_Fnv
  imports Hash_State Math_Bits_Arith
begin

unbundle bit_operations_syntax

section \<open>FNV-1 and FNV-1a (hash/fnv)\<close>

text \<open>
  Six hashes: 32, 64 and 128 bits, multiplying before (FNV-1) or after (FNV-1a) the exclusive or.
  The 128-bit states are pairs of 64-bit words, multiplied by the prime \<open>2 ^ 88 + 0x13b\<close> with
  \<open>bits.Mul64\<close>. \<open>Write\<close> also returns the length of the data and a nil error.
\<close>

definition offset32 :: "32 word" where "offset32 = 2166136261"
definition offset64 :: "64 word" where "offset64 = 14695981039346656037"
definition offset128Lower :: "64 word" where "offset128Lower = 0x62b821756295c58d"
definition offset128Higher :: "64 word" where "offset128Higher = 0x6c62272e07bb0142"
definition prime32 :: "32 word" where "prime32 = 16777619"
definition prime64 :: "64 word" where "prime64 = 1099511628211"
definition prime128Lower :: "64 word" where "prime128Lower = 0x13b"
definition prime128Shift :: nat where "prime128Shift = 24"

subsection \<open>New and Reset\<close>

definition fnv_New32 :: "32 word" where
  "fnv_New32 = offset32"

definition fnv32_Reset :: "32 word" where
  "fnv32_Reset = offset32"

definition fnv_New32a :: "32 word" where
  "fnv_New32a = offset32"

definition fnv32a_Reset :: "32 word" where
  "fnv32a_Reset = offset32"

definition fnv_New64 :: "64 word" where
  "fnv_New64 = offset64"

definition fnv64_Reset :: "64 word" where
  "fnv64_Reset = offset64"

definition fnv_New64a :: "64 word" where
  "fnv_New64a = offset64"

definition fnv64a_Reset :: "64 word" where
  "fnv64a_Reset = offset64"

definition fnv_New128 :: "64 word \<times> 64 word" where
  "fnv_New128 = (offset128Higher, offset128Lower)"

definition fnv128_Reset :: "64 word \<times> 64 word" where
  "fnv128_Reset = (offset128Higher, offset128Lower)"

definition fnv_New128a :: "64 word \<times> 64 word" where
  "fnv_New128a = (offset128Higher, offset128Lower)"

definition fnv128a_Reset :: "64 word \<times> 64 word" where
  "fnv128a_Reset = (offset128Higher, offset128Lower)"

subsection \<open>Write\<close>

definition fnv32_Write :: "byte list \<Rightarrow> 32 word \<Rightarrow> 32 word" where
  "fnv32_Write data s = fold (\<lambda>c hash. let hash = hash * prime32; hash = hash XOR ucast c in hash) data s"

definition fnv32a_Write :: "byte list \<Rightarrow> 32 word \<Rightarrow> 32 word" where
  "fnv32a_Write data s = fold (\<lambda>c hash. let hash = hash XOR ucast c; hash = hash * prime32 in hash) data s"

definition fnv64_Write :: "byte list \<Rightarrow> 64 word \<Rightarrow> 64 word" where
  "fnv64_Write data s = fold (\<lambda>c hash. let hash = hash * prime64; hash = hash XOR ucast c in hash) data s"

definition fnv64a_Write :: "byte list \<Rightarrow> 64 word \<Rightarrow> 64 word" where
  "fnv64a_Write data s = fold (\<lambda>c hash. let hash = hash XOR ucast c; hash = hash * prime64 in hash) data s"

definition fnv128_Write :: "byte list \<Rightarrow> 64 word \<times> 64 word \<Rightarrow> 64 word \<times> 64 word" where
  "fnv128_Write data s = fold (\<lambda>c (h0, h1).
       let (s0, s1) = Mul64 prime128Lower h1;
           s0 = s0 + (push_bit prime128Shift h1 + prime128Lower * h0);
           h1 = s1;
           h0 = s0;
           h1 = h1 XOR ucast c
       in (h0, h1)) data s"

definition fnv128a_Write :: "byte list \<Rightarrow> 64 word \<times> 64 word \<Rightarrow> 64 word \<times> 64 word" where
  "fnv128a_Write data s = fold (\<lambda>c (h0, h1).
       let h1 = h1 XOR ucast c;
           (s0, s1) = Mul64 prime128Lower h1;
           s0 = s0 + (push_bit prime128Shift h1 + prime128Lower * h0);
           h1 = s1;
           h0 = s0
       in (h0, h1)) data s"

subsection \<open>Sum\<close>

definition fnv32_Sum :: "32 word \<Rightarrow> byte list \<Rightarrow> byte list" where
  "fnv32_Sum s b = b @ [ucast (drop_bit 24 s), ucast (drop_bit 16 s), ucast (drop_bit 8 s), ucast s]"

definition fnv32a_Sum :: "32 word \<Rightarrow> byte list \<Rightarrow> byte list" where
  "fnv32a_Sum s b = b @ [ucast (drop_bit 24 s), ucast (drop_bit 16 s), ucast (drop_bit 8 s), ucast s]"

definition fnv64_Sum :: "64 word \<Rightarrow> byte list \<Rightarrow> byte list" where
  "fnv64_Sum s b = b @ [ucast (drop_bit 56 s), ucast (drop_bit 48 s), ucast (drop_bit 40 s), ucast (drop_bit 32 s),
          ucast (drop_bit 24 s), ucast (drop_bit 16 s), ucast (drop_bit 8 s), ucast s]"

definition fnv64a_Sum :: "64 word \<Rightarrow> byte list \<Rightarrow> byte list" where
  "fnv64a_Sum s b = b @ [ucast (drop_bit 56 s), ucast (drop_bit 48 s), ucast (drop_bit 40 s), ucast (drop_bit 32 s),
          ucast (drop_bit 24 s), ucast (drop_bit 16 s), ucast (drop_bit 8 s), ucast s]"

definition fnv128_Sum :: "64 word \<times> 64 word \<Rightarrow> byte list \<Rightarrow> byte list" where
  "fnv128_Sum s b = (case s of (s0, s1) \<Rightarrow>
     b @ [ucast (drop_bit 56 s0), ucast (drop_bit 48 s0), ucast (drop_bit 40 s0), ucast (drop_bit 32 s0),
          ucast (drop_bit 24 s0), ucast (drop_bit 16 s0), ucast (drop_bit 8 s0), ucast s0] @
         [ucast (drop_bit 56 s1), ucast (drop_bit 48 s1), ucast (drop_bit 40 s1), ucast (drop_bit 32 s1),
          ucast (drop_bit 24 s1), ucast (drop_bit 16 s1), ucast (drop_bit 8 s1), ucast s1])"

definition fnv128a_Sum :: "64 word \<times> 64 word \<Rightarrow> byte list \<Rightarrow> byte list" where
  "fnv128a_Sum s b = (case s of (s0, s1) \<Rightarrow>
     b @ [ucast (drop_bit 56 s0), ucast (drop_bit 48 s0), ucast (drop_bit 40 s0), ucast (drop_bit 32 s0),
          ucast (drop_bit 24 s0), ucast (drop_bit 16 s0), ucast (drop_bit 8 s0), ucast s0] @
         [ucast (drop_bit 56 s1), ucast (drop_bit 48 s1), ucast (drop_bit 40 s1), ucast (drop_bit 32 s1),
          ucast (drop_bit 24 s1), ucast (drop_bit 16 s1), ucast (drop_bit 8 s1), ucast s1])"

subsection \<open>Saving and restoring the state\<close>

definition magic32 :: "byte list" where "magic32 = [0x66, 0x6E, 0x76, 1]"
definition magic32a :: "byte list" where "magic32a = [0x66, 0x6E, 0x76, 2]"
definition magic64 :: "byte list" where "magic64 = [0x66, 0x6E, 0x76, 3]"
definition magic64a :: "byte list" where "magic64a = [0x66, 0x6E, 0x76, 4]"
definition magic128 :: "byte list" where "magic128 = [0x66, 0x6E, 0x76, 5]"
definition magic128a :: "byte list" where "magic128a = [0x66, 0x6E, 0x76, 6]"

definition fnv32_MarshalBinary :: "32 word \<Rightarrow> byte list" where
  "fnv32_MarshalBinary s = (let b = []; b = b @ magic32; b = appendUint32 b s in b)"

definition fnv32a_MarshalBinary :: "32 word \<Rightarrow> byte list" where
  "fnv32a_MarshalBinary s = (let b = []; b = b @ magic32a; b = appendUint32 b s in b)"

definition fnv64_MarshalBinary :: "64 word \<Rightarrow> byte list" where
  "fnv64_MarshalBinary s = (let b = []; b = b @ magic64; b = appendUint64 b s in b)"

definition fnv64a_MarshalBinary :: "64 word \<Rightarrow> byte list" where
  "fnv64a_MarshalBinary s = (let b = []; b = b @ magic64a; b = appendUint64 b s in b)"

definition fnv128_MarshalBinary :: "64 word \<times> 64 word \<Rightarrow> byte list" where
  "fnv128_MarshalBinary s = (case s of (s0, s1) \<Rightarrow> let b = []; b = b @ magic128; b = appendUint64 b s0; b = appendUint64 b s1 in b)"

definition fnv128a_MarshalBinary :: "64 word \<times> 64 word \<Rightarrow> byte list" where
  "fnv128a_MarshalBinary s = (case s of (s0, s1) \<Rightarrow> let b = []; b = b @ magic128a; b = appendUint64 b s0; b = appendUint64 b s1 in b)"

definition fnv32_UnmarshalBinary :: "byte list \<Rightarrow> string + (32 word)" where
  "fnv32_UnmarshalBinary b =
     (if length b < length magic32 \<or> take (length magic32) b \<noteq> magic32
      then Inl ''hash/fnv: invalid hash state identifier''
      else if length b \<noteq> length magic32 + 4 then Inl ''hash/fnv: invalid hash state size''
      else (case readUint32 (drop 4 b) of Some s \<Rightarrow> Inr s | None \<Rightarrow> Inl ''index out of range''))"

definition fnv32a_UnmarshalBinary :: "byte list \<Rightarrow> string + (32 word)" where
  "fnv32a_UnmarshalBinary b =
     (if length b < length magic32a \<or> take (length magic32a) b \<noteq> magic32a
      then Inl ''hash/fnv: invalid hash state identifier''
      else if length b \<noteq> length magic32a + 4 then Inl ''hash/fnv: invalid hash state size''
      else (case readUint32 (drop 4 b) of Some s \<Rightarrow> Inr s | None \<Rightarrow> Inl ''index out of range''))"

definition fnv64_UnmarshalBinary :: "byte list \<Rightarrow> string + (64 word)" where
  "fnv64_UnmarshalBinary b =
     (if length b < length magic64 \<or> take (length magic64) b \<noteq> magic64
      then Inl ''hash/fnv: invalid hash state identifier''
      else if length b \<noteq> length magic64 + 8 then Inl ''hash/fnv: invalid hash state size''
      else (case readUint64 (drop 4 b) of Some s \<Rightarrow> Inr s | None \<Rightarrow> Inl ''index out of range''))"

definition fnv64a_UnmarshalBinary :: "byte list \<Rightarrow> string + (64 word)" where
  "fnv64a_UnmarshalBinary b =
     (if length b < length magic64a \<or> take (length magic64a) b \<noteq> magic64a
      then Inl ''hash/fnv: invalid hash state identifier''
      else if length b \<noteq> length magic64a + 8 then Inl ''hash/fnv: invalid hash state size''
      else (case readUint64 (drop 4 b) of Some s \<Rightarrow> Inr s | None \<Rightarrow> Inl ''index out of range''))"

definition fnv128_UnmarshalBinary :: "byte list \<Rightarrow> string + (64 word \<times> 64 word)" where
  "fnv128_UnmarshalBinary b =
     (if length b < length magic128 \<or> take (length magic128) b \<noteq> magic128
      then Inl ''hash/fnv: invalid hash state identifier''
      else if length b \<noteq> length magic128 + 16 then Inl ''hash/fnv: invalid hash state size''
      else (case (readUint64 (drop 4 b), readUint64 (drop 12 b)) of
              (Some s0, Some s1) \<Rightarrow> Inr (s0, s1) | _ \<Rightarrow> Inl ''index out of range''))"

definition fnv128a_UnmarshalBinary :: "byte list \<Rightarrow> string + (64 word \<times> 64 word)" where
  "fnv128a_UnmarshalBinary b =
     (if length b < length magic128a \<or> take (length magic128a) b \<noteq> magic128a
      then Inl ''hash/fnv: invalid hash state identifier''
      else if length b \<noteq> length magic128a + 16 then Inl ''hash/fnv: invalid hash state size''
      else (case (readUint64 (drop 4 b), readUint64 (drop 12 b)) of
              (Some s0, Some s1) \<Rightarrow> Inr (s0, s1) | _ \<Rightarrow> Inl ''index out of range''))"

subsection \<open>The interface\<close>

lemma magic_length [simp]:
  "length magic32 = 4" "length magic32a = 4" "length magic64 = 4" "length magic64a = 4" "length magic128 = 4" "length magic128a = 4"
  by (simp_all add: magic32_def magic32a_def magic64_def magic64a_def magic128_def magic128a_def)

text \<open>A state of one or two words behind a magic number of four bytes.\<close>

lemma unmarshal_word32:
  assumes "take 4 b = m" "length b = 8" "readUint32 (drop 4 b) = Some s"
  shows "b = m @ be32 s"
  using be32_read [of "drop 4 b" s] assms append_take_drop_id [of 4 b] by simp

lemma unmarshal_word64:
  assumes "take 4 b = m" "length b = 12" "readUint64 (drop 4 b) = Some s"
  shows "b = m @ be64 s"
  using be64_read [of "drop 4 b" s] assms append_take_drop_id [of 4 b] by simp

lemma unmarshal_word128:
  assumes "take 4 b = m" "length b = 20" "readUint64 (drop 4 b) = Some s0" "readUint64 (drop 12 b) = Some s1"
  shows "b = m @ be64 s0 @ be64 s1"
proof -
  have "be64 s0 = take 8 (drop 4 b)" using assms(2,3) be64_read [of "take 8 (drop 4 b)" s0] readUint64_take [of "drop 4 b"] by simp
  moreover have "be64 s1 = drop 12 b" using assms(2,4) be64_read [of "drop 12 b" s1] by simp
  moreover have "drop 4 b = take 8 (drop 4 b) @ drop 12 b" using append_take_drop_id [of 8 "drop 4 b"] by simp
  ultimately show ?thesis using assms(1) append_take_drop_id [of 4 b] by metis
qed

interpretation fnv32: streaming_hash fnv32_Write fnv32_Sum fnv32_MarshalBinary fnv32_UnmarshalBinary
proof unfold_locales
  show "b = fnv32_MarshalBinary s" if "fnv32_UnmarshalBinary b = Inr s" for b s
    using that unmarshal_word32 [of b magic32]
    by (auto simp: fnv32_UnmarshalBinary_def fnv32_MarshalBinary_def split: if_splits option.splits prod.splits)
qed (use read_be64 [of _ "[]"] in \<open>auto simp: fnv32_Write_def fnv32_Sum_def fnv32_UnmarshalBinary_def fnv32_MarshalBinary_def
    read_be32 split: prod.splits\<close>)

interpretation fnv32a: streaming_hash fnv32a_Write fnv32a_Sum fnv32a_MarshalBinary fnv32a_UnmarshalBinary
proof unfold_locales
  show "b = fnv32a_MarshalBinary s" if "fnv32a_UnmarshalBinary b = Inr s" for b s
    using that unmarshal_word32 [of b magic32a]
    by (auto simp: fnv32a_UnmarshalBinary_def fnv32a_MarshalBinary_def split: if_splits option.splits prod.splits)
qed (use read_be64 [of _ "[]"] in \<open>auto simp: fnv32a_Write_def fnv32a_Sum_def fnv32a_UnmarshalBinary_def fnv32a_MarshalBinary_def
    read_be32 split: prod.splits\<close>)

interpretation fnv64: streaming_hash fnv64_Write fnv64_Sum fnv64_MarshalBinary fnv64_UnmarshalBinary
proof unfold_locales
  show "b = fnv64_MarshalBinary s" if "fnv64_UnmarshalBinary b = Inr s" for b s
    using that unmarshal_word64 [of b magic64]
    by (auto simp: fnv64_UnmarshalBinary_def fnv64_MarshalBinary_def split: if_splits option.splits prod.splits)
qed (use read_be64 [of _ "[]"] in \<open>auto simp: fnv64_Write_def fnv64_Sum_def fnv64_UnmarshalBinary_def fnv64_MarshalBinary_def
    read_be64 split: prod.splits\<close>)

interpretation fnv64a: streaming_hash fnv64a_Write fnv64a_Sum fnv64a_MarshalBinary fnv64a_UnmarshalBinary
proof unfold_locales
  show "b = fnv64a_MarshalBinary s" if "fnv64a_UnmarshalBinary b = Inr s" for b s
    using that unmarshal_word64 [of b magic64a]
    by (auto simp: fnv64a_UnmarshalBinary_def fnv64a_MarshalBinary_def split: if_splits option.splits prod.splits)
qed (use read_be64 [of _ "[]"] in \<open>auto simp: fnv64a_Write_def fnv64a_Sum_def fnv64a_UnmarshalBinary_def fnv64a_MarshalBinary_def
    read_be64 split: prod.splits\<close>)

interpretation fnv128: streaming_hash fnv128_Write fnv128_Sum fnv128_MarshalBinary fnv128_UnmarshalBinary
proof unfold_locales
  show "b = fnv128_MarshalBinary s" if "fnv128_UnmarshalBinary b = Inr s" for b s
    using that unmarshal_word128 [of b magic128]
    by (auto simp: fnv128_UnmarshalBinary_def fnv128_MarshalBinary_def split: if_splits option.splits prod.splits)
qed (use read_be64 [of _ "[]"] in \<open>auto simp: fnv128_Write_def fnv128_Sum_def fnv128_UnmarshalBinary_def fnv128_MarshalBinary_def
    read_be64 split: prod.splits\<close>)

interpretation fnv128a: streaming_hash fnv128a_Write fnv128a_Sum fnv128a_MarshalBinary fnv128a_UnmarshalBinary
proof unfold_locales
  show "b = fnv128a_MarshalBinary s" if "fnv128a_UnmarshalBinary b = Inr s" for b s
    using that unmarshal_word128 [of b magic128a]
    by (auto simp: fnv128a_UnmarshalBinary_def fnv128a_MarshalBinary_def split: if_splits option.splits prod.splits)
qed (use read_be64 [of _ "[]"] in \<open>auto simp: fnv128a_Write_def fnv128a_Sum_def fnv128a_UnmarshalBinary_def fnv128a_MarshalBinary_def
    read_be64 split: prod.splits\<close>)

end
