(* ===== verification/Hash_Fnv_Props.thy ===== *)
theory Hash_Fnv_Props
  imports Hash_Fnv
begin

unbundle bit_operations_syntax

section \<open>The 128-bit arithmetic of hash/fnv\<close>

text \<open>
  The 128-bit hashes on pairs of 64-bit words are shown to multiply by the FNV prime modulo \<open>2 ^ 128\<close>;
  the product of the lower word is that of \<open>bits.Mul64\<close>, whose exactness is a lemma of \<open>Math_Bits_Arith\<close>.
\<close>

definition val128 :: "64 word \<times> 64 word \<Rightarrow> 128 word" where
  "val128 h = ucast (fst h) * 2 ^ 64 + ucast (snd h)"

definition fnv_prime128 :: "128 word" where
  "fnv_prime128 = 2 ^ 88 + 0x13b"

lemma word_2_128: "(2 :: 128 word) ^ 128 = 0"
  by (simp add: exp_eq_zero_iff)

lemma ucast_of_nat: "(ucast (w :: 64 word) :: 128 word) = of_nat (unat w)"
  by simp

text \<open>What is above the upper word vanishes modulo \<open>2 ^ 128\<close>.\<close>

lemma hi_mod: "of_nat (n mod 2 ^ 64) * 2 ^ 64 = (of_nat n * 2 ^ 64 :: 128 word)"
proof -
  have "n = n div 2 ^ 64 * 2 ^ 64 + n mod 2 ^ 64" by (simp only: div_mult_mod_eq)
  then have "(of_nat n :: 128 word) = of_nat (n div 2 ^ 64) * 2 ^ 64 + of_nat (n mod 2 ^ 64)"
    by (metis of_nat_add of_nat_mult of_nat_power of_nat_numeral)
  then have "(of_nat n * 2 ^ 64 :: 128 word) = of_nat (n div 2 ^ 64) * (2 ^ 64 * 2 ^ 64) + of_nat (n mod 2 ^ 64) * 2 ^ 64"
    by (simp only: distrib_right mult.assoc)
  also have "(2 ^ 64 * 2 ^ 64 :: 128 word) = 2 ^ 128" unfolding power_add [symmetric] by simp
  finally show ?thesis by (simp only: word_2_128 mult_zero_right add_0)
qed

lemma fnv_mul128:
  assumes "Mul64 prime128Lower h1 = (s0, s1)"
  shows "val128 (s0 + (push_bit prime128Shift h1 + prime128Lower * h0), s1) = val128 (h0, h1) * fnv_prime128"
proof -
  define N where "N = unat s0 + (unat h1 * 2 ^ 24 + 0x13b * unat h0)"
  have "unat (push_bit 24 h1) = unat h1 * 2 ^ 24 mod 2 ^ 64"
    unfolding unsigned_push_bit_eq by (simp add: take_bit_eq_mod push_bit_eq_mult)
  then have "unat (s0 + (push_bit prime128Shift h1 + prime128Lower * h0)) = N mod 2 ^ 64"
    unfolding N_def prime128Lower_def prime128Shift_def unat_word_ariths by (simp add: mod_simps)
  then have "val128 (s0 + (push_bit prime128Shift h1 + prime128Lower * h0), s1) = of_nat N * 2 ^ 64 + of_nat (unat s1)"
    unfolding val128_def ucast_of_nat fst_conv snd_conv by (simp only: hi_mod)
  also have "\<dots> = of_nat (unat s0 * 2 ^ 64 + unat s1) + (of_nat (unat h1) * 2 ^ 88 + 0x13b * of_nat (unat h0) * 2 ^ 64)"
    unfolding N_def by (simp add: algebra_simps)
  also have "unat s0 * 2 ^ 64 + unat s1 = 0x13b * unat h1"
    using Mul64_exact [OF assms] by (simp add: prime128Lower_def)
  also have "of_nat (0x13b * unat h1) + (of_nat (unat h1) * 2 ^ 88 + 0x13b * of_nat (unat h0) * 2 ^ 64) =
      (of_nat (unat h0) * 2 ^ 64 + of_nat (unat h1)) * fnv_prime128 - of_nat (unat h0) * (2 ^ 24 * 2 ^ 128 :: 128 word)"
    unfolding fnv_prime128_def by (simp add: algebra_simps)
  finally show ?thesis unfolding val128_def ucast_of_nat fst_conv snd_conv word_2_128 by (simp only: mult_zero_right diff_zero)
qed

lemma val128_or: "val128 (h0, h1) = push_bit 64 (ucast h0) OR ucast h1"
proof -
  have "push_bit 64 (ucast h0) AND ucast h1 = (0 :: 128 word)"
    by (rule bit_word_eqI) (auto simp: bit_simps dest: bit_imp_le_length)
  then show ?thesis by (simp add: val128_def disjunctive_add_eq_or push_bit_eq_mult)
qed

lemma fnv_xor128: "val128 (h0, h1 XOR ucast (c :: byte)) = val128 (h0, h1) XOR ucast c"
  unfolding val128_or by (rule bit_word_eqI) (auto simp: bit_simps dest: bit_imp_le_length)

lemma fnv128_Write_eq: "val128 (fnv128_Write data h) = fold (\<lambda>c v. (v * fnv_prime128) XOR ucast c) data (val128 h)"
proof (induction data arbitrary: h)
  case (Cons c data)
  obtain h0 h1 where h: "h = (h0, h1)" by (cases h)
  obtain s0 s1 where s: "Mul64 prime128Lower h1 = (s0, s1)" by (cases "Mul64 prime128Lower h1")
  show ?case
    using Cons.IH [of "(s0 + (push_bit prime128Shift h1 + prime128Lower * h0), s1 XOR ucast c)"] fnv_mul128 [OF s]
    by (simp add: fnv128_Write_def h s Let_def fnv_xor128)
qed (simp add: fnv128_Write_def)

lemma fnv128a_Write_eq: "val128 (fnv128a_Write data h) = fold (\<lambda>c v. (v XOR ucast c) * fnv_prime128) data (val128 h)"
proof (induction data arbitrary: h)
  case (Cons c data)
  obtain h0 h1 where h: "h = (h0, h1)" by (cases h)
  obtain s0 s1 where s: "Mul64 prime128Lower (h1 XOR ucast c) = (s0, s1)" by (cases "Mul64 prime128Lower (h1 XOR ucast c)")
  show ?case
    using Cons.IH [of "(s0 + (push_bit prime128Shift (h1 XOR ucast c) + prime128Lower * h0), s1)"] fnv_mul128 [OF s, of h0]
    by (simp add: fnv128a_Write_def h s Let_def fnv_xor128)
qed (simp add: fnv128a_Write_def)

text \<open>
  C35. The 128-bit FNV hashes, computed on pairs of 64-bit words, are the multiplication by the
  FNV prime modulo \<open>2 ^ 128\<close> and the exclusive or with each byte. For all six hashes, data may be
  written in pieces, and \<open>UnmarshalBinary\<close> accepts exactly what \<open>MarshalBinary\<close> of the same hash
  returned, and restores that state.
\<close>

theorem fnv_correct:
  "val128 (fnv128_Write data h) = fold (\<lambda>c v. (v * fnv_prime128) XOR ucast c) data (val128 h) \<and>
   val128 (fnv128a_Write data h) = fold (\<lambda>c v. (v XOR ucast c) * fnv_prime128) data (val128 h) \<and>
   (fold fnv32_Write ps s = fnv32_Write (concat ps) s \<and> (fnv32_UnmarshalBinary b = Inr s \<longleftrightarrow> b = fnv32_MarshalBinary s)) \<and>
   (fold fnv32a_Write ps s = fnv32a_Write (concat ps) s \<and> (fnv32a_UnmarshalBinary b = Inr s \<longleftrightarrow> b = fnv32a_MarshalBinary s)) \<and>
   (fold fnv64_Write ps t = fnv64_Write (concat ps) t \<and> (fnv64_UnmarshalBinary b = Inr t \<longleftrightarrow> b = fnv64_MarshalBinary t)) \<and>
   (fold fnv64a_Write ps t = fnv64a_Write (concat ps) t \<and> (fnv64a_UnmarshalBinary b = Inr t \<longleftrightarrow> b = fnv64a_MarshalBinary t)) \<and>
   (fold fnv128_Write ps h = fnv128_Write (concat ps) h \<and> (fnv128_UnmarshalBinary b = Inr h \<longleftrightarrow> b = fnv128_MarshalBinary h)) \<and>
   (fold fnv128a_Write ps h = fnv128a_Write (concat ps) h \<and> (fnv128a_UnmarshalBinary b = Inr h \<longleftrightarrow> b = fnv128a_MarshalBinary h))"
  by (intro conjI fnv128_Write_eq fnv128a_Write_eq fnv32.Write_chunks fnv32a.Write_chunks fnv64.Write_chunks
      fnv64a.Write_chunks fnv128.Write_chunks fnv128a.Write_chunks fnv32.Unmarshal_iff fnv32a.Unmarshal_iff
      fnv64.Unmarshal_iff fnv64a.Unmarshal_iff fnv128.Unmarshal_iff fnv128a.Unmarshal_iff)

end
