(* ===== verification/Path.thy ===== *)
theory Path
  imports Go_Prelude
begin

section \<open>Slash-separated paths (package path)\<close>

text \<open>
  Strings are lists of bytes. An index out of range panics: \<open>None\<close>. The buffer of \<open>Clean\<close> is the
  argument itself until the output differs from it.
\<close>

abbreviation slash :: byte where "slash \<equiv> 0x2F"
abbreviation dot :: byte where "dot \<equiv> 0x2E"

record lazybuf =
  lb_s :: "byte list"
  lb_buf :: "byte list option"
  lb_w :: nat

definition lb_data :: "lazybuf \<Rightarrow> byte list" where
  "lb_data b = (case lb_buf b of None \<Rightarrow> lb_s b | Some x \<Rightarrow> x)"

definition lb_index :: "lazybuf \<Rightarrow> nat \<Rightarrow> byte option" where
  "lb_index b i = (if i < length (lb_data b) then Some (lb_data b ! i) else None)"

definition lb_append :: "byte \<Rightarrow> lazybuf \<Rightarrow> lazybuf option" where
  "lb_append c b =
     (if lb_buf b = None \<and> lb_w b < length (lb_s b) \<and> lb_s b ! lb_w b = c then Some (b\<lparr>lb_w := lb_w b + 1\<rparr>)
      else
        let b = (if lb_buf b = None
                 then b\<lparr>lb_buf := Some (take (lb_w b) (lb_s b) @ replicate (length (lb_s b) - lb_w b) 0)\<rparr> else b)
        in if lb_w b < length (lb_data b)
           then Some (b\<lparr>lb_buf := Some ((lb_data b)[lb_w b := c]), lb_w := lb_w b + 1\<rparr>)
           else None)"

definition lb_string :: "lazybuf \<Rightarrow> byte list" where
  "lb_string b = take (lb_w b) (lb_data b)"

text \<open>The loop that backtracks over the last element, for the value \<open>w\<close> of \<open>out.w\<close>.\<close>

fun clean_back :: "lazybuf \<Rightarrow> nat \<Rightarrow> nat \<Rightarrow> nat option" where
  "clean_back out dotdot 0 = Some 0"
| "clean_back out dotdot (Suc w) =
     (if Suc w > dotdot
      then do { c \<leftarrow> lb_index out (Suc w); if c \<noteq> slash then clean_back out dotdot w else Some (Suc w) }
      else Some (Suc w))"

fun clean_copy :: "byte list \<Rightarrow> nat \<Rightarrow> lazybuf \<Rightarrow> (nat \<times> lazybuf) option" where
  "clean_copy [] r out = Some (r, out)"
| "clean_copy (c # p) r out =
     (if c \<noteq> slash then do { out \<leftarrow> lb_append c out; clean_copy p (r + 1) out } else Some (r, out))"

text \<open>
  The main loop. The copy of an element reads the path from \<open>r\<close> on, which is the argument
  \<open>drop r path\<close> of \<open>clean_copy\<close>.
\<close>

partial_function (option) clean_loop :: "byte list \<Rightarrow> bool \<Rightarrow> nat \<Rightarrow> nat \<Rightarrow> lazybuf \<Rightarrow> lazybuf option" where
  "clean_loop path rooted r dotdot out =
     (let n = length path in
      if \<not> r < n then Some out
      else if path ! r = slash then clean_loop path rooted (r + 1) dotdot out
      else if path ! r = dot \<and> (r + 1 = n \<or> path ! (r + 1) = slash) then clean_loop path rooted (r + 1) dotdot out
      else if path ! r = dot \<and> path ! (r + 1) = dot \<and> (r + 2 = n \<or> path ! (r + 2) = slash) then
        (if lb_w out > dotdot then
           do { w \<leftarrow> clean_back out dotdot (lb_w out - 1);
                clean_loop path rooted (r + 2) dotdot (out\<lparr>lb_w := w\<rparr>) }
         else if \<not> rooted then
           do { out \<leftarrow> (if lb_w out > 0 then lb_append slash out else Some out);
                out \<leftarrow> lb_append dot out;
                out \<leftarrow> lb_append dot out;
                clean_loop path rooted (r + 2) (lb_w out) out }
         else clean_loop path rooted (r + 2) dotdot out)
      else
        do { out \<leftarrow> (if rooted \<and> lb_w out \<noteq> 1 \<or> \<not> rooted \<and> lb_w out \<noteq> 0 then lb_append slash out else Some out);
             (r, out) \<leftarrow> clean_copy (drop r path) r out;
             clean_loop path rooted r dotdot out })"

definition path_Clean :: "byte list \<Rightarrow> byte list option" where
  "path_Clean path =
     (if path = [] then Some [dot]
      else
        do { let rooted = (path ! 0 = slash);
             let out = \<lparr>lb_s = path, lb_buf = None, lb_w = 0\<rparr>;
             out \<leftarrow> (if rooted then lb_append slash out else Some out);
             let r = (if rooted then 1 else 0);
             let dotdot = (if rooted then 1 else 0);
             out \<leftarrow> clean_loop path rooted r dotdot out;
             Some (if lb_w out = 0 then [dot] else lb_string out) })"

text \<open>\<open>lastSlash\<close> counts an index down from the end, to -1 if there is no slash.\<close>

function lastSlash_loop :: "byte list \<Rightarrow> int \<Rightarrow> int" where
  "lastSlash_loop s i = (if i \<ge> 0 \<and> s ! nat i \<noteq> slash then lastSlash_loop s (i - 1) else i)"
  by pat_completeness auto
termination by (relation "measure (\<lambda>(s, i). nat (i + 1))") auto

declare lastSlash_loop.simps [simp del]

definition lastSlash :: "byte list \<Rightarrow> int" where
  "lastSlash s = lastSlash_loop s (int (length s) - 1)"

definition path_Split :: "byte list \<Rightarrow> byte list \<times> byte list" where
  "path_Split path = (let i = lastSlash path in (take (nat (i + 1)) path, drop (nat (i + 1)) path))"

definition join_step :: "byte list \<Rightarrow> byte list \<Rightarrow> byte list" where
  "join_step e buf =
     (if length buf > 0 \<or> e \<noteq> [] then (let buf = (if length buf > 0 then buf @ [slash] else buf) in buf @ e) else buf)"

text \<open>
  \<open>size\<close> is the length of all elements together, which Go holds in an \<open>int\<close>; it is computed only to
  allocate the buffer and to see that it is not 0.
\<close>

definition path_Join :: "byte list list \<Rightarrow> byte list option" where
  "path_Join elem =
     (let size = fold (\<lambda>e size. size + length e) elem 0 in
      if size = 0 then Some []
      else
        let buf = fold join_step elem [] in path_Clean buf)"

function Ext_loop :: "byte list \<Rightarrow> int \<Rightarrow> byte list" where
  "Ext_loop path i =
     (if i \<ge> 0 \<and> path ! nat i \<noteq> slash
      then (if path ! nat i = dot then drop (nat i) path else Ext_loop path (i - 1))
      else [])"
  by pat_completeness auto
termination by (relation "measure (\<lambda>(s, i). nat (i + 1))") auto

declare Ext_loop.simps [simp del]

definition path_Ext :: "byte list \<Rightarrow> byte list" where
  "path_Ext path = Ext_loop path (int (length path) - 1)"

function strip_slashes :: "byte list \<Rightarrow> byte list" where
  "strip_slashes path =
     (if length path > 0 \<and> path ! (length path - 1) = slash then strip_slashes (take (length path - 1) path) else path)"
  by pat_completeness auto
termination by (relation "measure length") auto

declare strip_slashes.simps [simp del]

definition path_Base :: "byte list \<Rightarrow> byte list" where
  "path_Base path =
     (if path = [] then [dot]
      else
        let path = strip_slashes path;
            i = lastSlash path;
            path = (if i \<ge> 0 then drop (nat (i + 1)) path else path)
        in if path = [] then [slash] else path)"

definition path_IsAbs :: "byte list \<Rightarrow> bool" where
  "path_IsAbs path \<longleftrightarrow> length path > 0 \<and> path ! 0 = slash"

definition path_Dir :: "byte list \<Rightarrow> byte list option" where
  "path_Dir path = (case path_Split path of (dir, _) \<Rightarrow> path_Clean dir)"

end
