(* ===== verification/Path_Clean.thy ===== *)
theory Path_Clean
  imports Path
begin

section \<open>Clean normalises the elements of a path\<close>

text \<open>
  The reference: a path is split at its slashes, and its elements are processed with a stack. The
  loop of \<open>Clean\<close>, which reads and writes bytes and backtracks by searching for a slash, is shown to
  do just that, without an index out of range.
\<close>

abbreviation dotdot_elem :: "byte list" where "dotdot_elem \<equiv> [dot, dot]"

fun comps :: "byte list \<Rightarrow> byte list list" where
  "comps [] = [[]]"
| "comps (c # s) = (if c = slash then [] # comps s else (c # hd (comps s)) # tl (comps s))"

fun join :: "byte list list \<Rightarrow> byte list" where
  "join [] = []"
| "join [x] = x"
| "join (x # y # ys) = x @ slash # join (y # ys)"

definition clean_step :: "bool \<Rightarrow> byte list \<Rightarrow> byte list list \<Rightarrow> byte list list" where
  "clean_step rooted e xs =
     (if e = [] \<or> e = [dot] then xs
      else if e = dotdot_elem then
        (if xs \<noteq> [] \<and> last xs \<noteq> dotdot_elem then butlast xs else if rooted then xs else xs @ [e])
      else xs @ [e])"

definition render :: "bool \<Rightarrow> byte list list \<Rightarrow> byte list" where
  "render rooted xs = (if rooted then [slash] else []) @ join xs"

definition clean_ref :: "byte list \<Rightarrow> byte list" where
  "clean_ref path =
     (let rooted = path_IsAbs path; out = render rooted (fold (clean_step rooted) (comps path) [])
      in if out = [] then [dot] else out)"

subsection \<open>Splitting and joining\<close>

lemma comps_ne [simp]: "comps s \<noteq> []"
  by (cases s) simp_all

lemma comps_elem: "slash \<notin> set e \<Longrightarrow> comps (e @ slash # s) = e # comps s" "slash \<notin> set e \<Longrightarrow> comps e = [e]"
  by (induction e) auto

lemma join_snoc: "join (xs @ [x]) = (if xs = [] then x else join xs @ slash # x)"
  by (induction xs rule: join.induct) auto

lemma comps_join: "xs \<noteq> [] \<Longrightarrow> (\<And>x. x \<in> set xs \<Longrightarrow> slash \<notin> set x) \<Longrightarrow> comps (join xs) = xs"
  by (induction xs rule: join.induct) (simp_all add: comps_elem)

lemma join_empty: "(\<And>x. x \<in> set xs \<Longrightarrow> x \<noteq> []) \<Longrightarrow> join xs = [] \<longleftrightarrow> xs = []"
  by (cases xs rule: join.cases) auto

text \<open>Processing an element and what follows it.\<close>

lemma fold_comps:
  assumes "slash \<notin> set e" "rest = [] \<or> hd rest = slash"
  shows "fold (clean_step rooted) (comps (e @ rest)) xs = fold (clean_step rooted) (comps rest) (clean_step rooted e xs)"
proof (cases rest)
  case Nil
  then show ?thesis using assms by (simp add: comps_elem clean_step_def)
next
  case (Cons c s)
  then have "c = slash" using assms by simp
  then show ?thesis using assms(1) Cons by (simp add: comps_elem) (simp add: clean_step_def)
qed

subsection \<open>The stack\<close>

text \<open>At the bottom there are \<open>d\<close> elements \<open>..\<close>, none for a rooted path, and real elements above.\<close>

definition stack_ok :: "bool \<Rightarrow> nat \<Rightarrow> byte list list \<Rightarrow> bool" where
  "stack_ok rooted d xs \<longleftrightarrow> (rooted \<longrightarrow> d = 0) \<and>
     (\<exists>ys. xs = replicate d dotdot_elem @ ys \<and> (\<forall>y\<in>set ys. y \<noteq> dotdot_elem \<and> y \<noteq> [] \<and> y \<noteq> [dot] \<and> slash \<notin> set y))"

definition dotdot_at :: "bool \<Rightarrow> nat \<Rightarrow> nat" where
  "dotdot_at rooted d = length (render rooted (replicate d dotdot_elem))"

lemma stack_ok_Nil [simp]: "stack_ok rooted 0 []"
  by (simp add: stack_ok_def)

lemma stack_elem: "stack_ok rooted d xs \<Longrightarrow> x \<in> set xs \<Longrightarrow> slash \<notin> set x \<and> x \<noteq> [] \<and> x \<noteq> [dot]"
proof -
  assume "stack_ok rooted d xs" and x: "x \<in> set xs"
  then obtain ys where ys: "xs = replicate d dotdot_elem @ ys"
    "\<And>y. y \<in> set ys \<Longrightarrow> y \<noteq> dotdot_elem \<and> y \<noteq> [] \<and> y \<noteq> [dot] \<and> slash \<notin> set y" by (auto simp: stack_ok_def)
  have "x = dotdot_elem \<or> x \<in> set ys" using x unfolding ys(1) by (cases d) auto
  then show ?thesis using ys(2) [of x] by auto
qed

lemma stack_push:
  "stack_ok rooted d xs \<Longrightarrow> e \<noteq> dotdot_elem \<Longrightarrow> e \<noteq> [] \<Longrightarrow> e \<noteq> [dot] \<Longrightarrow> slash \<notin> set e \<Longrightarrow> stack_ok rooted d (xs @ [e])"
proof -
  assume "stack_ok rooted d xs" and e: "e \<noteq> dotdot_elem" "e \<noteq> []" "e \<noteq> [dot]" "slash \<notin> set e"
  then obtain ys where ys: "rooted \<longrightarrow> d = 0" "xs = replicate d dotdot_elem @ ys"
    "\<forall>y\<in>set ys. y \<noteq> dotdot_elem \<and> y \<noteq> [] \<and> y \<noteq> [dot] \<and> slash \<notin> set y" by (auto simp: stack_ok_def)
  show ?thesis unfolding stack_ok_def using ys e by (intro conjI exI [of _ "ys @ [e]"]) auto
qed

lemma stack_cases:
  assumes "stack_ok rooted d xs"
  obtains (bottom) "xs = replicate d dotdot_elem" "xs = [] \<or> last xs = dotdot_elem"
  | (top) zs z where "xs = zs @ [z]" "z \<noteq> dotdot_elem" "stack_ok rooted d zs" "slash \<notin> set z" "z \<noteq> []"
proof -
  obtain ys where ys: "xs = replicate d dotdot_elem @ ys"
    "\<forall>y\<in>set ys. y \<noteq> dotdot_elem \<and> y \<noteq> [] \<and> y \<noteq> [dot] \<and> slash \<notin> set y" "rooted \<longrightarrow> d = 0"
    using assms by (auto simp: stack_ok_def)
  show thesis
  proof (cases ys rule: rev_cases)
    case Nil
    then show thesis using ys(1) by (intro bottom) (simp, cases d, simp_all add: last_replicate)
  next
    case (snoc us u)
    then show thesis using ys by (intro top [of "replicate d dotdot_elem @ us" u]) (auto simp: stack_ok_def)
  qed
qed

lemma render_snoc: "render rooted (xs @ [x]) = render rooted xs @ (if xs = [] then x else slash # x)"
  by (simp add: render_def join_snoc)

lemma render_mono: "length (render rooted xs) \<le> length (render rooted (xs @ ys))"
  by (induction ys rule: rev_induct) (simp_all add: render_snoc flip: append_assoc)

lemma dotdot_le: "stack_ok rooted d xs \<Longrightarrow> dotdot_at rooted d \<le> length (render rooted xs)"
  using render_mono by (auto simp: stack_ok_def dotdot_at_def)

subsection \<open>The buffer\<close>

definition lb_ok :: "nat \<Rightarrow> lazybuf \<Rightarrow> bool" where
  "lb_ok n b \<longleftrightarrow> length (lb_s b) = n \<and> length (lb_data b) = n \<and> lb_w b \<le> n"

lemma lb_string_length: "lb_ok n b \<Longrightarrow> length (lb_string b) = lb_w b"
  by (simp add: lb_ok_def lb_string_def)

lemma lb_append_ok:
  assumes ok: "lb_ok n b" and w: "lb_w b < n"
  obtains b' where "lb_append c b = Some b'" "lb_ok n b'" "lb_string b' = lb_string b @ [c]" "lb_w b' = Suc (lb_w b)"
proof (cases "lb_buf b = None \<and> lb_s b ! lb_w b = c")
  case True
  then show thesis
    using that [of "b\<lparr>lb_w := lb_w b + 1\<rparr>"] ok w
    by (auto simp: lb_append_def lb_ok_def lb_string_def lb_data_def take_Suc_conv_app_nth)
next
  case False
  define d where "d = (if lb_buf b = None then take (lb_w b) (lb_s b) @ replicate (n - lb_w b) 0 else lb_data b)"
  have d: "length d = n" "take (lb_w b) d = lb_string b"
    using ok by (auto simp: d_def lb_ok_def lb_string_def lb_data_def split: option.splits)
  have "lb_append c b = Some (b\<lparr>lb_buf := Some (d[lb_w b := c]), lb_w := lb_w b + 1\<rparr>)"
    using False ok w d(1) by (auto simp: lb_append_def d_def lb_ok_def lb_data_def Let_def split: option.splits)
  then show thesis
    using that [of "b\<lparr>lb_buf := Some (d[lb_w b := c]), lb_w := lb_w b + 1\<rparr>"] ok w d
    by (simp add: lb_ok_def lb_string_def lb_data_def take_Suc_conv_app_nth)
qed

lemma clean_copy_ok:
  assumes "lb_ok n b" "lb_w b + length e \<le> n" "slash \<notin> set e" "rest = [] \<or> hd rest = slash"
  shows "\<exists>b'. clean_copy (e @ rest) r b = Some (r + length e, b') \<and> lb_ok n b' \<and> lb_string b' = lb_string b @ e \<and>
    lb_w b' = lb_w b + length e"
  using assms
proof (induction e arbitrary: b r)
  case Nil
  then show ?case by (cases rest) auto
next
  case (Cons c e)
  have "lb_w b < n" using Cons.prems(2) by simp
  then obtain b1 where b1: "lb_append c b = Some b1" "lb_ok n b1" "lb_string b1 = lb_string b @ [c]" "lb_w b1 = Suc (lb_w b)"
    by (rule lb_append_ok [OF Cons.prems(1)])
  then show ?case using Cons.IH [of b1 "Suc r"] Cons.prems by auto
qed

lemma clean_back_eq:
  assumes "w < length (lb_data out)" "k \<le> w" "dotdot \<le> k" "k = dotdot \<or> lb_data out ! k = slash"
    "\<And>i. k < i \<Longrightarrow> i \<le> w \<Longrightarrow> lb_data out ! i \<noteq> slash"
  shows "clean_back out dotdot w = Some k"
  using assms
proof (induction w)
  case (Suc w)
  then show ?case by (cases "k = Suc w") (auto simp: lb_index_def)
qed simp

subsection \<open>The main loop\<close>

text \<open>
  The buffer holds the rendered stack. There is room for the next element: what was written is
  shorter than what was read where a slash has to be written first.
\<close>

definition clean_inv :: "byte list \<Rightarrow> bool \<Rightarrow> nat \<Rightarrow> nat \<Rightarrow> lazybuf \<Rightarrow> byte list list \<Rightarrow> bool" where
  "clean_inv path rooted r d out xs \<longleftrightarrow>
     lb_ok (length path) out \<and> lb_string out = render rooted xs \<and> stack_ok rooted d xs \<and> r \<le> length path \<and>
     lb_w out \<le> r \<and> (xs = [] \<or> lb_w out < r \<or> r = length path \<or> path ! r = slash)"

lemma inv_w: "clean_inv path rooted r d out xs \<Longrightarrow> lb_w out = length (render rooted xs)"
  using lb_string_length by (force simp: clean_inv_def)

lemma backtrack:
  assumes inv: "clean_inv path rooted r d out (zs @ [z])" and z: "slash \<notin> set z" "z \<noteq> []" and zs: "stack_ok rooted d zs"
  shows "clean_back out (dotdot_at rooted d) (lb_w out - 1) = Some (length (render rooted zs))"
proof -
  let ?P = "render rooted zs" and ?sep = "if zs = [] then [] else [slash]"
  have str: "lb_string out = ?P @ ?sep @ z" using inv by (simp add: clean_inv_def render_snoc)
  have w: "lb_w out = length (?P @ ?sep @ z)" using inv_w [OF inv] by (simp add: render_snoc)
  have ok: "lb_ok (length path) out" using inv by (simp add: clean_inv_def)
  have data: "lb_data out ! i = (?P @ ?sep @ z) ! i" if "i < lb_w out" for i
    using that arg_cong [OF str, of "\<lambda>u. u ! i"] by (simp add: lb_string_def)
  have len: "length (lb_data out) = length path" "lb_w out \<le> length path" using ok by (simp_all add: lb_ok_def)
  obtain m where m: "length z = Suc m" using z(2) by (cases z) auto
  show ?thesis
  proof (rule clean_back_eq)
    show "lb_w out - 1 < length (lb_data out)" "length ?P \<le> lb_w out - 1" using len w by (auto simp: m)
    show "dotdot_at rooted d \<le> length ?P" by (rule dotdot_le [OF zs])
    show "length ?P = dotdot_at rooted d \<or> lb_data out ! length ?P = slash"
    proof (cases "zs = []")
      case True
      then have "d = 0" using zs by (auto simp: stack_ok_def)
      then show ?thesis using True by (simp add: dotdot_at_def)
    next
      case False
      then show ?thesis using data [of "length ?P"] w by (simp add: nth_append)
    qed
    show "lb_data out ! i \<noteq> slash" if "length ?P < i" "i \<le> lb_w out - 1" for i
    proof -
      let ?j = "i - length (?P @ ?sep)"
      have "length (?P @ ?sep) \<le> i" "?j < length z" using that w by (auto simp: m split: if_splits)
      then have "lb_data out ! i = z ! ?j" using data [of i] w that by (auto simp: nth_append m split: if_splits)
      then show ?thesis using z(1) \<open>?j < length z\<close> nth_mem by metis
    qed
  qed
qed

lemma set_w_inv:
  assumes inv: "clean_inv path rooted r d out (zs @ [z])" and zs: "stack_ok rooted d zs"
    and r': "r \<le> r'" "r' \<le> length path" "r' = length path \<or> path ! r' = slash"
  shows "clean_inv path rooted r' d (out\<lparr>lb_w := length (render rooted zs)\<rparr>) zs"
proof -
  have le: "length (render rooted zs) \<le> lb_w out" using inv_w [OF inv] by (simp add: render_snoc)
  have "take (length (render rooted zs)) (lb_string out) = render rooted zs"
    using inv by (simp add: clean_inv_def render_snoc)
  then show ?thesis
    using inv zs r' le by (auto simp: clean_inv_def lb_ok_def lb_string_def lb_data_def min_def split: option.splits)
qed

text \<open>Writing an element after a slash where one is needed.\<close>

definition put_slash :: "byte list list \<Rightarrow> lazybuf \<Rightarrow> lazybuf option" where
  "put_slash xs out = (if xs \<noteq> [] then lb_append slash out else Some out)"

lemma put_slash_ok:
  assumes inv: "clean_inv path rooted r d out xs" and r: "r < length path" "path ! r \<noteq> slash"
  obtains out' where "put_slash xs out = Some out'" "lb_ok (length path) out'"
    "lb_string out' = render rooted xs @ (if xs = [] then [] else [slash])" "lb_w out' \<le> r"
proof (cases "xs = []")
  case True
  then show thesis using inv that [of out] by (simp add: clean_inv_def put_slash_def)
next
  case False
  then have w: "lb_w out < r" using inv r by (auto simp: clean_inv_def)
  then have "lb_w out < length path" using r by simp
  moreover have "lb_ok (length path) out" using inv by (simp add: clean_inv_def)
  ultimately obtain out' where "lb_append slash out = Some out'" "lb_ok (length path) out'"
    "lb_string out' = lb_string out @ [slash]" "lb_w out' = Suc (lb_w out)" by (metis lb_append_ok)
  then show thesis using False w inv that [of out'] by (simp add: clean_inv_def put_slash_def)
qed

lemma slash_test:
  assumes inv: "clean_inv path rooted r d out xs"
  shows "rooted \<and> lb_w out \<noteq> 1 \<or> \<not> rooted \<and> lb_w out \<noteq> 0 \<longleftrightarrow> xs \<noteq> []"
proof -
  have "join xs = [] \<longleftrightarrow> xs = []"
    using inv stack_elem by (intro join_empty) (auto simp: clean_inv_def)
  then show ?thesis using inv_w [OF inv] by (auto simp: render_def)
qed

lemma next_element:
  assumes "r < length path" "path ! r \<noteq> slash"
  obtains e rest where "drop r path = e @ rest" "e \<noteq> []" "slash \<notin> set e" "rest = [] \<or> hd rest = slash"
proof
  let ?e = "takeWhile (\<lambda>c. c \<noteq> slash) (drop r path)" and ?rest = "dropWhile (\<lambda>c. c \<noteq> slash) (drop r path)"
  show "drop r path = ?e @ ?rest" by simp
  show "?e \<noteq> []" using assms by (simp add: takeWhile_eq_Nil_iff hd_drop_conv_nth)
  show "slash \<notin> set ?e" by (auto dest: set_takeWhileD)
  show "?rest = [] \<or> hd ?rest = slash" using hd_dropWhile [of "\<lambda>c. c \<noteq> slash" "drop r path"] by blast
qed

text \<open>The tests of the code on the bytes at \<open>r\<close> tell what the element is.\<close>

lemma element_tests:
  assumes d: "drop r path = e @ rest" and e: "e \<noteq> []" "slash \<notin> set e" "rest = [] \<or> hd rest = slash" and r: "r < length path"
  shows "path ! r = dot \<and> (r + 1 = length path \<or> path ! (r + 1) = slash) \<longleftrightarrow> e = [dot]"
    and "e \<noteq> [dot] \<Longrightarrow> path ! r = dot \<and> path ! (r + 1) = dot \<and> (r + 2 = length path \<or> path ! (r + 2) = slash) \<longleftrightarrow> e = dotdot_elem"
proof -
  have path: "path ! (r + i) = (e @ rest) ! i" for i using r nth_drop [of r path i] by (simp add: d)
  have n: "length path = r + length e + length rest" using arg_cong [OF d, of length] r by simp
  obtain c e1 where c: "e = c # e1" using e(1) by (cases e) auto
  note p = path [of 0] path [of 1] path [of 2]
  show "path ! r = dot \<and> (r + 1 = length path \<or> path ! (r + 1) = slash) \<longleftrightarrow> e = [dot]"
    using p(1,2) n e(2,3) by (cases e1; cases rest) (auto simp: c)
  show "path ! r = dot \<and> path ! (r + 1) = dot \<and> (r + 2 = length path \<or> path ! (r + 2) = slash) \<longleftrightarrow> e = dotdot_elem"
    if "e \<noteq> [dot]"
  proof (cases e1)
    case Nil
    then show ?thesis using p(1) that by (simp add: c)
  next
    case (Cons c2 e2)
    then show ?thesis using p n e(2,3) by (cases e2; cases rest) (auto simp: c numeral_2_eq_2)
  qed
qed

lemma after_element:
  assumes "drop r path = e @ rest" "rest = [] \<or> hd rest = slash" "r \<le> length path"
  shows "drop (r + length e) path = rest" "r + length e \<le> length path" "r + length e = length path \<or> path ! (r + length e) = slash"
proof -
  show d: "drop (r + length e) path = rest" using assms(1) by (metis add.commute append_eq_conv_conj drop_drop)
  show l: "r + length e \<le> length path" using arg_cong [OF assms(1), of length] assms(3) by simp
  show "r + length e = length path \<or> path ! (r + length e) = slash"
  proof (cases "r + length e < length path")
    case True
    then have "rest \<noteq> []" "hd rest = path ! (r + length e)" using d hd_drop_conv_nth by auto
    then show ?thesis using assms(2) by simp
  qed (use l in simp)
qed

lemma copy_inv:
  assumes inv: "clean_inv path rooted r d out xs" and d: "drop r path = e @ rest"
    and e: "e \<noteq> []" "slash \<notin> set e" "rest = [] \<or> hd rest = slash" and real: "e \<noteq> dotdot_elem" "e \<noteq> [dot]"
    and r: "r < length path" "path ! r \<noteq> slash"
  shows "\<exists>out1 out2. put_slash xs out = Some out1 \<and> clean_copy (drop r path) r out1 = Some (r + length e, out2) \<and>
    clean_inv path rooted (r + length e) d out2 (xs @ [e])"
proof -
  obtain out1 where o1: "put_slash xs out = Some out1" "lb_ok (length path) out1"
    "lb_string out1 = render rooted xs @ (if xs = [] then [] else [slash])" "lb_w out1 \<le> r"
    by (rule put_slash_ok [OF inv r])
  note a = after_element [OF d e(3) less_imp_le [OF r(1)]]
  have "lb_w out1 + length e \<le> length path" using o1(4) a(2) by linarith
  from clean_copy_ok [OF o1(2) this e(2,3), of r] obtain out2 where o2: "clean_copy (e @ rest) r out1 = Some (r + length e, out2)"
    "lb_ok (length path) out2" "lb_string out2 = lb_string out1 @ e" "lb_w out2 = lb_w out1 + length e" by blast
  have "stack_ok rooted d (xs @ [e])" using inv real e by (intro stack_push) (simp_all add: clean_inv_def)
  moreover have "lb_string out2 = render rooted (xs @ [e])" using o1(3) o2(3) by (simp add: render_snoc)
  ultimately have "clean_inv path rooted (r + length e) d out2 (xs @ [e])"
    using o1(4) o2 a(2,3) by (auto simp: clean_inv_def)
  then show ?thesis using o1(1) o2(1) d by auto
qed

lemma dotdot_inv:
  assumes inv: "clean_inv path False r d out xs" and xs: "xs = replicate d dotdot_elem"
    and r: "r < length path" "path ! r \<noteq> slash" and r2: "r + 2 \<le> length path" "r + 2 = length path \<or> path ! (r + 2) = slash"
  shows "\<exists>out1 out2 out3. put_slash xs out = Some out1 \<and> lb_append dot out1 = Some out2 \<and> lb_append dot out2 = Some out3 \<and>
    clean_inv path False (r + 2) (Suc d) out3 (xs @ [dotdot_elem]) \<and> lb_w out3 = dotdot_at False (Suc d)"
proof -
  obtain out1 where o1: "put_slash xs out = Some out1" "lb_ok (length path) out1"
    "lb_string out1 = render False xs @ (if xs = [] then [] else [slash])" "lb_w out1 \<le> r"
    by (rule put_slash_ok [OF inv r])
  have w1: "lb_w out1 < length path" using o1(4) r by simp
  obtain out2 where o2: "lb_append dot out1 = Some out2" "lb_ok (length path) out2"
    "lb_string out2 = lb_string out1 @ [dot]" "lb_w out2 = Suc (lb_w out1)" by (rule lb_append_ok [OF o1(2) w1])
  have w2: "lb_w out2 < length path" using o1(4) o2(4) r2(1) by simp
  obtain out3 where o3: "lb_append dot out2 = Some out3" "lb_ok (length path) out3"
    "lb_string out3 = lb_string out2 @ [dot]" "lb_w out3 = Suc (lb_w out2)" by (rule lb_append_ok [OF o2(2) w2])
  have xs': "xs @ [dotdot_elem] = replicate (Suc d) dotdot_elem" by (simp add: xs replicate_append_same)
  have str: "lb_string out3 = render False (xs @ [dotdot_elem])" using o1(3) o2(3) o3(3) by (simp add: render_snoc)
  moreover have "stack_ok False (Suc d) (xs @ [dotdot_elem])" unfolding xs' by (simp add: stack_ok_def)
  ultimately have "clean_inv path False (r + 2) (Suc d) out3 (xs @ [dotdot_elem])"
    using o1(4) o2(4) o3(2,4) r2 by (auto simp: clean_inv_def)
  moreover have "lb_w out3 = dotdot_at False (Suc d)"
    using lb_string_length [OF o3(2)] str by (simp add: dotdot_at_def xs')
  ultimately show ?thesis using o1(1) o2(1) o3(1) by blast
qed

lemma drop_slash: "r < length path \<Longrightarrow> path ! r = slash \<Longrightarrow> comps (drop r path) = [] # comps (drop (r + 1) path)"
  by (subst drop_nth_Cons) simp_all

lemma dotdot_step:
  assumes inv: "clean_inv path rooted r d out xs" and r: "r < length path" "path ! r \<noteq> slash" "r + 2 \<le> length path"
    and t: "\<not> (path ! r = dot \<and> (r + 1 = length path \<or> path ! (r + 1) = slash))"
      "path ! r = dot \<and> path ! (r + 1) = dot \<and> (r + 2 = length path \<or> path ! (r + 2) = slash)"
  shows "\<exists>out' d'. clean_loop path rooted r (dotdot_at rooted d) out = clean_loop path rooted (r + 2) (dotdot_at rooted d') out' \<and>
    clean_inv path rooted (r + 2) d' out' (clean_step rooted dotdot_elem xs)"
proof -
  have "stack_ok rooted d xs" using inv by (simp add: clean_inv_def)
  then show ?thesis
  proof (cases rule: stack_cases)
    case bottom
    then have w: "\<not> lb_w out > dotdot_at rooted d" using inv_w [OF inv] by (simp add: dotdot_at_def)
    show ?thesis
    proof (cases rooted)
      case True
      then have "clean_loop path rooted r (dotdot_at rooted d) out = clean_loop path rooted (r + 2) (dotdot_at rooted d) out"
        using r t w by (subst clean_loop.simps) (simp only: Let_def if_False if_True simp_thms)
      moreover have "clean_inv path rooted (r + 2) d out xs" using inv t(2) r by (auto simp: clean_inv_def)
      moreover have "clean_step rooted dotdot_elem xs = xs" using bottom(2) True by (auto simp: clean_step_def)
      ultimately show ?thesis by metis
    next
      case False
      have inv': "clean_inv path False r d out xs" using inv False by simp
      obtain out1 out2 out3 where o: "put_slash xs out = Some out1" "lb_append dot out1 = Some out2" "lb_append dot out2 = Some out3"
        "clean_inv path False (r + 2) (Suc d) out3 (xs @ [dotdot_elem])" "lb_w out3 = dotdot_at False (Suc d)"
        using dotdot_inv [OF inv' bottom(1) r(1,2,3)] t(2) by blast
      have "lb_w out > 0 \<longleftrightarrow> xs \<noteq> []" using slash_test [OF inv'] by simp
      then have "clean_loop path False r (dotdot_at False d) out = clean_loop path False (r + 2) (dotdot_at False (Suc d)) out3"
        using r t w o False by (subst clean_loop.simps)
          (simp only: Let_def if_False if_True simp_thms put_slash_def [symmetric] bind.bind_lunit)
      moreover have "clean_step False dotdot_elem xs = xs @ [dotdot_elem]" using bottom(2) by (auto simp: clean_step_def)
      ultimately show ?thesis using o(4) False by metis
    qed
  next
    case (top zs z)
    let ?k = "length (render rooted zs)"
    have bk: "clean_back out (dotdot_at rooted d) (lb_w out - 1) = Some ?k"
      using backtrack [of path rooted r d out zs z] inv top by simp
    have "?k < length (render rooted (zs @ [z]))" using top(5) by (cases z) (auto simp: render_snoc)
    then have w: "lb_w out > dotdot_at rooted d" using inv_w [OF inv] dotdot_le [OF top(3)] by (simp add: top(1))
    have "clean_loop path rooted r (dotdot_at rooted d) out =
        clean_loop path rooted (r + 2) (dotdot_at rooted d) (out\<lparr>lb_w := ?k\<rparr>)"
      using r t w bk by (subst clean_loop.simps) (simp only: Let_def if_False if_True simp_thms bind.bind_lunit)
    moreover have "clean_inv path rooted (r + 2) d (out\<lparr>lb_w := ?k\<rparr>) zs"
      using set_w_inv [of path rooted r d out zs z "r + 2"] inv top r t(2) by simp
    moreover have "clean_step rooted dotdot_elem xs = zs" using top(1,2) by (simp add: clean_step_def)
    ultimately show ?thesis by metis
  qed
qed

lemma clean_loop_eq:
  assumes "clean_inv path rooted r d out xs"
  shows "\<exists>out' r' d'. clean_loop path rooted r (dotdot_at rooted d) out = Some out' \<and>
    clean_inv path rooted r' d' out' (fold (clean_step rooted) (comps (drop r path)) xs)"
  using assms
proof (induction "length path - r" arbitrary: r d out xs rule: less_induct)
  case less
  note inv = less.prems
  show ?case
  proof (cases "r < length path")
    case False
    then have "fold (clean_step rooted) (comps (drop r path)) xs = xs" by (simp add: clean_step_def)
    then show ?thesis using False inv by (subst clean_loop.simps) auto
  next
    case r: True
    show ?thesis
    proof (cases "path ! r = slash")
      case True
      have "clean_inv path rooted (r + 1) d out xs" using inv r by (auto simp: clean_inv_def)
      moreover have "fold (clean_step rooted) (comps (drop r path)) xs = fold (clean_step rooted) (comps (drop (r + 1) path)) xs"
        using drop_slash [OF r True] by (simp add: clean_step_def)
      ultimately show ?thesis using less.hyps [of "r + 1" d out xs] r True by (subst clean_loop.simps) (simp add: Let_def)
    next
      case ns: False
      obtain e rest where e: "drop r path = e @ rest" "e \<noteq> []" "slash \<notin> set e" "rest = [] \<or> hd rest = slash"
        by (rule next_element [OF r ns])
      note tests = element_tests [OF e r] and after = after_element [OF e(1,4) less_imp_le [OF r]]
      have fold: "fold (clean_step rooted) (comps (drop r path)) xs =
          fold (clean_step rooted) (comps (drop (r + length e) path)) (clean_step rooted e xs)"
        using fold_comps [OF e(3,4)] by (simp add: e(1) after(1))
      have IH: "\<exists>out'' r'' d''. clean_loop path rooted (r + length e) (dotdot_at rooted d') out' = Some out'' \<and>
          clean_inv path rooted r'' d'' out'' (fold (clean_step rooted) (comps (drop (r + length e) path)) xs')"
        if "clean_inv path rooted (r + length e) d' out' xs'" for d' out' xs'
      proof (rule less.hyps [OF _ that])
        show "length path - (r + length e) < length path - r" using e(2) r by (cases e) auto
      qed
      consider (dot) "e = [dot]" | (dd) "e = dotdot_elem" | (real) "e \<noteq> [dot]" "e \<noteq> dotdot_elem" by blast
      then show ?thesis
      proof cases
        case dot
        have "clean_inv path rooted (r + 1) d out xs" using inv r after dot by (auto simp: clean_inv_def)
        then show ?thesis
          using IH [of d out xs] fold dot tests(1) r ns by (subst clean_loop.simps) (simp add: Let_def clean_step_def)
      next
        case dd
        have t: "\<not> (path ! r = dot \<and> (r + 1 = length path \<or> path ! (r + 1) = slash))"
          "path ! r = dot \<and> path ! (r + 1) = dot \<and> (r + 2 = length path \<or> path ! (r + 2) = slash)"
          using tests dd by simp_all
        obtain out' d' where o: "clean_loop path rooted r (dotdot_at rooted d) out = clean_loop path rooted (r + 2) (dotdot_at rooted d') out'"
          "clean_inv path rooted (r + 2) d' out' (clean_step rooted dotdot_elem xs)"
          using dotdot_step [OF inv r ns _ t] after(2) dd by auto
        then show ?thesis using IH [of d' out' "clean_step rooted dotdot_elem xs"] fold dd by simp
      next
        case real
        have t: "\<not> (path ! r = dot \<and> (r + 1 = length path \<or> path ! (r + 1) = slash))"
          "\<not> (path ! r = dot \<and> path ! (r + 1) = dot \<and> (r + 2 = length path \<or> path ! (r + 2) = slash))"
          using tests real by simp_all
        obtain out1 out2 where o: "put_slash xs out = Some out1" "clean_copy (drop r path) r out1 = Some (r + length e, out2)"
          "clean_inv path rooted (r + length e) d out2 (xs @ [e])"
          using copy_inv [OF inv e real(2,1) r ns] by blast
        have "clean_loop path rooted r (dotdot_at rooted d) out = clean_loop path rooted (r + length e) (dotdot_at rooted d) out2"
          using r ns t o(1,2) slash_test [OF inv]
          by (subst clean_loop.simps) (simp only: Let_def if_False if_True simp_thms put_slash_def [symmetric] bind.bind_lunit prod.case)
        then show ?thesis using IH [OF o(3)] fold real e(2) by (simp add: clean_step_def)
      qed
    qed
  qed
qed

end
