(* ===== verification/Path_Props.thy ===== *)
theory Path_Props
  imports Path_Clean
begin

section \<open>Properties of package path\<close>

text \<open>
  \<open>Clean\<close> is the reference normalisation and normalises once; the other functions in terms of the
  elements of a path.
\<close>

subsection \<open>Clean\<close>

lemma Clean_stack:
  assumes "path \<noteq> []"
  shows "path_Clean path = Some (clean_ref path) \<and>
    (\<exists>d. stack_ok (path_IsAbs path) d (fold (clean_step (path_IsAbs path)) (comps path) []))"
proof -
  let ?rooted = "path ! 0 = slash" and ?r = "if path ! 0 = slash then 1 else 0 :: nat"
  have abs: "path_IsAbs path = ?rooted" using assms by (simp add: path_IsAbs_def)
  define out where "out = \<lparr>lb_s = path, lb_buf = None, lb_w = ?r\<rparr>"
  have start: "(if ?rooted then lb_append slash \<lparr>lb_s = path, lb_buf = None, lb_w = 0\<rparr> else Some \<lparr>lb_s = path, lb_buf = None, lb_w = 0\<rparr>) = Some out"
    using assms by (simp add: lb_append_def out_def)
  have "clean_inv path ?rooted ?r 0 out []"
    using assms by (cases path) (auto simp: clean_inv_def out_def lb_ok_def lb_data_def lb_string_def render_def)
  moreover have "dotdot_at ?rooted 0 = ?r" by (simp add: dotdot_at_def render_def)
  moreover have "fold (clean_step ?rooted) (comps (drop ?r path)) [] = fold (clean_step ?rooted) (comps path) []"
    using assms by (cases path) (simp_all add: clean_step_def)
  ultimately obtain out' r' d' where o: "clean_loop path ?rooted ?r ?r out = Some out'"
    "clean_inv path ?rooted r' d' out' (fold (clean_step ?rooted) (comps path) [])"
    using clean_loop_eq [of path ?rooted ?r 0 out "[]"] by auto
  have "path_Clean path = Some (if lb_w out' = 0 then [dot] else lb_string out')"
    using assms start o(1) by (simp add: path_Clean_def Let_def del: One_nat_def)
  moreover have "(if lb_w out' = 0 then [dot] else lb_string out') = clean_ref path"
    using inv_w [OF o(2)] o(2) by (simp add: clean_ref_def abs Let_def clean_inv_def)
  moreover have "stack_ok (path_IsAbs path) d' (fold (clean_step (path_IsAbs path)) (comps path) [])"
    using o(2) by (simp add: abs clean_inv_def)
  ultimately show ?thesis by auto
qed

lemma Clean_eq: "path_Clean path = Some (clean_ref path)"
  using Clean_stack [of path] by (cases "path = []") (simp_all add: path_Clean_def clean_ref_def path_IsAbs_def clean_step_def render_def)

lemma step_dotdots: "fold (clean_step False) (replicate d dotdot_elem) (replicate k dotdot_elem) = replicate (k + d) dotdot_elem"
proof (induction d arbitrary: k)
  case (Suc d)
  have "clean_step False dotdot_elem (replicate k dotdot_elem) = replicate (Suc k) dotdot_elem"
    by (cases k) (auto simp: clean_step_def replicate_append_same last_replicate)
  then show ?case using Suc.IH [of "Suc k"] by simp
qed simp

lemma fold_stack: "stack_ok rooted d xs \<Longrightarrow> fold (clean_step rooted) xs [] = xs"
proof (induction "length xs" arbitrary: xs)
  case (Suc n)
  from Suc.prems show ?case
  proof (cases rule: stack_cases)
    case bottom
    then have "\<not> rooted" using Suc.prems Suc.hyps(2) by (auto simp: stack_ok_def)
    then show ?thesis using bottom(1) step_dotdots [of d 0] by simp
  next
    case (top zs z)
    have "z \<noteq> [dot]" using stack_elem [OF Suc.prems, of z] top(1) by simp
    then show ?thesis using Suc.hyps(1) [of zs] Suc.hyps(2) top by (simp add: clean_step_def)
  qed
qed simp

lemma render_abs:
  assumes "stack_ok rooted d xs"
  shows "render rooted xs \<noteq> [] \<Longrightarrow> path_IsAbs (render rooted xs) = rooted"
    and "fold (clean_step rooted) (comps (render rooted xs)) [] = xs"
proof -
  have el: "slash \<notin> set x \<and> x \<noteq> []" if "x \<in> set xs" for x using stack_elem [OF assms that] by blast
  show "path_IsAbs (render rooted xs) = rooted" if ne: "render rooted xs \<noteq> []"
  proof (cases rooted)
    case False
    then obtain x ys where xs: "xs = x # ys" using ne by (cases xs) (auto simp: render_def)
    then have "slash \<notin> set x" "x \<noteq> []" using el [of x] by auto
    moreover from this have "join xs ! 0 = x ! 0" by (cases ys) (auto simp: xs nth_append)
    ultimately show ?thesis using False by (cases x) (auto simp: render_def path_IsAbs_def)
  qed (simp add: render_def path_IsAbs_def)
  have "comps (join xs) = (if xs = [] then [[]] else xs)" using comps_join [of xs] el by simp
  then show "fold (clean_step rooted) (comps (render rooted xs)) [] = xs"
    using fold_stack [OF assms] by (auto simp: render_def clean_step_def)
qed

lemma clean_idem: "clean_ref (clean_ref path) = clean_ref path"
proof (cases "path = []")
  case True
  then show ?thesis by (simp add: clean_ref_def path_IsAbs_def clean_step_def render_def)
next
  case False
  let ?rooted = "path_IsAbs path"
  define xs where "xs = fold (clean_step ?rooted) (comps path) []"
  obtain d where d: "stack_ok ?rooted d xs" using Clean_stack [OF False] by (auto simp: xs_def)
  show ?thesis
  proof (cases "render ?rooted xs = []")
    case True
    then show ?thesis by (simp add: clean_ref_def Let_def xs_def [symmetric]) (simp add: path_IsAbs_def clean_step_def render_def)
  next
    case False
    then show ?thesis using render_abs [OF d] by (simp add: clean_ref_def Let_def xs_def [symmetric])
  qed
qed

text \<open>The result ends in a slash only if it is the root.\<close>

lemma join_last: "xs \<noteq> [] \<Longrightarrow> (\<And>x. x \<in> set xs \<Longrightarrow> x \<noteq> [] \<and> slash \<notin> set x) \<Longrightarrow> join xs \<noteq> [] \<and> last (join xs) \<noteq> slash"
proof (induction xs rule: rev_induct)
  case (snoc x xs)
  have "x \<noteq> []" "slash \<notin> set x" using snoc.prems(2) [of x] by auto
  then have "last x \<noteq> slash" using last_in_set by metis
  then show ?case using \<open>x \<noteq> []\<close> by (simp add: join_snoc)
qed simp

lemma clean_last: "last (clean_ref path) = slash \<Longrightarrow> clean_ref path = [slash]"
proof (cases "path = []")
  case False
  let ?rooted = "path_IsAbs path"
  define xs where "xs = fold (clean_step ?rooted) (comps path) []"
  obtain d where d: "stack_ok ?rooted d xs" using Clean_stack [OF False] by (auto simp: xs_def)
  assume "last (clean_ref path) = slash"
  then have r: "render ?rooted xs \<noteq> []" "last (render ?rooted xs) = slash" "clean_ref path = render ?rooted xs"
    by (auto simp: clean_ref_def Let_def xs_def split: if_splits)
  show ?thesis
  proof (cases "xs = []")
    case True
    then show ?thesis using r by (auto simp: render_def split: if_splits)
  next
    case False
    then have "join xs \<noteq> [] \<and> last (join xs) \<noteq> slash" using join_last [of xs] stack_elem [OF d] by blast
    then show ?thesis using r by (simp add: render_def)
  qed
qed (simp add: clean_ref_def path_IsAbs_def clean_step_def render_def)

subsection \<open>Split, Base, Ext and Join\<close>

lemma lastSlash_loop_eq:
  assumes "- 1 \<le> i" "i < int (length s)"
  shows "let k = lastSlash_loop s i in - 1 \<le> k \<and> k \<le> i \<and> (0 \<le> k \<longrightarrow> s ! nat k = slash) \<and> (\<forall>j. k < int j \<and> int j \<le> i \<longrightarrow> s ! j \<noteq> slash)"
  using assms
proof (induction s i rule: lastSlash_loop.induct)
  case (1 s i)
  show ?case
  proof (cases "i \<ge> 0 \<and> s ! nat i \<noteq> slash")
    case True
    have step: "lastSlash_loop s i = lastSlash_loop s (i - 1)" using True by (subst lastSlash_loop.simps) simp
    have IH: "let k = lastSlash_loop s (i - 1) in - 1 \<le> k \<and> k \<le> i - 1 \<and> (0 \<le> k \<longrightarrow> s ! nat k = slash) \<and>
      (\<forall>j. k < int j \<and> int j \<le> i - 1 \<longrightarrow> s ! j \<noteq> slash)"
      using "1.IH" [OF True] True "1.prems" by simp
    moreover have "s ! j \<noteq> slash" if "int j \<le> i" "\<not> int j \<le> i - 1" for j
    proof -
      have "j = nat i" using that by linarith
      then show ?thesis using True by simp
    qed
    ultimately show ?thesis unfolding step Let_def by force
  next
    case False
    then have "lastSlash_loop s i = i" by (subst lastSlash_loop.simps) auto
    then show ?thesis using False "1.prems" by (auto simp: Let_def)
  qed
qed

lemma Split_eq:
  assumes "path_Split path = (dir, file)"
  shows "dir @ file = path \<and> slash \<notin> set file \<and> (dir = [] \<or> last dir = slash)"
proof -
  define k where "k = lastSlash path"
  have k: "- 1 \<le> k" "k \<le> int (length path) - 1" "0 \<le> k \<Longrightarrow> path ! nat k = slash"
    "\<And>j. k < int j \<Longrightarrow> j < length path \<Longrightarrow> path ! j \<noteq> slash"
    using lastSlash_loop_eq [of "int (length path) - 1" path] by (auto simp: k_def lastSlash_def Let_def)
  have df: "dir = take (nat (k + 1)) path" "file = drop (nat (k + 1)) path" using assms by (auto simp: path_Split_def k_def Let_def)
  have "slash \<notin> set file"
  proof
    assume "slash \<in> set file"
    then obtain i where "i < length file" "file ! i = slash" by (auto simp: in_set_conv_nth)
    then have "path ! (nat (k + 1) + i) = slash" "nat (k + 1) + i < length path" using k(1,2) by (auto simp: df)
    then show False using k(4) [of "nat (k + 1) + i"] by simp
  qed
  moreover have "dir = [] \<or> last dir = slash"
  proof (cases "0 \<le> k")
    case True
    then have "nat (k + 1) = Suc (nat k)" "nat k < length path" using k(2) by auto
    then have "dir = take (nat k) path @ [slash]" using k(3) [OF True] df(1) by (simp add: take_Suc_conv_app_nth)
    then show ?thesis by simp
  qed (use k(1) df in simp)
  ultimately show ?thesis by (simp add: df)
qed

lemma comps_append: "comps (s @ slash # t) = comps s @ comps t"
  by (induction s) auto

lemma comps_slashes: "comps (s @ replicate k slash) = comps s @ replicate k []"
proof (induction k)
  case (Suc k)
  have "comps (s @ replicate (Suc k) slash) = comps ((s @ replicate k slash) @ slash # [])" by (simp add: replicate_append_same)
  then show ?case using Suc comps_append [of "s @ replicate k slash" "[]"] by (simp add: replicate_append_same)
qed simp

lemma comps_Split: "path_Split path = (dir, file) \<Longrightarrow> last (comps path) = file"
proof -
  assume "path_Split path = (dir, file)"
  then have s: "dir @ file = path" "slash \<notin> set file" "dir = [] \<or> last dir = slash" using Split_eq by blast+
  show ?thesis
  proof (cases dir rule: rev_cases)
    case Nil
    then show ?thesis using s comps_elem(2) [of "file"] by simp
  next
    case (snoc d c)
    then have "path = d @ slash # file" using s by auto
    then show ?thesis using comps_append [of d "file"] comps_elem(2) [OF s(2)] by simp
  qed
qed

lemma strip_eq: "\<exists>k. path = strip_slashes path @ replicate k slash \<and> (strip_slashes path = [] \<or> last (strip_slashes path) \<noteq> slash)"
proof (induction path rule: strip_slashes.induct)
  case (1 path)
  show ?case
  proof (cases "length path > 0 \<and> path ! (length path - 1) = slash")
    case True
    have s: "strip_slashes path = strip_slashes (take (length path - 1) path)" using True by (subst strip_slashes.simps) simp
    obtain k where k: "take (length path - 1) path = strip_slashes path @ replicate k slash"
      "strip_slashes path = [] \<or> last (strip_slashes path) \<noteq> slash" using "1.IH" [OF True] by (auto simp: s)
    have "path = take (length path - 1) path @ [slash]"
      using True take_Suc_conv_app_nth [of "length path - 1" path] by simp
    then have "path = strip_slashes path @ replicate (Suc k) slash" using k(1) by (simp add: replicate_append_same)
    then show ?thesis using k(2) by blast
  next
    case False
    then have "strip_slashes path = path" by (subst strip_slashes.simps) auto
    moreover have "path = [] \<or> last path \<noteq> slash" using False by (auto simp: last_conv_nth)
    ultimately show ?thesis by (intro exI [of _ 0]) simp
  qed
qed

text \<open>The last element that is not empty.\<close>

lemma Base_eq:
  "path_Base path = (if path = [] then [dot] else let es = filter (\<lambda>e. e \<noteq> []) (comps path) in if es = [] then [slash] else last es)"
proof (cases "path = []")
  case False
  define p where "p = strip_slashes path"
  obtain k where k: "path = p @ replicate k slash" "p = [] \<or> last p \<noteq> slash" using strip_eq [of path] by (auto simp: p_def)
  obtain dir "file" where df: "path_Split p = (dir, file)" by (cases "path_Split p")
  have fl: "(if lastSlash p \<ge> 0 then drop (nat (lastSlash p + 1)) p else p) = file"
    using df by (auto simp: path_Split_def Let_def)
  have es: "filter (\<lambda>e. e \<noteq> []) (comps path) = filter (\<lambda>e. e \<noteq> []) (comps p)" by (subst k(1)) (simp add: comps_slashes)
  show ?thesis
  proof (cases "p = []")
    case True
    then have "file = []" using df by (simp add: path_Split_def)
    then show ?thesis using False fl True es by (simp add: path_Base_def Let_def p_def [symmetric])
  next
    case pne: False
    note s = Split_eq [OF df]
    have "file \<noteq> []" using s pne k(2) by auto
    moreover have eq: "comps p = butlast (comps p) @ [file]" using comps_Split [OF df] by (metis append_butlast_last_id comps_ne)
    have "filter (\<lambda>e. e \<noteq> []) (comps p) = filter (\<lambda>e. e \<noteq> []) (butlast (comps p)) @ [file]"
      using arg_cong [OF eq, of "filter (\<lambda>e. e \<noteq> [])"] \<open>file \<noteq> []\<close> by simp
    ultimately show ?thesis using False fl es by (simp add: path_Base_def Let_def p_def [symmetric])
  qed
qed (simp add: path_Base_def)

lemma Ext_loop_eq:
  assumes p: "path = dir @ file" "slash \<notin> set file" "dir = [] \<or> last dir = slash"
    and j: "j \<le> length file" "dot \<notin> set (drop j file)"
  shows "if dot \<notin> set file then Ext_loop path (int (length dir + j) - 1) = []
    else \<exists>a x. file = a @ dot # x \<and> dot \<notin> set x \<and> Ext_loop path (int (length dir + j) - 1) = dot # x"
  using j
proof (induction j)
  case 0
  have "path ! (length dir - 1) = slash" if "dir \<noteq> []" using p(1,3) that by (simp add: nth_append last_conv_nth)
  moreover have "nat (int (length dir) - 1) = length dir - 1" by simp
  ultimately have "Ext_loop path (int (length dir + 0) - 1) = []" by (subst Ext_loop.simps) (cases "dir = []"; simp)
  then show ?case using 0 by simp
next
  case (Suc j)
  let ?i = "int (length dir + Suc j) - 1"
  have i: "nat ?i = length dir + j" "?i - 1 = int (length dir + j) - 1" by simp_all
  have "j < length file" using Suc.prems(1) by simp
  then have c: "path ! nat ?i = file ! j" "file ! j \<noteq> slash"
    unfolding i(1) using p(1) by (simp add: nth_append) (metis \<open>j < length file\<close> nth_mem p(2))
  have d: "drop j file = file ! j # drop (Suc j) file" using Suc.prems(1) by (simp add: drop_nth_Cons)
  show ?case
  proof (cases "file ! j = dot")
    case True
    then have "Ext_loop path ?i = drop (nat ?i) path" using c by (subst Ext_loop.simps) simp
    also have "\<dots> = dot # drop (Suc j) file" using p(1) i(1) d True by simp
    finally have "Ext_loop path ?i = dot # drop (Suc j) file" .
    moreover have "file = take j file @ dot # drop (Suc j) file" using d True append_take_drop_id [of j "file"] by simp
    moreover from this have "dot \<in> set file" by (metis in_set_conv_decomp)
    ultimately show ?thesis using Suc.prems(2) by auto
  next
    case False
    then have step: "Ext_loop path ?i = Ext_loop path (int (length dir + j) - 1)"
      using c i(2) by (subst Ext_loop.simps) simp
    have "dot \<notin> set (drop j file)" using False Suc.prems(2) by (simp add: d)
    from Suc.IH [OF Suc_leD [OF Suc.prems(1)] this] show ?thesis unfolding step .
  qed
qed

lemma Ext_eq:
  assumes "path_Split path = (dir, file)"
  shows "if dot \<notin> set file then path_Ext path = [] else \<exists>a x. file = a @ dot # x \<and> dot \<notin> set x \<and> path_Ext path = dot # x"
proof -
  have s: "path = dir @ file" "slash \<notin> set file" "dir = [] \<or> last dir = slash" using Split_eq [OF assms] by auto
  have ext: "path_Ext path = Ext_loop path (int (length dir + length file) - 1)" by (simp add: path_Ext_def s(1))
  have "dot \<notin> set (drop (length file) file)" by simp
  from Ext_loop_eq [OF s order_refl this] show ?thesis unfolding ext .
qed

text \<open>Joining: empty elements at the beginning are dropped, the rest is separated by slashes.\<close>

lemma join_fold_ne: "buf \<noteq> [] \<Longrightarrow> fold join_step es buf = join (buf # es)"
proof (induction es arbitrary: buf)
  case (Cons e es)
  have "join ((buf @ slash # e) # es) = buf @ slash # join (e # es)" by (cases es) simp_all
  then show ?case using Cons by (simp add: join_step_def Let_def)
qed simp

lemma join_fold: "fold join_step es [] = join (dropWhile (\<lambda>e. e = []) es)"
proof (induction es)
  case (Cons e es)
  have "join_step e [] = e" by (simp add: join_step_def)
  then show ?case using Cons by (cases "e = []") (simp_all add: join_fold_ne)
qed simp

lemma sum_size: "fold (\<lambda>e size. size + length e) es n = n + sum_list (map length es)"
  by (induction es arbitrary: n) auto

lemma Join_eq:
  "path_Join es = Some (if \<forall>e\<in>set es. e = [] then [] else clean_ref (join (dropWhile (\<lambda>e. e = []) es)))"
proof -
  have "(\<Sum>e\<leftarrow>es. length e) = 0 \<longleftrightarrow> (\<forall>e\<in>set es. e = [])" by (simp add: sum_list_eq_0_iff)
  then show ?thesis unfolding path_Join_def sum_size join_fold Let_def by (simp add: Clean_eq)
qed

text \<open>
  C36. \<open>Clean\<close> never indexes out of range and returns the normal form of the path: its elements
  processed with a stack, \<open>..\<close> taking back an element, and joined again. It is idempotent, and its result
  ends in a slash only for the root. \<open>Join\<close> cleans the joined elements, \<open>Dir\<close> cleans what is up to the
  last slash, \<open>Split\<close> cuts there, \<open>Base\<close> is the last element that is not empty, and \<open>Ext\<close> the part of the last
  element from its last dot on.
\<close>

theorem path_correct:
  "path_Clean p = Some (clean_ref p) \<and> clean_ref (clean_ref p) = clean_ref p \<and>
   (if last (clean_ref p) = slash then clean_ref p = [slash] else True) \<and>
   path_Join es = Some (if \<forall>e\<in>set es. e = [] then [] else clean_ref (join (dropWhile (\<lambda>e. e = []) es))) \<and>
   path_Base p = (if p = [] then [dot]
     else let xs = filter (\<lambda>e. e \<noteq> []) (comps p) in if xs = [] then [slash] else last xs) \<and>
   (case path_Split p of (dir, file) \<Rightarrow>
      dir @ file = p \<and> slash \<notin> set file \<and> (dir = [] \<or> last dir = slash) \<and> path_Dir p = Some (clean_ref dir) \<and>
      (if dot \<notin> set file then path_Ext p = [] else \<exists>a x. file = a @ dot # x \<and> dot \<notin> set x \<and> path_Ext p = dot # x))"
proof -
  obtain dir "file" where df: "path_Split p = (dir, file)" by (cases "path_Split p")
  show ?thesis
    using Clean_eq [of p] clean_idem [of p] clean_last [of p] Join_eq [of es] Base_eq [of p] Split_eq [OF df] Ext_eq [OF df]
    unfolding path_Dir_def df prod.case by (simp add: Clean_eq)
qed

theorem path_correct_witness:
  "path_Clean [0x2F, 0x61, 0x2F, 0x2E, 0x2E, 0x2F, 0x62, 0x2F, 0x2F, 0x2E, 0x2F, 0x63] = Some [0x2F, 0x62, 0x2F, 0x63] \<and>
   path_Clean [0x61, 0x2F, 0x2E, 0x2E, 0x2F, 0x2E, 0x2E] = Some [0x2E, 0x2E] \<and>
   path_Join [[], [0x61], [], [0x62]] = Some [0x61, 0x2F, 0x62]"
proof (intro conjI)
  note defs = clean_ref_def path_IsAbs_def clean_step_def render_def Let_def
  show "path_Clean [0x2F, 0x61, 0x2F, 0x2E, 0x2E, 0x2F, 0x62, 0x2F, 0x2F, 0x2E, 0x2F, 0x63] = Some [0x2F, 0x62, 0x2F, 0x63]"
    using conjunct1 [OF path_correct] by (simp add: defs)
  show "path_Clean [0x61, 0x2F, 0x2E, 0x2E, 0x2F, 0x2E, 0x2E] = Some [0x2E, 0x2E]"
    using conjunct1 [OF path_correct] by (simp add: defs)
  have "path_Join [[], [0x61], [], [0x62]] = Some (clean_ref (join [[0x61], [], [0x62]]))"
    using path_correct [of "[]" "[[], [0x61], [], [0x62]]"] by simp
  then show "path_Join [[], [0x61], [], [0x62]] = Some [0x61, 0x2F, 0x62]" by (simp add: defs)
qed

end
