(* ===== verification/Path_Match.thy ===== *)
theory Path_Match
  imports Path Utf8_Codec
begin

section \<open>Pattern matching of paths (\<open>path.Match\<close>)\<close>

text \<open>
  \<open>Match\<close> and its helpers from \<open>path/match.go\<close>. Strings are lists of bytes, runes are decoded by
  package \<open>utf8\<close>. The results are sums: \<open>Inl ErrBadPattern\<close> is the error the functions return,
  \<open>Inl OutOfRange\<close> the panic of an index expression. \<open>matchChunk\<close> returns \<open>Inr (Some rest)\<close>
  for a match and \<open>Inr None\<close> for none. A slice expression is \<open>drop\<close>: what the code cuts off, one
  byte of a string that is not empty or the width of a decoded rune, is never longer than the
  string (\<open>decode_size\<close>).
\<close>

datatype match_error = ErrBadPattern | OutOfRange

abbreviation star_byte :: byte where "star_byte \<equiv> 0x2A"
abbreviation quest_byte :: byte where "quest_byte \<equiv> 0x3F"
abbreviation lbrack :: byte where "lbrack \<equiv> 0x5B"
abbreviation rbrack :: byte where "rbrack \<equiv> 0x5D"
abbreviation caret :: byte where "caret \<equiv> 0x5E"
abbreviation backslash :: byte where "backslash \<equiv> 0x5C"
abbreviation dash :: byte where "dash \<equiv> 0x2D"

subsection \<open>Characters and classes\<close>

definition getEsc :: "byte list \<Rightarrow> match_error + rune \<times> byte list" where
  "getEsc chunk =
    (if length chunk = 0 \<or> chunk ! 0 = dash \<or> chunk ! 0 = rbrack then Inl ErrBadPattern
     else if chunk ! 0 = backslash \<and> length (drop 1 chunk) = 0 then Inl ErrBadPattern
     else
       let chunk = (if chunk ! 0 = backslash then drop 1 chunk else chunk);
           (r, n) = DecodeRuneInString chunk;
           nchunk = drop n chunk
       in if r = RuneError \<and> n = 1 \<or> length nchunk = 0 then Inl ErrBadPattern else Inr (r, nchunk))"

lemma decode_size:
  assumes "p \<noteq> []"
  shows "1 \<le> snd (DecodeRune p) \<and> snd (DecodeRune p) \<le> length p"
proof (cases "dec (map uint p)")
  case None
  then show ?thesis using assms by (cases p) (auto simp: DecodeRune_dec dec_result_def)
next
  case (Some rn)
  then show ?thesis using decode_dec [of p "fst rn" "snd rn"] encode_nonempty [of "fst rn"]
    by (auto simp: DecodeRune_dec dec_result_def Suc_le_eq)
qed

lemma getEsc_shorter:
  assumes "getEsc chunk = Inr (r, rest)"
  shows "length rest < length chunk"
proof -
  let ?c = "if chunk ! 0 = backslash then drop 1 chunk else chunk"
  have "?c \<noteq> []" "rest = drop (snd (DecodeRune ?c)) ?c" "length ?c \<le> length chunk"
    using assms by (auto simp: getEsc_def string_variants Let_def split: if_splits prod.splits)
  then show ?thesis using decode_size [of ?c] by (auto split: if_splits)
qed

text \<open>The loop over the ranges of a class; \<open>m\<close> is its variable \<open>match\<close>.\<close>

function match_ranges :: "rune \<Rightarrow> byte list \<Rightarrow> bool \<Rightarrow> nat \<Rightarrow> match_error + bool \<times> byte list" where
  "match_ranges r chunk m nrange =
    (if length chunk > 0 \<and> chunk ! 0 = rbrack \<and> nrange > 0 then Inr (m, drop 1 chunk)
     else case getEsc chunk of
       Inl e \<Rightarrow> Inl e
     | Inr (lo, chunk1) \<Rightarrow>
         if \<not> 0 < length chunk1 then Inl OutOfRange
         else if chunk1 ! 0 = dash then
           (case getEsc (drop 1 chunk1) of
              Inl e \<Rightarrow> Inl e
            | Inr (hi, chunk2) \<Rightarrow> match_ranges r chunk2 (m \<or> lo \<le> r \<and> r \<le> hi) (nrange + 1))
         else match_ranges r chunk1 (m \<or> lo \<le> r \<and> r \<le> lo) (nrange + 1))"
  by pat_completeness auto

termination
  by (relation "measure (\<lambda>(r, chunk, m, nrange). length chunk)") (auto dest!: getEsc_shorter)

declare match_ranges.simps [simp del]

lemma match_ranges_shorter: "match_ranges r chunk m nrange = Inr (m', rest) \<Longrightarrow> length rest < length chunk"
proof (induction r chunk m nrange rule: match_ranges.induct)
  case (1 r chunk m nrange)
  from 1(3) show ?case
    unfolding match_ranges.simps [of r chunk m nrange]
    using 1(1) [OF _ _ refl _ _ _ refl] 1(2) [OF _ _ refl]
    by (fastforce split: if_splits sum.splits prod.splits dest!: getEsc_shorter)
qed

subsection \<open>Chunks\<close>

text \<open>
  The loop of \<open>matchChunk\<close>. An escape falls through to the default case of the switch, which
  compares one byte. After a failure the loop goes on over the chunk, without reading the name.
\<close>

function matchChunk_loop :: "byte list \<Rightarrow> byte list \<Rightarrow> bool \<Rightarrow> match_error + byte list option" where
  "matchChunk_loop chunk s failed =
    (if \<not> length chunk > 0 then Inr (if failed then None else Some s)
     else
       let failed = (failed \<or> length s = 0) in
       if chunk ! 0 = lbrack then
         let (r, s) = (if \<not> failed then (let (r, n) = DecodeRuneInString s in (r, drop n s)) else (0, s));
             chunk = drop 1 chunk;
             negated = (length chunk > 0 \<and> chunk ! 0 = caret);
             chunk = (if negated then drop 1 chunk else chunk)
         in (case match_ranges r chunk False 0 of
               Inl e \<Rightarrow> Inl e
             | Inr (m, chunk) \<Rightarrow> matchChunk_loop chunk s (failed \<or> m = negated))
       else if chunk ! 0 = quest_byte then
         (if \<not> failed then
            if \<not> 0 < length s then Inl OutOfRange
            else let (_, n) = DecodeRuneInString s
                 in matchChunk_loop (drop 1 chunk) (drop n s) (failed \<or> s ! 0 = slash)
          else matchChunk_loop (drop 1 chunk) s failed)
       else if chunk ! 0 = backslash \<and> length (drop 1 chunk) = 0 then Inl ErrBadPattern
       else
         let chunk = (if chunk ! 0 = backslash then drop 1 chunk else chunk)
         in if \<not> failed then
              if \<not> 0 < length s then Inl OutOfRange
              else matchChunk_loop (drop 1 chunk) (drop 1 s) (failed \<or> chunk ! 0 \<noteq> s ! 0)
            else matchChunk_loop (drop 1 chunk) s failed)"
  by pat_completeness auto

termination
  by (relation "measure (\<lambda>(chunk, s, failed). length chunk)") (auto dest!: match_ranges_shorter split: if_splits)

declare matchChunk_loop.simps [simp del]

definition matchChunk :: "byte list \<Rightarrow> byte list \<Rightarrow> match_error + byte list option" where
  "matchChunk chunk s = matchChunk_loop chunk s False"

fun skip_stars :: "bool \<Rightarrow> byte list \<Rightarrow> bool \<times> byte list" where
  "skip_stars star [] = (star, [])"
| "skip_stars star (c # pattern) = (if c = star_byte then skip_stars True pattern else (star, c # pattern))"

function scan_loop :: "byte list \<Rightarrow> nat \<Rightarrow> bool \<Rightarrow> nat" where
  "scan_loop pattern i inrange =
    (if i < length pattern then
       if pattern ! i = backslash then scan_loop pattern (if i + 1 < length pattern then i + 2 else i + 1) inrange
       else if pattern ! i = lbrack then scan_loop pattern (i + 1) True
       else if pattern ! i = rbrack then scan_loop pattern (i + 1) False
       else if pattern ! i = star_byte then (if \<not> inrange then i else scan_loop pattern (i + 1) inrange)
       else scan_loop pattern (i + 1) inrange
     else i)"
  by pat_completeness auto

termination
  by (relation "measure (\<lambda>(pattern, i, inrange). length pattern - i)") auto

declare scan_loop.simps [simp del]

lemma scan_loop_ge: "i \<le> scan_loop pattern i inrange"
proof (induction pattern i inrange rule: scan_loop.induct)
  case (1 pattern i inrange)
  then show ?case
    by (subst scan_loop.simps) (cases "pattern ! i = backslash"; cases "pattern ! i = lbrack"; cases "pattern ! i = rbrack";
        cases "pattern ! i = star_byte"; auto dest: Suc_leD split: if_splits)
qed

definition scanChunk :: "byte list \<Rightarrow> bool \<times> byte list \<times> byte list" where
  "scanChunk pattern =
    (let (star, pattern) = skip_stars False pattern;
         i = scan_loop pattern 0 False
     in (star, take i pattern, drop i pattern))"

lemma scanChunk_shorter:
  assumes "scanChunk pattern = (star, chunk, rest)" and "pattern \<noteq> []"
  shows "length rest < length pattern"
proof -
  have skip: "length (snd (skip_stars b p)) \<le> length p" for b p
    by (induction p arbitrary: b) (auto intro: le_SucI)
  obtain c p where p: "pattern = c # p" using assms(2) by (cases pattern) auto
  have "0 < scan_loop pattern 0 False" if "c \<noteq> star_byte"
    using that p scan_loop_ge [of "Suc 0" pattern False] scan_loop_ge [of "Suc 0" pattern True]
      scan_loop_ge [of "Suc (Suc 0)" pattern False]
    by (subst scan_loop.simps) auto
  then show ?thesis using assms(1) skip [of True p] p
    by (auto simp: scanChunk_def Let_def split: if_splits prod.splits)
qed

subsection \<open>Match\<close>

text \<open>The loop that tries the positions after a star; \<open>is_last\<close> says that the chunk is the last one.\<close>

function match_skip :: "byte list \<Rightarrow> bool \<Rightarrow> byte list \<Rightarrow> nat \<Rightarrow> match_error + byte list option" where
  "match_skip chunk is_last name i =
    (if i < length name \<and> name ! i \<noteq> slash then
       case matchChunk chunk (drop (i + 1) name) of
         Inl e \<Rightarrow> Inl e
       | Inr (Some t) \<Rightarrow> if is_last \<and> length t > 0 then match_skip chunk is_last name (i + 1) else Inr (Some t)
       | Inr None \<Rightarrow> match_skip chunk is_last name (i + 1)
     else Inr None)"
  by pat_completeness auto

termination
  by (relation "measure (\<lambda>(chunk, is_last, name, i). length name - i)") auto

declare match_skip.simps [simp del]

function check_rest :: "byte list \<Rightarrow> match_error + unit" where
  "check_rest pattern =
    (if length pattern > 0 then
       let (_, chunk, pattern) = scanChunk pattern
       in (case matchChunk chunk [] of Inl e \<Rightarrow> Inl e | Inr _ \<Rightarrow> check_rest pattern)
     else Inr ())"
  by pat_completeness auto

termination
  by (relation "measure length") (auto dest: scanChunk_shorter [OF sym])

declare check_rest.simps [simp del]

text \<open>
  One round of the loop of \<open>Match\<close>: the rest of the name after the first acceptable match of
  the chunk, at the start of the name or, after a star, further on.
\<close>

definition match_next :: "bool \<Rightarrow> byte list \<Rightarrow> bool \<Rightarrow> byte list \<Rightarrow> match_error + byte list option" where
  "match_next star chunk is_last name =
    (case matchChunk chunk name of
       Inl e \<Rightarrow> Inl e
     | Inr ok \<Rightarrow>
         let skip = (if star then match_skip chunk is_last name 0 else Inr None)
         in (case ok of Some t \<Rightarrow> if length t = 0 \<or> \<not> is_last then Inr (Some t) else skip | None \<Rightarrow> skip))"

text \<open>\<open>bytealg.IndexByteString(name, '/') < 0\<close> is \<open>slash \<notin> set name\<close>.\<close>

function Match :: "byte list \<Rightarrow> byte list \<Rightarrow> match_error + bool" where
  "Match pattern name =
    (if length pattern > 0 then
       let (star, chunk, pattern) = scanChunk pattern
       in if star \<and> chunk = [] then Inr (slash \<notin> set name)
          else (case match_next star chunk (length pattern = 0) name of
            Inl e \<Rightarrow> Inl e
          | Inr (Some t) \<Rightarrow> Match pattern t
          | Inr None \<Rightarrow> (case check_rest pattern of Inl e \<Rightarrow> Inl e | Inr _ \<Rightarrow> Inr False))
     else Inr (length name = 0))"
  by pat_completeness auto

termination
  by (relation "measure (\<lambda>(pattern, name). length pattern)") (auto dest: scanChunk_shorter [OF sym])

declare Match.simps [simp del]

end
