(* ===== verification/Path_Match_Ref.thy ===== *)
theory Path_Match_Ref
  imports Path_Match
begin

section \<open>The meaning of a pattern\<close>

text \<open>
  The pattern syntax that the documentation of \<open>Match\<close> gives, as terms with their meaning, and a
  parser for it that knows nothing of chunks. \<open>matchChunk\<close> is shown to parse and match a
  chunk, and the parse of a pattern to be that of its first chunk followed by that of the rest.
\<close>

subsection \<open>Terms and parser\<close>

datatype pat_term =
    Star
  | AnyChar
  | Class bool "(rune \<times> rune) list"
  | Lit byte

text \<open>A character of a class, possibly escaped.\<close>

definition class_char :: "byte list \<Rightarrow> (rune \<times> byte list) option" where
  "class_char p =
    (case p of
       [] \<Rightarrow> None
     | c # q \<Rightarrow>
         if c = dash \<or> c = rbrack then None
         else let q = (if c = backslash then q else p)
              in map_option (\<lambda>(r, n). (r, drop n q)) (dec (map uint q)))"

lemma class_char_shorter: "class_char p = Some (r, q) \<Longrightarrow> length q < length p"
proof -
  assume c: "class_char p = Some (r, q)"
  define p' where "p' = (if hd p = backslash then tl p else p)"
  obtain n where p': "dec (map uint p') = Some (r, n)" "q = drop n p'"
    using c by (cases p) (auto simp: class_char_def p'_def Let_def split: if_splits)
  have "length p' \<le> length p" by (simp add: p'_def)
  moreover have "1 \<le> n" "n \<le> length p'" using decode_dec [OF p'(1)] encode_nonempty [of r] by (auto simp: Suc_le_eq)
  ultimately show ?thesis using p' by auto
qed

text \<open>The ranges of a class up to its closing bracket; the flag says that there was a range.\<close>

function class_ranges :: "byte list \<Rightarrow> bool \<Rightarrow> ((rune \<times> rune) list \<times> byte list) option" where
  "class_ranges p some =
    (if p \<noteq> [] \<and> hd p = rbrack \<and> some then Some ([], tl p)
     else case class_char p of
       None \<Rightarrow> None
     | Some (lo, q) \<Rightarrow>
         if q \<noteq> [] \<and> hd q = dash
         then (case class_char (tl q) of
                 None \<Rightarrow> None
               | Some (hi, q) \<Rightarrow> map_option (\<lambda>(rs, q). ((lo, hi) # rs, q)) (class_ranges q True))
         else map_option (\<lambda>(rs, q). ((lo, lo) # rs, q)) (class_ranges q True))"
  by pat_completeness auto

termination
  by (relation "measure (\<lambda>(p, some). length p)") (auto dest!: class_char_shorter)

declare class_ranges.simps [simp del]

lemma class_ranges_shorter: "class_ranges p some = Some (rs, q) \<Longrightarrow> length q < length p"
proof (induction p some arbitrary: rs q rule: class_ranges.induct)
  case (1 p some)
  from 1(3) show ?case
    unfolding class_ranges.simps [of p some]
    using 1(1) [OF _ _ refl _ _ refl] 1(2) [OF _ _ refl]
    by (fastforce split: if_splits option.splits prod.splits dest!: class_char_shorter)
qed

definition class_body :: "byte list \<Rightarrow> (pat_term \<times> byte list) option" where
  "class_body p =
    (let neg = (p \<noteq> [] \<and> hd p = caret)
     in map_option (\<lambda>(rs, q). (Class neg rs, q)) (class_ranges (if neg then tl p else p) False))"

lemma class_body_shorter: "class_body p = Some (t, q) \<Longrightarrow> length q < length p"
  by (auto simp: class_body_def Let_def split: if_splits dest!: class_ranges_shorter)

text \<open>Without stars (\<open>stars = False\<close>) a star outside of a class stands for itself.\<close>

function parse_pat :: "bool \<Rightarrow> byte list \<Rightarrow> pat_term list option" where
  "parse_pat stars [] = Some []"
| "parse_pat stars (c # p) =
    (if c = star_byte \<and> stars then map_option (\<lambda>ts. Star # ts) (parse_pat stars p)
     else if c = quest_byte then map_option (\<lambda>ts. AnyChar # ts) (parse_pat stars p)
     else if c = lbrack
     then (case class_body p of
             None \<Rightarrow> None
           | Some (t, q) \<Rightarrow> map_option (\<lambda>ts. t # ts) (parse_pat stars q))
     else if c = backslash
     then (case p of [] \<Rightarrow> None | b # p' \<Rightarrow> map_option (\<lambda>ts. Lit b # ts) (parse_pat stars p'))
     else map_option (\<lambda>ts. Lit c # ts) (parse_pat stars p))"
  by pat_completeness auto

termination
  by (relation "measure (\<lambda>(stars, p). length p)") (auto dest!: class_body_shorter)

subsection \<open>Matching\<close>

definition in_class :: "rune \<Rightarrow> (rune \<times> rune) list \<Rightarrow> bool" where
  "in_class r rs \<longleftrightarrow> (\<exists>(lo, hi) \<in> set rs. lo \<le> r \<and> r \<le> hi)"

text \<open>What a term other than a star takes from the name: one character, or one byte of one.\<close>

fun take_term :: "pat_term \<Rightarrow> byte list \<Rightarrow> byte list option" where
  "take_term t [] = None"
| "take_term Star s = None"
| "take_term AnyChar s = (if hd s = slash then None else Some (drop (snd (DecodeRune s)) s))"
| "take_term (Class neg rs) s =
     (if in_class (fst (DecodeRune s)) rs = neg then None else Some (drop (snd (DecodeRune s)) s))"
| "take_term (Lit b) s = (if hd s = b then Some (tl s) else None)"

fun take_terms :: "pat_term list \<Rightarrow> byte list \<Rightarrow> byte list option" where
  "take_terms [] s = Some s"
| "take_terms (t # ts) s = (case take_term t s of None \<Rightarrow> None | Some s \<Rightarrow> take_terms ts s)"

text \<open>The meaning of a pattern: a star takes any sequence of characters other than a slash.\<close>

function matches :: "pat_term list \<Rightarrow> byte list \<Rightarrow> bool" where
  "matches [] s \<longleftrightarrow> s = []"
| "matches (Star # ts) s \<longleftrightarrow>
     matches ts s \<or>
     (if s = [] \<or> fst (DecodeRune s) = uint slash then False else matches (Star # ts) (drop (snd (DecodeRune s)) s))"
| "t \<noteq> Star \<Longrightarrow> matches (t # ts) s \<longleftrightarrow> (case take_term t s of None \<Rightarrow> False | Some s \<Rightarrow> matches ts s)"
  by (metis list.exhaust old.prod.exhaust) auto

termination
  by (relation "measures [\<lambda>(ts, s). length ts, \<lambda>(ts, s). length s]")
     (auto simp: decode_size [THEN conjunct1, THEN less_le_trans [OF zero_less_one]] split: if_splits)

text \<open>The same with a star that takes any bytes but a slash, which is how the code searches.\<close>

fun byte_matches :: "pat_term list \<Rightarrow> byte list \<Rightarrow> bool" where
  "byte_matches [] s \<longleftrightarrow> s = []"
| "byte_matches (Star # ts) s \<longleftrightarrow> (\<exists>k \<le> length s. slash \<notin> set (take k s) \<and> byte_matches ts (drop k s))"
| "byte_matches (t # ts) s \<longleftrightarrow> (case take_term t s of None \<Rightarrow> False | Some s \<Rightarrow> byte_matches ts s)"

subsection \<open>Chunks are parsed and matched\<close>

lemma dec_not_error: "dec q = Some (r, n) \<Longrightarrow> \<not> (r = RuneError \<and> n = 1)"
  by (auto simp: dec_def split: list.splits if_splits)

lemma getEsc_class_char:
  "getEsc p = (case class_char p of
     None \<Rightarrow> Inl ErrBadPattern
   | Some (r, q) \<Rightarrow> if q = [] then Inl ErrBadPattern else Inr (r, q))"
proof (cases p)
  case (Cons c p')
  define q where "q = (if c = backslash then p' else p)"
  show ?thesis
  proof (cases "dec (map uint q)")
    case None
    then show ?thesis using Cons
      by (auto simp: getEsc_def class_char_def q_def string_variants DecodeRune_dec dec_result_def Let_def)
  next
    case (Some rn)
    obtain r n where rn: "rn = (r, n)" by (cases rn)
    have "q \<noteq> []" using Some by (auto simp: dec_def)
    moreover have "DecodeRune q = (r, n)" using Some rn by (simp add: DecodeRune_dec dec_result_def)
    ultimately show ?thesis using Cons Some rn dec_not_error [of "map uint q" r n]
      by (auto simp: getEsc_def class_char_def q_def string_variants Let_def split: if_splits)
  qed
qed (simp add: getEsc_def class_char_def)

lemma class_ranges_Nil [simp]: "class_ranges [] b = None"
  by (subst class_ranges.simps) (simp add: class_char_def)

lemma in_class_Cons: "in_class r ((lo, hi) # rs) \<longleftrightarrow> lo \<le> r \<and> r \<le> hi \<or> in_class r rs"
  by (simp add: in_class_def)

lemma match_ranges_class:
  "match_ranges r p m n = (case class_ranges p (0 < n) of
     None \<Rightarrow> Inl ErrBadPattern | Some (rs, q) \<Rightarrow> Inr (m \<or> in_class r rs, q))"
proof (induction r p m n rule: match_ranges.induct)
  case (1 r p m n)
  show ?case
  proof (cases "p \<noteq> [] \<and> hd p = rbrack \<and> 0 < n")
    case True
    then show ?thesis
      unfolding match_ranges.simps [of r p m n] class_ranges.simps [of p "0 < n"]
      by (cases p) (simp_all add: in_class_def)
  next
    case False
    then have c: "\<not> (length p > 0 \<and> p ! 0 = rbrack \<and> n > 0)" by (cases p) auto
    note mr = match_ranges.simps [of r p m n, unfolded if_not_P [OF c]]
    note cr = class_ranges.simps [of p "0 < n", unfolded if_not_P [OF False]]
    show ?thesis
    proof (cases "class_char p")
      case None
      then show ?thesis by (simp add: mr cr getEsc_class_char)
    next
      case (Some lq)
      obtain lo q where lq: "lq = (lo, q)" by (cases lq)
      show ?thesis
      proof (cases "q = []")
        case True
        then show ?thesis using Some lq by (simp add: mr cr getEsc_class_char)
      next
        case q: False
        have g: "getEsc p = Inr (lo, q)" using Some lq q by (simp add: getEsc_class_char)
        obtain x q' where x: "q = x # q'" using q by (cases q) auto
        show ?thesis
        proof (cases "x = dash")
          case True
          then show ?thesis
            using 1(1) [OF c g refl] Some lq
            by (auto simp: mr cr g x getEsc_class_char in_class_Cons split: option.splits prod.splits if_splits)
        next
          case nd: False
          then show ?thesis
            using 1(2) [OF c g refl] Some lq
            by (auto simp: mr cr g x in_class_Cons split: option.splits prod.splits)
        qed
      qed
    qed
  qed
qed

lemma class_body_parse:
  assumes "neg = (p \<noteq> [] \<and> hd p = caret)"
  shows "match_ranges r (if neg then tl p else p) False 0 = (case class_body p of
     None \<Rightarrow> Inl ErrBadPattern | Some (Class _ rs, q) \<Rightarrow> Inr (in_class r rs, q) | _ \<Rightarrow> Inl OutOfRange)"
  using assms by (simp add: match_ranges_class class_body_def Let_def split: option.splits prod.splits)

lemma class_body_Class: "class_body p = Some (t, q) \<Longrightarrow> \<exists>rs. t = Class (p \<noteq> [] \<and> hd p = caret) rs"
  by (auto simp: class_body_def Let_def)

text \<open>One round of the loop, by the first byte of the chunk.\<close>

lemma chunk_quest:
  "matchChunk_loop (quest_byte # p) s failed =
     (if failed \<or> s = [] then matchChunk_loop p s True
      else matchChunk_loop p (drop (snd (DecodeRune s)) s) (hd s = slash))"
  by (subst matchChunk_loop.simps) (simp add: Let_def string_variants case_prod_beta hd_conv_nth)

lemma chunk_escape: "matchChunk_loop [backslash] s failed = Inl ErrBadPattern"
  by (subst matchChunk_loop.simps) (simp add: Let_def)

lemma chunk_literal:
  assumes "c \<noteq> lbrack \<and> c \<noteq> quest_byte \<and> c \<noteq> backslash \<and> q = c # p \<or> q = backslash # c # p"
  shows "matchChunk_loop q s failed =
     (if failed \<or> s = [] then matchChunk_loop p s True else matchChunk_loop p (tl s) (c \<noteq> hd s))"
  using assms by (subst matchChunk_loop.simps) (auto simp: Let_def hd_conv_nth drop_Suc)

lemma chunk_class:
  "matchChunk_loop (lbrack # p) s failed =
     (case class_body p of
        None \<Rightarrow> Inl ErrBadPattern
      | Some (t, q) \<Rightarrow>
          if failed \<or> s = [] then matchChunk_loop q s True
          else matchChunk_loop q (drop (snd (DecodeRune s)) s) (take_term t s = None))"
proof -
  let ?neg = "p \<noteq> [] \<and> hd p = caret"
  have take: "take_term (Class ?neg rs) s = None \<longleftrightarrow> in_class (fst (DecodeRune s)) rs = ?neg" if "s \<noteq> []" for rs
    using that by (cases s) auto
  have round: "matchChunk_loop (lbrack # p) s failed =
      (case match_ranges (if failed \<or> s = [] then 0 else fst (DecodeRune s)) (if ?neg then tl p else p) False 0 of
         Inl e \<Rightarrow> Inl e
       | Inr (m, q) \<Rightarrow> matchChunk_loop q (if failed \<or> s = [] then s else drop (snd (DecodeRune s)) s)
           ((failed \<or> s = []) \<or> m = ?neg))"
    by (subst matchChunk_loop.simps)
      (cases p; cases "failed \<or> s = []"; simp add: Let_def string_variants case_prod_beta cong: sum.case_cong)
  show ?thesis
  proof (cases "class_body p")
    case None
    then show ?thesis unfolding round class_body_parse [OF refl] by simp
  next
    case (Some tq)
    then obtain rs q where tq: "tq = (Class ?neg rs, q)" using class_body_Class [of p] by (cases tq) auto
    show ?thesis using Some tq take [of rs] unfolding round class_body_parse [OF refl] by simp
  qed
qed

lemma matchChunk_parse:
  "matchChunk_loop p s failed = (case parse_pat False p of
     None \<Rightarrow> Inl ErrBadPattern | Some ts \<Rightarrow> Inr (if failed then None else take_terms ts s))"
proof (induction "length p" arbitrary: p s failed rule: less_induct)
  case less
  show ?case
  proof (cases p)
    case Nil
    then show ?thesis by (simp add: matchChunk_loop.simps [of "[]"])
  next
    case (Cons c p')
    note IH = less [unfolded Cons]
    consider "c = lbrack" | "c = quest_byte" | "c = backslash" "p' = []" | b p'' where "c = backslash" "p' = b # p''"
      | "c \<noteq> lbrack" "c \<noteq> quest_byte" "c \<noteq> backslash"
      by (cases p') auto
    then show ?thesis
    proof cases
      case 1
      show ?thesis
      proof (cases "class_body p'")
        case (Some tq)
        then obtain t q where tq: "tq = (t, q)" "length q < length p'" using class_body_shorter [of p'] by (cases tq) auto
        have "take_term t s = Some (drop (snd (DecodeRune s)) s)" if "take_term t s \<noteq> None" 
          using that Some tq class_body_Class [of p' t q] by (cases s) (auto split: if_splits)
        moreover have "take_term t [] = None" by simp
        ultimately show ?thesis using Some tq Cons 1 IH [of q]
          by (cases "take_term t s") (auto simp: chunk_class split: option.splits)
      qed (use Cons 1 in \<open>simp add: chunk_class\<close>)
    next
      case 2
      then show ?thesis using Cons IH [of p'] by (cases s) (auto simp: chunk_quest split: option.splits)
    next
      case 3
      then show ?thesis using Cons by (simp add: chunk_escape)
    next
      case (4 b p'')
      then show ?thesis using Cons IH [of p''] chunk_literal [of b p p'' s failed]
        by (cases s) (auto split: option.splits)
    next
      case 5
      then show ?thesis using Cons IH [of p'] chunk_literal [of c p p' s failed]
        by (cases s) (auto split: option.splits)
    qed
  qed
qed

end
