(* ===== verification/Path_Match_Scan.thy ===== *)
theory Path_Match_Scan
  imports Path_Match_Ref
begin

section \<open>Chunks of a pattern\<close>

text \<open>
  \<open>scanChunk\<close> looks for the next star outside of a class with one flag, without parsing. The
  theory shows that it cuts the pattern between two terms: the terms of the pattern are those of
  the chunk followed by those of the rest, and one of them is malformed if the pattern is.
\<close>

subsection \<open>The scan, by recursion on the pattern\<close>

definition put :: "byte list \<Rightarrow> byte list \<times> byte list \<Rightarrow> byte list \<times> byte list" where
  "put u x = (u @ fst x, snd x)"

lemma put_simps [simp]: "put u (a, b) = (u @ a, b)" "fst (put u x) = u @ fst x" "snd (put u x) = snd x"
  by (simp_all add: put_def)

fun split_chunk :: "bool \<Rightarrow> byte list \<Rightarrow> byte list \<times> byte list" where
  "split_chunk inrange [] = ([], [])"
| "split_chunk inrange [c] = (if c = star_byte \<and> \<not> inrange then ([], [c]) else ([c], []))"
| "split_chunk inrange (c # b # p) =
     (if c = backslash then put [c, b] (split_chunk inrange p)
      else if c = lbrack then put [c] (split_chunk True (b # p))
      else if c = rbrack then put [c] (split_chunk False (b # p))
      else if c = star_byte \<and> \<not> inrange then ([], c # b # p)
      else put [c] (split_chunk inrange (b # p)))"

lemma put_Nil [simp]: "put [] x = x"
  by (cases x) simp

lemma put_put [simp]: "put u (put v x) = put (u @ v) x"
  by (cases x) simp

lemma split_Cons:
  "c \<noteq> backslash \<Longrightarrow> split_chunk inrange (c # p) =
     (if c = lbrack then put [c] (split_chunk True p)
      else if c = rbrack then put [c] (split_chunk False p)
      else if c = star_byte \<and> \<not> inrange then ([], c # p)
      else put [c] (split_chunk inrange p))"
  by (cases p) auto

lemma split_escape: "split_chunk inrange (backslash # b # p) = put [backslash, b] (split_chunk inrange p)"
  by simp

lemma split_append: "fst (split_chunk inrange p) @ snd (split_chunk inrange p) = p"
  by (induction inrange p rule: split_chunk.induct) auto

lemma split_rest: "snd (split_chunk inrange p) = [] \<or> hd (snd (split_chunk inrange p)) = star_byte"
  by (induction inrange p rule: split_chunk.induct) auto

text \<open>One step of the scan, from \<open>i\<close> to \<open>j\<close>.\<close>

lemma scan_advance:
  assumes "i \<le> j" "j \<le> length p" and "scan_loop p i b = scan_loop p j b'"
    and "split_chunk b (drop i p) = put (take (j - i) (drop i p)) (split_chunk b' (drop j p))"
    and "scan_loop p j b' \<le> length p \<and>
      split_chunk b' (drop j p) = (take (scan_loop p j b' - j) (drop j p), drop (scan_loop p j b') p)"
  shows "scan_loop p i b \<le> length p \<and>
     split_chunk b (drop i p) = (take (scan_loop p i b - i) (drop i p), drop (scan_loop p i b) p)"
proof -
  have "j \<le> scan_loop p j b'" by (rule scan_loop_ge)
  then have "take (j - i) (drop i p) @ take (scan_loop p j b' - j) (drop j p) = take (scan_loop p j b' - i) (drop i p)"
    using assms(1) take_add [of "j - i" "scan_loop p j b' - j" "drop i p"] by simp
  then show ?thesis using assms by simp
qed

lemma scan_split:
  "i \<le> length p \<Longrightarrow> scan_loop p i b \<le> length p \<and>
     split_chunk b (drop i p) = (take (scan_loop p i b - i) (drop i p), drop (scan_loop p i b) p)"
proof (induction p i b rule: scan_loop.induct)
  case (1 p i b)
  show ?case
  proof (cases "i < length p")
    case False
    then show ?thesis using 1(6) by (subst (1 2 3) scan_loop.simps) simp
  next
    case True
    then have d: "drop i p = p ! i # drop (Suc i) p" by (rule drop_nth_Cons)
    note s = scan_loop.simps [of p i b, unfolded if_P [OF True]]
    show ?thesis
    proof (cases "p ! i = backslash")
      case bs: True
      show ?thesis
      proof (cases "i + 1 < length p")
        case True
        then have "drop (Suc i) p = p ! Suc i # drop (Suc (Suc i)) p" by (simp add: drop_nth_Cons)
        then show ?thesis
          using 1(1) [OF \<open>i < length p\<close> bs] True bs d
          by (intro scan_advance [of i "i + 2"]) (simp_all add: s numeral_2_eq_2)
      next
        case last: False
        then have "drop (Suc i) p = []" by simp
        then show ?thesis
          using 1(1) [OF \<open>i < length p\<close> bs] last True bs d
          by (intro scan_advance [of i "i + 1"]) (simp_all add: s)
      qed
    next
      case nb: False
      consider "p ! i = lbrack" | "p ! i = rbrack" | "p ! i = star_byte" "\<not> b" | "p ! i = star_byte" b
        | "p ! i \<noteq> lbrack" "p ! i \<noteq> rbrack" "p ! i \<noteq> star_byte" by blast
      then show ?thesis
      proof cases
        case 1
        then show ?thesis using "1.IH"(2) [OF True nb] True d nb
          by (intro scan_advance [of i "i + 1" p b True]) (simp_all add: s split_Cons)
      next
        case 2
        then show ?thesis using "1.IH"(3) [OF True nb] True d nb
          by (intro scan_advance [of i "i + 1" p b False]) (simp_all add: s split_Cons)
      next
        case 3
        then have r: "scan_loop p i b = i" unfolding s using nb by simp
        show ?thesis unfolding r using 3 True d nb by (simp add: split_Cons)
      next
        case 4
        then have r: "scan_loop p i b = scan_loop p (i + 1) b" unfolding s using nb by simp
        show ?thesis using "1.IH"(4) [OF True nb] 4 True d nb
          by (intro scan_advance [OF _ _ r]) (simp_all add: split_Cons)
      next
        case 5
        then show ?thesis using "1.IH"(5) [OF True nb] True d nb
          by (intro scan_advance [of i "i + 1" p b b]) (simp_all add: s split_Cons)
      qed
    qed
  qed
qed

lemma split_high: "\<forall>x \<in> set u. 0x80 \<le> x \<Longrightarrow> split_chunk b (u @ p) = put u (split_chunk b p)"
proof (induction u)
  case (Cons x u)
  then have "x \<noteq> backslash" "x \<noteq> lbrack" "x \<noteq> rbrack" "x \<noteq> star_byte" by auto
  then show ?case using Cons by (simp add: split_Cons)
qed simp

subsection \<open>Classes\<close>

lemma dec_bytes:
  fixes p :: "byte list"
  assumes "dec (map uint p) = Some (r, n)"
  shows "n = 1 \<or> (\<forall>x \<in> set (take n p). 0x80 \<le> x)"
proof (cases p)
  case (Cons b0 p')
  have le: "(0x80 :: byte) \<le> b" if "128 \<le> uint b" for b :: byte using that by (simp add: word_le_def)
  show ?thesis
    using assms Cons
    by (cases p' rule: remdups_adj.cases)
      (auto simp: dec_def numeral_eq_Suc intro!: le split: if_splits list.splits)
qed (use assms in \<open>simp add: dec_def\<close>)

lemma dec_local:
  fixes p :: "byte list"
  assumes "dec (map uint p) = Some (r, n)"
  shows "dec (map uint (take n p @ x)) = Some (r, n)" "length (take n p) = n" "1 \<le> n"
  using decode_dec [OF assms] dec_encode [of r x] encode_nonempty [of r] by (auto simp: Suc_le_eq)

lemma dec_prefix: "dec (map uint (x :: byte list)) = Some v \<Longrightarrow> dec (map uint (x @ y)) = Some v"
  using dec_local(1) [of x "fst v" "snd v" "drop (snd v) x @ y"] by (simp flip: append.assoc map_append)

text \<open>A character of a class is inside of the chunk, and read the same in the chunk.\<close>

lemma class_char_split:
  assumes "class_char p = Some (r, q)"
  shows "\<exists>u. u \<noteq> [] \<and> p = u @ q \<and> split_chunk True p = put u (split_chunk True q) \<and>
    (\<forall>x. class_char (u @ x) = Some (r, x))"
proof -
  obtain c p1 where p: "p = c # p1" and c: "c \<noteq> dash" "c \<noteq> rbrack"
    using assms by (cases p) (auto simp: class_char_def split: if_splits)
  define p' where "p' = (if c = backslash then p1 else p)"
  obtain n where n: "dec (map uint p') = Some (r, n)" "q = drop n p'"
    using assms p c by (auto simp: class_char_def p'_def Let_def split: if_splits)
  note loc = dec_local [OF n(1)]
  obtain b v where v: "take n p' = b # v" using loc(2,3) by (cases "take n p'") auto
  have nv: "n = Suc (length v)" using v loc(2) by simp
  have p': "p' = b # v @ q" using v n(2) append_take_drop_id [of n p'] by simp
  have high: "split_chunk True (v @ q) = put v (split_chunk True q)"
    using dec_bytes [OF n(1)] loc(2) v by (intro split_high) auto
  show ?thesis
  proof (cases "c = backslash")
    case True
    then have "p = (backslash # b # v) @ q" using p p' by (simp add: p'_def)
    moreover have "split_chunk True p = put (backslash # b # v) (split_chunk True q)"
      using calculation high by (simp add: split_escape)
    moreover have "class_char ((backslash # b # v) @ x) = Some (r, x)" for x
      using loc(1) [of x] v by (simp add: class_char_def Let_def nv)
    ultimately show ?thesis by blast
  next
    case False
    then have eq: "p = (b # v) @ q" "b = c" using p p' by (auto simp: p'_def)
    moreover have "split_chunk True p = put (b # v) (split_chunk True q)"
      using eq high False c by (simp add: split_Cons)
    moreover have "class_char ((b # v) @ x) = Some (r, x)" for x
      using loc(1) [of x] v False c eq(2) by (simp add: class_char_def Let_def nv)
    ultimately show ?thesis by blast
  qed
qed

lemma class_char_none:
  assumes "class_char p = None"
  shows "class_char (fst (split_chunk True p)) = None"
proof (cases p rule: remdups_adj.cases)
  case (3 c b p')
  then show ?thesis
  proof (cases "c = backslash")
    case True
    have "dec (map uint (b # p')) = None" using assms 3 True by (simp add: class_char_def)
    moreover have "b # p' = (b # fst (split_chunk True p')) @ snd (split_chunk True p')" by (simp add: split_append)
    ultimately have "dec (map uint (b # fst (split_chunk True p'))) = None" using dec_prefix by (metis not_None_eq)
    then show ?thesis using 3 True by (simp add: class_char_def split_escape)
  next
    case False
    let ?u = "fst (split_chunk True (c # b # p'))"
    have "\<exists>w. ?u = c # w" using False by (cases "c = lbrack"; cases "c = rbrack") (simp_all add: split_Cons)
    then obtain w where w: "?u = c # w" by blast
    show ?thesis
    proof (cases "c = dash \<or> c = rbrack")
      case True
      then show ?thesis using 3 w by (auto simp: class_char_def)
    next
      case nd: False
      have "dec (map uint p) = None" using assms 3 False nd by (simp add: class_char_def)
      then have "dec (map uint ?u) = None" using dec_prefix 3 split_append by (metis not_None_eq)
      then show ?thesis using 3 w False nd by (simp add: class_char_def)
    qed
  qed
qed (use assms in \<open>simp_all add: class_char_def\<close>)

text \<open>So are the ranges, whose class the scan leaves at the closing bracket.\<close>

lemma class_ranges_split:
  "class_ranges p some = Some (rs, q) \<Longrightarrow>
     \<exists>u. u \<noteq> [] \<and> p = u @ q \<and> split_chunk True p = put u (split_chunk False q) \<and>
       (\<forall>x. class_ranges (u @ x) some = Some (rs, x))"
proof (induction p some arbitrary: rs q rule: class_ranges.induct)
  case (1 p some)
  show ?case
  proof (cases "p \<noteq> [] \<and> hd p = rbrack \<and> some")
    case True
    note cr = class_ranges.simps [of p some, unfolded if_P [OF True]]
    have q: "q = tl p" and "rs = []" using 1(3) unfolding cr by simp_all
    moreover have "p = [rbrack] @ q" using True unfolding q by (cases p) simp_all
    moreover have "class_ranges ([rbrack] @ x) some = Some ([], x)" for x
      using True by (subst class_ranges.simps) simp
    ultimately show ?thesis by (intro exI [of _ "[rbrack]"]) (simp add: split_Cons)
  next
    case False
    note cr = class_ranges.simps [of p some, unfolded if_not_P [OF False]]
    obtain lo p1 where lo: "class_char p = Some (lo, p1)" using 1(3) by (auto simp: cr split: option.splits)
    obtain u where u: "u \<noteq> []" "p = u @ p1" "split_chunk True p = put u (split_chunk True p1)"
      "\<And>x. class_char (u @ x) = Some (lo, x)" using class_char_split [OF lo] by blast
    have nc: "\<not> (u @ x \<noteq> [] \<and> hd (u @ x) = rbrack \<and> some)" for x using False u(1,2) by simp
    note cu = class_ranges.simps [of "u @ x" some for x, unfolded if_not_P [OF nc]]
    show ?thesis
    proof (cases "p1 \<noteq> [] \<and> hd p1 = dash")
      case True
      then obtain p2 where p2: "p1 = dash # p2" by (cases p1) auto
      obtain hi p3 where hi: "class_char p2 = Some (hi, p3)" using 1(3) lo p2 by (auto simp: cr split: option.splits)
      obtain v where v: "p2 = v @ p3" "split_chunk True p2 = put v (split_chunk True p3)"
        "\<And>x. class_char (v @ x) = Some (hi, x)" using class_char_split [OF hi] by blast
      obtain rs' where rs': "class_ranges p3 True = Some (rs', q)" "rs = (lo, hi) # rs'"
        using 1(3) lo hi p2 by (auto simp: cr)
      obtain w where w: "p3 = w @ q" "split_chunk True p3 = put w (split_chunk False q)"
        "\<And>x. class_ranges (w @ x) True = Some (rs', x)"
        using 1(1) [OF False lo refl True _ refl rs'(1)] hi p2 by auto
      show ?thesis
        using u v w p2 rs' by (intro exI [of _ "u @ dash # v @ w"]) (simp add: split_Cons cu)
    next
      case nd: False
      obtain rs' where rs': "class_ranges p1 True = Some (rs', q)" "rs = (lo, lo) # rs'"
        using 1(3) lo nd by (auto simp: cr)
      obtain w where w: "w \<noteq> []" "p1 = w @ q" "split_chunk True p1 = put w (split_chunk False q)"
        "\<And>x. class_ranges (w @ x) True = Some (rs', x)"
        using 1(2) [OF False lo refl nd rs'(1)] by auto
      show ?thesis
        using u w nd rs' by (intro exI [of _ "u @ w"]) (simp add: cu)
    qed
  qed
qed

lemma split_True_hd:
  assumes "p \<noteq> []"
  shows "fst (split_chunk True p) \<noteq> [] \<and> hd (fst (split_chunk True p)) = hd p"
proof (cases p rule: remdups_adj.cases)
  case (3 c b p')
  then show ?thesis by (cases "c = backslash"; cases "c = lbrack"; cases "c = rbrack") (simp_all add: split_Cons)
qed (use assms in simp_all)

lemma class_ranges_none:
  "class_ranges p some = None \<Longrightarrow> class_ranges (fst (split_chunk True p)) some = None"
proof (induction p some rule: class_ranges.induct)
  case (1 p some)
  have False: "\<not> (p \<noteq> [] \<and> hd p = rbrack \<and> some)" using 1(3) by (auto simp: class_ranges.simps [of p])
  note cr = class_ranges.simps [of p some, unfolded if_not_P [OF False]]
  let ?c = "fst (split_chunk True p)"
  have nc: "\<not> (?c \<noteq> [] \<and> hd ?c = rbrack \<and> some)" using False split_True_hd [of p] by (cases "p = []") auto
  note cu = class_ranges.simps [of ?c some, unfolded if_not_P [OF nc]]
  show ?case
  proof (cases "class_char p")
    case None
    then show ?thesis using class_char_none [of p] by (simp add: cu)
  next
    case (Some lp)
    obtain lo p1 where lo: "class_char p = Some (lo, p1)" using Some by (cases lp) auto
    obtain u where u: "split_chunk True p = put u (split_chunk True p1)"
      "\<And>x. class_char (u @ x) = Some (lo, x)" using class_char_split [OF lo] by blast
    show ?thesis
    proof (cases "p1 \<noteq> [] \<and> hd p1 = dash")
      case True
      then obtain p2 where p2: "p1 = dash # p2" by (cases p1) auto
      show ?thesis
      proof (cases "class_char p2")
        case None
        then show ?thesis unfolding cu using u p2 class_char_none [of p2] by (simp add: split_Cons)
      next
        case (Some hp)
        obtain hi p3 where hi: "class_char p2 = Some (hi, p3)" using Some by (cases hp) auto
        obtain v where v: "split_chunk True p2 = put v (split_chunk True p3)"
          "\<And>x. class_char (v @ x) = Some (hi, x)" using class_char_split [OF hi] by blast
        have "class_ranges p3 True = None" using 1(3) lo hi p2 by (simp add: cr)
        then have "class_ranges (fst (split_chunk True p3)) True = None"
          using 1(1) [OF False lo refl True _ refl] hi p2 by simp
        then show ?thesis unfolding cu using u v p2 by (simp add: split_Cons)
      qed
    next
      case nd: False
      then have "class_ranges p1 True = None" using 1(3) lo by (auto simp: cr split: if_splits)
      then have "class_ranges (fst (split_chunk True p1)) True = None" using 1(2) [OF False lo refl nd] by simp
      moreover have "\<not> (fst (split_chunk True p1) \<noteq> [] \<and> hd (fst (split_chunk True p1)) = dash)"
        using nd split_True_hd [of p1] by (cases "p1 = []") auto
      ultimately show ?thesis unfolding cu using u by auto
    qed
  qed
qed

lemma class_body_split:
  assumes "class_body p = Some (t, q)"
  shows "\<exists>u. p = u @ q \<and> split_chunk True p = put u (split_chunk False q) \<and> (\<forall>x. class_body (u @ x) = Some (t, x))"
proof (cases "p \<noteq> [] \<and> hd p = caret")
  case True
  then obtain p' where p': "p = caret # p'" by (cases p) auto
  obtain rs where rs: "class_ranges p' False = Some (rs, q)" "t = Class True rs"
    using assms p' by (auto simp: class_body_def)
  obtain u where "p' = u @ q" "split_chunk True p' = put u (split_chunk False q)"
    "\<And>x. class_ranges (u @ x) False = Some (rs, x)" using class_ranges_split [OF rs(1)] by blast
  then show ?thesis using p' rs by (intro exI [of _ "caret # u"]) (simp add: class_body_def split_Cons)
next
  case False
  obtain rs where rs: "class_ranges p False = Some (rs, q)" "t = Class False rs"
    using assms False by (auto simp: class_body_def)
  obtain u where "u \<noteq> []" "p = u @ q" "split_chunk True p = put u (split_chunk False q)"
    "\<And>x. class_ranges (u @ x) False = Some (rs, x)" using class_ranges_split [OF rs(1)] by blast
  then show ?thesis using False rs by (intro exI [of _ u]) (simp add: class_body_def)
qed

lemma class_body_none:
  assumes "class_body p = None"
  shows "class_body (fst (split_chunk True p)) = None"
proof (cases "p \<noteq> [] \<and> hd p = caret")
  case True
  then obtain p' where p': "p = caret # p'" by (cases p) auto
  then show ?thesis using assms class_ranges_none [of p' False] by (simp add: class_body_def split_Cons)
next
  case False
  then have "\<not> (fst (split_chunk True p) \<noteq> [] \<and> hd (fst (split_chunk True p)) = caret)"
    using split_True_hd [of p] by (cases "p = []") auto
  then show ?thesis using assms False class_ranges_none [of p False] by (auto simp: class_body_def)
qed

subsection \<open>Patterns\<close>

lemma append_Cons_fun: "(@) (t # ts) = (\<lambda>us. t # ts @ us)"
  by auto

lemma parse_split:
  "parse_pat True p = (case parse_pat False (fst (split_chunk False p)) of
     None \<Rightarrow> None | Some ts \<Rightarrow> map_option (\<lambda>us. ts @ us) (parse_pat True (snd (split_chunk False p))))"
proof (induction "length p" arbitrary: p rule: less_induct)
  case less
  show ?case
  proof (cases p)
    case (Cons c p')
    note IH = less [unfolded Cons]
    consider "c = star_byte" | "c = lbrack" | "c = backslash" "p' = []" | b p'' where "c = backslash" "p' = b # p''"
      | "c \<noteq> star_byte" "c \<noteq> lbrack" "c \<noteq> backslash" by (cases p') auto
    then show ?thesis
    proof cases
      case 1
      then show ?thesis using Cons by (simp add: split_Cons option.map_comp comp_def)
    next
      case 2
      show ?thesis
      proof (cases "class_body p'")
        case None
        then show ?thesis using Cons 2 class_body_none [of p'] by (simp add: split_Cons)
      next
        case (Some tq)
        obtain t q where tq: "class_body p' = Some (t, q)" using Some by (cases tq) auto
        obtain u where "p' = u @ q" "split_chunk True p' = put u (split_chunk False q)"
          "\<And>x. class_body (u @ x) = Some (t, x)" using class_body_split [OF tq] by blast
        then show ?thesis using Cons 2 tq IH [of q] class_body_shorter [OF tq]
          by (auto simp: split_Cons option.map_comp comp_def append_Cons_fun split: option.splits)
      qed
    next
      case 3
      then show ?thesis using Cons by simp
    next
      case (4 b p'')
      then show ?thesis using Cons IH [of p'']
        by (auto simp: split_escape option.map_comp comp_def append_Cons_fun split: option.splits)
    next
      case 5
      then show ?thesis using Cons IH [of p']
        by (auto simp: split_Cons option.map_comp comp_def append_Cons_fun split: option.splits)
    qed
  qed simp
qed

lemma parse_no_star: "parse_pat False p = Some ts \<Longrightarrow> Star \<notin> set ts"
proof (induction False p arbitrary: ts rule: parse_pat.induct)
  case (2 c p)
  then show ?case
    by (auto split: if_splits option.splits list.splits dest!: class_body_Class)
qed simp

end
