(* ===== verification/Path_Match_Props.thy ===== *)
theory Path_Match_Props
  imports Path_Match_Scan
begin

section \<open>Correctness of \<open>path.Match\<close>\<close>

text \<open>
  \<open>Match\<close> reports a malformed pattern whatever the name, and never panics. After a star it searches
  byte by byte, and it keeps the first match of every chunk and does not try another. For names of ASCII
  bytes a match that it finds is one; if also the classes of the pattern do not take a slash it
  finds a match whenever there is one. Without stars it decides matching for all names.
\<close>

subsection \<open>Scanning\<close>

lemma skip_stars_eq:
  "skip_stars b p = (star, q) \<Longrightarrow>
     \<exists>k. p = replicate k star_byte @ q \<and> star = (b \<or> 0 < k) \<and> (q = [] \<or> hd q \<noteq> star_byte)"
proof (induction b p rule: skip_stars.induct)
  case (2 b c p)
  show ?case
  proof (cases "c = star_byte")
    case True
    then obtain k where "p = replicate k star_byte @ q" "star" "q = [] \<or> hd q \<noteq> star_byte" using 2 by auto
    then show ?thesis using True by (intro exI [of _ "Suc k"]) simp
  next
    case False
    then show ?thesis using 2(2) by (intro exI [of _ 0]) auto
  qed
qed simp

lemma parse_stars:
  "parse_pat True (replicate k star_byte @ q) = map_option (\<lambda>ts. replicate k Star @ ts) (parse_pat True q)"
  by (induction k) (simp_all add: option.map_comp comp_def option.map_ident)

lemma split_empty: "fst (split_chunk False q) = [] \<Longrightarrow> q = [] \<or> hd q = star_byte"
  by (cases q rule: remdups_adj.cases) (auto split: if_splits)

lemma scanChunk_parse:
  assumes "scanChunk p = (star, c, r)"
  shows "\<exists>k. star = (0 < k) \<and> (c = [] \<longrightarrow> r = []) \<and> (r = [] \<or> hd r = star_byte) \<and>
    parse_pat True p = (case parse_pat False c of
      None \<Rightarrow> None | Some ts \<Rightarrow> map_option (\<lambda>us. replicate k Star @ ts @ us) (parse_pat True r))"
proof -
  obtain q where q: "skip_stars False p = (star, q)" using assms by (auto simp: scanChunk_def Let_def split: prod.splits)
  have s: "split_chunk False q = (c, r)"
    using assms q scan_split [of 0 q False] by (simp add: scanChunk_def Let_def)
  obtain k where k: "p = replicate k star_byte @ q" "star = (0 < k)" "q = [] \<or> hd q \<noteq> star_byte"
    using skip_stars_eq [OF q] by auto
  have "c = [] \<longrightarrow> r = []" using split_empty [of q] k(3) s by auto
  moreover have "r = [] \<or> hd r = star_byte" using split_rest [of False q] s by simp
  moreover have "parse_pat True p = (case parse_pat False c of
      None \<Rightarrow> None | Some ts \<Rightarrow> map_option (\<lambda>us. replicate k Star @ ts @ us) (parse_pat True r))"
    unfolding k(1) parse_stars parse_split [of q] s by (simp add: option.map_comp comp_def split: option.splits)
  ultimately show ?thesis using k(2) by blast
qed

lemma matchChunk_ok:
  "matchChunk c s = (case parse_pat False c of None \<Rightarrow> Inl ErrBadPattern | Some ts \<Rightarrow> Inr (take_terms ts s))"
  by (simp add: matchChunk_def matchChunk_parse split: option.splits)

lemma check_rest_eq: "check_rest p = (if parse_pat True p = None then Inl ErrBadPattern else Inr ())"
proof (induction "length p" arbitrary: p rule: less_induct)
  case less
  show ?case
  proof (cases "p = []")
    case False
    obtain star c r where s: "scanChunk p = (star, c, r)" by (cases "scanChunk p") auto
    have "check_rest r = (if parse_pat True r = None then Inl ErrBadPattern else Inr ())"
      using less scanChunk_shorter [OF s False] .
    then show ?thesis using scanChunk_parse [OF s] s False
      by (subst check_rest.simps) (auto simp: matchChunk_ok split: option.splits)
  qed (simp add: check_rest.simps)
qed

subsection \<open>The meaning of chunks\<close>

lemma take_terms_append: "Star \<notin> set ts \<Longrightarrow> byte_matches (ts @ us) s \<longleftrightarrow> (\<exists>t. take_terms ts s = Some t \<and> byte_matches us t)"
proof (induction ts arbitrary: s)
  case (Cons t ts)
  then show ?case by (cases t) (auto split: option.splits)
qed simp

lemma matches_star_star: "byte_matches (Star # Star # ts) s = byte_matches (Star # ts) s"
proof
  assume "byte_matches (Star # Star # ts) s"
  then obtain j k where "j \<le> length s" "slash \<notin> set (take j s)" "k \<le> length (drop j s)" "slash \<notin> set (take k (drop j s))"
    "byte_matches ts (drop k (drop j s))" by auto
  then show "byte_matches (Star # ts) s"
    by (auto simp: take_add add.commute intro!: exI [of _ "j + k"])
next
  assume "byte_matches (Star # ts) s"
  then have "0 \<le> length s \<and> slash \<notin> set (take 0 s) \<and> byte_matches (Star # ts) (drop 0 s)" by simp
  then show "byte_matches (Star # Star # ts) s" by (subst byte_matches.simps(2)) blast
qed

lemma matches_stars: "byte_matches (replicate (Suc k) Star @ ts) s = byte_matches (Star # ts) s"
  by (induction k arbitrary: s) (simp_all only: replicate_Suc append_Cons replicate_0 append_Nil matches_star_star)

text \<open>The places where a chunk can start, and the name that is left after it.\<close>

definition starts :: "bool \<Rightarrow> byte list \<Rightarrow> nat \<Rightarrow> bool" where
  "starts star name k \<longleftrightarrow> (k = 0 \<or> star) \<and> k \<le> length name \<and> slash \<notin> set (take k name)"

lemma matches_group:
  assumes "Star \<notin> set ts"
  shows "byte_matches (replicate k Star @ ts @ us) name \<longleftrightarrow>
    (\<exists>i t. starts (0 < k) name i \<and> take_terms ts (drop i name) = Some t \<and> byte_matches us t)"
proof (cases k)
  case 0
  then show ?thesis using take_terms_append [OF assms] by (auto simp: starts_def)
next
  case (Suc m)
  have "byte_matches (replicate k Star @ ts @ us) name = byte_matches (Star # ts @ us) name"
    unfolding Suc by (rule matches_stars)
  also have "\<dots> \<longleftrightarrow> (\<exists>i. starts True name i \<and> byte_matches (ts @ us) (drop i name))"
    by (auto simp: starts_def)
  finally show ?thesis using Suc by (auto simp: take_terms_append [OF assms])
qed

subsection \<open>The search for a match of a chunk\<close>

text \<open>An acceptable match of a chunk at \<open>i\<close>: the last chunk has to take all of the name.\<close>

definition accepts :: "bool \<Rightarrow> pat_term list \<Rightarrow> byte list \<Rightarrow> nat \<Rightarrow> byte list \<Rightarrow> bool" where
  "accepts is_last ts name i t \<longleftrightarrow> take_terms ts (drop i name) = Some t \<and> (is_last \<longrightarrow> t = [])"

text \<open>The first acceptable match from \<open>i\<close> on, or that there is none.\<close>

definition first_from :: "bool \<Rightarrow> bool \<Rightarrow> pat_term list \<Rightarrow> byte list \<Rightarrow> nat \<Rightarrow> byte list option \<Rightarrow> bool" where
  "first_from star is_last ts name i found \<longleftrightarrow>
    (case found of
       Some t \<Rightarrow> \<exists>k \<ge> i. starts star name k \<and> accepts is_last ts name k t \<and>
         (\<forall>j t'. i \<le> j \<longrightarrow> j < k \<longrightarrow> starts star name j \<longrightarrow> \<not> accepts is_last ts name j t')
     | None \<Rightarrow> \<forall>k t. i \<le> k \<longrightarrow> starts star name k \<longrightarrow> \<not> accepts is_last ts name k t)"

lemma first_from_skip:
  assumes f: "first_from star is_last ts name (Suc i) found"
    and n: "\<And>t. starts star name i \<Longrightarrow> \<not> accepts is_last ts name i t"
  shows "first_from star is_last ts name i found"
proof -
  have j: "j = i \<or> Suc i \<le> j" if "i \<le> j" for j using that by auto
  show ?thesis
  proof (cases found)
    case None
    then show ?thesis using f n j by (auto simp: first_from_def)
  next
    case (Some t)
    then obtain k where k: "Suc i \<le> k" "starts star name k" "accepts is_last ts name k t"
      "\<And>j t'. Suc i \<le> j \<Longrightarrow> j < k \<Longrightarrow> starts star name j \<Longrightarrow> \<not> accepts is_last ts name j t'"
      using f by (auto simp: first_from_def)
    have "\<not> accepts is_last ts name j' t'" if "i \<le> j'" "j' < k" "starts star name j'" for j' t'
      using j [OF that(1)] k(4) [of j'] n [of t'] that by blast
    then show ?thesis using Some k(1-3) by (auto simp: first_from_def intro!: exI [of _ k])
  qed
qed

lemma first_from_here: "starts star name i \<Longrightarrow> accepts is_last ts name i t \<Longrightarrow> first_from star is_last ts name i (Some t)"
  by (auto simp: first_from_def)

lemma starts_Suc: "starts True name (Suc i) \<longleftrightarrow> starts True name i \<and> i < length name \<and> name ! i \<noteq> slash"
  by (auto simp: starts_def take_Suc_nth)

lemma starts_mono: "starts True name k \<Longrightarrow> i \<le> k \<Longrightarrow> starts True name i"
  by (auto simp: starts_def dest: set_take_subset_set_take [of i k name, THEN subsetD])

lemma match_skip_first:
  assumes c: "parse_pat False c = Some ts"
  shows "starts True name i \<Longrightarrow>
    \<exists>found. match_skip c is_last name i = Inr found \<and> first_from True is_last ts name (Suc i) found"
proof (induction "length name - i" arbitrary: i rule: less_induct)
  case less
  show ?case
  proof (cases "i < length name \<and> name ! i \<noteq> slash")
    case True
    then have st: "starts True name (Suc i)" using less(2) by (simp add: starts_Suc)
    note ms = match_skip.simps [of c is_last name i, unfolded if_P [OF True]]
    show ?thesis
    proof (cases "\<exists>t. accepts is_last ts name (Suc i) t")
      case acc: True
      then obtain t where t: "accepts is_last ts name (Suc i) t" by blast
      then have "match_skip c is_last name i = Inr (Some t)"
        by (auto simp: ms matchChunk_ok c accepts_def)
      then show ?thesis using first_from_here [OF st t] by blast
    next
      case no: False
      have "match_skip c is_last name i = match_skip c is_last name (i + 1)"
        using no by (auto simp: ms matchChunk_ok c accepts_def split: option.splits)
      moreover obtain found where "match_skip c is_last name (Suc i) = Inr found"
        "first_from True is_last ts name (Suc (Suc i)) found" using less(1) [OF diff_less_mono2 st] True by auto
      ultimately show ?thesis using first_from_skip [of True is_last ts name "Suc i" found] no by auto
    qed
  next
    case False
    then have "match_skip c is_last name i = Inr None" by (subst match_skip.simps) (simp only: if_False)
    moreover have "\<not> starts True name k" if "Suc i \<le> k" for k
      using starts_mono [OF _ that] False by (auto simp: starts_Suc)
    ultimately show ?thesis by (auto simp: first_from_def)
  qed
qed

lemma match_next_first:
  assumes c: "parse_pat False c = Some ts"
  shows "\<exists>found. match_next star c is_last name = Inr found \<and> first_from star is_last ts name 0 found"
proof (cases "\<exists>t. accepts is_last ts name 0 t")
  case True
  then obtain t where t: "accepts is_last ts name 0 t" by blast
  have "starts star name 0" by (simp add: starts_def)
  moreover have "match_next star c is_last name = Inr (Some t)"
    using t by (auto simp: match_next_def matchChunk_ok c accepts_def Let_def)
  ultimately show ?thesis using first_from_here t by blast
next
  case False
  have n: "match_next star c is_last name = (if star then match_skip c is_last name 0 else Inr None)"
    using False by (auto simp: match_next_def matchChunk_ok c accepts_def Let_def split: option.splits)
  show ?thesis
  proof (cases star)
    case True
    have "starts True name 0" by (simp add: starts_def)
    from match_skip_first [OF c this, of is_last] obtain found where
      "match_skip c is_last name 0 = Inr found" "first_from True is_last ts name (Suc 0) found" by blast
    then show ?thesis using n True first_from_skip [of True is_last ts name 0 found] False by auto
  next
    case ns: False
    then have "first_from star is_last ts name 0 None" using False by (auto simp: first_from_def starts_def)
    then show ?thesis using n ns by simp
  qed
qed

subsection \<open>The first match is enough\<close>

text \<open>
  In a name of ASCII bytes every term takes one byte. Then the first match of a chunk leaves room
  for all that follows a later match, unless a slash is in the way; and a slash can only be taken
  by a slash of the pattern, whose place the first match fixes.
\<close>

abbreviation ascii :: "byte list \<Rightarrow> bool" where "ascii s \<equiv> \<forall>b \<in> set s. b < 0x80"

definition no_slash_class :: "pat_term list \<Rightarrow> bool" where
  "no_slash_class ts \<longleftrightarrow> (\<forall>neg rs. Class neg rs \<in> set ts \<longrightarrow> in_class (uint slash) rs = neg)"

lemma decode_ascii:
  assumes "b < 0x80"
  shows "DecodeRune (b # s) = (uint b, 1)"
proof -
  have "uint b < 128" using assms by (simp add: word_less_def)
  then show ?thesis by (simp add: DecodeRune_dec dec_result_def dec_def)
qed

lemma take_term_ascii:
  assumes "ascii s" and "take_term x s = Some t"
  shows "s \<noteq> [] \<and> t = tl s"
  using assms by (cases s; cases x) (auto simp: decode_ascii split: if_splits)

lemma take_term_slash:
  assumes "take_term x (slash # s) = Some t" and "no_slash_class [x]"
  shows "x = Lit slash"
  using assms by (cases x) (auto simp: decode_ascii no_slash_class_def split: if_splits)

lemma take_terms_ascii:
  "ascii s \<Longrightarrow> take_terms ts s = Some t \<Longrightarrow>
     length ts \<le> length s \<and> t = drop (length ts) s \<and> (\<forall>j < length ts. take_term (ts ! j) (drop j s) \<noteq> None)"
proof (induction ts arbitrary: s)
  case (Cons x ts)
  obtain s' where s': "take_term x s = Some s'" "take_terms ts s' = Some t" using Cons.prems(2) by (auto split: option.splits)
  obtain b where b: "s = b # s'" using take_term_ascii [OF Cons.prems(1) s'(1)] by (cases s) auto
  have IH: "length ts \<le> length s'" "t = drop (length ts) s'" "\<And>j. j < length ts \<Longrightarrow> take_term (ts ! j) (drop j s') \<noteq> None"
    using Cons.IH [OF _ s'(2)] Cons.prems(1) b by auto
  have "take_term ((x # ts) ! j) (drop j s) \<noteq> None" if "j < length (x # ts)" for j
    using that IH(3) [of "j - 1"] s'(1) b by (cases j) auto
  then show ?case using IH b by auto
qed simp

lemma slash_at:
  assumes "ascii name" and "no_slash_class ts" and "take_terms ts (drop k name) = Some t" and "j < length ts"
    and "name ! (k + j) = slash"
  shows "ts ! j = Lit slash"
proof -
  have a: "ascii (drop k name)" using assms(1) by (auto dest: in_set_dropD)
  have l: "k + j < length name" using take_terms_ascii [OF a assms(3)] assms(4) by auto
  have "take_term (ts ! j) (drop j (drop k name)) \<noteq> None" using take_terms_ascii [OF a assms(3)] assms(4) by blast
  moreover have "drop j (drop k name) = slash # drop (Suc (k + j)) name"
    using drop_nth_Cons [OF l] assms(5) by (simp add: add.commute)
  moreover have "no_slash_class [ts ! j]" using assms(2,4) nth_mem [OF assms(4)] by (auto simp: no_slash_class_def)
  ultimately show ?thesis using take_term_slash by auto
qed

lemma slash_taken:
  assumes "ascii name" and "take_terms ts (drop k name) = Some t" and "j < length ts" and "ts ! j = Lit slash"
  shows "name ! (k + j) = slash"
proof -
  have a: "ascii (drop k name)" using assms(1) by (auto dest: in_set_dropD)
  have l: "k + j < length name" using take_terms_ascii [OF a assms(2)] assms(3) by auto
  have "take_term (Lit slash) (drop j (drop k name)) \<noteq> None"
    using take_terms_ascii [OF a assms(2)] assms(3,4) by metis
  moreover have "drop j (drop k name) = name ! (k + j) # drop (Suc (k + j)) name"
    using drop_nth_Cons [OF l] by (simp add: add.commute)
  ultimately show ?thesis by (auto split: if_splits)
qed

lemma no_slash_between:
  assumes name: "ascii name" "no_slash_class ts" and "k0 < k" and k: "slash \<notin> set (take k name)" "k \<le> length name"
    and t: "take_terms ts (drop k0 name) = Some t0" "take_terms ts (drop k name) = Some t"
    and q: "q < k + length ts"
  shows "k \<le> q \<Longrightarrow> name ! q \<noteq> slash"
proof
  assume "k \<le> q" "name ! q = slash"
  have before: "name ! i \<noteq> slash" if "i < k" for i
    using k that in_set_conv_nth [of "name ! i" "take k name"] by auto
  define P where "P j \<longleftrightarrow> j < length ts \<and> ts ! j = Lit slash" for j
  have "P (q - k)" using slash_at [OF name t(2), of "q - k"] q \<open>k \<le> q\<close> \<open>name ! q = slash\<close> by (simp add: P_def)
  then obtain j where j: "P j" "\<And>i. i < j \<Longrightarrow> \<not> P i" using exists_least_iff [of P] by blast
  have s: "name ! (k0 + j) = slash" using slash_taken [OF name(1) t(1)] j(1) by (simp add: P_def)
  then have "k \<le> k0 + j" using before [of "k0 + j"] by (meson not_less)
  moreover have "k0 + j - k < length ts" using j(1) \<open>k0 < k\<close> unfolding P_def by linarith
  ultimately have "P (k0 + j - k)" using slash_at [OF name t(2), of "k0 + j - k"] s by (simp add: P_def)
  then show False using j(2) [of "k0 + j - k"] \<open>k0 < k\<close> \<open>k \<le> k0 + j\<close> by auto
qed

lemma star_later:
  assumes name: "ascii name" "no_slash_class ts" and "k0 \<le> k" and k: "slash \<notin> set (take k name)" "k \<le> length name"
    and t: "take_terms ts (drop k0 name) = Some t0" "take_terms ts (drop k name) = Some t"
    and m: "byte_matches (Star # us) t"
  shows "byte_matches (Star # us) t0"
proof (cases "k0 = k")
  case True
  then show ?thesis using t m by simp
next
  case False
  then have lt: "k0 < k" using \<open>k0 \<le> k\<close> by simp
  let ?m = "length ts"
  have a: "ascii (drop i name)" for i using name(1) by (auto dest: in_set_dropD)
  have t0: "t0 = drop (k0 + ?m) name" and tk: "t = drop (k + ?m) name" and len: "k + ?m \<le> length name"
    using take_terms_ascii [OF a t(1)] take_terms_ascii [OF a t(2)] k(2) by (auto simp: add.commute)
  obtain e where e: "e \<le> length t" "slash \<notin> set (take e t)" "byte_matches us (drop e t)" using m by auto
  have d: "drop (k - k0) t0 = t" unfolding t0 tk using lt by (simp add: add.commute)
  have "slash \<notin> set (take (k - k0) t0)"
  proof
    assume "slash \<in> set (take (k - k0) t0)"
    then obtain i where i: "i < k - k0" "name ! (k0 + ?m + i) = slash"
      using len lt unfolding t0 by (auto simp: in_set_conv_nth)
    have "name ! x \<noteq> slash" if "x < k" for x
      using k that in_set_conv_nth [of "name ! x" "take k name"] by auto
    moreover have "k0 + ?m + i < k + ?m" using i(1) by linarith
    ultimately show False
      using no_slash_between [OF name lt k t, of "k0 + ?m + i"] i(2) by (cases "k \<le> k0 + ?m + i") auto
  qed
  then have "slash \<notin> set (take (k - k0 + e) t0)" using e(2) d by (simp add: take_add)
  moreover have "drop (k - k0 + e) t0 = drop e t" using d by (metis add.commute drop_drop)
  moreover have "k - k0 + e \<le> length t0" using e(1) d lt len unfolding t0 tk by auto
  ultimately show ?thesis using e(3) by auto
qed

subsection \<open>Match\<close>

definition match_spec :: "byte list \<Rightarrow> byte list \<Rightarrow> match_error + bool \<Rightarrow> bool" where
  "match_spec p name res \<longleftrightarrow>
    (case parse_pat True p of
       None \<Rightarrow> res = Inl ErrBadPattern
     | Some ts \<Rightarrow> \<exists>b. res = Inr b \<and> (b \<longrightarrow> byte_matches ts name) \<and>
         (ascii name \<and> no_slash_class ts \<or> Star \<notin> set ts \<longrightarrow> byte_matches ts name \<longrightarrow> b))"

text \<open>No acceptable match of the chunk: the pattern does not match.\<close>

lemma none_spec:
  assumes p: "parse_pat True p = map_option (\<lambda>us. replicate k Star @ ts @ us) (parse_pat True r)"
    and ts: "Star \<notin> set ts" and f: "first_from (0 < k) (r = []) ts name 0 None"
  shows "match_spec p name (case check_rest r of Inl e \<Rightarrow> Inl e | Inr _ \<Rightarrow> Inr False)"
proof (cases "parse_pat True r")
  case (Some us)
  have "t = []" if "r = []" "byte_matches us t" for t using that Some by simp
  then have "\<not> byte_matches (replicate k Star @ ts @ us) name"
    using f unfolding matches_group [OF ts] by (auto simp: first_from_def accepts_def)
  then show ?thesis using p Some by (auto simp: match_spec_def check_rest_eq)
qed (simp add: match_spec_def check_rest_eq p)

text \<open>The first acceptable match leaves \<open>t\<close>: the pattern matches if the rest of it matches \<open>t\<close>.\<close>

lemma some_spec:
  assumes p: "parse_pat True p = map_option (\<lambda>us. replicate k Star @ ts @ us) (parse_pat True r)"
    and ts: "Star \<notin> set ts" and f: "first_from (0 < k) (r = []) ts name 0 (Some t)"
    and r: "r = [] \<or> hd r = star_byte" and IH: "match_spec r t res"
  shows "match_spec p name res"
proof (cases "parse_pat True r")
  case (Some us)
  obtain k0 where k0: "starts (0 < k) name k0" "take_terms ts (drop k0 name) = Some t" "r = [] \<Longrightarrow> t = []"
    and first: "\<And>j t'. j < k0 \<Longrightarrow> starts (0 < k) name j \<Longrightarrow> \<not> accepts (r = []) ts name j t'"
    using f by (auto simp: first_from_def accepts_def)
  let ?T = "replicate k Star @ ts @ us"
  have sound: "byte_matches us t \<Longrightarrow> byte_matches ?T name" unfolding matches_group [OF ts] using k0 by blast
  have complete: "byte_matches us t" if asc: "ascii name \<and> no_slash_class ?T \<or> Star \<notin> set ?T" and m: "byte_matches ?T name"
  proof (cases "r = []")
    case True
    then show ?thesis using k0(3) Some by simp
  next
    case False
    then obtain r' where r': "r = star_byte # r'" using r by (cases r) auto
    then obtain us' where us': "us = Star # us'" using Some by auto
    then have asc: "ascii name" "no_slash_class ?T" using asc by auto
    obtain i t' where i: "starts (0 < k) name i" "take_terms ts (drop i name) = Some t'" "byte_matches us t'"
      using m unfolding matches_group [OF ts] by blast
    have "k0 \<le> i" using first [of i t'] i(1,2) False by (auto simp: accepts_def not_less [symmetric])
    moreover have "no_slash_class ts" using asc(2) by (auto simp: no_slash_class_def)
    ultimately show ?thesis
      using star_later [OF asc(1), of ts k0 i t t' us'] i k0 unfolding us' by (auto simp: starts_def)
  qed
  have "ascii t" if "ascii name"
    using that take_terms_ascii [of "drop k0 name" ts t] k0(2) by (auto dest: in_set_dropD)
  moreover have "no_slash_class us" if "no_slash_class ?T" using that by (auto simp: no_slash_class_def)
  moreover have "Star \<notin> set us" if "Star \<notin> set ?T" using that by simp
  ultimately have sub: "ascii t \<and> no_slash_class us \<or> Star \<notin> set us" if "ascii name \<and> no_slash_class ?T \<or> Star \<notin> set ?T"
    using that by blast
  obtain b where b: "res = Inr b" "b \<Longrightarrow> byte_matches us t"
    "ascii t \<and> no_slash_class us \<or> Star \<notin> set us \<Longrightarrow> byte_matches us t \<Longrightarrow> b"
    using IH unfolding match_spec_def Some option.case by blast
  have "b \<longrightarrow> byte_matches ?T name" using b(2) sound by blast
  moreover have "ascii name \<and> no_slash_class ?T \<or> Star \<notin> set ?T \<longrightarrow> byte_matches ?T name \<longrightarrow> b"
    using b(3) sub complete by blast
  ultimately show ?thesis unfolding match_spec_def p Some option.map option.case b(1) by blast
qed (use p IH in \<open>simp add: match_spec_def\<close>)

lemma star_spec: "parse_pat True p = Some (replicate k Star) \<Longrightarrow> 0 < k \<Longrightarrow> match_spec p name (Inr (slash \<notin> set name))"
  using matches_group [of "[]" k "[]" name] by (auto simp: match_spec_def starts_def)

lemma Match_correct: "match_spec p name (Match p name)"
proof (induction "length p" arbitrary: p name rule: less_induct)
  case less
  show ?case
  proof (cases "p = []")
    case True
    then show ?thesis by (subst Match.simps) (simp add: match_spec_def)
  next
    case False
    obtain star c r where s: "scanChunk p = (star, c, r)" by (cases "scanChunk p") auto
    obtain k where k: "star = (0 < k)" "c = [] \<longrightarrow> r = []" "r = [] \<or> hd r = star_byte"
      and p: "parse_pat True p = (case parse_pat False c of
        None \<Rightarrow> None | Some ts \<Rightarrow> map_option (\<lambda>us. replicate k Star @ ts @ us) (parse_pat True r))"
      using scanChunk_parse [OF s] by blast
    have M: "Match p name = (if star \<and> c = [] then Inr (slash \<notin> set name)
        else case match_next star c (r = []) name of Inl e \<Rightarrow> Inl e | Inr (Some t) \<Rightarrow> Match r t
          | Inr None \<Rightarrow> (case check_rest r of Inl e \<Rightarrow> Inl e | Inr _ \<Rightarrow> Inr False))"
      using False s by (subst Match.simps) simp
    show ?thesis
    proof (cases "parse_pat False c")
      case None
      then have "c \<noteq> []" by auto
      then show ?thesis unfolding M using None p by (simp add: match_spec_def match_next_def matchChunk_ok)
    next
      case (Some ts)
      note ts = parse_no_star [OF Some]
      show ?thesis
      proof (cases "star \<and> c = []")
        case True
        then show ?thesis unfolding M using star_spec [of p k name] p k Some by simp
      next
        case nt: False
        obtain found where f: "match_next star c (r = []) name = Inr found" "first_from star (r = []) ts name 0 found"
          using match_next_first [OF Some] by blast
        show ?thesis
        proof (cases found)
          case None
          then show ?thesis unfolding M if_not_P [OF nt] using f none_spec [of p k ts r name] p Some ts k(1) by simp
        next
          case t: (Some t)
          have "match_spec r t (Match r t)" using less [OF scanChunk_shorter [OF s False]] .
          then show ?thesis unfolding M if_not_P [OF nt] using f t some_spec [of p k ts r name t] p Some ts k by simp
        qed
      qed
    qed
  qed
qed

text \<open>In ASCII names, and without a star, characters and bytes make no difference.\<close>

lemma byte_star_Cons:
  "byte_matches (Star # ts) s \<longleftrightarrow>
     byte_matches ts s \<or> s \<noteq> [] \<and> hd s \<noteq> slash \<and> byte_matches (Star # ts) (tl s)"
proof (cases s)
  case (Cons b t)
  have "(\<exists>k \<le> length s. slash \<notin> set (take k s) \<and> byte_matches ts (drop k s)) \<longleftrightarrow>
      byte_matches ts s \<or> b \<noteq> slash \<and> (\<exists>k \<le> length t. slash \<notin> set (take k t) \<and> byte_matches ts (drop k t))"
  proof (intro iffI; elim exE conjE disjE)
    fix k assume k: "k \<le> length s" "slash \<notin> set (take k s)" "byte_matches ts (drop k s)"
    then show "byte_matches ts s \<or> b \<noteq> slash \<and> (\<exists>k \<le> length t. slash \<notin> set (take k t) \<and> byte_matches ts (drop k t))"
      unfolding Cons by (cases k) auto
  next
    assume "byte_matches ts s"
    then show "\<exists>k \<le> length s. slash \<notin> set (take k s) \<and> byte_matches ts (drop k s)" by (intro exI [of _ 0]) simp
  next
    fix k assume "b \<noteq> slash" "k \<le> length t" "slash \<notin> set (take k t)" "byte_matches ts (drop k t)"
    then show "\<exists>k \<le> length s. slash \<notin> set (take k s) \<and> byte_matches ts (drop k s)"
      unfolding Cons by (intro exI [of _ "Suc k"]) simp
  qed
  then show ?thesis using Cons by simp
qed simp

lemma uint_slash: "uint b = uint slash \<longleftrightarrow> b = slash"
  by (simp only: word_uint_eq_iff)

lemma matches_ascii: "ascii s \<Longrightarrow> matches ts s = byte_matches ts s"
proof (induction ts s rule: matches.induct)
  case (2 ts s)
  show ?case
  proof (cases s)
    case Nil
    then show ?thesis using 2(1) by simp
  next
    case (Cons b t)
    have b: "DecodeRune s = (uint b, 1)" using 2(3) decode_ascii unfolding Cons by simp
    have "matches (Star # ts) t = byte_matches (Star # ts) t" if "b \<noteq> slash"
      using 2(2) 2(3) that uint_slash [of b] unfolding b unfolding Cons by (simp del: matches.simps byte_matches.simps)
    then show ?thesis
      using 2(1) [OF 2(3)] b byte_star_Cons [of ts s] uint_slash [of b] unfolding Cons by (auto simp del: byte_matches.simps)
  qed
next
  case (3 t ts s)
  have "ascii s'" if "take_term t s = Some s'" for s'
    using take_term_ascii [OF 3(3) that] 3(3) by (auto dest: list.set_sel(2))
  then have "matches ts s' = byte_matches ts s'" if "take_term t s = Some s'" for s' using 3 that by auto
  then show ?case using 3(1) by (cases t) (auto split: option.splits)
qed simp

lemma matches_no_star: "Star \<notin> set ts \<Longrightarrow> matches ts s = byte_matches ts s"
proof (induction ts arbitrary: s)
  case (Cons t ts)
  then show ?case by (cases t) (auto split: option.splits)
qed simp

text \<open>
  C37. \<open>Match\<close> against the documented pattern language, in which a star stands for any sequence of
  characters other than the slash. It returns \<open>ErrBadPattern\<close> if the pattern is malformed, whatever the name,
  and otherwise an answer (it neither panics nor loops). For patterns without stars the answer is right for
  every name. For patterns with stars and names of ASCII bytes a reported match is one, and the answer is
  right if the classes of the pattern do not take a slash. (The two lemmas below show that these conditions
  are needed.)
\<close>

theorem match_correct:
  "(parse_pat True pattern = None \<longrightarrow> Match pattern name = Inl ErrBadPattern) \<and>
   (\<forall>ts. parse_pat True pattern = Some ts \<longrightarrow>
      (\<exists>b. Match pattern name = Inr b) \<and>
      (Star \<notin> set ts \<longrightarrow> Match pattern name = Inr (matches ts name)) \<and>
      ((\<forall>b \<in> set name. b < 0x80) \<longrightarrow>
         (Match pattern name = Inr True \<longrightarrow> matches ts name) \<and>
         (no_slash_class ts \<longrightarrow> Match pattern name = Inr (matches ts name))))"
proof (intro conjI allI impI)
  assume "parse_pat True pattern = None"
  then show "Match pattern name = Inl ErrBadPattern" using Match_correct [of pattern name] by (simp add: match_spec_def)
next
  fix ts assume "parse_pat True pattern = Some ts"
  then obtain b where b: "Match pattern name = Inr b" "b \<Longrightarrow> byte_matches ts name"
    "ascii name \<and> no_slash_class ts \<or> Star \<notin> set ts \<Longrightarrow> byte_matches ts name \<Longrightarrow> b"
    using Match_correct [of pattern name] unfolding match_spec_def by (simp only: option.case) blast
  then show "\<exists>b. Match pattern name = Inr b" by blast
  have exact: "b = byte_matches ts name" if "ascii name \<and> no_slash_class ts \<or> Star \<notin> set ts" using that b(2,3) by blast
  show "Match pattern name = Inr (matches ts name)" if "Star \<notin> set ts" using exact that b(1) matches_no_star [OF that] by simp
  assume a: "\<forall>b \<in> set name. b < 0x80"
  show "matches ts name" if "Match pattern name = Inr True" using that b(1,2) matches_ascii [OF a] by simp
  show "Match pattern name = Inr (matches ts name)" if "no_slash_class ts"
    using exact that a b(1) matches_ascii [OF a] by simp
qed

text \<open>The pattern \<open>*.[ch]\<close> and the name \<open>a.c\<close>; the pattern \<open>[a\<close>.\<close>

theorem match_correct_witness:
  "Match [0x2A, 0x2E, 0x5B, 0x63, 0x68, 0x5D] [0x61, 0x2E, 0x63] = Inr True \<and>
   matches [Star, Lit 0x2E, Class False [(0x63, 0x63), (0x68, 0x68)]] [0x61, 0x2E, 0x63] \<and>
   Match [0x5B, 0x61] [0x61] = Inl ErrBadPattern"
proof -
  let ?p = "[0x2A, 0x2E, 0x5B, 0x63, 0x68, 0x5D] :: byte list" and ?n = "[0x61, 0x2E, 0x63] :: byte list"
  have "parse_pat True ?p = Some [Star, Lit 0x2E, Class False [(0x63, 0x63), (0x68, 0x68)]]" by code_simp
  moreover have "\<forall>b \<in> set ?n. b < 0x80" by simp
  moreover have m: "Match ?p ?n = Inr True" by code_simp
  ultimately have "matches [Star, Lit 0x2E, Class False [(0x63, 0x63), (0x68, 0x68)]] ?n"
    using match_correct [of ?p ?n] by blast
  moreover have "parse_pat True [0x5B, 0x61] = None" by code_simp
  then have "Match [0x5B, 0x61] [0x61] = Inl ErrBadPattern" using match_correct [of "[0x5B, 0x61]" "[0x61]"] by blast
  ultimately show ?thesis using m by blast
qed

text \<open>
  The two conditions on names and classes are needed. The code matches the pattern \<open>*??\<close> with the name that
  is the one character U+20AC, since its star may stop inside of an encoding; and it does not match the
  pattern \<open>*[a/]*z\<close> with \<open>a/z\<close>, although a star for \<open>a\<close>, the class for the slash and an empty star do.
\<close>

lemma match_inside_rune:
  "Match [0x2A, 0x3F, 0x3F] [0xE2, 0x82, 0xAC] = Inr True \<and> DecodeRune [0xE2, 0x82, 0xAC] = (0x20AC, 3) \<and>
   parse_pat True [0x2A, 0x3F, 0x3F] = Some [Star, AnyChar, AnyChar] \<and> \<not> matches [Star, AnyChar, AnyChar] [0xE2, 0x82, 0xAC]"
proof -
  have d: "DecodeRune [0xE2, 0x82, 0xAC] = (0x20AC, 3)" by code_simp
  then have "\<not> matches [Star, AnyChar, AnyChar] [0xE2, 0x82, 0xAC]" by simp
  moreover have "Match [0x2A, 0x3F, 0x3F] [0xE2, 0x82, 0xAC] = Inr True" by code_simp
  moreover have "parse_pat True [0x2A, 0x3F, 0x3F] = Some [Star, AnyChar, AnyChar]" by code_simp
  ultimately show ?thesis using d by blast
qed

lemma match_first_only:
  "Match [0x2A, 0x5B, 0x61, 0x2F, 0x5D, 0x2A, 0x7A] [0x61, 0x2F, 0x7A] = Inr False \<and>
   parse_pat True [0x2A, 0x5B, 0x61, 0x2F, 0x5D, 0x2A, 0x7A] =
     Some [Star, Class False [(0x61, 0x61), (0x2F, 0x2F)], Star, Lit 0x7A] \<and>
   matches [Star, Class False [(0x61, 0x61), (0x2F, 0x2F)], Star, Lit 0x7A] [0x61, 0x2F, 0x7A]"
proof (intro conjI)
  show "matches [Star, Class False [(0x61, 0x61), (0x2F, 0x2F)], Star, Lit 0x7A] [0x61, 0x2F, 0x7A]"
    by (simp add: decode_ascii in_class_def)
qed code_simp+

end
