(* ===== verification/Sync_Mutex.thy ===== *)
theory Sync_Mutex
  imports Go_Prelude
begin

unbundle bit_operations_syntax

section \<open>\<open>sync.Mutex\<close>\<close>

text \<open>
  The mutex of \<open>sync/mutex.go\<close>: a 32-bit state word with three flags and a count of waiters,
  read and changed by atomic operations, and a semaphore on which waiters sleep. Every goroutine
  that runs \<open>Lock\<close>, \<open>TryLock\<close> or \<open>Unlock\<close> is at a program point; one step runs the code
  from a point to the next, and holds exactly one access to the shared words (an atomic load,
  compare-and-swap or add, or one semaphore operation), so that runs interleave goroutines at
  the granularity of the hardware. The build tag \<open>race\<close> is off, as in a normal build.

  The semaphore does what \<open>sync/runtime.go\<close> documents: acquiring waits until the count is
  positive and then decrements it, releasing increments it. Which of the sleepers gets the
  count is left open (the \<open>lifo\<close> and \<open>handoff\<close> arguments only choose among them), so
  what is shown holds for every order of wake-ups.
\<close>

type_synonym int32 = "32 word"

record Mutex =
  state :: int32
  sema :: "32 word"

definition mutexLocked :: int32 where "mutexLocked = push_bit 0 1"
definition mutexWoken :: int32 where "mutexWoken = push_bit 1 1"
definition mutexStarving :: int32 where "mutexStarving = push_bit 2 1"
definition mutexWaiterShift :: nat where "mutexWaiterShift = 3"
definition starvationThresholdNs :: int where "starvationThresholdNs = 1000000"

text \<open>The value of \<open>x >> k\<close> for a signed 32-bit \<open>x\<close>, and the atomic operations.\<close>

abbreviation sar :: "int32 \<Rightarrow> nat \<Rightarrow> int32" where "sar x k \<equiv> signed_drop_bit k x"

definition CompareAndSwapInt32 :: "Mutex \<Rightarrow> int32 \<Rightarrow> int32 \<Rightarrow> Mutex \<times> bool" where
  "CompareAndSwapInt32 m old new = (if state m = old then (m\<lparr>state := new\<rparr>, True) else (m, False))"

definition AddInt32 :: "Mutex \<Rightarrow> int32 \<Rightarrow> Mutex \<times> int32" where
  "AddInt32 m delta = (m\<lparr>state := state m + delta\<rparr>, state m + delta)"

definition runtime_SemacquireMutex :: "Mutex \<Rightarrow> Mutex option" where
  "runtime_SemacquireMutex m = (if sema m = 0 then None else Some (m\<lparr>sema := sema m - 1\<rparr>))"

definition runtime_Semrelease :: "Mutex \<Rightarrow> Mutex" where
  "runtime_Semrelease m = m\<lparr>sema := sema m + 1\<rparr>"

subsection \<open>Program points\<close>

text \<open>The local variables of \<open>lockSlow\<close>. Times are nanoseconds, as the runtime reports them.\<close>

record slow_locals =
  waitStartTime :: int
  starving :: bool
  awoke :: bool
  iter :: int
  old :: int32

text \<open>
  \<open>Returned b\<close> is a goroutine outside of the mutex's methods; \<open>b\<close> says that the call it just
  came back from (if any) acquired the mutex. The points of \<open>lockSlow\<close> are the top of its loop,
  the reload after spinning, the reload after a lost compare-and-swap, the sleep, the code after
  the sleep, and the final add of a goroutine the mutex was handed to.
\<close>

datatype pc =
    Returned bool
  | Lock_cas
  | TryLock_load
  | TryLock_cas int32
  | lockSlow_load
  | lockSlow_loop slow_locals
  | lockSlow_spun slow_locals
  | lockSlow_reload slow_locals
  | lockSlow_sema slow_locals
  | lockSlow_woken slow_locals
  | lockSlow_handoff int32
  | Unlock_add
  | unlockSlow_loop int32
  | unlockSlow_reload
  | unlockSlow_release bool
  | Thrown string

text \<open>What the runtime answers during a step: whether spinning makes sense, and the time.\<close>

record answers =
  canSpin :: "int \<Rightarrow> bool"
  nanotime :: int

subsection \<open>The methods, step by step\<close>

definition Lock :: "Mutex \<Rightarrow> Mutex \<times> pc" where
  "Lock m =
    (case CompareAndSwapInt32 m 0 mutexLocked of
       (m, swapped) \<Rightarrow> if swapped then (m, Returned True) else (m, lockSlow_load))"

definition TryLock :: "Mutex \<Rightarrow> Mutex \<times> pc" where
  "TryLock m =
    (let v = state m in
     if v AND (mutexLocked OR mutexStarving) \<noteq> 0 then (m, Returned False) else (m, TryLock_cas v))"

definition TryLock_swap :: "int32 \<Rightarrow> Mutex \<Rightarrow> Mutex \<times> pc" where
  "TryLock_swap v m =
    (case CompareAndSwapInt32 m v (v OR mutexLocked) of (m, swapped) \<Rightarrow> (m, Returned swapped))"

definition lockSlow_init :: "Mutex \<Rightarrow> Mutex \<times> pc" where
  "lockSlow_init m =
    (m, lockSlow_loop \<lparr>waitStartTime = 0, starving = False, awoke = False, iter = 0, old = state m\<rparr>)"

text \<open>
  One round of the loop of \<open>lockSlow\<close> up to its compare-and-swap. The value to be swapped in is
  built from the local copy \<open>old\<close>; \<open>None\<close> stands for the throw of an inconsistent state.
\<close>

definition lockSlow_new :: "slow_locals \<Rightarrow> int32 option" where
  "lockSlow_new l =
    (let new = old l;
         new = if old l AND mutexStarving = 0 then new OR mutexLocked else new;
         new = if old l AND (mutexLocked OR mutexStarving) \<noteq> 0
               then new + push_bit mutexWaiterShift 1 else new;
         new = if starving l \<and> old l AND mutexLocked \<noteq> 0 then new OR mutexStarving else new
     in if awoke l then if new AND mutexWoken = 0 then None else Some (new AND NOT mutexWoken)
        else Some new)"

definition lockSlow_spin :: "slow_locals \<Rightarrow> Mutex \<Rightarrow> Mutex \<times> pc" where
  "lockSlow_spin l m =
    (if \<not> awoke l \<and> old l AND mutexWoken = 0 \<and> sar (old l) mutexWaiterShift \<noteq> 0
     then case CompareAndSwapInt32 m (old l) (old l OR mutexWoken) of
            (m, swapped) \<Rightarrow> (m, lockSlow_spun (if swapped then l\<lparr>awoke := True\<rparr> else l))
     else (m, lockSlow_spun l))"

definition lockSlow_round :: "answers \<Rightarrow> slow_locals \<Rightarrow> Mutex \<Rightarrow> Mutex \<times> pc" where
  "lockSlow_round a l m =
    (if old l AND (mutexLocked OR mutexStarving) = mutexLocked \<and> canSpin a (iter l)
     then lockSlow_spin l m
     else case lockSlow_new l of
       None \<Rightarrow> (m, Thrown ''sync: inconsistent mutex state'')
     | Some new \<Rightarrow>
        (case CompareAndSwapInt32 m (old l) new of
           (m, swapped) \<Rightarrow>
             if \<not> swapped then (m, lockSlow_reload l)
             else if old l AND (mutexLocked OR mutexStarving) = 0 then (m, Returned True)
             else (m, lockSlow_sema (if waitStartTime l = 0 then l\<lparr>waitStartTime := nanotime a\<rparr> else l))))"

definition lockSlow_wake :: "answers \<Rightarrow> slow_locals \<Rightarrow> Mutex \<Rightarrow> Mutex \<times> pc" where
  "lockSlow_wake a l m =
    (let starving' = (starving l \<or> nanotime a - waitStartTime l > starvationThresholdNs);
         old' = state m
     in if old' AND mutexStarving \<noteq> 0 then
          (if old' AND (mutexLocked OR mutexWoken) \<noteq> 0 \<or> sar old' mutexWaiterShift = 0
           then (m, Thrown ''sync: inconsistent mutex state'')
           else let delta = mutexLocked - push_bit mutexWaiterShift 1;
                    delta = if \<not> starving' \<or> sar old' mutexWaiterShift = 1
                            then delta - mutexStarving else delta
                in (m, lockSlow_handoff delta))
        else (m, lockSlow_loop (l\<lparr>starving := starving', old := old', awoke := True, iter := 0\<rparr>)))"

definition unlockSlow :: "int32 \<Rightarrow> Mutex \<Rightarrow> Mutex \<times> pc" where
  "unlockSlow new m =
    (if (new + mutexLocked) AND mutexLocked = 0 then (m, Thrown ''sync: unlock of unlocked mutex'')
     else if new AND mutexStarving = 0 then (m, unlockSlow_loop new)
     else (m, unlockSlow_release True))"

definition Unlock :: "Mutex \<Rightarrow> Mutex \<times> pc" where
  "Unlock m =
    (case AddInt32 m (- mutexLocked) of
       (m, new) \<Rightarrow> if new \<noteq> 0 then unlockSlow new m else (m, Returned False))"

definition unlockSlow_round :: "int32 \<Rightarrow> Mutex \<Rightarrow> Mutex \<times> pc" where
  "unlockSlow_round v m =
    (if sar v mutexWaiterShift = 0 \<or> v AND (mutexLocked OR mutexWoken OR mutexStarving) \<noteq> 0
     then (m, Returned False)
     else let new = (v - push_bit mutexWaiterShift 1) OR mutexWoken
          in case CompareAndSwapInt32 m v new of
               (m, swapped) \<Rightarrow> (m, if swapped then unlockSlow_release False else unlockSlow_reload))"

text \<open>The next step of a goroutine; \<open>None\<close> when it has none (it sleeps, or is outside).\<close>

fun goroutine_step :: "answers \<Rightarrow> pc \<Rightarrow> Mutex \<Rightarrow> (Mutex \<times> pc) option" where
  "goroutine_step a (Returned b) m = None"
| "goroutine_step a Lock_cas m = Some (Lock m)"
| "goroutine_step a TryLock_load m = Some (TryLock m)"
| "goroutine_step a (TryLock_cas v) m = Some (TryLock_swap v m)"
| "goroutine_step a lockSlow_load m = Some (lockSlow_init m)"
| "goroutine_step a (lockSlow_loop l) m = Some (lockSlow_round a l m)"
| "goroutine_step a (lockSlow_spun l) m =
     Some (m, lockSlow_loop (l\<lparr>iter := iter l + 1, old := state m\<rparr>))"
| "goroutine_step a (lockSlow_reload l) m = Some (m, lockSlow_loop (l\<lparr>old := state m\<rparr>))"
| "goroutine_step a (lockSlow_sema l) m =
     map_option (\<lambda>m. (m, lockSlow_woken l)) (runtime_SemacquireMutex m)"
| "goroutine_step a (lockSlow_woken l) m = Some (lockSlow_wake a l m)"
| "goroutine_step a (lockSlow_handoff delta) m = Some (fst (AddInt32 m delta), Returned True)"
| "goroutine_step a Unlock_add m = Some (Unlock m)"
| "goroutine_step a (unlockSlow_loop v) m = Some (unlockSlow_round v m)"
| "goroutine_step a unlockSlow_reload m = Some (m, unlockSlow_loop (state m))"
| "goroutine_step a (unlockSlow_release handoff) m = Some (runtime_Semrelease m, Returned False)"
| "goroutine_step a (Thrown msg) m = None"

subsection \<open>Many goroutines\<close>

text \<open>
  A system of goroutines that share a mutex. \<open>held\<close> counts the calls that acquired the mutex and
  have no matching call of \<open>Unlock\<close> yet. A goroutine outside of the methods may call \<open>Lock\<close> or
  \<open>TryLock\<close> at any time, also one that holds the mutex, and \<open>Unlock\<close> when the mutex is held, by
  itself or by another (the mutex is not associated with a goroutine).
\<close>

record mutex_sys =
  mtx :: Mutex
  pcs :: "pc list"
  held :: nat

definition run_step :: "answers \<Rightarrow> nat \<Rightarrow> mutex_sys \<Rightarrow> mutex_sys option" where
  "run_step a i s =
    (if i < length (pcs s)
     then map_option (\<lambda>(m, p). \<lparr>mtx = m, pcs = (pcs s)[i := p], held = held s + of_bool (p = Returned True)\<rparr>)
            (goroutine_step a (pcs s ! i) (mtx s))
     else None)"

definition goes_to :: "mutex_sys \<Rightarrow> nat \<Rightarrow> pc \<Rightarrow> mutex_sys" where
  "goes_to s i p = s\<lparr>pcs := (pcs s)[i := p]\<rparr>"

inductive mutex_step :: "mutex_sys \<Rightarrow> mutex_sys \<Rightarrow> bool" where
  call_Lock: "i < length (pcs s) \<Longrightarrow> pcs s ! i = Returned b \<Longrightarrow> mutex_step s (goes_to s i Lock_cas)"
| call_TryLock: "i < length (pcs s) \<Longrightarrow> pcs s ! i = Returned b \<Longrightarrow> mutex_step s (goes_to s i TryLock_load)"
| call_Unlock: "i < length (pcs s) \<Longrightarrow> pcs s ! i = Returned b \<Longrightarrow> 0 < held s \<Longrightarrow>
    mutex_step s ((goes_to s i Unlock_add)\<lparr>held := held s - 1\<rparr>)"
| run: "run_step a i s = Some s' \<Longrightarrow> mutex_step s s'"

definition mutex_start :: "nat \<Rightarrow> mutex_sys" where
  "mutex_start N = \<lparr>mtx = \<lparr>state = 0, sema = 0\<rparr>, pcs = replicate N (Returned False), held = 0\<rparr>"

inductive mutex_reachable :: "nat \<Rightarrow> mutex_sys \<Rightarrow> bool" for N where
  start: "mutex_reachable N (mutex_start N)"
| step: "mutex_reachable N s \<Longrightarrow> mutex_step s s' \<Longrightarrow> mutex_reachable N s'"

end
