(* ===== verification/Sync_Mutex_Inv.thy ===== *)
theory Sync_Mutex_Inv
  imports Sync_Mutex
begin

unbundle bit_operations_syntax

section \<open>The invariant of \<open>sync.Mutex\<close>\<close>

text \<open>
  First the state word is read as three flags and a number of waiters, with what every bit
  operation of the code does to that view. Then the invariant of a system of goroutines is
  stated over counts of goroutines at given program points, and shown to be kept by every step.
\<close>

subsection \<open>The state word\<close>

definition word_of :: "bool \<Rightarrow> bool \<Rightarrow> bool \<Rightarrow> nat \<Rightarrow> int32" where
  "word_of L W S n = of_nat (of_bool L + 2 * of_bool W + 4 * of_bool S + 8 * n)"

abbreviation waiters_ok :: "nat \<Rightarrow> bool" where "waiters_ok n \<equiv> n < 2 ^ 29"

lemma unat_word_of:
  assumes "waiters_ok n"
  shows "unat (word_of L W S n) = of_bool L + 2 * (of_bool W + 2 * (of_bool S + 2 * n))"
proof -
  have "of_bool L + 2 * of_bool W + 4 * of_bool S + 8 * n < 2 ^ 32"
    using assms by (cases L; cases W; cases S) simp_all
  then have "unat (of_nat (of_bool L + 2 * of_bool W + 4 * of_bool S + 8 * n) :: int32) =
      of_bool L + 2 * of_bool W + 4 * of_bool S + 8 * n"
    unfolding unsigned_of_nat of_nat_id by (intro take_bit_nat_eq_self) simp
  then show ?thesis unfolding word_of_def by simp
qed

lemma div2_flag [simp]: "(of_bool b + 2 * x) div 2 = (x :: nat)"
  by (cases b) simp_all

lemma bit_word_of [simp]:
  assumes "waiters_ok n"
  shows "bit (word_of L W S n) 0 = L" "bit (word_of L W S n) (Suc 0) = W" "bit (word_of L W S n) 2 = S"
    "bit (word_of L W S n) (Suc (Suc (Suc k))) = bit n k"
proof -
  have b: "bit (word_of L W S n) k \<longleftrightarrow> bit (of_bool L + 2 * (of_bool W + 2 * (of_bool S + 2 * n))) k" for k
    unfolding unat_word_of [OF assms, symmetric] by (auto simp: bit_unsigned_iff dest: bit_imp_possible_bit)
  show "bit (word_of L W S n) 0 = L" "bit (word_of L W S n) (Suc 0) = W" "bit (word_of L W S n) 2 = S"
    "bit (word_of L W S n) (Suc (Suc (Suc k))) = bit n k"
    unfolding b numeral_2_eq_2 by (simp_all add: bit_0 bit_Suc)
qed

lemma word_of_inject [simp]:
  assumes "waiters_ok n" "waiters_ok n'"
  shows "word_of L W S n = word_of L' W' S' n' \<longleftrightarrow> L = L' \<and> W = W' \<and> S = S' \<and> n = n'"
proof
  assume eq: "word_of L W S n = word_of L' W' S' n'"
  have bits: "bit (word_of L W S n) k = bit (word_of L' W' S' n') k" for k using eq by simp
  show "L = L' \<and> W = W' \<and> S = S' \<and> n = n'"
    using bits [of 0] bits [of "Suc 0"] bits [of 2] bits [of "Suc (Suc (Suc k))" for k] assms
    by (auto intro: bit_eqI)
qed simp

lemma word_of_0: "word_of False False False 0 = 0"
  by (simp add: word_of_def)

lemma flags:
  "mutexLocked = 1" "mutexWoken = 2" "mutexStarving = 4" "mutexWaiterShift = 3"
  by (simp_all add: mutexLocked_def mutexWoken_def mutexStarving_def mutexWaiterShift_def push_bit_eq_mult)

lemma word_eq_bits:
  "x = (y :: int32) \<longleftrightarrow> bit x 0 = bit y 0 \<and> bit x (Suc 0) = bit y (Suc 0) \<and> bit x 2 = bit y 2 \<and>
     (\<forall>k. bit x (Suc (Suc (Suc k))) = bit y (Suc (Suc (Suc k))))"
proof (rule iffI)
  assume r: "bit x 0 = bit y 0 \<and> bit x (Suc 0) = bit y (Suc 0) \<and> bit x 2 = bit y 2 \<and>
     (\<forall>k. bit x (Suc (Suc (Suc k))) = bit y (Suc (Suc (Suc k))))"
  have "bit x k = bit y k" for k
    using r by (cases k; cases "k - 1"; cases "k - 2") (auto simp: numeral_2_eq_2)
  then show "x = y" by (rule bit_eqI)
qed simp

lemma flag_bits:
  "bit (1 :: int32) k \<longleftrightarrow> k = 0" "bit (2 :: int32) k \<longleftrightarrow> k = Suc 0" "bit (4 :: int32) k \<longleftrightarrow> k = 2"
  "bit (5 :: int32) k \<longleftrightarrow> k = 0 \<or> k = 2" "bit (3 :: int32) k \<longleftrightarrow> k = 0 \<or> k = Suc 0"
  "bit (7 :: int32) k \<longleftrightarrow> k = 0 \<or> k = Suc 0 \<or> k = 2"
proof -
  show one: "bit (1 :: int32) k \<longleftrightarrow> k = 0" for k by (simp add: bit_1_iff)
  show two: "bit (2 :: int32) k \<longleftrightarrow> k = Suc 0" for k
    using bit_exp_iff [of 1 k, where 'a = int32] by auto
  show four: "bit (4 :: int32) k \<longleftrightarrow> k = 2" for k
    using bit_exp_iff [of 2 k, where 'a = int32] by auto
  have "5 = (4 OR 1 :: int32)" "3 = (2 OR 1 :: int32)" "7 = (4 OR (2 OR 1) :: int32)" by simp_all
  then show "bit (5 :: int32) k \<longleftrightarrow> k = 0 \<or> k = 2" "bit (3 :: int32) k \<longleftrightarrow> k = 0 \<or> k = Suc 0"
    "bit (7 :: int32) k \<longleftrightarrow> k = 0 \<or> k = Suc 0 \<or> k = 2"
    by (auto simp only: bit_or_iff one two four)
qed

lemma and_flags:
  assumes "waiters_ok n"
  shows "word_of L W S n AND 1 = 0 \<longleftrightarrow> \<not> L" "word_of L W S n AND 2 = 0 \<longleftrightarrow> \<not> W"
    "word_of L W S n AND 4 = 0 \<longleftrightarrow> \<not> S" "word_of L W S n AND 5 = 0 \<longleftrightarrow> \<not> L \<and> \<not> S"
    "word_of L W S n AND 3 = 0 \<longleftrightarrow> \<not> L \<and> \<not> W" "word_of L W S n AND 7 = 0 \<longleftrightarrow> \<not> L \<and> \<not> W \<and> \<not> S"
    "word_of L W S n AND 5 = 1 \<longleftrightarrow> L \<and> \<not> S"
  unfolding word_eq_bits bit_and_iff flag_bits bit_word_of [OF assms] bit_0_eq by simp_all

lemma or_flags:
  assumes "waiters_ok n"
  shows "word_of L W S n OR 1 = word_of True W S n" "word_of L W S n OR 2 = word_of L True S n"
    "word_of L W S n OR 4 = word_of L W True n" "word_of L W S n AND NOT 2 = word_of L False S n"
proof -
  have high: "k < 29" if "bit n k" for k
  proof -
    have "bit (word_of L W S n) (Suc (Suc (Suc k)))" using that assms by simp
    from bit_imp_possible_bit [OF this] show ?thesis by simp
  qed
  show "word_of L W S n OR 1 = word_of True W S n" "word_of L W S n OR 2 = word_of L True S n"
    "word_of L W S n OR 4 = word_of L W True n" "word_of L W S n AND NOT 2 = word_of L False S n"
  unfolding word_eq_bits bit_and_iff bit_or_iff bit_not_iff flag_bits bit_word_of [OF assms]
  using high by auto
qed

lemma add_flags:
  "word_of L W S n + 8 = word_of L W S (Suc n)" "word_of L W S (Suc n) - 8 = word_of L W S n"
  "word_of True W S n - 1 = word_of False W S n" "word_of False W S n + 1 = word_of True W S n"
  "word_of False W True (Suc n) - 11 = word_of True W False n" "word_of False W S (Suc n) - 7 = word_of True W S n"
  by (simp_all add: word_of_def)

lemma waiters: "n < 2 ^ 28 \<Longrightarrow> signed_drop_bit 3 (word_of L W S n) = of_nat n"
proof (rule bit_word_eqI)
  fix k :: nat
  assume n: "n < 2 ^ 28" and k: "k < LENGTH(32)"
  have low: "bit (word_of L W S n) (3 + j) = bit n j" for j using n by (simp add: numeral_3_eq_3)
  have small: "j < 28" if "bit n j" for j
  proof -
    have "take_bit 28 n = n" using n by (simp add: take_bit_nat_eq_self)
    then show ?thesis using that by (metis bit_take_bit_iff)
  qed
  have "\<not> bit (word_of L W S n) 31" using low [of 28] small [of 28] by auto
  then show "bit (signed_drop_bit 3 (word_of L W S n)) k = bit (of_nat n :: int32) k"
    using low [of k] small [of k] k by (auto simp: bit_signed_drop_bit_iff bit_of_nat_iff)
qed

lemma waiters_eq:
  assumes "n < 2 ^ 28"
  shows "signed_drop_bit 3 (word_of L W S n) = 0 \<longleftrightarrow> n = 0" "signed_drop_bit 3 (word_of L W S n) = 1 \<longleftrightarrow> n = 1"
proof -
  have "unat (of_nat n :: int32) = n"
    using assms by (simp add: unsigned_of_nat take_bit_nat_eq_self)
  then show "signed_drop_bit 3 (word_of L W S n) = 0 \<longleftrightarrow> n = 0" "signed_drop_bit 3 (word_of L W S n) = 1 \<longleftrightarrow> n = 1"
    unfolding waiters [OF assms] word_unat_eq_iff by simp_all
qed

text \<open>What the code's expressions are on a state word.\<close>

lemma code_flags:
  "mutexLocked = 1" "mutexWoken = 2" "mutexStarving = 4" "mutexWaiterShift = 3"
  "mutexLocked OR mutexStarving = 5" "mutexLocked OR mutexWoken = 3"
  "mutexLocked OR mutexWoken OR mutexStarving = 7" "push_bit mutexWaiterShift 1 = (8 :: int32)"
  "mutexLocked - push_bit mutexWaiterShift 1 = - 7" "mutexLocked - push_bit mutexWaiterShift 1 - mutexStarving = - 11"
  by (simp_all add: flags push_bit_eq_mult)

lemma clear_woken: "waiters_ok n \<Longrightarrow> word_of L W S n AND - 3 = word_of L False S n"
  using or_flags(4) [of n L W S] by simp

lemmas word_view = clear_woken and_flags or_flags add_flags waiters_eq

lemma lockSlow_new_word:
  assumes "old l = word_of L W S n" and "n < 2 ^ 28" and "awoke l \<longrightarrow> W"
  shows "lockSlow_new l = Some (word_of (L \<or> \<not> S) (W \<and> \<not> awoke l) (S \<or> starving l \<and> L) (if L \<or> S then Suc n else n))"
  using assms by (auto simp: lockSlow_new_def code_flags word_view Let_def)

subsection \<open>Counting goroutines\<close>

definition cnt :: "('a \<Rightarrow> bool) \<Rightarrow> 'a list \<Rightarrow> int" where
  "cnt P ps = int (length (filter P ps))"

lemma cnt_Cons: "cnt P (p # ps) = of_bool (P p) + cnt P ps"
  by (simp add: cnt_def)

lemma cnt_upd: "i < length ps \<Longrightarrow> cnt P (ps[i := p]) = cnt P ps - of_bool (P (ps ! i)) + of_bool (P p)"
proof (induction ps arbitrary: i)
  case (Cons q ps)
  then show ?case by (cases i) (auto simp: cnt_Cons)
qed simp

lemma cnt_ge0: "0 \<le> cnt P ps"
  by (simp add: cnt_def)

lemma cnt_mono: "(\<And>p. P p \<Longrightarrow> Q p) \<Longrightarrow> cnt P ps \<le> cnt Q ps"
  by (induction ps) (auto simp: cnt_Cons cnt_def)

lemma cnt_pos: "0 < cnt P ps \<longleftrightarrow> (\<exists>i < length ps. P (ps ! i))"
  using nth_mem by (fastforce simp: cnt_def filter_empty_conv in_set_conv_nth)

lemma cnt_at: "i < length ps \<Longrightarrow> P (ps ! i) \<Longrightarrow> 1 \<le> cnt P ps"
  using cnt_pos [of P ps] by auto

text \<open>
  The program points that matter: a goroutine owns the woken flag while it is awake in the loop
  of \<open>lockSlow\<close> with \<open>awoke\<close> set.
\<close>

fun at_awake :: "pc \<Rightarrow> bool" where
  "at_awake (lockSlow_loop l) = awoke l"
| "at_awake (lockSlow_spun l) = awoke l"
| "at_awake (lockSlow_reload l) = awoke l"
| "at_awake _ = False"

fun at_sema :: "pc \<Rightarrow> bool" where
  "at_sema (lockSlow_sema l) = True"
| "at_sema _ = False"

fun at_woken :: "pc \<Rightarrow> bool" where
  "at_woken (lockSlow_woken l) = True"
| "at_woken _ = False"

fun at_handoff :: "pc \<Rightarrow> bool" where
  "at_handoff (lockSlow_handoff d) = True"
| "at_handoff _ = False"

abbreviation at_keep :: "pc \<Rightarrow> bool" where "at_keep p \<equiv> p = lockSlow_handoff (- 7)"
abbreviation at_unlock :: "pc \<Rightarrow> bool" where "at_unlock p \<equiv> p = Unlock_add"
abbreviation at_wake :: "pc \<Rightarrow> bool" where "at_wake p \<equiv> p = unlockSlow_release False"
abbreviation at_give :: "pc \<Rightarrow> bool" where "at_give p \<equiv> p = unlockSlow_release True"

lemma cnt_waiting: "cnt at_sema ps + cnt at_woken ps + cnt at_handoff ps \<le> int (length ps)"
proof (induction ps)
  case (Cons p ps)
  then show ?case by (cases p) (simp_all add: cnt_Cons)
qed (simp add: cnt_def)

lemma cnt_keep: "cnt at_keep ps \<le> cnt at_handoff ps"
  by (rule cnt_mono) auto

text \<open>What a goroutine knows of its own copies of the state.\<close>

definition old_ok :: "nat \<Rightarrow> slow_locals \<Rightarrow> bool" where
  "old_ok N l \<longleftrightarrow> (\<exists>L W S n. n \<le> N \<and> old l = word_of L W S n \<and> (awoke l \<longrightarrow> W))"

fun pc_ok :: "nat \<Rightarrow> pc \<Rightarrow> bool" where
  "pc_ok N (lockSlow_loop l) \<longleftrightarrow> old_ok N l \<and> (starving l \<longrightarrow> awoke l)"
| "pc_ok N (lockSlow_spun l) \<longleftrightarrow> (starving l \<longrightarrow> awoke l)"
| "pc_ok N (lockSlow_reload l) \<longleftrightarrow> (starving l \<longrightarrow> awoke l)"
| "pc_ok N (lockSlow_handoff d) \<longleftrightarrow> d = - 7 \<or> d = - 11"
| "pc_ok N (TryLock_cas v) \<longleftrightarrow> v AND 5 = 0"
| "pc_ok N (Thrown msg) \<longleftrightarrow> False"
| "pc_ok N _ \<longleftrightarrow> True"

text \<open>
  The invariant, for a state word with the flags \<open>L\<close>, \<open>W\<close>, \<open>S\<close> and \<open>n\<close> waiters. In
  normal mode the woken flag says that exactly one wake-up is under way: a goroutine about to
  release the semaphore, a count on it, a goroutine just woken, or one awake in the loop. In
  starvation mode the ownership of the mutex is in exactly one place: with its holder, with a
  goroutine about to hand it off, on the semaphore, or with the goroutine that received it.
\<close>

definition flags_inv :: "bool \<Rightarrow> bool \<Rightarrow> bool \<Rightarrow> nat \<Rightarrow> int \<Rightarrow> pc list \<Rightarrow> bool" where
  "flags_inv L W S n tok ps \<longleftrightarrow>
     (cnt at_keep ps > 0 \<longrightarrow> 2 \<le> n) \<and>
     (if S then \<not> W \<and> 0 < n \<and> cnt at_awake ps = 0 \<and> cnt at_wake ps = 0 \<and>
        of_bool L + cnt at_give ps + tok + cnt at_woken ps + cnt at_handoff ps = 1 \<and>
        int n = cnt at_sema ps + cnt at_woken ps + cnt at_handoff ps
      else cnt at_give ps = 0 \<and> cnt at_handoff ps = 0 \<and>
        cnt at_wake ps + tok + cnt at_awake ps + cnt at_woken ps = of_bool W \<and>
        int n + cnt at_wake ps + tok = cnt at_sema ps)"

definition mutex_inv :: "bool \<Rightarrow> bool \<Rightarrow> bool \<Rightarrow> nat \<Rightarrow> mutex_sys \<Rightarrow> bool" where
  "mutex_inv L W S n s \<longleftrightarrow>
     state (mtx s) = word_of L W S n \<and> (\<forall>p \<in> set (pcs s). pc_ok (length (pcs s)) p) \<and>
     int (held s) + cnt at_unlock (pcs s) = of_bool L \<and>
     flags_inv L W S n (uint (sema (mtx s))) (pcs s)"

lemma counts_nonneg:
  "0 \<le> cnt at_keep ps \<and> 0 \<le> cnt at_unlock ps \<and> 0 \<le> cnt at_wake ps \<and> 0 \<le> cnt at_give ps \<and>
   0 \<le> cnt at_awake ps \<and> 0 \<le> cnt at_sema ps \<and> 0 \<le> cnt at_woken ps \<and> 0 \<le> cnt at_handoff ps"
  by (simp add: cnt_ge0)

lemma tok_nonneg: "- 1 < uint (x :: 32 word)"
  using unsigned_greater_eq [of x, where 'a = int] by linarith

lemma flags_inv_bounds:
  assumes "flags_inv L W S n tok ps" and "0 \<le> tok"
  shows "n \<le> length ps" and "tok \<le> 1"
  using assms counts_nonneg [of ps] cnt_waiting [of ps] unfolding flags_inv_def
  by (cases S; cases L; cases W; clarsimp; linarith)+

lemma inv_waiters: "mutex_inv L W S n s \<Longrightarrow> n \<le> length (pcs s)"
  using flags_inv_bounds by (auto simp: mutex_inv_def)

lemma inv_tok: "mutex_inv L W S n s \<Longrightarrow> uint (sema (mtx s)) \<le> 1"
  using flags_inv_bounds by (fastforce simp: mutex_inv_def)

subsection \<open>Every step keeps the invariant\<close>

definition at_pc :: "bool \<Rightarrow> bool \<Rightarrow> bool \<Rightarrow> nat \<Rightarrow> mutex_sys \<Rightarrow> nat \<Rightarrow> pc \<Rightarrow> bool" where
  "at_pc L W S n s i p \<longleftrightarrow>
     mutex_inv L W S n s \<and> length (pcs s) < 2 ^ 28 \<and> i < length (pcs s) \<and> pcs s ! i = p"

definition mutex_ok :: "mutex_sys \<Rightarrow> bool" where
  "mutex_ok s \<longleftrightarrow> (\<exists>L W S n. mutex_inv L W S n s)"

text \<open>The system after goroutine \<open>i\<close> moved to \<open>p'\<close> and left the mutex \<open>m\<close>.\<close>

definition moved :: "mutex_sys \<Rightarrow> nat \<Rightarrow> Mutex \<times> pc \<Rightarrow> mutex_sys" where
  "moved s i r = \<lparr>mtx = fst r, pcs = (pcs s)[i := snd r], held = held s + of_bool (snd r = Returned True)\<rparr>"

lemma counts_at:
  assumes "i < length ps"
  shows "of_bool (at_keep (ps ! i)) \<le> cnt at_keep ps \<and> of_bool (at_unlock (ps ! i)) \<le> cnt at_unlock ps \<and>
    of_bool (at_wake (ps ! i)) \<le> cnt at_wake ps \<and> of_bool (at_give (ps ! i)) \<le> cnt at_give ps \<and>
    of_bool (at_awake (ps ! i)) \<le> cnt at_awake ps \<and> of_bool (at_sema (ps ! i)) \<le> cnt at_sema ps \<and>
    of_bool (at_woken (ps ! i)) \<le> cnt at_woken ps \<and> of_bool (at_handoff (ps ! i)) \<le> cnt at_handoff ps"
proof -
  have "of_bool (P (ps ! i)) \<le> cnt P ps" for P using cnt_at [OF assms, of P] by (cases "P (ps ! i)") (simp_all add: cnt_ge0)
  then show ?thesis by (intro conjI)
qed

lemma at_pc_facts:
  assumes "at_pc L W S n s i p"
  shows "n < 2 ^ 28" "waiters_ok n" "waiters_ok (Suc n)" "n \<le> length (pcs s)" "i < length (pcs s)" "pcs s ! i = p"
    "state (mtx s) = word_of L W S n" "pc_ok (length (pcs s)) p"
    "int (held s) + cnt at_unlock (pcs s) = of_bool L" "flags_inv L W S n (uint (sema (mtx s))) (pcs s)"
  using assms inv_waiters [of L W S n s] by (auto simp: at_pc_def mutex_inv_def)

lemma moved_ok:
  assumes at: "at_pc L W S n s i p"
    and ok: "pc_ok (length (pcs s)) (snd r)" and w: "state (fst r) = word_of L' W' S' n'"
    and h: "of_bool (snd r = Returned True) + of_bool (at_unlock (snd r)) + of_bool L = of_bool (at_unlock p) + (of_bool L' :: int)"
    and fl: "flags_inv L' W' S' n' (uint (sema (fst r))) ((pcs s)[i := snd r])"
  shows "mutex_ok (moved s i r)"
proof -
  have "mutex_inv L' W' S' n' (moved s i r)"
    using at_pc_facts [OF at] ok w h fl set_update_subset_insert [of "pcs s" i "snd r"] at
    by (auto simp: mutex_inv_def moved_def cnt_upd at_pc_def)
  then show ?thesis unfolding mutex_ok_def by blast
qed

text \<open>The flags part, as arithmetic over the counts before the step.\<close>

lemma flags_upd:
  assumes "at_pc L W S n s i p"
  shows "flags_inv L' W' S' n' tok ((pcs s)[i := p']) \<longleftrightarrow>
     (cnt at_keep (pcs s) - of_bool (at_keep p) + of_bool (at_keep p') > 0 \<longrightarrow> 2 \<le> n') \<and>
     (if S' then \<not> W' \<and> 0 < n' \<and> cnt at_awake (pcs s) - of_bool (at_awake p) + of_bool (at_awake p') = 0 \<and>
        cnt at_wake (pcs s) - of_bool (at_wake p) + of_bool (at_wake p') = 0 \<and>
        of_bool L' + (cnt at_give (pcs s) - of_bool (at_give p) + of_bool (at_give p')) + tok +
          (cnt at_woken (pcs s) - of_bool (at_woken p) + of_bool (at_woken p')) +
          (cnt at_handoff (pcs s) - of_bool (at_handoff p) + of_bool (at_handoff p')) = 1 \<and>
        int n' = (cnt at_sema (pcs s) - of_bool (at_sema p) + of_bool (at_sema p')) +
          (cnt at_woken (pcs s) - of_bool (at_woken p) + of_bool (at_woken p')) +
          (cnt at_handoff (pcs s) - of_bool (at_handoff p) + of_bool (at_handoff p'))
      else cnt at_give (pcs s) - of_bool (at_give p) + of_bool (at_give p') = 0 \<and>
        cnt at_handoff (pcs s) - of_bool (at_handoff p) + of_bool (at_handoff p') = 0 \<and>
        (cnt at_wake (pcs s) - of_bool (at_wake p) + of_bool (at_wake p')) + tok +
          (cnt at_awake (pcs s) - of_bool (at_awake p) + of_bool (at_awake p')) +
          (cnt at_woken (pcs s) - of_bool (at_woken p) + of_bool (at_woken p')) = of_bool W' \<and>
        int n' + (cnt at_wake (pcs s) - of_bool (at_wake p) + of_bool (at_wake p')) + tok =
          cnt at_sema (pcs s) - of_bool (at_sema p) + of_bool (at_sema p'))"
  using at_pc_facts(5,6) [OF assms] by (simp add: flags_inv_def cnt_upd)

text \<open>A step to a point of the same kind, which leaves the mutex as it is.\<close>

lemma moved_same:
  assumes at: "at_pc L W S n s i p" and "pc_ok (length (pcs s)) p'" and "p' \<noteq> Returned True"
    and "at_keep p' = at_keep p" "at_unlock p' = at_unlock p" "at_wake p' = at_wake p" "at_give p' = at_give p"
    "at_awake p' = at_awake p" "at_sema p' = at_sema p" "at_woken p' = at_woken p" "at_handoff p' = at_handoff p"
  shows "mutex_ok (moved s i (mtx s, p'))"
proof -
  have "flags_inv L W S n (uint (sema (mtx s))) ((pcs s)[i := p'])"
    unfolding flags_upd [OF at] using at_pc_facts(10) [OF at] assms(4-) by (simp add: flags_inv_def)
  then show ?thesis using assms(2-5) at_pc_facts(7) [OF at]
    by (intro moved_ok [OF at, where L' = L and W' = W and S' = S and n' = n]) simp_all
qed

text \<open>The arithmetic of the other steps.\<close>

lemma Lock_ok: 
  assumes at: "at_pc L W S n s i Lock_cas"
  shows "mutex_ok (moved s i (Lock (mtx s)))"
proof (cases "state (mtx s) = 0")
  case True
  note f = at_pc_facts [OF at]
  have z: "\<not> L" "\<not> W" "\<not> S" "n = 0" using True f(2,7) word_of_inject [of n 0 L W S False False False]
    by (auto simp: word_of_0)
  have "Lock (mtx s) = ((mtx s)\<lparr>state := 1\<rparr>, Returned True)"
    using True by (simp add: Lock_def CompareAndSwapInt32_def code_flags)
  moreover have "flags_inv True False False 0 (uint (sema (mtx s))) ((pcs s)[i := Returned True])"
    unfolding flags_upd [OF at] using f(10) z by (simp add: flags_inv_def)
  ultimately show ?thesis
    using f(7) z add_flags(4) [of False False 0]
    by (intro moved_ok [OF at, where L' = True and W' = False and S' = False and n' = 0]) (simp_all add: word_of_0)
next
  case False
  then show ?thesis
    by (auto simp: Lock_def CompareAndSwapInt32_def intro: moved_same [OF at])
qed

lemma TryLock_ok:
  assumes at: "at_pc L W S n s i TryLock_load"
  shows "mutex_ok (moved s i (TryLock (mtx s)))"
  by (auto simp: TryLock_def code_flags Let_def intro: moved_same [OF at])

text \<open>A compare-and-swap that takes the mutex: it was unlocked, in normal mode.\<close>

lemma take_ok:
  assumes at: "at_pc False W False n s i p" and p: "\<not> at_unlock p" "\<not> at_keep p" "\<not> at_wake p" "\<not> at_give p"
      "\<not> at_sema p" "\<not> at_woken p" "\<not> at_handoff p" and W: "at_awake p \<Longrightarrow> W"
  shows "mutex_ok (moved s i ((mtx s)\<lparr>state := word_of True (W \<and> \<not> at_awake p) False n\<rparr>, Returned True))"
proof -
  note f = at_pc_facts [OF at]
  have "flags_inv True (W \<and> \<not> at_awake p) False n (uint (sema (mtx s))) ((pcs s)[i := Returned True])"
    unfolding flags_upd [OF at] using f(10) p W by (auto simp: flags_inv_def)
  then show ?thesis
    using p by (intro moved_ok [OF at, where L' = True and W' = "W \<and> \<not> at_awake p" and S' = False and n' = n]) simp_all
qed

lemma TryLock_swap_ok:
  assumes at: "at_pc L W S n s i (TryLock_cas v)"
  shows "mutex_ok (moved s i (TryLock_swap v (mtx s)))"
proof (cases "state (mtx s) = v")
  case True
  note f = at_pc_facts [OF at]
  have z: "\<not> L" "\<not> S" using True f(2,7,8) and_flags(4) [of n L W S] by auto
  then have "TryLock_swap v (mtx s) = ((mtx s)\<lparr>state := word_of True W False n\<rparr>, Returned True)"
    using f(2,7) by (simp add: True [symmetric] TryLock_swap_def CompareAndSwapInt32_def code_flags or_flags)
  then show ?thesis using take_ok [of W n s i "TryLock_cas v"] at z by simp
next
  case False
  then show ?thesis
    by (auto simp: TryLock_swap_def CompareAndSwapInt32_def intro: moved_same [OF at])
qed

text \<open>Reading the state in the loop of \<open>lockSlow\<close>: a goroutine that owns the woken flag sees it set.\<close>

lemma awake_woken:
  assumes "at_pc L W S n s i p" and "at_awake p"
  shows "W \<and> \<not> S"
proof -
  note f = at_pc_facts [OF assms(1)]
  have "1 \<le> cnt at_awake (pcs s)" using cnt_at [OF f(5), of at_awake] f(6) assms(2) by simp
  then show ?thesis using f(10) counts_nonneg [of "pcs s"] tok_nonneg [of "sema (mtx s)"]
    by (cases S; cases W) (auto simp: flags_inv_def)
qed

lemma load_ok:
  assumes at: "at_pc L W S n s i p" and "at_awake p \<Longrightarrow> awoke l" "awoke l \<Longrightarrow> at_awake p" and st: "starving l \<Longrightarrow> awoke l"
    and "\<not> at_unlock p" "\<not> at_keep p" "\<not> at_wake p" "\<not> at_give p" "\<not> at_sema p" "\<not> at_woken p" "\<not> at_handoff p"
  shows "mutex_ok (moved s i (mtx s, lockSlow_loop (l\<lparr>old := state (mtx s)\<rparr>)))"
proof (rule moved_same [OF at])
  note f = at_pc_facts [OF at]
  show "pc_ok (length (pcs s)) (lockSlow_loop (l\<lparr>old := state (mtx s)\<rparr>))"
    using f(4,7) st awake_woken [OF at] assms(3) by (auto simp: old_ok_def)
qed (use assms in auto)

lemma lockSlow_init_ok:
  assumes "at_pc L W S n s i lockSlow_load"
  shows "mutex_ok (moved s i (lockSlow_init (mtx s)))"
  using load_ok [OF assms, of "\<lparr>waitStartTime = 0, starving = False, awoke = False, iter = 0, old = 0\<rparr>"]
  by (simp add: lockSlow_init_def)

lemma reload_ok:
  assumes "at_pc L W S n s i (lockSlow_reload l)"
  shows "mutex_ok (moved s i (mtx s, lockSlow_loop (l\<lparr>old := state (mtx s)\<rparr>)))"
  using load_ok [OF assms, of l] at_pc_facts(8) [OF assms] by simp

lemma respin_ok:
  assumes "at_pc L W S n s i (lockSlow_spun l)"
  shows "mutex_ok (moved s i (mtx s, lockSlow_loop (l\<lparr>iter := iter l + 1, old := state (mtx s)\<rparr>)))"
  using load_ok [OF assms, of "l\<lparr>iter := iter l + 1\<rparr>"] at_pc_facts(8) [OF assms] by simp

text \<open>Spinning: setting the woken flag makes the goroutine its owner.\<close>

lemma lockSlow_spin_ok:
  assumes at: "at_pc L W S n s i (lockSlow_loop l)" and L: "old l AND 5 = 1"
  shows "mutex_ok (moved s i (lockSlow_spin l (mtx s)))"
proof (cases "\<not> awoke l \<and> old l AND 2 = 0 \<and> state (mtx s) = old l")
  case True
  note f = at_pc_facts [OF at]
  have w: "\<not> W" "\<not> S" using True L f(2,7) and_flags [of n L W S] by auto
  let ?r = "((mtx s)\<lparr>state := word_of L True S n\<rparr>, lockSlow_spun (l\<lparr>awoke := True\<rparr>))"
  have "flags_inv L True S n (uint (sema (mtx s))) ((pcs s)[i := snd ?r])"
    unfolding flags_upd [OF at] using f(10) w True by (simp add: flags_inv_def)
  then have "mutex_ok (moved s i ?r)"
    by (intro moved_ok [OF at, where L' = L and W' = True and S' = S and n' = n]) simp_all
  moreover have "mutex_ok (moved s i (mtx s, lockSlow_spun l))"
    using f(8) by (intro moved_same [OF at]) simp_all
  moreover have "lockSlow_spin l (mtx s) = ?r \<or> lockSlow_spin l (mtx s) = (mtx s, lockSlow_spun l)"
    using True f(2,7) or_flags(2) [OF f(2), of L W S] by (auto simp: lockSlow_spin_def CompareAndSwapInt32_def code_flags)
  ultimately show ?thesis by metis
next
  case False
  then have "lockSlow_spin l (mtx s) = (mtx s, lockSlow_spun l)"
    by (auto simp: lockSlow_spin_def CompareAndSwapInt32_def code_flags)
  then show ?thesis using at_pc_facts(8) [OF at] by (auto intro!: moved_same [OF at])
qed

text \<open>Queueing: the goroutine gives up the woken flag if it owns it, and may start starvation mode.\<close>

lemma queue_ok:
  assumes at: "at_pc L W S n s i (lockSlow_loop l)" and LS: "L \<or> S" and "awoke l \<Longrightarrow> W"
  shows "mutex_ok (moved s i ((mtx s)\<lparr>state := word_of (L \<or> \<not> S) (W \<and> \<not> awoke l) (S \<or> starving l \<and> L) (Suc n)\<rparr>,
    lockSlow_sema l'))"
proof -
  note f = at_pc_facts [OF at]
  have st: "starving l \<Longrightarrow> awoke l" using f(8) by simp
  have aw: "awoke l \<Longrightarrow> W \<and> \<not> S" using awake_woken [OF at] by simp
  have at_least: "of_bool (awoke l) \<le> cnt at_awake (pcs s)" using counts_at [OF f(5)] f(6) by simp
  have "flags_inv (L \<or> \<not> S) (W \<and> \<not> awoke l) (S \<or> starving l \<and> L) (Suc n) (uint (sema (mtx s)))
      ((pcs s)[i := lockSlow_sema l'])"
    unfolding flags_upd [OF at]
    using f(10) st aw LS at_least counts_nonneg [of "pcs s"] tok_nonneg [of "sema (mtx s)"] cnt_keep [of "pcs s"]
    by (cases S; cases "awoke l"; cases "starving l") (auto simp: flags_inv_def)
  then show ?thesis
    using LS by (intro moved_ok [OF at, where L' = "L \<or> \<not> S" and W' = "W \<and> \<not> awoke l"
          and S' = "S \<or> starving l \<and> L" and n' = "Suc n"]) auto
qed

lemma lockSlow_round_ok:
  assumes at: "at_pc L W S n s i (lockSlow_loop l)"
  shows "mutex_ok (moved s i (lockSlow_round a l (mtx s)))"
proof (cases "old l AND 5 = 1 \<and> canSpin a (iter l)")
  case True
  then have "lockSlow_round a l (mtx s) = lockSlow_spin l (mtx s)"
    by (simp add: lockSlow_round_def code_flags)
  then show ?thesis using lockSlow_spin_ok [OF at] True by simp
next
  case ns: False
  note f = at_pc_facts [OF at]
  obtain L0 W0 S0 n0 where o: "n0 \<le> length (pcs s)" "old l = word_of L0 W0 S0 n0" "awoke l \<longrightarrow> W0"
    using f(8) by (auto simp: old_ok_def)
  have n0: "n0 < 2 ^ 28" "waiters_ok n0" using o(1) at by (auto simp: at_pc_def)
  note new = lockSlow_new_word [OF o(2) n0(1) o(3)]
  show ?thesis
  proof (cases "state (mtx s) = old l")
    case True
    have eq: "L = L0" "W = W0" "S = S0" "n = n0"
      using True f(2,7) o(2) n0(2) word_of_inject [of n n0] by simp_all
    show ?thesis
    proof (cases "L \<or> S")
      case True
      then show ?thesis
        using queue_ok [OF at True] o new ns n0 f(7) \<open>state (mtx s) = old l\<close>
        by (auto simp: lockSlow_round_def code_flags CompareAndSwapInt32_def and_flags eq)
    next
      case False
      then show ?thesis
        using take_ok [of W n s i "lockSlow_loop l"] at o new ns n0 f(7) \<open>state (mtx s) = old l\<close>
        by (simp add: lockSlow_round_def code_flags CompareAndSwapInt32_def and_flags eq)
    qed
  next
    case False
    then show ?thesis using ns new f(8)
      by (auto simp: lockSlow_round_def code_flags CompareAndSwapInt32_def intro!: moved_same [OF at])
  qed
qed

text \<open>Sleeping and waking.\<close>

lemma uint_dec: "(x :: 32 word) \<noteq> 0 \<Longrightarrow> uint (x - 1) = uint x - 1"
proof -
  assume "x \<noteq> 0"
  then have "uint x \<noteq> 0" using word_uint_eq_iff [of x 0] by simp
  then have "uint (1 :: 32 word) \<le> uint x" using tok_nonneg [of x] by simp
  then show ?thesis using uint_sub_lem [of 1 x] by simp
qed

lemma uint_inc: "uint (x :: 32 word) \<le> 1 \<Longrightarrow> uint (x + 1) = uint x + 1"
  using uint_add_lem [of x 1] by simp

lemma semacquire_ok:
  assumes at: "at_pc L W S n s i (lockSlow_sema l)" and m: "runtime_SemacquireMutex (mtx s) = Some m"
  shows "mutex_ok (moved s i (m, lockSlow_woken l))"
proof -
  note f = at_pc_facts [OF at]
  have m: "m = (mtx s)\<lparr>sema := sema (mtx s) - 1\<rparr>" "sema (mtx s) \<noteq> 0"
    using m by (auto simp: runtime_SemacquireMutex_def split: if_splits)
  have "flags_inv L W S n (uint (sema m)) ((pcs s)[i := lockSlow_woken l])"
    unfolding flags_upd [OF at] using f(10) m by (auto simp: flags_inv_def uint_dec)
  then show ?thesis
    using f(7) m by (intro moved_ok [OF at, where L' = L and W' = W and S' = S and n' = n]) simp_all
qed

lemma lockSlow_wake_ok:
  assumes at: "at_pc L W S n s i (lockSlow_woken l)"
  shows "mutex_ok (moved s i (lockSlow_wake a l (mtx s)))"
proof (cases S)
  case True
  note f = at_pc_facts [OF at]
  have wk: "1 \<le> cnt at_woken (pcs s)" using counts_at [OF f(5)] f(6) by simp
  then have z: "\<not> L" "\<not> W" "n \<noteq> 0" "cnt at_handoff (pcs s) = 0"
    using f(10) True counts_nonneg [of "pcs s"] tok_nonneg [of "sema (mtx s)"] by (auto simp: flags_inv_def of_bool_def split: if_splits)
  obtain d where d: "lockSlow_wake a l (mtx s) = (mtx s, lockSlow_handoff d)" "d = - 7 \<and> n \<noteq> 1 \<or> d = - 11"
    using f(1,2,7) z True
    by (auto simp: lockSlow_wake_def code_flags and_flags waiters_eq Let_def)
  have "flags_inv L W S n (uint (sema (mtx s))) ((pcs s)[i := lockSlow_handoff d])"
    unfolding flags_upd [OF at] using f(10) z d(2) True cnt_keep [of "pcs s"]
    by (auto simp: flags_inv_def)
  then show ?thesis
    using f(7) d by (intro moved_ok [OF at, where L' = L and W' = W and S' = S and n' = n]) auto
next
  case False
  note f = at_pc_facts [OF at]
  have wk: "1 \<le> cnt at_woken (pcs s)" using counts_at [OF f(5)] f(6) by simp
  then have W using f(10) False counts_nonneg [of "pcs s"] tok_nonneg [of "sema (mtx s)"]
    by (cases W) (auto simp: flags_inv_def)
  let ?l = "l\<lparr>starving := starving l \<or> nanotime a - waitStartTime l > starvationThresholdNs,
    old := state (mtx s), awoke := True, iter := 0\<rparr>"
  have "flags_inv L W S n (uint (sema (mtx s))) ((pcs s)[i := lockSlow_loop ?l])"
    unfolding flags_upd [OF at] using f(10) False by (simp add: flags_inv_def)
  moreover have "pc_ok (length (pcs s)) (lockSlow_loop ?l)" using f(4,7) \<open>W\<close> by (auto simp: old_ok_def)
  moreover have "lockSlow_wake a l (mtx s) = (mtx s, lockSlow_loop ?l)"
    using f(2,7) False by (simp add: lockSlow_wake_def code_flags and_flags Let_def)
  ultimately show ?thesis
    using f(7) by (intro moved_ok [OF at, where L' = L and W' = W and S' = S and n' = n]) simp_all
qed

lemma handoff_word:
  assumes at: "at_pc L W S n s i (lockSlow_handoff d)"
  obtains k where "S" "\<not> L" "\<not> W" "n = Suc k" "d = - 7 \<Longrightarrow> 2 \<le> n" "cnt at_handoff (pcs s) = 1"
    "state (mtx s) + d = word_of True False (d = - 7) k"
proof -
  note f = at_pc_facts [OF at]
  have "1 \<le> cnt at_handoff (pcs s)" "of_bool (d = - 7) \<le> cnt at_keep (pcs s)" using counts_at [OF f(5)] f(6) by simp_all
  then have z: S "\<not> L" "\<not> W" "d = - 7 \<Longrightarrow> 2 \<le> n" "cnt at_handoff (pcs s) = 1" "n \<noteq> 0"
    using f(10) counts_nonneg [of "pcs s"] tok_nonneg [of "sema (mtx s)"]
    by (auto simp: flags_inv_def of_bool_def split: if_splits)
  obtain k where k: "n = Suc k" using z(6) by (cases n) auto
  have "state (mtx s) + d = word_of True False (d = - 7) k"
    using f(7,8) z k add_flags(5) [of False k] add_flags(6) [of False True k] by auto
  then show thesis using z k by (intro that) auto
qed

lemma handoff_ok:
  assumes at: "at_pc L W S n s i (lockSlow_handoff d)"
  shows "mutex_ok (moved s i (fst (AddInt32 (mtx s) d), Returned True))"
proof -
  note f = at_pc_facts [OF at]
  obtain k where z: "S" "\<not> L" "\<not> W" "n = Suc k" "d = - 7 \<Longrightarrow> 2 \<le> n" "cnt at_handoff (pcs s) = 1"
    and w: "state (mtx s) + d = word_of True False (d = - 7) k" using handoff_word [OF at] by metis
  have "cnt at_keep (pcs s) = of_bool (d = - 7)"
    using cnt_keep [of "(pcs s)[i := Returned True]"] z(6) counts_at [OF f(5)] f(5,6) by (simp add: cnt_upd)
  then have "flags_inv True False (d = - 7) k (uint (sema (mtx s))) ((pcs s)[i := Returned True])"
    unfolding flags_upd [OF at] using f(8,10) z counts_nonneg [of "pcs s"] tok_nonneg [of "sema (mtx s)"]
    by (auto simp: flags_inv_def)
  then show ?thesis
    using z w by (intro moved_ok [OF at, where L' = True and W' = False and S' = "d = - 7" and n' = k])
      (simp_all add: AddInt32_def)
qed

text \<open>Unlocking.\<close>

lemma Unlock_result:
  assumes at: "at_pc L W S n s i Unlock_add"
  shows L and "Unlock (mtx s) = ((mtx s)\<lparr>state := word_of False W S n\<rparr>,
    if S then unlockSlow_release True else if word_of False W S n = 0 then Returned False
    else unlockSlow_loop (word_of False W S n))"
proof -
  note f = at_pc_facts [OF at]
  have "1 \<le> cnt at_unlock (pcs s)" using counts_at [OF f(5)] f(6) by simp
  then show L: L using f(9) by (cases L) auto
  have add: "AddInt32 (mtx s) (- mutexLocked) = ((mtx s)\<lparr>state := word_of False W S n\<rparr>, word_of False W S n)"
    using f(7) L add_flags(3) [of W S n] by (simp add: AddInt32_def code_flags)
  have "S \<Longrightarrow> word_of False W S n \<noteq> 0"
    using word_of_inject [of n 0 False W S False False False] f(2) by (simp add: word_of_0)
  then show "Unlock (mtx s) = ((mtx s)\<lparr>state := word_of False W S n\<rparr>,
    if S then unlockSlow_release True else if word_of False W S n = 0 then Returned False
    else unlockSlow_loop (word_of False W S n))"
    unfolding Unlock_def add prod.case
    unfolding unlockSlow_def code_flags add_flags and_flags [OF f(2)] by auto
qed

lemma Unlock_ok:
  assumes at: "at_pc L W S n s i Unlock_add"
  shows "mutex_ok (moved s i (Unlock (mtx s)))"
proof -
  note f = at_pc_facts [OF at]
  have "flags_inv False W S n (uint (sema (mtx s))) ((pcs s)[i := snd (Unlock (mtx s))])"
    unfolding flags_upd [OF at] using f(10) Unlock_result [OF at] by (auto simp: flags_inv_def)
  then show ?thesis
    using Unlock_result [OF at]
    by (intro moved_ok [OF at, where L' = False and W' = W and S' = S and n' = n]) auto
qed

lemma unlockSlow_round_ok:
  assumes at: "at_pc L W S n s i (unlockSlow_loop v)"
  shows "mutex_ok (moved s i (unlockSlow_round v (mtx s)))"
proof (cases "state (mtx s) = v \<and> sar v 3 \<noteq> 0 \<and> v AND 7 = 0")
  case True
  note f = at_pc_facts [OF at]
  have v: "v = word_of L W S n" using True f(7) by simp
  then have z: "n \<noteq> 0" "\<not> L" "\<not> W" "\<not> S"
    using True f(1,2) waiters_eq(1) [of n L W S] and_flags(6) [of n L W S] by auto
  then obtain k where k: "n = Suc k" by (cases n) auto
  have "(v - 8) OR 2 = word_of False True False k"
    using v z k f(2) add_flags(2) [of False False False k] or_flags(2) [of k False False False] by simp
  then have "unlockSlow_round v (mtx s) = ((mtx s)\<lparr>state := word_of False True False k\<rparr>, unlockSlow_release False)"
    using True by (simp add: unlockSlow_round_def code_flags CompareAndSwapInt32_def Let_def)
  moreover have "flags_inv False True False k (uint (sema (mtx s))) ((pcs s)[i := unlockSlow_release False])"
    unfolding flags_upd [OF at] using f(10) z k cnt_keep [of "pcs s"] by (auto simp: flags_inv_def)
  ultimately show ?thesis
    using z by (intro moved_ok [OF at, where L' = False and W' = True and S' = False and n' = k]) simp_all
next
  case False
  then have "unlockSlow_round v (mtx s) = (mtx s, Returned False) \<or> unlockSlow_round v (mtx s) = (mtx s, unlockSlow_reload)"
    by (auto simp: unlockSlow_round_def code_flags CompareAndSwapInt32_def Let_def)
  then show ?thesis by (auto intro!: moved_same [OF at])
qed

lemma semrelease_ok:
  assumes at: "at_pc L W S n s i (unlockSlow_release b)"
  shows "mutex_ok (moved s i (runtime_Semrelease (mtx s), Returned False))"
proof -
  note f = at_pc_facts [OF at]
  have tok: "uint (sema (mtx s) + 1) = uint (sema (mtx s)) + 1"
    using inv_tok [of L W S n s] at uint_inc by (simp add: at_pc_def)
  have c: "of_bool (\<not> b) \<le> cnt at_wake (pcs s)" "of_bool b \<le> cnt at_give (pcs s)"
    using counts_at [OF f(5)] f(6) by auto
  have "flags_inv L W S n (uint (sema (mtx s)) + 1) ((pcs s)[i := Returned False])"
    unfolding flags_upd [OF at] using f(10) c by (cases b; cases S) (auto simp: flags_inv_def)
  then show ?thesis using f(7) tok
    by (intro moved_ok [OF at, where L' = L and W' = W and S' = S and n' = n]) (simp_all add: runtime_Semrelease_def)
qed

lemma run_step_ok:
  assumes inv: "mutex_inv L W S n s" and N: "length (pcs s) < 2 ^ 28" and step: "run_step a i s = Some s'"
  shows "mutex_ok s'"
proof -
  obtain r where r: "goroutine_step a (pcs s ! i) (mtx s) = Some r" "s' = moved s i r" and i: "i < length (pcs s)"
    using step by (auto simp: run_step_def moved_def split: if_splits)
  have at: "at_pc L W S n s i (pcs s ! i)" using inv N i by (simp add: at_pc_def)
  show ?thesis
  proof (cases "pcs s ! i")
    case (lockSlow_sema l)
    then show ?thesis using r semacquire_ok [of L W S n s i l] at by auto
  next
    case unlockSlow_reload
    then show ?thesis using r at by (auto intro!: moved_same)
  qed (use r at in \<open>auto intro: Lock_ok TryLock_ok TryLock_swap_ok lockSlow_init_ok lockSlow_round_ok respin_ok
        reload_ok lockSlow_wake_ok handoff_ok Unlock_ok unlockSlow_round_ok semrelease_ok\<close>)
qed

lemma goes_to_moved: "goes_to s i p = moved s i (mtx s, p)" if "p \<noteq> Returned True"
  using that by (simp add: goes_to_def moved_def)

lemma call_ok:
  assumes at: "at_pc L W S n s i (Returned b)" and p: "p = Lock_cas \<or> p = TryLock_load"
  shows "mutex_ok (goes_to s i p)"
  using p by (auto simp: goes_to_moved intro!: moved_same [OF at])

lemma call_Unlock_ok:
  assumes at: "at_pc L W S n s i (Returned b)" and h: "0 < held s"
  shows "mutex_ok ((goes_to s i Unlock_add)\<lparr>held := held s - 1\<rparr>)"
proof -
  note f = at_pc_facts [OF at]
  have "flags_inv L W S n (uint (sema (mtx s))) ((pcs s)[i := Unlock_add])"
    unfolding flags_upd [OF at] using f(10) by (simp add: flags_inv_def)
  moreover have "\<forall>p \<in> set ((pcs s)[i := Unlock_add]). pc_ok (length (pcs s)) p"
    using at set_update_subset_insert [of "pcs s" i Unlock_add] by (auto simp: at_pc_def mutex_inv_def)
  ultimately have "mutex_inv L W S n ((goes_to s i Unlock_add)\<lparr>held := held s - 1\<rparr>)"
    using f h by (simp add: mutex_inv_def goes_to_def cnt_upd of_nat_diff)
  then show ?thesis unfolding mutex_ok_def by blast
qed

lemma length_step: "mutex_step s s' \<Longrightarrow> length (pcs s') = length (pcs s)"
  by (induction rule: mutex_step.induct) (auto simp: goes_to_def run_step_def split: if_splits)

lemma step_ok:
  assumes "mutex_step s s'" and "mutex_ok s" and "length (pcs s) < 2 ^ 28"
  shows "mutex_ok s'"
proof -
  obtain L W S n where inv: "mutex_inv L W S n s" using assms(2) by (auto simp: mutex_ok_def)
  from assms(1) show ?thesis
    by cases (use inv assms(3) in \<open>auto simp: at_pc_def simp del: One_nat_def intro: run_step_ok call_ok call_Unlock_ok\<close>)
qed

lemma length_start [simp]: "length (pcs (mutex_start N)) = N"
  by (simp add: mutex_start_def)

lemma start_ok: "mutex_ok (mutex_start N)"
proof -
  have "cnt P (replicate N (Returned False)) = 0" if "\<not> P (Returned False)" for P
    using that by (simp add: cnt_def)
  then have "mutex_inv False False False 0 (mutex_start N)"
    by (simp add: mutex_inv_def flags_inv_def mutex_start_def word_of_0)
  then show ?thesis unfolding mutex_ok_def by blast
qed

theorem reachable_ok:
  assumes "mutex_reachable N s" and "N < 2 ^ 28"
  shows "mutex_ok s" and "length (pcs s) = N"
  using assms
  by (induction rule: mutex_reachable.induct) (auto simp: length_step start_ok intro: step_ok)

end
