(* ===== verification/Sync_Mutex_Live.thy ===== *)
theory Sync_Mutex_Live
  imports Sync_Mutex_Inv
begin

unbundle bit_operations_syntax

section \<open>Progress of \<open>sync.Mutex\<close>\<close>

text \<open>
  No wake-up is lost: while goroutines sleep in \<open>Lock\<close> and the mutex is free, some goroutine is
  on its way to wake one of them. From there the mutex can always be acquired.
\<close>

subsection \<open>No lost wake-up\<close>

definition wake_inv :: "mutex_sys \<Rightarrow> bool" where
  "wake_inv s \<longleftrightarrow> state (mtx s) AND 7 = 0 \<and> sar (state (mtx s)) 3 \<noteq> 0 \<longrightarrow>
     unlockSlow_reload \<in> set (pcs s) \<or> unlockSlow_loop (state (mtx s)) \<in> set (pcs s)"

lemma in_set_upd: "x \<in> set xs \<Longrightarrow> i < length xs \<Longrightarrow> xs ! i \<noteq> x \<Longrightarrow> x \<in> set (xs[i := y])"
  by (metis in_set_conv_nth length_list_update nth_list_update_neq)

lemma wake_moved:
  assumes "wake_inv s" and "i < length (pcs s)"
    and "state (fst r) AND 7 = 0 \<Longrightarrow> sar (state (fst r)) 3 \<noteq> 0 \<Longrightarrow>
      snd r = unlockSlow_reload \<or> snd r = unlockSlow_loop (state (fst r)) \<or>
      state (fst r) = state (mtx s) \<and> pcs s ! i \<noteq> unlockSlow_reload \<and> pcs s ! i \<noteq> unlockSlow_loop (state (mtx s))"
  shows "wake_inv (moved s i r)"
  using assms set_update_memI [OF assms(2), of "snd r"]
    in_set_upd [of "unlockSlow_loop (state (mtx s))" "pcs s" i "snd r"]
  by (auto simp: wake_inv_def moved_def intro: in_set_upd)

lemma bit_flag_7: "x AND 7 = 0 \<Longrightarrow> \<not> bit x 0 \<and> \<not> bit x (Suc 0) \<and> \<not> bit (x :: int32) 2"
  unfolding word_eq_bits bit_and_iff flag_bits bit_0_eq by simp

lemma flagged: "(x OR 1) AND 7 \<noteq> (0 :: int32)" "(x OR 2) AND 7 \<noteq> (0 :: int32)"
  using bit_flag_7 [of "x OR 1"] bit_flag_7 [of "x OR 2"] by (auto simp: bit_or_iff flag_bits)

lemma round_flagged:
  assumes at: "at_pc L W S n s i (lockSlow_loop l)" and r: "r = lockSlow_round a l (mtx s)"
  shows "state (fst r) = state (mtx s) \<or> state (fst r) AND 7 \<noteq> 0"
proof -
  note f = at_pc_facts [OF at]
  obtain L0 W0 S0 n0 where o: "n0 \<le> length (pcs s)" "old l = word_of L0 W0 S0 n0" "awoke l \<longrightarrow> W0"
    using f(8) by (auto simp: old_ok_def)
  have n0: "n0 < 2 ^ 28" "waiters_ok n0" "waiters_ok (Suc n0)" using o(1) at by (auto simp: at_pc_def)
  have "new AND 7 \<noteq> 0" if "lockSlow_new l = Some new" for new
    using that n0 unfolding lockSlow_new_word [OF o(2) n0(1) o(3)] by (auto simp: and_flags)
  then show ?thesis unfolding r
    by (auto simp: lockSlow_round_def lockSlow_spin_def CompareAndSwapInt32_def code_flags flagged split: option.splits)
qed

lemma wake_step:
  assumes wk: "wake_inv s" and at: "at_pc L W S n s i p" and r: "goroutine_step a p (mtx s) = Some r"
  shows "wake_inv (moved s i r)"
proof (rule wake_moved [OF wk])
  note f = at_pc_facts [OF at]
  show "i < length (pcs s)" by (rule f(5))
  assume z: "state (fst r) AND 7 = 0" and nz: "sar (state (fst r)) 3 \<noteq> 0"
  show "snd r = unlockSlow_reload \<or> snd r = unlockSlow_loop (state (fst r)) \<or>
      state (fst r) = state (mtx s) \<and> pcs s ! i \<noteq> unlockSlow_reload \<and> pcs s ! i \<noteq> unlockSlow_loop (state (mtx s))"
  proof (cases p)
    case (lockSlow_loop l)
    then show ?thesis using round_flagged [of L W S n s i l r a] at r z f(6) by auto
  next
    case (lockSlow_handoff d)
    then have "state (fst r) AND 7 \<noteq> 0"
      using r handoff_word [of L W S n s i d] at and_flags(6) f(2) by (fastforce simp: AddInt32_def)
    then show ?thesis using z by simp
  next
    case Unlock_add
    then have "r = ((mtx s)\<lparr>state := word_of False W S n\<rparr>, if S then unlockSlow_release True
        else if word_of False W S n = 0 then Returned False else unlockSlow_loop (word_of False W S n))"
      using Unlock_result(2) [of L W S n s i] at r by simp
    then show ?thesis using z nz and_flags(6) [OF f(2), of False W S] by (auto split: if_splits)
  next
    case (unlockSlow_loop v)
    then show ?thesis using r z nz f(6)
      by (auto simp: unlockSlow_round_def CompareAndSwapInt32_def code_flags flagged Let_def split: if_splits)
  qed (use r z f(6) in \<open>auto simp: Lock_def TryLock_def TryLock_swap_def lockSlow_init_def lockSlow_wake_def Let_def
      CompareAndSwapInt32_def runtime_SemacquireMutex_def runtime_Semrelease_def code_flags flagged split: if_splits\<close>)
qed

lemma wake_calls:
  assumes "wake_inv s" and "i < length (pcs s)" and "pcs s ! i = Returned b"
    and "mtx s' = mtx s" and "pcs s' = (pcs s)[i := p]"
  shows "wake_inv s'"
  using assms in_set_upd [of "unlockSlow_loop (state (mtx s))" "pcs s" i p] in_set_upd [of unlockSlow_reload "pcs s" i p]
  by (auto simp: wake_inv_def)

lemma run_step_moved:
  "run_step a i s = Some s' \<longleftrightarrow>
     i < length (pcs s) \<and> (\<exists>r. goroutine_step a (pcs s ! i) (mtx s) = Some r \<and> s' = moved s i r)"
  by (auto simp: run_step_def moved_def split: prod.splits)

lemma reachable_wake:
  assumes "mutex_reachable N s" and "N < 2 ^ 28"
  shows "wake_inv s"
  using assms
proof (induction rule: mutex_reachable.induct)
  case start
  then show ?case by (simp add: wake_inv_def mutex_start_def)
next
  case (step s s')
  obtain L W S n where inv: "mutex_inv L W S n s" and N: "length (pcs s) < 2 ^ 28"
    using reachable_ok [OF step.hyps(1) step.prems] step.prems by (auto simp: mutex_ok_def)
  from step.hyps(2) show ?case
  proof cases
    case (run a i)
    then show ?thesis
      using wake_step [OF step.IH [OF step.prems], of L W S n i "pcs s ! i"] inv N
      by (auto simp: run_step_moved at_pc_def)
  qed (use step.IH [OF step.prems] in \<open>auto simp: goes_to_def intro: wake_calls\<close>)
qed

subsection \<open>The mutex can be acquired\<close>

text \<open>Runs in which only goroutines inside of the mutex's methods take steps.\<close>

inductive mutex_runs :: "mutex_sys \<Rightarrow> mutex_sys \<Rightarrow> bool" where
  refl: "mutex_runs s s"
| step: "run_step a i s = Some s1 \<Longrightarrow> mutex_runs s1 s2 \<Longrightarrow> mutex_runs s s2"

definition can_acquire :: "mutex_sys \<Rightarrow> bool" where
  "can_acquire s \<longleftrightarrow> (\<exists>s'. mutex_runs s s' \<and> held s' = 1)"

definition no_spin :: answers where "no_spin = \<lparr>canSpin = \<lambda>_. False, nanotime = 0\<rparr>"

lemma can_acquire_now: "held s = 1 \<Longrightarrow> can_acquire s"
  unfolding can_acquire_def using mutex_runs.refl by blast

lemma can_acquire_step:
  assumes "at_pc L W S n s i p" and "goroutine_step a p (mtx s) = Some r" and "can_acquire (moved s i r)"
  shows "can_acquire s"
proof -
  have "run_step a i s = Some (moved s i r)"
    using at_pc_facts(5,6) [OF assms(1)] assms(2) by (simp add: run_step_moved)
  then show ?thesis using assms(3) mutex_runs.step unfolding can_acquire_def by blast
qed

text \<open>Where the goroutines are after such a step.\<close>

lemma at_next:
  assumes at: "at_pc L W S n s i p" and r: "goroutine_step a p (mtx s) = Some r"
    and w: "state (fst r) = word_of L' W' S' n'" "waiters_ok n'"
  shows "at_pc L' W' S' n' (moved s i r) i (snd r)"
    and "j < length (pcs s) \<Longrightarrow> j \<noteq> i \<Longrightarrow> at_pc L' W' S' n' (moved s i r) j (pcs s ! j)"
proof -
  note f = at_pc_facts [OF at]
  have "mutex_ok (moved s i r)"
    using run_step_ok [of L W S n s a i "moved s i r"] at r by (cases r) (auto simp: at_pc_def run_step_moved)
  then obtain L1 W1 S1 n1 where inv: "mutex_inv L1 W1 S1 n1 (moved s i r)" by (auto simp: mutex_ok_def)
  have n1: "waiters_ok n1" using inv_waiters [OF inv] at by (simp add: at_pc_def moved_def)
  have "word_of L1 W1 S1 n1 = word_of L' W' S' n'" using inv w(1) by (simp add: mutex_inv_def moved_def)
  then have "L1 = L' \<and> W1 = W' \<and> S1 = S' \<and> n1 = n'" by (simp only: word_of_inject [OF n1 w(2)])
  then show "at_pc L' W' S' n' (moved s i r) i (snd r)"
    and "j < length (pcs s) \<Longrightarrow> j \<noteq> i \<Longrightarrow> at_pc L' W' S' n' (moved s i r) j (pcs s ! j)"
    using inv at by (auto simp: at_pc_def moved_def)
qed

lemma acquire_now:
  assumes "at_pc L W S n s i p" and "held s = 0" and "goroutine_step a p (mtx s) = Some (m, Returned True)"
  shows "can_acquire s"
  using can_acquire_step [OF assms(1,3)] can_acquire_now [of "moved s i (m, Returned True)"] assms(2)
  by (simp add: moved_def)

text \<open>A goroutine awake in the loop of \<open>lockSlow\<close> while the mutex is free.\<close>

lemma fresh_loop_acquires:
  assumes at: "at_pc False W False n s i (lockSlow_loop l)" and h: "held s = 0" and o: "old l = state (mtx s)"
  shows "can_acquire s"
proof -
  note f = at_pc_facts [OF at]
  have aw: "awoke l \<longrightarrow> W" using awake_woken [OF at] by simp
  show ?thesis
    using o lockSlow_new_word [of l False W False n] aw f(1,2,7)
    by (intro acquire_now [OF at h, of no_spin])
      (simp add: lockSlow_round_def no_spin_def CompareAndSwapInt32_def code_flags and_flags)
qed

lemma load_acquires:
  assumes at: "at_pc False W False n s i p" and h: "held s = 0"
    and r: "goroutine_step a p (mtx s) = Some (mtx s, lockSlow_loop l)" and o: "old l = state (mtx s)"
  shows "can_acquire s"
proof (rule can_acquire_step [OF at r])
  show "can_acquire (moved s i (mtx s, lockSlow_loop l))"
    using fresh_loop_acquires [OF at_next(1) [OF at r, of False W False n, unfolded snd_conv]] at_pc_facts(2,7) [OF at] h o
    by (simp add: moved_def)
qed

lemma loop_acquires:
  assumes at: "at_pc False W False n s i (lockSlow_loop l)" and h: "held s = 0"
  shows "can_acquire s"
proof (cases "old l = state (mtx s)")
  case True
  then show ?thesis using fresh_loop_acquires [OF at h] by simp
next
  case False
  note f = at_pc_facts [OF at]
  obtain L0 W0 S0 n0 where o: "n0 \<le> length (pcs s)" "old l = word_of L0 W0 S0 n0" "awoke l \<longrightarrow> W0"
    using f(8) by (auto simp: old_ok_def)
  have n0: "n0 < 2 ^ 28" using o(1) at by (auto simp: at_pc_def)
  have r: "goroutine_step no_spin (lockSlow_loop l) (mtx s) = Some (mtx s, lockSlow_reload l)"
    using lockSlow_new_word [OF o(2) n0 o(3)] False
    by (simp add: lockSlow_round_def no_spin_def CompareAndSwapInt32_def)
  have "at_pc False W False n (moved s i (mtx s, lockSlow_reload l)) i (lockSlow_reload l)"
    using at_next(1) [OF at r, of False W False n] f(2,7) by simp
  then show ?thesis
    using can_acquire_step [OF at r] load_acquires [of W n "moved s i (mtx s, lockSlow_reload l)" i "lockSlow_reload l" no_spin]
      h by (simp add: moved_def)
qed

text \<open>The points of \<open>Lock\<close>, and those of them at which a goroutine does not sleep.\<close>

fun in_Lock :: "pc \<Rightarrow> bool" where
  "in_Lock Lock_cas = True"
| "in_Lock lockSlow_load = True"
| "in_Lock (lockSlow_loop l) = True"
| "in_Lock (lockSlow_spun l) = True"
| "in_Lock (lockSlow_reload l) = True"
| "in_Lock (lockSlow_sema l) = True"
| "in_Lock (lockSlow_woken l) = True"
| "in_Lock (lockSlow_handoff d) = True"
| "in_Lock _ = False"

lemma Lock_cas_acquires:
  assumes at: "at_pc False W False n s i Lock_cas" and h: "held s = 0"
  shows "can_acquire s"
proof (cases "state (mtx s) = 0")
  case True
  then show ?thesis by (intro acquire_now [OF at h]) (simp add: Lock_def CompareAndSwapInt32_def)
next
  case False
  note f = at_pc_facts [OF at]
  have r: "goroutine_step no_spin Lock_cas (mtx s) = Some (mtx s, lockSlow_load)"
    using False by (simp add: Lock_def CompareAndSwapInt32_def)
  have "at_pc False W False n (moved s i (mtx s, lockSlow_load)) i lockSlow_load"
    using at_next(1) [OF at r, of False W False n] f(2,7) by simp
  then show ?thesis
    using can_acquire_step [OF at r] load_acquires [of W n "moved s i (mtx s, lockSlow_load)" i lockSlow_load no_spin]
      h by (simp add: moved_def lockSlow_init_def)
qed

lemma handoff_acquires:
  assumes at: "at_pc L W S n s i (lockSlow_handoff d)" and h: "held s = 0"
  shows "can_acquire s"
  by (rule acquire_now [OF at h]) simp

text \<open>A goroutine that has just been woken gets the mutex, by hand-off or by competing for it.\<close>

lemma woken_acquires:
  assumes at: "at_pc False W S n s i (lockSlow_woken l)" and h: "held s = 0"
  shows "can_acquire s"
proof (cases S)
  case True
  note f = at_pc_facts [OF at]
  have "1 \<le> cnt at_woken (pcs s)" using counts_at [OF f(5)] f(6) by simp
  then have z: "\<not> W" "n \<noteq> 0" using f(10) True by (auto simp: flags_inv_def)
  then obtain d where r: "goroutine_step no_spin (lockSlow_woken l) (mtx s) = Some (mtx s, lockSlow_handoff d)"
    using f(1,2,7) True by (auto simp: lockSlow_wake_def code_flags and_flags waiters_eq Let_def)
  have "at_pc False W S n (moved s i (mtx s, lockSlow_handoff d)) i (lockSlow_handoff d)"
    using at_next(1) [OF at r, of False W S n] f(2,7) by simp
  from handoff_acquires [OF this] show ?thesis using can_acquire_step [OF at r] h by (simp add: moved_def)
next
  case False
  then have at': "at_pc False W False n s i (lockSlow_woken l)" using at by simp
  note f = at_pc_facts [OF at']
  show ?thesis
    using f(2,7) by (intro load_acquires [OF at' h, of no_spin]) (auto simp: lockSlow_wake_def code_flags and_flags Let_def)
qed

lemma sema_acquires:
  assumes at: "at_pc False W S n s i (lockSlow_sema l)" and h: "held s = 0" and tok: "sema (mtx s) \<noteq> 0"
  shows "can_acquire s"
proof -
  note f = at_pc_facts [OF at]
  let ?m = "(mtx s)\<lparr>sema := sema (mtx s) - 1\<rparr>"
  have r: "goroutine_step no_spin (lockSlow_sema l) (mtx s) = Some (?m, lockSlow_woken l)"
    using tok by (simp add: runtime_SemacquireMutex_def)
  have "at_pc False W S n (moved s i (?m, lockSlow_woken l)) i (lockSlow_woken l)"
    using at_next(1) [OF at r, of False W S n] f(2,7) by simp
  from woken_acquires [OF this] show ?thesis using can_acquire_step [OF at r] h by (simp add: moved_def)
qed

lemma release_acquires:
  assumes at: "at_pc False W S n s i (unlockSlow_release b)" and h: "held s = 0"
    and j: "j < length (pcs s)" "pcs s ! j = lockSlow_sema l"
  shows "can_acquire s"
proof -
  note f = at_pc_facts [OF at]
  let ?r = "(runtime_Semrelease (mtx s), Returned False)"
  have r: "goroutine_step no_spin (unlockSlow_release b) (mtx s) = Some ?r" by simp
  have "j \<noteq> i" using j f(6) by auto
  then have "at_pc False W S n (moved s i ?r) j (lockSlow_sema l)"
    using at_next(2) [OF at r, of False W S n j] f(2,7) j by (auto simp: runtime_Semrelease_def)
  moreover have "sema (mtx s) + 1 \<noteq> 0"
    using inv_tok [of False W S n s] at uint_inc [of "sema (mtx s)"] tok_nonneg [of "sema (mtx s)"] by (auto simp: at_pc_def)
  ultimately have "can_acquire (moved s i ?r)"
    using sema_acquires h by (simp add: moved_def runtime_Semrelease_def)
  then show ?thesis by (rule can_acquire_step [OF at r])
qed

text \<open>A goroutine in \<open>unlockSlow\<close> that sees the free mutex with sleepers wakes one of them.\<close>

lemma unlockSlow_acquires:
  assumes at: "at_pc False False False n s i (unlockSlow_loop (state (mtx s)))" and h: "held s = 0" and n: "n \<noteq> 0"
    and j: "j < length (pcs s)" "pcs s ! j = lockSlow_sema l"
  shows "can_acquire s"
proof -
  note f = at_pc_facts [OF at]
  obtain k where k: "n = Suc k" using n by (cases n) auto
  have "(state (mtx s) - 8) OR 2 = word_of False True False k"
    using f(2,7) k add_flags(2) [of False False False k] or_flags(2) [of k False False False] by simp
  then have r: "goroutine_step no_spin (unlockSlow_loop (state (mtx s))) (mtx s) =
      Some ((mtx s)\<lparr>state := word_of False True False k\<rparr>, unlockSlow_release False)" (is "_ = Some ?r")
    using f(1,2,7) n by (simp add: unlockSlow_round_def code_flags CompareAndSwapInt32_def Let_def and_flags waiters_eq)
  have "j \<noteq> i" using j f(6) by auto
  have "at_pc False True False k (moved s i ?r) i (unlockSlow_release False)"
    using at_next(1) [OF at r, of False True False k] f(2) k by simp
  then have "can_acquire (moved s i ?r)"
    by (rule release_acquires [where j = j and l = l]) (use h j \<open>j \<noteq> i\<close> in \<open>simp_all add: moved_def\<close>)
  then show ?thesis by (rule can_acquire_step [OF at r])
qed

lemma unlock_reload_acquires:
  assumes at: "at_pc False False False n s i unlockSlow_reload" and h: "held s = 0" and n: "n \<noteq> 0"
    and j: "j < length (pcs s)" "pcs s ! j = lockSlow_sema l"
  shows "can_acquire s"
proof -
  note f = at_pc_facts [OF at]
  let ?r = "(mtx s, unlockSlow_loop (state (mtx s)))"
  have r: "goroutine_step no_spin unlockSlow_reload (mtx s) = Some ?r" by simp
  have "j \<noteq> i" using j f(6) by auto
  have "at_pc False False False n (moved s i ?r) i (unlockSlow_loop (state (mtx s)))"
    using at_next(1) [OF at r, of False False False n] f(2,7) by simp
  then have "can_acquire (moved s i ?r)"
    using unlockSlow_acquires [of n "moved s i ?r" i j l] h n j \<open>j \<noteq> i\<close> by (simp add: moved_def)
  then show ?thesis by (rule can_acquire_step [OF at r])
qed

text \<open>All cases of a mutex that is not locked.\<close>

lemma awake_acquires:
  assumes "at_pc False W False n s i p" and "held s = 0" and "in_Lock p" and "\<not> at_sema p"
  shows "can_acquire s"
  using assms
  by (cases p)
    (auto intro: Lock_cas_acquires loop_acquires handoff_acquires woken_acquires load_acquires [where a = no_spin]
      simp: lockSlow_init_def)

lemma pcs_at: "mutex_inv L W S n s \<Longrightarrow> length (pcs s) < 2 ^ 28 \<Longrightarrow> i < length (pcs s) \<Longrightarrow> at_pc L W S n s i (pcs s ! i)"
  by (simp add: at_pc_def)

lemma busy_cases:
  assumes inv: "mutex_inv False W S n s" and j: "j < length (pcs s)" "at_sema (pcs s ! j)"
  obtains (token) "sema (mtx s) \<noteq> 0"
  | (release) i b where "i < length (pcs s)" "pcs s ! i = unlockSlow_release b"
  | (woken) i l where "i < length (pcs s)" "pcs s ! i = lockSlow_woken l"
  | (handoff) i d where "i < length (pcs s)" "pcs s ! i = lockSlow_handoff d"
  | (awake) i where "\<not> S" "i < length (pcs s)" "at_awake (pcs s ! i)"
  | (free) "\<not> W" "\<not> S" "n \<noteq> 0"
proof -
  have someone: "0 < cnt P (pcs s) \<Longrightarrow> \<exists>i < length (pcs s). P (pcs s ! i)" for P by (simp add: cnt_pos)
  have fl: "flags_inv False W S n (uint (sema (mtx s))) (pcs s)" using inv by (simp add: mutex_inv_def)
  have sl: "1 \<le> cnt at_sema (pcs s)" using cnt_at [OF j(1)] j(2) by simp
  have tok: "sema (mtx s) = 0 \<Longrightarrow> uint (sema (mtx s)) = 0" by simp
  consider (1) "sema (mtx s) \<noteq> 0" | (2) "0 < cnt at_give (pcs s)" | (3) "0 < cnt at_wake (pcs s)"
    | (4) "0 < cnt at_woken (pcs s)" | (5) "0 < cnt at_handoff (pcs s)" | (6) "0 < cnt at_awake (pcs s)" "\<not> S"
    | (7) "\<not> W" "\<not> S" "n \<noteq> 0"
    using fl sl tok counts_nonneg [of "pcs s"]
    by (cases S; cases W; cases "sema (mtx s) = 0") (auto simp: flags_inv_def, linarith+)
  then show thesis
  proof cases
    case 1
    then show thesis by (rule token)
  next
    case 2
    then show thesis using someone [of at_give] release by metis
  next
    case 3
    then show thesis using someone [of at_wake] release by metis
  next
    case 4
    then show thesis using someone [of at_woken] woken by (metis at_woken.elims(2))
  next
    case 5
    then show thesis using someone [of at_handoff] handoff by (metis at_handoff.elims(2))
  next
    case 6
    then show thesis using someone [of at_awake] awake by metis
  next
    case 7
    then show thesis by (rule free)
  qed
qed

lemma sleeper_acquires:
  assumes inv: "mutex_inv False W S n s" and N: "length (pcs s) < 2 ^ 28" and h: "held s = 0" and wk: "wake_inv s"
    and j: "j < length (pcs s)" "pcs s ! j = lockSlow_sema l"
  shows "can_acquire s"
proof -
  note at = pcs_at [OF inv N]
  have js: "at_sema (pcs s ! j)" using j(2) by simp
  show ?thesis
  proof (rule busy_cases [OF inv j(1) js])
    assume "sema (mtx s) \<noteq> 0"
    then show ?thesis using sema_acquires [of W S n s j l] at [OF j(1)] j(2) h by simp
  next
    fix i b assume "i < length (pcs s)" "pcs s ! i = unlockSlow_release b"
    then show ?thesis using release_acquires [of W S n s i b j l] at [of i] j h by simp
  next
    fix i l' assume "i < length (pcs s)" "pcs s ! i = lockSlow_woken l'"
    then show ?thesis using woken_acquires [of W S n s i l'] at [of i] h by simp
  next
    fix i d assume "i < length (pcs s)" "pcs s ! i = lockSlow_handoff d"
    then show ?thesis using handoff_acquires [of False W S n s i d] at [of i] h by simp
  next
    fix i assume S: "\<not> S" and "i < length (pcs s)" "at_awake (pcs s ! i)"
    then have "at_pc False W False n s i (pcs s ! i)" "in_Lock (pcs s ! i)" "\<not> at_sema (pcs s ! i)"
      using at [of i] by (cases "pcs s ! i"; simp)+
    then show ?thesis using awake_acquires h by blast
  next
    assume z: "\<not> W" "\<not> S" "n \<noteq> 0"
    have w: "state (mtx s) = word_of False False False n" "n < 2 ^ 28" "waiters_ok n"
      using at_pc_facts(1,2,7) [OF at [OF j(1)]] z by simp_all
    have "unlockSlow_reload \<in> set (pcs s) \<or> unlockSlow_loop (state (mtx s)) \<in> set (pcs s)"
      using wk z(3) w waiters_eq(1) [of n False False False] and_flags(6) [of n False False False]
      unfolding wake_inv_def by simp
    then obtain i where i: "i < length (pcs s)" "pcs s ! i = unlockSlow_reload \<or> pcs s ! i = unlockSlow_loop (state (mtx s))"
      by (auto simp: in_set_conv_nth)
    then show ?thesis
      using at [of i] z h j unlock_reload_acquires [of n s i j l] unlockSlow_acquires [of n s i j l] by auto
  qed
qed

lemma starving_acquires:
  assumes inv: "mutex_inv False W True n s" and N: "length (pcs s) < 2 ^ 28" and h: "held s = 0" and wk: "wake_inv s"
  shows "can_acquire s"
proof (cases "0 < cnt at_sema (pcs s)")
  case True
  then obtain j where "j < length (pcs s)" "at_sema (pcs s ! j)" by (auto simp: cnt_pos)
  then show ?thesis using sleeper_acquires [OF inv N h wk] by (cases "pcs s ! j") auto
next
  case False
  have fl: "flags_inv False W True n (uint (sema (mtx s))) (pcs s)" using inv by (simp add: mutex_inv_def)
  then have "0 < cnt at_woken (pcs s) \<or> 0 < cnt at_handoff (pcs s)"
    using False counts_nonneg [of "pcs s"] by (auto simp: flags_inv_def)
  then obtain i where "i < length (pcs s)" "at_woken (pcs s ! i) \<or> at_handoff (pcs s ! i)" by (auto simp: cnt_pos)
  then show ?thesis using pcs_at [OF inv N, of i] woken_acquires handoff_acquires h by (cases "pcs s ! i") auto
qed

lemma unlocked_acquires:
  assumes inv: "mutex_inv False W S n s" and N: "length (pcs s) < 2 ^ 28" and h: "held s = 0" and wk: "wake_inv s"
    and j: "j < length (pcs s)" "in_Lock (pcs s ! j)"
  shows "can_acquire s"
proof (cases "S \<or> at_sema (pcs s ! j)")
  case True
  then show ?thesis
    using starving_acquires [of W n s] sleeper_acquires [OF inv N h wk j(1)] inv N h wk by (cases S; cases "pcs s ! j") auto
next
  case False
  then show ?thesis using awake_acquires [of W n s j "pcs s ! j"] pcs_at [OF inv N j(1)] h j(2) by simp
qed

lemma lock_progress:
  assumes ok: "mutex_ok s" and N: "length (pcs s) < 2 ^ 28" and h: "held s = 0" and wk: "wake_inv s"
    and j: "j < length (pcs s)" "in_Lock (pcs s ! j)"
  shows "can_acquire s"
proof -
  obtain L W S n where inv: "mutex_inv L W S n s" using ok by (auto simp: mutex_ok_def)
  show ?thesis
  proof (cases L)
    case True
    then have "0 < cnt at_unlock (pcs s)" using inv h by (simp add: mutex_inv_def)
    then obtain i where i: "i < length (pcs s)" "pcs s ! i = Unlock_add" by (auto simp: cnt_pos)
    have at: "at_pc L W S n s i Unlock_add" using pcs_at [OF inv N i(1)] i(2) by simp
    note u = Unlock_result(2) [OF at]
    let ?s = "moved s i (Unlock (mtx s))"
    have r: "goroutine_step no_spin Unlock_add (mtx s) = Some (Unlock (mtx s))" by simp
    have "j \<noteq> i" using i j by auto
    have nr: "snd (Unlock (mtx s)) \<noteq> Returned True" unfolding u by simp
    have "at_pc False W S n ?s i (snd (Unlock (mtx s)))"
      using at_next(1) [OF at r, of False W S n] at_pc_facts(2) [OF at] u by simp
    moreover have "wake_inv ?s" by (rule wake_step [OF wk at r])
    ultimately have "can_acquire ?s"
      using h j N nr \<open>j \<noteq> i\<close>
      by (intro unlocked_acquires [of W S n _ j]) (simp_all add: at_pc_def, simp_all add: moved_def)
    then show ?thesis by (rule can_acquire_step [OF at r])
  next
    case False
    then show ?thesis using unlocked_acquires [of W S n s j] inv N h wk j by simp
  qed
qed

end
