(* ===== verification/Sync_Mutex_Props.thy ===== *)
theory Sync_Mutex_Props
  imports Sync_Mutex_Live
begin

unbundle bit_operations_syntax

section \<open>What \<open>sync.Mutex\<close> guarantees\<close>

text \<open>
  Mutual exclusion and the absence of throws in every reachable state of a system of goroutines,
  the throw of a wrong \<open>Unlock\<close>, and progress. The number of goroutines is below \<open>2 ^ 28\<close>, the
  largest number of waiters that fits above the three flags of a signed 32-bit word.
\<close>

subsection \<open>Mutual exclusion\<close>

lemma ok_held:
  assumes "mutex_ok s"
  shows "held s \<le> 1" and "held s = 1 \<Longrightarrow> length (pcs s) < 2 ^ 28 \<Longrightarrow> state (mtx s) AND mutexLocked \<noteq> 0"
proof -
  obtain L W S n where inv: "mutex_inv L W S n s" using assms by (auto simp: mutex_ok_def)
  have "int (held s) \<le> of_bool L" using inv cnt_ge0 [of at_unlock "pcs s"] by (simp add: mutex_inv_def)
  then have *: "held s \<le> 1" "held s = 1 \<Longrightarrow> L" by (cases L; simp)+
  show "held s \<le> 1" by (rule *)
  assume "held s = 1" "length (pcs s) < 2 ^ 28"
  then show "state (mtx s) AND mutexLocked \<noteq> 0"
    using * inv inv_waiters [OF inv] by (simp add: mutex_inv_def code_flags and_flags)
qed

lemma ok_no_throw: "mutex_ok s \<Longrightarrow> Thrown msg \<notin> set (pcs s)"
  by (auto simp: mutex_ok_def mutex_inv_def)

lemma Unlock_unlocked:
  assumes "state m AND mutexLocked = 0"
  shows "snd (Unlock m) = Thrown ''sync: unlock of unlocked mutex''"
proof -
  have "state m \<noteq> 1" using assms by (auto simp: code_flags)
  then show ?thesis using assms by (simp add: Unlock_def AddInt32_def unlockSlow_def code_flags)
qed

text \<open>
  C38. In every state that goroutines reach by calling \<open>Lock\<close> and \<open>TryLock\<close> at any time and
  \<open>Unlock\<close> when the mutex is held, in every interleaving of their atomic operations, with every
  behaviour of the spinning heuristic and of the clock, at most one call that acquired the mutex
  has no matching \<open>Unlock\<close>; then the lock bit is set; and no goroutine throws, so the checks
  for an inconsistent state never fire. An \<open>Unlock\<close> of a mutex that is not locked throws.
\<close>

theorem mutex_exclusion:
  assumes "mutex_reachable N s" and "N < 2 ^ 28"
  shows "held s \<le> 1 \<and> (held s = 1 \<longrightarrow> state (mtx s) AND mutexLocked \<noteq> 0) \<and>
    (\<forall>msg. Thrown msg \<notin> set (pcs s)) \<and>
    (\<forall>m. state m AND mutexLocked = 0 \<longrightarrow> snd (Unlock m) = Thrown ''sync: unlock of unlocked mutex'')"
  using reachable_ok [OF assms] assms(2) ok_held [of s] ok_no_throw [of s] Unlock_unlocked by simp

text \<open>
  A run: goroutine 0 locks the mutex, goroutine 1 fails to, queues itself and sleeps; then
  goroutine 0 calls \<open>Unlock\<close>.
\<close>

definition contended_locals :: slow_locals where
  "contended_locals = \<lparr>waitStartTime = 5, starving = False, awoke = False, iter = 0, old = 1\<rparr>"

definition contended :: "pc \<Rightarrow> nat \<Rightarrow> mutex_sys" where
  "contended p h = \<lparr>mtx = \<lparr>state = 9, sema = 0\<rparr>, pcs = [p, lockSlow_sema contended_locals], held = h\<rparr>"

lemma reach_run: "mutex_reachable N s \<Longrightarrow> run_step a i s = Some s' \<Longrightarrow> mutex_reachable N s'"
  by (auto intro: mutex_reachable.step mutex_step.run)

lemma contended_reachable: "mutex_reachable 2 (contended (Returned True) 1)"
proof -
  let ?a = "\<lparr>canSpin = \<lambda>_. False, nanotime = 5\<rparr>"
  let ?m = "\<lparr>state = 1, sema = 0\<rparr> :: Mutex"
  let ?l = "\<lparr>waitStartTime = 0, starving = False, awoke = False, iter = 0, old = 1\<rparr>"
  let ?s = "\<lambda>p. \<lparr>mtx = ?m, pcs = [Returned True, p], held = 1\<rparr>"
  have "mutex_step (mutex_start 2) (goes_to (mutex_start 2) 0 Lock_cas)"
    by (rule mutex_step.call_Lock [where b = False]) (simp_all add: mutex_start_def)
  then have "mutex_reachable 2 (goes_to (mutex_start 2) 0 Lock_cas)"
    by (rule mutex_reachable.step [OF mutex_reachable.start])
  moreover have "run_step ?a 0 (goes_to (mutex_start 2) 0 Lock_cas) = Some (?s (Returned False))"
    by (simp add: run_step_def goes_to_def mutex_start_def Lock_def CompareAndSwapInt32_def code_flags numeral_2_eq_2)
  ultimately have "mutex_reachable 2 (?s (Returned False))" by (rule reach_run)
  moreover have "mutex_step (?s (Returned False)) (goes_to (?s (Returned False)) 1 Lock_cas)"
    by (rule mutex_step.call_Lock [where b = False]) simp_all
  ultimately have "mutex_reachable 2 (?s Lock_cas)"
    using mutex_reachable.step by (fastforce simp: goes_to_def)
  moreover have "run_step ?a 1 (?s Lock_cas) = Some (?s lockSlow_load)"
    by (simp add: run_step_def Lock_def CompareAndSwapInt32_def)
  ultimately have "mutex_reachable 2 (?s lockSlow_load)" by (rule reach_run)
  moreover have "run_step ?a 1 (?s lockSlow_load) = Some (?s (lockSlow_loop ?l))"
    by (simp add: run_step_def lockSlow_init_def)
  ultimately have "mutex_reachable 2 (?s (lockSlow_loop ?l))" by (rule reach_run)
  moreover have "run_step ?a 1 (?s (lockSlow_loop ?l)) = Some (contended (Returned True) 1)"
    by (simp add: run_step_def lockSlow_round_def lockSlow_new_def CompareAndSwapInt32_def code_flags
        contended_def contended_locals_def Let_def)
  ultimately show ?thesis by (rule reach_run)
qed

lemma unlocking_reachable: "mutex_reachable 2 (contended Unlock_add 0)"
proof -
  have "mutex_step (contended (Returned True) 1) ((goes_to (contended (Returned True) 1) 0 Unlock_add)\<lparr>held := 1 - 1\<rparr>)"
    using mutex_step.call_Unlock [of 0 "contended (Returned True) 1" True] by (simp add: contended_def)
  then show ?thesis
    using mutex_reachable.step [OF contended_reachable] by (simp add: contended_def goes_to_def)
qed

theorem mutex_exclusion_witness:
  "held (contended (Returned True) 1) = 1 \<and> state (mtx (contended (Returned True) 1)) AND mutexLocked \<noteq> 0"
  using mutex_exclusion [OF contended_reachable] by (simp add: contended_def)

subsection \<open>Progress\<close>

text \<open>
  C39. No wake-up is lost and no goroutine is left behind: whenever a goroutine is inside of
  \<open>Lock\<close>, asleep or not, and no call holds the mutex, the goroutines that are inside of the
  mutex's methods can run, with no further call of a method, to a state in which one of them
  has acquired it. In particular the system never deadlocks with a free mutex.
\<close>

theorem mutex_progress:
  assumes "mutex_reachable N s" and "N < 2 ^ 28" and "p \<in> set (pcs s)" and "in_Lock p" and "held s = 0"
  shows "\<exists>s'. mutex_runs s s' \<and> held s' = 1"
proof -
  obtain j where "j < length (pcs s)" "in_Lock (pcs s ! j)" using assms(3,4) by (auto simp: in_set_conv_nth)
  then show ?thesis
    using lock_progress [of s j] reachable_ok [OF assms(1,2)] reachable_wake [OF assms(1,2)] assms(2,5)
    by (simp add: can_acquire_def)
qed

theorem mutex_progress_witness: "\<exists>s'. mutex_runs (contended Unlock_add 0) s' \<and> held s' = 1"
  using mutex_progress [OF unlocking_reachable, of "lockSlow_sema contended_locals"] by (simp add: contended_def)

end
