(* ===== verification/Sync_Once.thy ===== *)
theory Sync_Once
  imports Sync_Mutex_Props
begin

section \<open>\<open>sync.Once\<close>\<close>

text \<open>
  \<open>sync/once.go\<close>, a client of the mutex: goroutines call \<open>Do\<close> on one \<open>Once\<close>. The mutex of the
  \<open>Once\<close> is the system of \<open>Sync_Mutex\<close>, in which goroutine \<open>i\<close> of the \<open>Once\<close> is goroutine \<open>i\<close>;
  while a goroutine is inside of \<open>Lock\<close> or \<open>Unlock\<close> its steps are those of the mutex, so the
  atomic operations of all calls interleave. The function \<open>f\<close> is a step in which it starts and a
  later one in which it returns or panics: in both cases the deferred calls follow, the store of
  \<open>done\<close> first, then the unlock.
\<close>

datatype once_pc =
    Once_out
  | Do_load
  | doSlow_lock
  | doSlow_check
  | doSlow_f
  | doSlow_store
  | doSlow_unlock

text \<open>\<open>started\<close>, \<open>finished\<close> and \<open>returned\<close> count what \<open>f\<close> and the calls of \<open>Do\<close> did.\<close>

record once_sys =
  once_done :: "32 word"
  once_m :: mutex_sys
  opcs :: "once_pc list"
  started :: nat
  finished :: nat
  returned :: nat

definition once_goto :: "nat \<Rightarrow> once_pc \<Rightarrow> once_sys \<Rightarrow> once_sys" where
  "once_goto i p s = s\<lparr>opcs := (opcs s)[i := p]\<rparr>"

definition Do :: "nat \<Rightarrow> once_sys \<Rightarrow> once_sys" where
  "Do i s =
    (if once_done s = 0 then once_goto i doSlow_lock (s\<lparr>once_m := goes_to (once_m s) i Lock_cas\<rparr>)
     else once_goto i Once_out (s\<lparr>returned := returned s + 1\<rparr>))"

text \<open>The deferred \<open>o.m.Unlock()\<close>.\<close>

definition defer_Unlock :: "nat \<Rightarrow> once_sys \<Rightarrow> once_sys" where
  "defer_Unlock i s =
    once_goto i doSlow_unlock (s\<lparr>once_m := (goes_to (once_m s) i Unlock_add)\<lparr>held := held (once_m s) - 1\<rparr>\<rparr>)"

definition doSlow :: "nat \<Rightarrow> once_sys \<Rightarrow> once_sys" where
  "doSlow i s =
    (if once_done s = 0 then once_goto i doSlow_f (s\<lparr>started := started s + 1\<rparr>) else defer_Unlock i s)"

text \<open>A step of the mutex; when its method returns, the goroutine is back in \<open>doSlow\<close> or has returned.\<close>

definition once_mutex :: "answers \<Rightarrow> nat \<Rightarrow> once_sys \<Rightarrow> once_sys option" where
  "once_mutex a i s =
    map_option (\<lambda>m'.
        let s = s\<lparr>once_m := m'\<rparr>
        in case pcs m' ! i of
             Returned _ \<Rightarrow>
               if opcs s ! i = doSlow_lock then once_goto i doSlow_check s
               else once_goto i Once_out (s\<lparr>returned := returned s + 1\<rparr>)
           | _ \<Rightarrow> s)
      (run_step a i (once_m s))"

fun once_run :: "answers \<Rightarrow> nat \<Rightarrow> once_pc \<Rightarrow> once_sys \<Rightarrow> once_sys option" where
  "once_run a i Once_out s = Some (once_goto i Do_load s)"
| "once_run a i Do_load s = Some (Do i s)"
| "once_run a i doSlow_lock s = once_mutex a i s"
| "once_run a i doSlow_check s = Some (doSlow i s)"
| "once_run a i doSlow_f s = Some (once_goto i doSlow_store (s\<lparr>finished := finished s + 1\<rparr>))"
| "once_run a i doSlow_store s = Some (defer_Unlock i (s\<lparr>once_done := 1\<rparr>))"
| "once_run a i doSlow_unlock s = once_mutex a i s"

definition once_start :: "nat \<Rightarrow> once_sys" where
  "once_start N = \<lparr>once_done = 0, once_m = mutex_start N, opcs = replicate N Once_out, started = 0, finished = 0, returned = 0\<rparr>"

inductive once_reachable :: "nat \<Rightarrow> once_sys \<Rightarrow> bool" for N where
  start: "once_reachable N (once_start N)"
| step: "once_reachable N s \<Longrightarrow> i < N \<Longrightarrow> once_run a i (opcs s ! i) s = Some s' \<Longrightarrow> once_reachable N s'"

subsection \<open>What the mutex promises to its client\<close>

fun in_Unlock :: "pc \<Rightarrow> bool" where
  "in_Unlock Unlock_add = True"
| "in_Unlock (unlockSlow_loop v) = True"
| "in_Unlock unlockSlow_reload = True"
| "in_Unlock (unlockSlow_release b) = True"
| "in_Unlock _ = False"

lemma Lock_returns:
  assumes "in_Lock p" and "goroutine_step a p mx = Some (mx', p')"
  shows "in_Lock p' \<or> p' = Returned True \<or> (\<exists>msg. p' = Thrown msg)"
  using assms
  by (cases p) (auto simp: Lock_def lockSlow_init_def lockSlow_round_def lockSlow_spin_def lockSlow_wake_def
      CompareAndSwapInt32_def Let_def split: if_splits option.splits)

lemma Unlock_returns:
  assumes "in_Unlock p" and "goroutine_step a p mx = Some (mx', p')"
  shows "in_Unlock p' \<or> p' = Returned False \<or> (\<exists>msg. p' = Thrown msg)"
  using assms
  by (cases p) (auto simp: Unlock_def unlockSlow_def unlockSlow_round_def AddInt32_def
      CompareAndSwapInt32_def Let_def split: if_splits)

lemma client_step:
  assumes r: "mutex_reachable N l" and N: "N < 2 ^ 28" and step: "run_step a i l = Some l'"
  shows "mutex_reachable N l'" and "j \<noteq> i \<Longrightarrow> pcs l' ! j = pcs l ! j"
    and "in_Lock (pcs l ! i) \<Longrightarrow>
      in_Lock (pcs l' ! i) \<and> held l' = held l \<or> pcs l' ! i = Returned True \<and> held l' = Suc (held l)"
    and "in_Unlock (pcs l ! i) \<Longrightarrow> (in_Unlock (pcs l' ! i) \<or> pcs l' ! i = Returned False) \<and> held l' = held l"
proof -
  show r': "mutex_reachable N l'" by (rule reach_run [OF r step])
  obtain mx p where g: "goroutine_step a (pcs l ! i) (mtx l) = Some (mx, p)" and i: "i < length (pcs l)"
    and l': "l' = \<lparr>mtx = mx, pcs = (pcs l)[i := p], held = held l + of_bool (p = Returned True)\<rparr>"
    using step by (auto simp: run_step_def split: if_splits)
  have "p \<in> set (pcs l')" using i l' set_update_memI by force
  then have nt: "p \<noteq> Thrown msg" for msg using ok_no_throw [OF reachable_ok(1) [OF r' N]] by blast
  show "j \<noteq> i \<Longrightarrow> pcs l' ! j = pcs l ! j" using l' by simp
  show "in_Lock (pcs l ! i) \<Longrightarrow>
      in_Lock (pcs l' ! i) \<and> held l' = held l \<or> pcs l' ! i = Returned True \<and> held l' = Suc (held l)"
    using Lock_returns [OF _ g] nt i l' by auto
  show "in_Unlock (pcs l ! i) \<Longrightarrow> (in_Unlock (pcs l' ! i) \<or> pcs l' ! i = Returned False) \<and> held l' = held l"
    using Unlock_returns [OF _ g] nt i l' by auto
qed

subsection \<open>The invariant\<close>

abbreviation critical :: "once_pc \<Rightarrow> bool" where
  "critical p \<equiv> p = doSlow_check \<or> p = doSlow_f \<or> p = doSlow_store"

text \<open>Where goroutine is in the mutex, by where it is in \<open>Do\<close>.\<close>

fun mutex_point :: "once_pc \<Rightarrow> pc \<Rightarrow> bool" where
  "mutex_point doSlow_lock p = in_Lock p"
| "mutex_point doSlow_unlock p = in_Unlock p"
| "mutex_point _ p = (\<exists>b. p = Returned b)"

definition once_inv :: "nat \<Rightarrow> once_sys \<Rightarrow> bool" where
  "once_inv N s \<longleftrightarrow>
     mutex_reachable N (once_m s) \<and> length (opcs s) = N \<and>
     (\<forall>i < N. mutex_point (opcs s ! i) (pcs (once_m s) ! i)) \<and>
     int (held (once_m s)) = cnt critical (opcs s) \<and>
     (if once_done s = 0
      then int (started s) = cnt (\<lambda>p. p = doSlow_f \<or> p = doSlow_store) (opcs s) \<and>
        int (finished s) = cnt (\<lambda>p. p = doSlow_store) (opcs s) \<and>
        cnt (\<lambda>p. p = doSlow_unlock) (opcs s) = 0 \<and> returned s = 0
      else started s = 1 \<and> finished s = 1 \<and> cnt (\<lambda>p. p = doSlow_f \<or> p = doSlow_store) (opcs s) = 0)"

lemma once_start_inv: "once_inv N (once_start N)"
  using mutex_reachable.start [of N] by (auto simp: once_inv_def once_start_def cnt_def mutex_start_def)

lemma once_critical:
  assumes "once_inv N s" and "N < 2 ^ 28"
  shows "cnt critical (opcs s) \<le> 1"
  using assms reachable_ok(1) [of N "once_m s"] ok_held(1) [of "once_m s"] by (simp add: once_inv_def)

text \<open>Goroutine \<open>i\<close> moves to \<open>p\<close>; the mutex is \<open>l\<close> then.\<close>

lemma once_move:
  assumes inv: "once_inv N s" and i: "i < N" and l: "mutex_reachable N l" "\<And>j. j \<noteq> i \<Longrightarrow> pcs l ! j = pcs (once_m s) ! j"
    and p: "mutex_point p (pcs l ! i)"
    and h: "int (held l) = int (held (once_m s)) - of_bool (critical (opcs s ! i)) + of_bool (critical p)"
    and s': "once_m s' = l" "opcs s' = (opcs s)[i := p]"
    and d: "if once_done s' = 0
      then int (started s') = cnt (\<lambda>p. p = doSlow_f \<or> p = doSlow_store) (opcs s') \<and>
        int (finished s') = cnt (\<lambda>p. p = doSlow_store) (opcs s') \<and>
        cnt (\<lambda>p. p = doSlow_unlock) (opcs s') = 0 \<and> returned s' = 0
      else started s' = 1 \<and> finished s' = 1 \<and> cnt (\<lambda>p. p = doSlow_f \<or> p = doSlow_store) (opcs s') = 0"
  shows "once_inv N s'"
proof -
  have len: "i < length (opcs s)" using inv i by (simp add: once_inv_def)
  have "mutex_point ((opcs s)[i := p] ! j) (pcs l ! j)" if "j < N" for j
    using inv that p l(2) [of j] len by (cases "j = i") (auto simp: once_inv_def)
  then show ?thesis using inv i l(1) h s' d len unfolding once_inv_def by (simp add: cnt_upd)
qed

lemma once_facts:
  assumes "once_inv N s" and "i < N"
  shows "i < length (opcs s)" "mutex_reachable N (once_m s)" "mutex_point (opcs s ! i) (pcs (once_m s) ! i)"
    "critical (opcs s ! i) \<Longrightarrow> 0 < held (once_m s)"
    "if once_done s = 0
      then int (started s) = cnt (\<lambda>p. p = doSlow_f \<or> p = doSlow_store) (opcs s) \<and>
        int (finished s) = cnt (\<lambda>p. p = doSlow_store) (opcs s) \<and>
        cnt (\<lambda>p. p = doSlow_unlock) (opcs s) = 0 \<and> returned s = 0
      else started s = 1 \<and> finished s = 1 \<and> cnt (\<lambda>p. p = doSlow_f \<or> p = doSlow_store) (opcs s) = 0"
  using assms cnt_at [of i "opcs s" critical] by (auto simp: once_inv_def simp del: of_nat_0_less_iff)

lemma unlock_call_inv:
  assumes inv: "once_inv N s" and N: "N < 2 ^ 28" and i: "i < N" and p: "critical (opcs s ! i)" and nf: "opcs s ! i \<noteq> doSlow_f"
    and d: "opcs s ! i = doSlow_check \<and> t = s \<and> once_done s \<noteq> 0 \<or> opcs s ! i = doSlow_store \<and> t = s\<lparr>once_done := 1\<rparr>"
  shows "once_inv N (defer_Unlock i t)"
proof -
  note f = once_facts [OF inv i]
  obtain b where b: "pcs (once_m s) ! i = Returned b" using f(3) p by auto
  have len: "i < length (pcs (once_m s))" using reachable_ok(2) [OF f(2) N] i by simp
  have "mutex_step (once_m s) ((goes_to (once_m s) i Unlock_add)\<lparr>held := held (once_m s) - 1\<rparr>)"
    by (rule mutex_step.call_Unlock [OF len b f(4) [OF p]])
  then have r: "mutex_reachable N ((goes_to (once_m s) i Unlock_add)\<lparr>held := held (once_m s) - 1\<rparr>)"
    by (rule mutex_reachable.step [OF f(2)])
  have "cnt critical (opcs s) \<le> 1" by (rule once_critical [OF inv N])
  moreover have "cnt (\<lambda>p. p = doSlow_f \<or> p = doSlow_store) (opcs s) \<le> cnt critical (opcs s)"
    "cnt (\<lambda>p. p = doSlow_store) (opcs s) \<le> cnt (\<lambda>p. p = doSlow_f \<or> p = doSlow_store) (opcs s)"
    by (auto intro!: cnt_mono)
  moreover have "opcs s ! i = doSlow_store \<Longrightarrow> 1 \<le> cnt (\<lambda>p. p = doSlow_store) (opcs s)"
    using cnt_at [OF f(1), of "\<lambda>p. p = doSlow_store"] by simp
  ultimately have data: "started s = 1 \<and> finished s = 1 \<and>
      cnt (\<lambda>p. p = doSlow_f \<or> p = doSlow_store) (opcs s) = of_bool (opcs s ! i = doSlow_store)"
    using f(5) d by (auto split: if_splits)
  have t: "once_m t = once_m s" "opcs t = opcs s" "once_done t \<noteq> 0" "started t = started s" "finished t = finished s"
    using d by auto
  show ?thesis
    by (rule once_move [OF inv i r, where p = doSlow_unlock])
      (use t len f(4) [OF p] p nf data f(1) in \<open>auto simp: defer_Unlock_def once_goto_def goes_to_def cnt_upd of_nat_diff\<close>)
qed

lemma once_mutex_eq:
  assumes "run_step a i (once_m s) = Some l"
  shows "in_Lock (pcs l ! i) \<or> in_Unlock (pcs l ! i) \<Longrightarrow> once_mutex a i s = Some (s\<lparr>once_m := l\<rparr>)"
    and "pcs l ! i = Returned b \<Longrightarrow> once_mutex a i s =
      Some (if opcs s ! i = doSlow_lock then once_goto i doSlow_check (s\<lparr>once_m := l\<rparr>)
        else once_goto i Once_out (s\<lparr>once_m := l, returned := returned s + 1\<rparr>))"
  using assms by (cases "pcs l ! i"; simp add: once_mutex_def Let_def)+

lemma once_mutex_inv:
  assumes inv: "once_inv N s" and N: "N < 2 ^ 28" and i: "i < N"
    and p: "opcs s ! i = doSlow_lock \<or> opcs s ! i = doSlow_unlock" and run: "once_mutex a i s = Some s'"
  shows "once_inv N s'"
proof -
  note f = once_facts [OF inv i]
  obtain l where l: "run_step a i (once_m s) = Some l" using run by (auto simp: once_mutex_def)
  note c = client_step [OF f(2) N l] and eq = once_mutex_eq [OF l]
  have same: "(opcs s)[i := opcs s ! i] = opcs s" by simp
  consider (lock) "opcs s ! i = doSlow_lock" "in_Lock (pcs l ! i)" "held l = held (once_m s)"
    | (locked) "opcs s ! i = doSlow_lock" "pcs l ! i = Returned True" "held l = Suc (held (once_m s))"
    | (unlock) "opcs s ! i = doSlow_unlock" "in_Unlock (pcs l ! i)" "held l = held (once_m s)"
    | (unlocked) "opcs s ! i = doSlow_unlock" "pcs l ! i = Returned False" "held l = held (once_m s)"
    using p f(3) c(3,4) by fastforce
  then show ?thesis
  proof cases
    case lock
    then have s': "s' = s\<lparr>once_m := l\<rparr>" using eq(1) run by simp
    show ?thesis unfolding s'
      by (rule once_move [OF inv i c(1,2), of doSlow_lock]) (use lock same f(5) in auto)
  next
    case locked
    then have s': "s' = once_goto i doSlow_check (s\<lparr>once_m := l\<rparr>)" using eq(2) run by simp
    show ?thesis unfolding s'
      by (rule once_move [OF inv i c(1,2), of doSlow_check]) (use locked f(1,5) in \<open>auto simp: once_goto_def cnt_upd\<close>)
  next
    case unlock
    then have s': "s' = s\<lparr>once_m := l\<rparr>" using eq(1) run by simp
    show ?thesis unfolding s'
      by (rule once_move [OF inv i c(1,2), of doSlow_unlock]) (use unlock same f(5) in auto)
  next
    case unlocked
    then have s': "s' = once_goto i Once_out (s\<lparr>once_m := l, returned := returned s + 1\<rparr>)"
      using eq(2) [OF unlocked(2)] unlocked(1) unfolding run by simp
    have "1 \<le> cnt (\<lambda>p. p = doSlow_unlock) (opcs s)" using cnt_at [OF f(1)] unlocked(1) by simp
    then have d: "once_done s \<noteq> 0" using f(5) by auto
    show ?thesis unfolding s'
      by (rule once_move [OF inv i c(1,2), of Once_out]) (use unlocked f(1,5) d in \<open>auto simp: once_goto_def cnt_upd\<close>)
  qed
qed

lemma once_step_inv:
  assumes inv: "once_inv N s" and N: "N < 2 ^ 28" and i: "i < N" and run: "once_run a i (opcs s ! i) s = Some s'"
  shows "once_inv N s'"
proof (cases "opcs s ! i")
  case Once_out
  note f = once_facts [OF inv i]
  have s': "s' = once_goto i Do_load s" using run Once_out by simp
  show ?thesis unfolding s'
      by (rule once_move [OF inv i f(2), of Do_load]) (use f(1,3,5) Once_out in \<open>auto simp: once_goto_def cnt_upd\<close>)
next
  case Do_load
  note f = once_facts [OF inv i]
  have s': "s' = Do i s" using run Do_load by simp
  obtain b where b: "pcs (once_m s) ! i = Returned b" using f(3) Do_load by auto
  have len: "i < length (pcs (once_m s))" using reachable_ok(2) [OF f(2) N] i by simp
  have r: "mutex_reachable N (goes_to (once_m s) i Lock_cas)"
    by (rule mutex_reachable.step [OF f(2) mutex_step.call_Lock [OF len b]])
  show ?thesis
  proof (cases "once_done s = 0")
    case True
    show ?thesis unfolding s'
      by (rule once_move [OF inv i r, of doSlow_lock]) (use True len f(1,5) Do_load in \<open>auto simp: Do_def once_goto_def goes_to_def cnt_upd\<close>)
  next
    case False
    show ?thesis unfolding s'
      by (rule once_move [OF inv i f(2), of Once_out]) (use False f(1,3,5) Do_load in \<open>auto simp: Do_def once_goto_def cnt_upd\<close>)
  qed
next
  case doSlow_lock
  then show ?thesis using once_mutex_inv [OF inv N i] run by simp
next
  case doSlow_check
  note f = once_facts [OF inv i]
  have s': "s' = doSlow i s" using run doSlow_check by simp
  show ?thesis
  proof (cases "once_done s = 0")
    case True
    show ?thesis unfolding s'
      by (rule once_move [OF inv i f(2), of doSlow_f]) (use True f(1,3,5) doSlow_check in \<open>auto simp: doSlow_def once_goto_def cnt_upd\<close>)
  next
    case False
    then show ?thesis using unlock_call_inv [OF inv N i, of s] s' doSlow_check by (simp add: doSlow_def)
  qed
next
  case doSlow_f
  note f = once_facts [OF inv i]
  have "1 \<le> cnt (\<lambda>p. p = doSlow_f \<or> p = doSlow_store) (opcs s)" using cnt_at [OF f(1)] doSlow_f by simp
  then have d: "once_done s = 0" using f(5) by (auto split: if_splits)
  have s': "s' = once_goto i doSlow_store (s\<lparr>finished := finished s + 1\<rparr>)" using run doSlow_f by simp
  show ?thesis unfolding s'
    by (rule once_move [OF inv i f(2), of doSlow_store]) (use d f(1,3,5) doSlow_f in \<open>auto simp: once_goto_def cnt_upd\<close>)
next
  case doSlow_store
  then show ?thesis using unlock_call_inv [OF inv N i, of "s\<lparr>once_done := 1\<rparr>"] run by simp
next
  case doSlow_unlock
  then show ?thesis using once_mutex_inv [OF inv N i] run by simp
qed

lemma once_reachable_inv: "once_reachable N s \<Longrightarrow> N < 2 ^ 28 \<Longrightarrow> once_inv N s"
  by (induction rule: once_reachable.induct) (auto intro: once_start_inv once_step_inv)

subsection \<open>What \<open>Do\<close> guarantees\<close>

lemma once_inv_counts:
  assumes inv: "once_inv N s" and N: "N < 2 ^ 28"
  shows "started s \<le> 1 \<and> finished s \<le> started s \<and>
    (once_done s \<noteq> 0 \<longrightarrow> finished s = 1) \<and> (0 < returned s \<longrightarrow> once_done s \<noteq> 0)"
proof -
  have "cnt (\<lambda>p. p = doSlow_f \<or> p = doSlow_store) (opcs s) \<le> cnt critical (opcs s)"
    "cnt (\<lambda>p. p = doSlow_store) (opcs s) \<le> cnt (\<lambda>p. p = doSlow_f \<or> p = doSlow_store) (opcs s)"
    by (auto intro!: cnt_mono)
  then show ?thesis using inv once_critical [OF inv N] by (auto simp: once_inv_def split: if_splits)
qed

text \<open>A schedule of goroutines, run from a state.\<close>

primrec once_exec :: "answers \<Rightarrow> nat list \<Rightarrow> once_sys \<Rightarrow> once_sys option" where
  "once_exec a [] s = Some s"
| "once_exec a (i # is) s = Option.bind (once_run a i (opcs s ! i) s) (once_exec a is)"

lemma once_exec_reachable:
  "once_reachable N s \<Longrightarrow> \<forall>i \<in> set is. i < N \<Longrightarrow> once_exec a is s = Some s' \<Longrightarrow> once_reachable N s'"
  by (induction "is" arbitrary: s) (auto split: bind_splits intro: once_reachable.step)

text \<open>
  C40. \<open>Do\<close> on a \<open>Once\<close>, built on the mutex: in every reachable state of goroutines that call \<open>Do\<close>
  any number of times, with their atomic operations and those of the mutex interleaved in any
  order, \<open>f\<close> has been started at most once, and once any call of \<open>Do\<close> has returned, \<open>f\<close> has been
  called and has finished. No goroutine throws.
\<close>

theorem once_correct:
  assumes "once_reachable N s" and "N < 2 ^ 28"
  shows "started s \<le> 1 \<and> finished s \<le> started s \<and> (0 < returned s \<longrightarrow> started s = 1 \<and> finished s = 1) \<and>
    (\<forall>msg. Thrown msg \<notin> set (pcs (once_m s)))"
proof -
  have inv: "once_inv N s" by (rule once_reachable_inv [OF assms])
  then have "mutex_ok (once_m s)" using reachable_ok(1) [of N "once_m s"] assms(2) by (simp add: once_inv_def)
  then show ?thesis using once_inv_counts [OF inv assms(2)] ok_no_throw by auto
qed

text \<open>Two goroutines: the first runs \<open>f\<close> while the second sleeps on the mutex, then both return.\<close>

theorem once_correct_witness:
  "\<exists>s. once_reachable 2 s \<and> returned s = 2 \<and> started s = 1 \<and> finished s = 1"
proof -
  let ?a = "\<lparr>canSpin = \<lambda>_. False, nanotime = 5\<rparr>"
  let ?sched = "[0, 1, 0, 1, 0, 0, 1, 1, 1, 0, 0, 0, 0, 0, 1, 1, 1, 1, 1]"
  have "map_option (\<lambda>s. (returned s, started s, finished s)) (once_exec ?a ?sched (once_start 2)) = Some (2, 1, 1)"
    by code_simp
  then obtain s where s: "once_exec ?a ?sched (once_start 2) = Some s" "returned s = 2" by auto
  have r: "once_reachable 2 s" by (rule once_exec_reachable [OF once_reachable.start _ s(1)]) simp
  then show ?thesis using once_correct [OF r] s(2) by auto
qed

end
