(* ===== verification/Circular.thy ===== *)
theory Circular
  imports Go_Prelude
begin

section \<open>Circular doubly-linked structures\<close>

text \<open>
  The packages container/list and container/ring link their elements in circles of \<open>next\<close> and
  \<open>prev\<close> pointers. A store is given here by these two fields as functions from addresses to
  pointers (\<open>None\<close> is nil). \<open>circ\<close> states that a list of addresses, read cyclically, is linked in
  both directions.
\<close>

definition linked :: "('a \<Rightarrow> 'a option) \<Rightarrow> ('a \<Rightarrow> 'a option) \<Rightarrow> 'a \<Rightarrow> 'a \<Rightarrow> bool" where
  "linked nx pr a b \<longleftrightarrow> nx a = Some b \<and> pr b = Some a"

fun links :: "('a \<Rightarrow> 'a option) \<Rightarrow> ('a \<Rightarrow> 'a option) \<Rightarrow> 'a list \<Rightarrow> bool" where
  "links nx pr (a # b # as) \<longleftrightarrow> linked nx pr a b \<and> links nx pr (b # as)"
| "links nx pr as \<longleftrightarrow> True"

definition circ :: "('a \<Rightarrow> 'a option) \<Rightarrow> ('a \<Rightarrow> 'a option) \<Rightarrow> 'a list \<Rightarrow> bool" where
  "circ nx pr as \<longleftrightarrow> distinct as \<and> (as \<noteq> [] \<longrightarrow> links nx pr (as @ [hd as]))"

lemma links_append: "links nx pr (as @ b # cs) \<longleftrightarrow> links nx pr (as @ [b]) \<and> links nx pr (b # cs)"
proof (induction as)
  case (Cons a as)
  then show ?case by (cases as) auto
qed simp

lemma links_cong:
  "(\<And>a. a \<in> set (butlast as) \<Longrightarrow> nx' a = nx a) \<Longrightarrow> (\<And>a. a \<in> set (tl as) \<Longrightarrow> pr' a = pr a) \<Longrightarrow>
   links nx' pr' as \<longleftrightarrow> links nx pr as"
  by (induction nx pr as rule: links.induct) (auto simp: linked_def)

lemma circ_Cons: "circ nx pr (a # as) \<longleftrightarrow> distinct (a # as) \<and> links nx pr (a # as @ [a])"
  by (simp add: circ_def)

lemma circ_Nil [simp]: "circ nx pr []"
  by (simp add: circ_def)

lemma circ_rotate: "circ nx pr (as @ bs) \<longleftrightarrow> circ nx pr (bs @ as)"
proof (cases "as = [] \<or> bs = []")
  case False
  then obtain a as' b bs' where ab: "as = a # as'" "bs = b # bs'" by (metis list.exhaust)
  have "links nx pr (a # as' @ b # bs' @ [a]) \<longleftrightarrow> links nx pr (a # as' @ [b]) \<and> links nx pr (b # bs' @ [a])"
    using links_append [of nx pr "a # as'" b "bs' @ [a]"] by simp
  also have "\<dots> \<longleftrightarrow> links nx pr (b # bs' @ a # as' @ [b])"
    using links_append [of nx pr "b # bs'" a "as' @ [b]"] by auto
  finally show ?thesis by (auto simp: ab circ_def)
qed auto

lemma circ_cong:
  assumes "\<And>a. a \<in> set as \<Longrightarrow> nx' a = nx a \<and> pr' a = pr a"
  shows "circ nx' pr' as \<longleftrightarrow> circ nx pr as"
proof (cases as)
  case (Cons a as')
  have "links nx' pr' (as @ [hd as]) \<longleftrightarrow> links nx pr (as @ [hd as])"
    by (rule links_cong) (use assms Cons in auto)
  then show ?thesis by (simp add: circ_def)
qed simp

text \<open>The neighbours of the first element.\<close>

lemma circ_next: "circ nx pr (a # as) \<Longrightarrow> nx a = Some (hd (as @ [a]))"
  by (cases as) (auto simp: circ_Cons linked_def)

lemma circ_prev: "circ nx pr (a # as) \<Longrightarrow> pr a = Some (last (a # as))"
proof (cases as rule: rev_cases)
  case (snoc bs b)
  assume "circ nx pr (a # as)"
  then have "links nx pr ((a # bs) @ b # [a])" by (simp add: circ_Cons snoc)
  then have "links nx pr (b # [a])" using links_append [of nx pr "a # bs" b "[a]"] by blast
  then show ?thesis by (simp add: snoc linked_def)
qed (simp add: circ_Cons linked_def)

lemma circ_split: "a \<in> set as \<Longrightarrow> circ nx pr as \<Longrightarrow> \<exists>ps qs. as = ps @ a # qs \<and> circ nx pr (a # qs @ ps)"
proof -
  assume a: "a \<in> set as" and c: "circ nx pr as"
  obtain ps qs where as: "as = ps @ a # qs" using split_list [OF a] by blast
  have "circ nx pr ((a # qs) @ ps)" using c circ_rotate [of nx pr ps "a # qs"] as by blast
  then have "as = ps @ a # qs \<and> circ nx pr (a # qs @ ps)" using as by (simp only: append_Cons)
  then show ?thesis by blast
qed

subsection \<open>Splicing\<close>

text \<open>Inserting an element after \<open>a\<close>, and removing the element after \<open>a\<close>.\<close>

lemma circ_insert:
  assumes c: "circ nx pr (a # as)" and e: "e \<notin> set (a # as)" and n: "n = hd (as @ [a])"
    and nx': "nx' = nx(e := Some n, a := Some e)" and pr': "pr' = pr(e := Some a, n := Some e)"
  shows "circ nx' pr' (a # e # as)"
proof -
  have d: "distinct (a # as)" and l: "links nx pr (a # as @ [a])" using c by (simp_all add: circ_Cons)
  have ne: "n \<noteq> e" using e n by (cases as) auto
  obtain m where m: "as @ [a] = n # m" using n by (cases as) auto
  then have "links nx pr (n # m)" using l by (cases as) (auto simp: append_eq_Cons_conv split: list.splits)
  moreover have "n \<notin> set m" "a \<notin> set (butlast (n # m))"
    using d m by (metis append_Cons distinct.simps(2) distinct1_rotate rotate1.simps(2), metis butlast_snoc d distinct.simps(2))
  moreover have "e \<notin> set (n # m)" using e m by (metis Un_iff set_append list.set(1,2) insert_iff empty_iff)
  ultimately have "links nx' pr' (n # m)"
    by (subst links_cong [where nx = nx and pr = pr]) (auto simp: nx' pr' split: if_splits dest: in_set_butlastD)
  then show ?thesis using d e m ne by (auto simp: circ_Cons linked_def nx' pr')
qed

lemma circ_remove:
  assumes c: "circ nx pr (a # e # as)" and n: "n = hd (as @ [a])"
    and nx': "\<And>x. x \<in> set (a # as) \<Longrightarrow> nx' x = (if x = a then Some n else nx x)"
    and pr': "\<And>x. x \<in> set (a # as) \<Longrightarrow> pr' x = (if x = n then Some a else pr x)"
  shows "circ nx' pr' (a # as)"
proof -
  have d: "distinct (a # e # as)" and l: "links nx pr (a # e # as @ [a])" using c by (simp_all add: circ_Cons)
  obtain m where m: "as @ [a] = n # m" using n by (cases as) auto
  have sub: "set (n # m) \<subseteq> set (a # as)" using arg_cong [OF m, of set] by auto
  have "links nx pr (n # m)" using l m by (simp add: m)
  moreover have "n \<notin> set m" "a \<notin> set (butlast (n # m))"
    using d m by (metis append_Cons distinct.simps(2) distinct1_rotate distinct_length_2_or_more rotate1.simps(2),
      metis butlast_snoc distinct.simps(2) distinct_length_2_or_more)
  ultimately have "links nx' pr' (n # m)"
    using sub by (subst links_cong [where nx = nx and pr = pr]) (auto simp: nx' pr' split: if_splits dest: in_set_butlastD)
  moreover have "linked nx' pr' a n" using sub nx' [of a] pr' [of n] by (auto simp: linked_def)
  ultimately show ?thesis using d m by (simp add: circ_Cons)
qed

subsection \<open>Cutting and joining circles\<close>

lemma links_app:
  "xs \<noteq> [] \<Longrightarrow> ys \<noteq> [] \<Longrightarrow> links nx pr (xs @ ys) \<longleftrightarrow> links nx pr xs \<and> linked nx pr (last xs) (hd ys) \<and> links nx pr ys"
proof (induction xs)
  case (Cons x xs)
  then show ?case by (cases xs; cases ys) auto
qed simp

lemma circ_iff: "xs \<noteq> [] \<Longrightarrow> circ nx pr xs \<longleftrightarrow> distinct xs \<and> links nx pr xs \<and> linked nx pr (last xs) (hd xs)"
  using links_app [of xs "[hd xs]" nx pr] by (simp add: circ_def)

lemma circ_cases:
  obtains (Nil) "xs = []" | (Ne) "xs \<noteq> []" "\<And>nx pr. circ nx pr xs \<longleftrightarrow> distinct xs \<and> links nx pr xs \<and> linked nx pr (last xs) (hd xs)"
  using circ_iff by blast

text \<open>A segment keeps its links when only the \<open>next\<close> of its last and the \<open>prev\<close> of its first element change.\<close>

lemma links_segment:
  assumes "links nx pr xs" "distinct xs" "\<And>x. x \<in> set xs \<Longrightarrow> x \<noteq> last xs \<Longrightarrow> nx' x = nx x"
    "\<And>x. x \<in> set xs \<Longrightarrow> x \<noteq> hd xs \<Longrightarrow> pr' x = pr x"
  shows "links nx' pr' xs"
proof (cases xs rule: rev_cases)
  case (snoc ys y)
  have "nx' a = nx a" if "a \<in> set (butlast xs)" for a
    using that assms(2) snoc by (intro assms(3)) (auto dest: in_set_butlastD)
  moreover have "pr' a = pr a" if "a \<in> set (tl xs)" for a
    using that assms(2) by (intro assms(4)) (cases xs; auto)+
  ultimately show ?thesis using assms(1) links_cong [of xs nx' nx pr' pr] by blast
qed simp

lemma circ_rotate_n: "circ nx pr (rotate n xs) \<longleftrightarrow> circ nx pr xs"
  using circ_rotate [of nx pr "drop (n mod length xs) xs" "take (n mod length xs) xs"] by (simp add: rotate_drop_take)

lemma links_rev: "links pr nx (rev xs) \<longleftrightarrow> links nx pr xs"
proof (induction xs rule: links.induct [of _ nx pr])
  case (1 nx pr a b as)
  then show ?case using links_app [of "rev (b # as)" "[a]" pr nx] by (auto simp: linked_def last_rev)
qed auto

lemma circ_rev: "circ pr nx (rev xs) \<longleftrightarrow> circ nx pr xs"
  by (cases xs rule: circ_cases) (auto simp: circ_iff links_rev linked_def hd_rev last_rev)

lemma circ_join:
  assumes r: "circ nx pr (r # as)" and s: "circ nx pr (s # bs)" and d: "set (r # as) \<inter> set (s # bs) = {}"
    and n: "n = hd (as @ [r])" and p: "p = last (s # bs)"
    and nx': "nx' = nx(r := Some s, p := Some n)" and pr': "pr' = pr(s := Some r, n := Some p)"
  shows "circ nx' pr' (r # s # bs @ as)"
proof -
  obtain m where m: "as @ [r] = n # m" using n by (cases as) auto
  have dr: "distinct (as @ [r])" and ds: "distinct (s # bs)" using r s by (auto simp: circ_def)
  have in1: "n \<in> set (r # as)" using m by (metis Un_iff empty_set list.set_intros(1) list.simps(15) set_append insert_is_Un sup_commute)
  have in2: "p \<in> set (s # bs)" unfolding p by (rule last_in_set) simp
  have ne: "p \<noteq> r" "n \<noteq> s" using d in1 in2 by auto
  have "links nx pr (s # bs)" "links nx pr (as @ [r])"
    using s r links_app [of "s # bs" "[s]" nx pr] links_app [of "[r]" "as @ [r]" nx pr] by (auto simp: circ_def)
  moreover have o: "x \<noteq> r \<Longrightarrow> x \<noteq> p \<Longrightarrow> nx' x = nx x" "x \<noteq> s \<Longrightarrow> x \<noteq> n \<Longrightarrow> pr' x = pr x" for x
    by (simp_all add: nx' pr')
  ultimately have l: "links nx' pr' (s # bs)" "links nx' pr' (as @ [r])"
    using dr ds d in1 in2 by (auto intro!: links_segment [of nx pr _ nx' pr'] o simp flip: n p simp del: last.simps)
  have "linked nx' pr' r s" "linked nx' pr' p n" using ne by (auto simp: linked_def nx' pr')
  then have "links nx' pr' ([r] @ (s # bs) @ as @ [r])"
    using l links_app [of "[r]" "(s # bs) @ as @ [r]" nx' pr'] links_app [of "s # bs" "as @ [r]" nx' pr']
    by (simp add: p n)
  then show ?thesis using dr ds d by (auto simp: circ_def)
qed

lemma circ_cut:
  assumes c: "circ nx pr (r # us @ s # vs)"
    and n: "n = hd (us @ [s])" and p: "p = last (r # us)"
    and nx': "nx' = nx(r := Some s, p := Some n)" and pr': "pr' = pr(s := Some r, n := Some p)"
  shows "circ nx' pr' (r # s # vs) \<and> circ nx' pr' us"
proof (cases "us = []")
  case True
  then have "nx' = nx \<and> pr' = pr" using c n p by (auto simp: circ_def linked_def nx' pr' fun_eq_iff)
  then show ?thesis using c True by simp
next
  case False
  then have np: "n = hd us" "p = last us" using n p by simp_all
  have "links nx pr ([r] @ us @ (s # vs @ [r]))" and d: "distinct (r # us @ s # vs)" using c by (simp_all add: circ_def)
  then have "links nx pr us" "links nx pr ((s # vs) @ [r])"
    using links_app [of "[r]" "us @ s # vs @ [r]" nx pr] links_app [of us "s # vs @ [r]" nx pr] False by auto
  then have "links nx pr us" "links nx pr (s # vs)" "linked nx pr (last (s # vs)) r"
    using links_app [of "s # vs" "[r]" nx pr] by auto
  moreover have "n \<in> set us" "p \<in> set us" using False np by simp_all
  moreover have "last (s # vs) \<in> set (s # vs)" by (rule last_in_set) simp
  ultimately have "links nx' pr' us" "links nx' pr' (s # vs)" "linked nx' pr' (last (s # vs)) r"
    using d by (auto intro!: links_segment [of nx pr] simp: nx' pr' np linked_def)
  moreover have "linked nx' pr' p n" "linked nx' pr' r s"
    using d \<open>n \<in> set us\<close> \<open>p \<in> set us\<close> by (auto simp: linked_def nx' pr')
  ultimately show ?thesis
    using d False np links_app [of "[r]" "s # vs" nx' pr'] by (simp add: circ_iff)
qed

lemma circ_cut_self:
  assumes c: "circ nx pr (r # us)" and n: "n = hd (us @ [r])" and p: "p = last (r # us)"
    and nx': "nx' = nx(r := Some r, p := Some n)" and pr': "pr' = pr(r := Some r, n := Some p)"
  shows "circ nx' pr' [r] \<and> circ nx' pr' us"
proof (cases "us = []")
  case True
  then show ?thesis using n p by (auto simp: circ_def linked_def nx' pr')
next
  case False
  then have np: "n = hd us" "p = last us" "n \<in> set us" "p \<in> set us" using n p by simp_all
  have d: "distinct (r # us)" and "links nx pr us"
    using c False links_app [of "[r]" "us @ [r]" nx pr] links_app [of us "[r]" nx pr] by (auto simp: circ_def)
  then have "links nx' pr' us" using np by (auto intro!: links_segment [of nx pr] simp: nx' pr')
  then show ?thesis using d False np by (auto simp: circ_iff linked_def nx' pr')
qed

end
