(* ===== verification/Container_List.thy ===== *)
theory Container_List
  imports Circular
begin

section \<open>Doubly linked lists (container/list)\<close>

text \<open>
  Elements live in a store, addressed by the sentinel of a list (\<open>&l.root\<close>) or by the number of an
  allocated element. A pointer is an optional address; following nil panics, which is \<open>None\<close> as the
  result of an operation. A pointer to a list is its number; the operations require it not to be
  nil, as the package does.
\<close>

datatype addr = Root nat | Elem nat

record 'v Element =
  el_next :: "addr option"
  el_prev :: "addr option"
  el_list :: "nat option"
  el_Value :: 'v

record 'v store =
  elem :: "addr \<Rightarrow> 'v Element"
  len :: "nat \<Rightarrow> int"
  fresh :: nat

subsection \<open>Field access\<close>

abbreviation nxt :: "'v store \<Rightarrow> addr \<Rightarrow> addr option" where "nxt s a \<equiv> el_next (elem s a)"
abbreviation prv :: "'v store \<Rightarrow> addr \<Rightarrow> addr option" where "prv s a \<equiv> el_prev (elem s a)"
abbreviation owner :: "'v store \<Rightarrow> addr \<Rightarrow> nat option" where "owner s a \<equiv> el_list (elem s a)"

definition set_nxt :: "addr \<Rightarrow> addr option \<Rightarrow> 'v store \<Rightarrow> 'v store" where
  "set_nxt a p s = s\<lparr>elem := (elem s)(a := (elem s a)\<lparr>el_next := p\<rparr>)\<rparr>"

definition set_prv :: "addr \<Rightarrow> addr option \<Rightarrow> 'v store \<Rightarrow> 'v store" where
  "set_prv a p s = s\<lparr>elem := (elem s)(a := (elem s a)\<lparr>el_prev := p\<rparr>)\<rparr>"

definition set_owner :: "addr \<Rightarrow> nat option \<Rightarrow> 'v store \<Rightarrow> 'v store" where
  "set_owner a l s = s\<lparr>elem := (elem s)(a := (elem s a)\<lparr>el_list := l\<rparr>)\<rparr>"

definition add_len :: "nat \<Rightarrow> int \<Rightarrow> 'v store \<Rightarrow> 'v store" where
  "add_len l d s = s\<lparr>len := (len s)(l := len s l + d)\<rparr>"

subsection \<open>The code\<close>

definition Next :: "'v store \<Rightarrow> addr \<Rightarrow> addr option" where
  "Next s e = (case owner s e of None \<Rightarrow> None | Some l \<Rightarrow> if nxt s e \<noteq> Some (Root l) then nxt s e else None)"

definition Prev :: "'v store \<Rightarrow> addr \<Rightarrow> addr option" where
  "Prev s e = (case owner s e of None \<Rightarrow> None | Some l \<Rightarrow> if prv s e \<noteq> Some (Root l) then prv s e else None)"

definition Init :: "nat \<Rightarrow> 'v store \<Rightarrow> 'v store" where
  "Init l s =
     (let s = set_nxt (Root l) (Some (Root l)) s;
          s = set_prv (Root l) (Some (Root l)) s
      in s\<lparr>len := (len s)(l := 0)\<rparr>)"

text \<open>\<open>new(List)\<close> gives a zero list; its number \<open>l\<close> is the allocator's choice.\<close>

definition zero_List :: "nat \<Rightarrow> 'v store \<Rightarrow> 'v store" where
  "zero_List l s = (let s = set_nxt (Root l) None s; s = set_prv (Root l) None s in s\<lparr>len := (len s)(l := 0)\<rparr>)"

definition New :: "nat \<Rightarrow> 'v store \<Rightarrow> 'v store" where
  "New l s = Init l (zero_List l s)"

definition Len :: "nat \<Rightarrow> 'v store \<Rightarrow> int" where
  "Len l s = len s l"

definition Front :: "nat \<Rightarrow> 'v store \<Rightarrow> addr option" where
  "Front l s = (if len s l = 0 then None else nxt s (Root l))"

definition Back :: "nat \<Rightarrow> 'v store \<Rightarrow> addr option" where
  "Back l s = (if len s l = 0 then None else prv s (Root l))"

definition lazyInit :: "nat \<Rightarrow> 'v store \<Rightarrow> 'v store" where
  "lazyInit l s = (if nxt s (Root l) = None then Init l s else s)"

definition insert_elem :: "nat \<Rightarrow> addr \<Rightarrow> addr option \<Rightarrow> 'v store \<Rightarrow> 'v store option" where
  "insert_elem l e at s =
     do { let s = set_prv e at s;
          a \<leftarrow> at;
          let s = set_nxt e (nxt s a) s;
          p \<leftarrow> prv s e;
          let s = set_nxt p (Some e) s;
          n \<leftarrow> nxt s e;
          let s = set_prv n (Some e) s;
          let s = set_owner e (Some l) s;
          Some (add_len l 1 s) }"

text \<open>\<open>&Element{Value: v}\<close> allocates a new element.\<close>

definition new_elem :: "'v \<Rightarrow> 'v store \<Rightarrow> addr \<times> 'v store" where
  "new_elem v s =
     (let e = Elem (fresh s)
      in (e, s\<lparr>elem := (elem s)(e := \<lparr>el_next = None, el_prev = None, el_list = None, el_Value = v\<rparr>),
               fresh := fresh s + 1\<rparr>))"

definition insertValue :: "nat \<Rightarrow> 'v \<Rightarrow> addr option \<Rightarrow> 'v store \<Rightarrow> (addr \<times> 'v store) option" where
  "insertValue l v at s =
     (case new_elem v s of (e, s) \<Rightarrow> do { s \<leftarrow> insert_elem l e at s; Some (e, s) })"

definition remove_elem :: "nat \<Rightarrow> addr \<Rightarrow> 'v store \<Rightarrow> 'v store option" where
  "remove_elem l e s =
     do { p \<leftarrow> prv s e;
          let s = set_nxt p (nxt s e) s;
          n \<leftarrow> nxt s e;
          let s = set_prv n (prv s e) s;
          let s = set_nxt e None s;
          let s = set_prv e None s;
          let s = set_owner e None s;
          Some (add_len l (- 1) s) }"

definition move :: "addr \<Rightarrow> addr option \<Rightarrow> 'v store \<Rightarrow> 'v store option" where
  "move e at s =
     (if at = Some e then Some s
      else
        do { p \<leftarrow> prv s e;
             let s = set_nxt p (nxt s e) s;
             n \<leftarrow> nxt s e;
             let s = set_prv n (prv s e) s;
             let s = set_prv e at s;
             a \<leftarrow> at;
             let s = set_nxt e (nxt s a) s;
             p \<leftarrow> prv s e;
             let s = set_nxt p (Some e) s;
             n \<leftarrow> nxt s e;
             let s = set_prv n (Some e) s;
             Some s })"

definition Remove :: "nat \<Rightarrow> addr \<Rightarrow> 'v store \<Rightarrow> ('v \<times> 'v store) option" where
  "Remove l e s =
     do { s \<leftarrow> (if owner s e = Some l then remove_elem l e s else Some s);
          Some (el_Value (elem s e), s) }"

definition PushFront :: "nat \<Rightarrow> 'v \<Rightarrow> 'v store \<Rightarrow> (addr \<times> 'v store) option" where
  "PushFront l v s = (let s = lazyInit l s in insertValue l v (Some (Root l)) s)"

definition PushBack :: "nat \<Rightarrow> 'v \<Rightarrow> 'v store \<Rightarrow> (addr \<times> 'v store) option" where
  "PushBack l v s = (let s = lazyInit l s in insertValue l v (prv s (Root l)) s)"

text \<open>\<open>InsertBefore\<close> and \<open>InsertAfter\<close> return the pointer nil if the mark is not in the list.\<close>

definition InsertBefore :: "nat \<Rightarrow> 'v \<Rightarrow> addr \<Rightarrow> 'v store \<Rightarrow> (addr option \<times> 'v store) option" where
  "InsertBefore l v mark s =
     (if owner s mark \<noteq> Some l then Some (None, s)
      else do { (e, s) \<leftarrow> insertValue l v (prv s mark) s; Some (Some e, s) })"

definition InsertAfter :: "nat \<Rightarrow> 'v \<Rightarrow> addr \<Rightarrow> 'v store \<Rightarrow> (addr option \<times> 'v store) option" where
  "InsertAfter l v mark s =
     (if owner s mark \<noteq> Some l then Some (None, s)
      else do { (e, s) \<leftarrow> insertValue l v (Some mark) s; Some (Some e, s) })"

definition MoveToFront :: "nat \<Rightarrow> addr \<Rightarrow> 'v store \<Rightarrow> 'v store option" where
  "MoveToFront l e s =
     (if owner s e \<noteq> Some l \<or> nxt s (Root l) = Some e then Some s else move e (Some (Root l)) s)"

definition MoveToBack :: "nat \<Rightarrow> addr \<Rightarrow> 'v store \<Rightarrow> 'v store option" where
  "MoveToBack l e s =
     (if owner s e \<noteq> Some l \<or> prv s (Root l) = Some e then Some s else move e (prv s (Root l)) s)"

definition MoveBefore :: "nat \<Rightarrow> addr \<Rightarrow> addr \<Rightarrow> 'v store \<Rightarrow> 'v store option" where
  "MoveBefore l e mark s =
     (if owner s e \<noteq> Some l \<or> e = mark \<or> owner s mark \<noteq> Some l then Some s else move e (prv s mark) s)"

definition MoveAfter :: "nat \<Rightarrow> addr \<Rightarrow> addr \<Rightarrow> 'v store \<Rightarrow> 'v store option" where
  "MoveAfter l e mark s =
     (if owner s e \<noteq> Some l \<or> e = mark \<or> owner s mark \<noteq> Some l then Some s else move e (Some mark) s)"

fun push_back_loop :: "nat \<Rightarrow> nat \<Rightarrow> addr option \<Rightarrow> 'v store \<Rightarrow> 'v store option" where
  "push_back_loop l 0 e s = Some s"
| "push_back_loop l (Suc i) e s =
     do { a \<leftarrow> e;
          (_, s) \<leftarrow> insertValue l (el_Value (elem s a)) (prv s (Root l)) s;
          push_back_loop l i (Next s a) s }"

definition PushBackList :: "nat \<Rightarrow> nat \<Rightarrow> 'v store \<Rightarrow> 'v store option" where
  "PushBackList l other s = (let s = lazyInit l s in push_back_loop l (nat (Len other s)) (Front other s) s)"

fun push_front_loop :: "nat \<Rightarrow> nat \<Rightarrow> addr option \<Rightarrow> 'v store \<Rightarrow> 'v store option" where
  "push_front_loop l 0 e s = Some s"
| "push_front_loop l (Suc i) e s =
     do { a \<leftarrow> e;
          (_, s) \<leftarrow> insertValue l (el_Value (elem s a)) (Some (Root l)) s;
          push_front_loop l i (Prev s a) s }"

definition PushFrontList :: "nat \<Rightarrow> nat \<Rightarrow> 'v store \<Rightarrow> 'v store option" where
  "PushFrontList l other s = (let s = lazyInit l s in push_front_loop l (nat (Len other s)) (Back other s) s)"

end
