(* ===== verification/Container_List_Inv.thy ===== *)
theory Container_List_Inv
  imports Container_List
begin

section \<open>The invariant of linked lists\<close>

text \<open>
  A store represents a family of lists \<open>R\<close>: for every list the sentinel and the elements are linked
  in a circle (or the list is a zero value that was never used), the length is right, and the
  owner field of an element tells which list holds it. All operations are combinations of two
  pointer updates, \<open>unlink\<close> and \<open>link_after\<close>.
\<close>

definition list_repr :: "'v store \<Rightarrow> nat \<Rightarrow> nat list \<Rightarrow> bool" where
  "list_repr s l xs \<longleftrightarrow> len s l = int (length xs) \<and>
     (if nxt s (Root l) = None then xs = [] else circ (nxt s) (prv s) (Root l # map Elem xs))"

definition list_inv :: "'v store \<Rightarrow> (nat \<Rightarrow> nat list) \<Rightarrow> bool" where
  "list_inv s R \<longleftrightarrow> (\<forall>l. list_repr s l (R l)) \<and> (\<forall>e l. owner s (Elem e) = Some l \<longleftrightarrow> e \<in> set (R l)) \<and>
     (\<forall>l. \<forall>e\<in>set (R l). e < fresh s)"

lemma set_fields [simp]:
  "el_next (elem (set_nxt a p s) x) = (if x = a then p else nxt s x)" "el_next (elem (set_prv a p s) x) = nxt s x"
  "el_next (elem (set_owner a o' s) x) = nxt s x" "el_next (elem (add_len l d s) x) = nxt s x"
  "el_prev (elem (set_nxt a p s) x) = prv s x" "el_prev (elem (set_prv a p s) x) = (if x = a then p else prv s x)"
  "el_prev (elem (set_owner a o' s) x) = prv s x" "el_prev (elem (add_len l d s) x) = prv s x"
  "el_list (elem (set_nxt a p s) x) = owner s x" "el_list (elem (set_prv a p s) x) = owner s x"
  "el_list (elem (set_owner a o' s) x) = (if x = a then o' else owner s x)" "el_list (elem (add_len l d s) x) = owner s x"
  "el_Value (elem (set_nxt a p s) x) = el_Value (elem s x)" "el_Value (elem (set_prv a p s) x) = el_Value (elem s x)"
  "el_Value (elem (set_owner a o' s) x) = el_Value (elem s x)" "el_Value (elem (add_len l d s) x) = el_Value (elem s x)"
  "len (set_nxt a p s) = len s" "len (set_prv a p s) = len s" "len (set_owner a o' s) = len s"
  "len (add_len l d s) = (len s)(l := len s l + d)"
  "fresh (set_nxt a p s) = fresh s" "fresh (set_prv a p s) = fresh s" "fresh (set_owner a o' s) = fresh s"
  "fresh (add_len l d s) = fresh s"
  by (simp_all add: set_nxt_def set_prv_def set_owner_def add_len_def)

definition link_after :: "addr \<Rightarrow> addr \<Rightarrow> addr \<Rightarrow> 'v store \<Rightarrow> 'v store" where
  "link_after e a n s = set_prv n (Some e) (set_nxt a (Some e) (set_nxt e (Some n) (set_prv e (Some a) s)))"

definition unlink :: "addr \<Rightarrow> addr \<Rightarrow> 'v store \<Rightarrow> 'v store" where
  "unlink p n s = set_prv n (Some p) (set_nxt p (Some n) s)"

lemma insert_elem_eq:
  "nxt s a = Some n \<Longrightarrow> a \<noteq> e \<Longrightarrow>
   insert_elem l e (Some a) s = Some (add_len l 1 (set_owner e (Some l) (link_after e a n s)))"
  by (simp add: insert_elem_def link_after_def Let_def)

lemma remove_elem_eq:
  "prv s e = Some p \<Longrightarrow> nxt s e = Some n \<Longrightarrow> p \<noteq> e \<Longrightarrow>
   remove_elem l e s = Some (add_len l (- 1) (set_owner e None (set_prv e None (set_nxt e None (unlink p n s)))))"
  by (simp add: remove_elem_def unlink_def Let_def)

lemma move_eq:
  "prv s e = Some p \<Longrightarrow> nxt s e = Some n \<Longrightarrow> p \<noteq> e \<Longrightarrow> a \<noteq> e \<Longrightarrow> nxt (unlink p n s) a = Some n' \<Longrightarrow>
   move e (Some a) s = Some (link_after e a n' (unlink p n s))"
  by (simp add: move_def unlink_def link_after_def Let_def)

subsection \<open>Circles\<close>

lemma link_after_circ:
  assumes "circ (nxt s) (prv s) (a # as)" "e \<notin> set (a # as)" "n = hd (as @ [a])"
  shows "circ (nxt (link_after e a n s)) (prv (link_after e a n s)) (a # e # as)"
proof (rule circ_insert [OF assms])
  have "a \<noteq> e" using assms(2) by auto
  then show "nxt (link_after e a n s) = (nxt s)(e := Some n, a := Some e)" by (auto simp: link_after_def fun_eq_iff)
  show "prv (link_after e a n s) = (prv s)(e := Some a, n := Some e)" by (auto simp: link_after_def fun_eq_iff)
qed

lemma unlink_circ:
  assumes "circ (nxt s) (prv s) (a # e # as)" "n = hd (as @ [a])"
  shows "circ (nxt (unlink a n s)) (prv (unlink a n s)) (a # as)"
  by (rule circ_remove [OF assms]) (auto simp: unlink_def)

lemma link_after_frame:
  assumes "x \<notin> {e, a, n}"
  shows "nxt (link_after e a n s) x = nxt s x" "prv (link_after e a n s) x = prv s x"
  using assms by (auto simp: link_after_def)

lemma unlink_frame:
  assumes "x \<notin> {p, n}"
  shows "nxt (unlink p n s) x = nxt s x" "prv (unlink p n s) x = prv s x"
  using assms by (auto simp: unlink_def)

lemma link_unlink_fields [simp]:
  "owner (link_after e a n s) x = owner s x" "el_Value (elem (link_after e a n s) x) = el_Value (elem s x)"
  "len (link_after e a n s) = len s" "fresh (link_after e a n s) = fresh s"
  "owner (unlink p n s) x = owner s x" "el_Value (elem (unlink p n s) x) = el_Value (elem s x)"
  "len (unlink p n s) = len s" "fresh (unlink p n s) = fresh s"
  by (simp_all add: link_after_def unlink_def)

text \<open>The addresses of a list, and that those of different lists are disjoint.\<close>

abbreviation ring_of :: "nat \<Rightarrow> nat list \<Rightarrow> addr list" where "ring_of l xs \<equiv> Root l # map Elem xs"

lemma inv_owner: "list_inv s R \<Longrightarrow> e \<in> set (R l) \<Longrightarrow> owner s (Elem e) = Some l"
  by (simp add: list_inv_def)

lemma inv_repr: "list_inv s R \<Longrightarrow> list_repr s l (R l)"
  by (simp add: list_inv_def)

lemma inv_disjoint: "list_inv s R \<Longrightarrow> l \<noteq> l' \<Longrightarrow> set (ring_of l (R l)) \<inter> set (ring_of l' (R l')) = {}"
proof -
  assume "list_inv s R" "l \<noteq> l'"
  then have "e \<notin> set (R l')" if "e \<in> set (R l)" for e
    using inv_owner [of s R e l] inv_owner [of s R e l'] that by auto
  then show ?thesis using \<open>l \<noteq> l'\<close> by auto
qed

lemma inv_circ: "list_inv s R \<Longrightarrow> nxt s (Root l) \<noteq> None \<Longrightarrow> circ (nxt s) (prv s) (ring_of l (R l))"
  using inv_repr [of s R l] by (simp add: list_repr_def split: if_splits)

lemma inv_used: "list_inv s R \<Longrightarrow> e \<in> set (R l) \<Longrightarrow> nxt s (Root l) \<noteq> None"
  using inv_repr [of s R l] by (auto simp: list_repr_def split: if_splits)

text \<open>
  Replacing one list: if the pointers of the other rings are untouched and the new ring is
  linked, the invariant holds for the new family.
\<close>

lemma list_inv_update:
  assumes inv: "list_inv s R"
    and circ: "circ (nxt s') (prv s') (ring_of l ys)" "len s' = (len s)(l := int (length ys))"
    and frame: "\<And>x. x \<notin> set (ring_of l (R l)) \<Longrightarrow> x \<notin> set (ring_of l ys) \<Longrightarrow> nxt s' x = nxt s x \<and> prv s' x = prv s x"
    and owner: "\<And>e. owner s' (Elem e) = (if e \<in> set ys then Some l else if e \<in> set (R l) then None else owner s (Elem e))"
    and new: "\<And>e. e \<in> set ys \<Longrightarrow> e \<in> set (R l) \<or> owner s (Elem e) = None" "\<And>e. e \<in> set ys \<Longrightarrow> e < fresh s'"
    and fresh: "fresh s \<le> fresh s'"
  shows "list_inv s' (R(l := ys))"
proof -
  have other: "list_repr s' l' (R l')" if "l' \<noteq> l" for l'
  proof -
    have "x \<notin> set (ring_of l (R l)) \<and> x \<notin> set (ring_of l ys)" if "x \<in> set (ring_of l' (R l'))" for x
      using that inv_disjoint [OF inv \<open>l' \<noteq> l\<close>] inv_owner [OF inv] new(1) \<open>l' \<noteq> l\<close> by fastforce
    then have "\<And>x. x \<in> set (ring_of l' (R l')) \<Longrightarrow> nxt s' x = nxt s x \<and> prv s' x = prv s x" using frame by blast
    then show ?thesis
      using inv_repr [OF inv, of l'] circ_cong [of "ring_of l' (R l')" "nxt s'" "nxt s" "prv s'" "prv s"] that circ(2)
      by (simp add: list_repr_def)
  qed
  moreover have "list_repr s' l ys"
    using circ circ_next [OF circ(1)] by (simp add: list_repr_def)
  moreover have "owner s' (Elem e) = Some l' \<longleftrightarrow> e \<in> set ((R(l := ys)) l')" for e l'
  proof -
    have "owner s (Elem e) = Some k \<longleftrightarrow> e \<in> set (R k)" for k using inv by (simp add: list_inv_def)
    from this [of l] this [of l'] show ?thesis using owner [of e] new(1) [of e] by auto
  qed
  ultimately show ?thesis
    using inv new(2) order.strict_trans2 [OF _ fresh] unfolding list_inv_def by auto
qed

subsection \<open>Splicing in the sentinel's circle\<close>

text \<open>A position of the list is given by the part \<open>ps\<close> before it and the part \<open>qs\<close> after it.\<close>

definition at_pos :: "nat \<Rightarrow> nat list \<Rightarrow> addr" where "at_pos l ps = last (ring_of l ps)"

definition after_pos :: "nat \<Rightarrow> nat list \<Rightarrow> addr" where "after_pos l qs = hd (map Elem qs @ [Root l])"

lemma at_pos_simps [simp]: "at_pos l [] = Root l" "at_pos l (ps @ [p]) = Elem p"
  by (simp_all add: at_pos_def)

lemma after_pos_simps [simp]: "after_pos l [] = Root l" "after_pos l (q # qs) = Elem q"
  by (simp_all add: after_pos_def)

lemma ring_at_pos:
  assumes "circ nx pr (ring_of l (ps @ qs))"
  obtains bs where "ring_of l ps = bs @ [at_pos l ps]" "circ nx pr (at_pos l ps # map Elem qs @ bs)"
    "hd (map Elem qs @ bs @ [at_pos l ps]) = after_pos l qs"
proof -
  obtain bs where eq: "ring_of l ps = bs @ [at_pos l ps]"
    unfolding at_pos_def by (metis append_butlast_last_id list.distinct(1))
  have "ring_of l (ps @ qs) = bs @ at_pos l ps # map Elem qs"
    using arg_cong [OF eq, of "\<lambda>z. z @ map Elem qs"] by simp
  then have "circ nx pr (at_pos l ps # map Elem qs @ bs)"
    using assms circ_rotate [of nx pr bs "at_pos l ps # map Elem qs"] by (simp only: append_Cons)
  moreover have "hd (map Elem qs @ bs @ [at_pos l ps]) = after_pos l qs"
    using arg_cong [OF eq, of hd] by (cases qs) (auto simp: hd_append)
  ultimately show thesis using that eq by blast
qed

lemma circ_nxt_at:
  assumes "circ nx pr (ring_of l (ps @ qs))"
  shows "nx (at_pos l ps) = Some (after_pos l qs)"
proof -
  obtain bs where bs: "circ nx pr (at_pos l ps # map Elem qs @ bs)"
    "hd (map Elem qs @ bs @ [at_pos l ps]) = after_pos l qs" by (rule ring_at_pos [OF assms])
  show ?thesis using circ_next [OF bs(1)] bs(2) by (simp only: append_assoc)
qed

lemma circ_prv_after:
  assumes "circ nx pr (ring_of l (ps @ qs))"
  shows "pr (after_pos l qs) = Some (at_pos l ps)"
proof (cases qs)
  case Nil
  then show ?thesis using circ_prev [of nx pr "Root l" "map Elem ps"] assms by (simp add: at_pos_def)
next
  case (Cons q qs')
  have "circ nx pr ((Elem q # map Elem qs') @ ring_of l ps)"
    using assms circ_rotate [of nx pr "ring_of l ps" "map Elem qs"] by (simp add: Cons)
  then have "circ nx pr (Elem q # map Elem qs' @ ring_of l ps)" by simp
  from circ_prev [OF this] show ?thesis by (simp add: Cons at_pos_def)
qed

lemma link_after_ring:
  assumes c: "circ (nxt s) (prv s) (ring_of l (ps @ qs))" and n: "n \<notin> set (ps @ qs)"
    and s': "s' = link_after (Elem n) (at_pos l ps) (after_pos l qs) s"
  shows "circ (nxt s') (prv s') (ring_of l (ps @ n # qs))"
proof -
  obtain bs where bs: "ring_of l ps = bs @ [at_pos l ps]" "circ (nxt s) (prv s) (at_pos l ps # map Elem qs @ bs)"
    "hd (map Elem qs @ bs @ [at_pos l ps]) = after_pos l qs" by (rule ring_at_pos [OF c])
  have "Elem n \<notin> set (ring_of l ps)" "Elem n \<notin> set (map Elem qs)" using n by auto
  then have "Elem n \<notin> set (at_pos l ps # map Elem qs @ bs)" unfolding bs(1) by simp
  then have "circ (nxt s') (prv s') (at_pos l ps # Elem n # map Elem qs @ bs)"
    unfolding s' using bs(2,3) by (intro link_after_circ) (simp_all only: append_assoc not_False_eq_True)
  then have "circ (nxt s') (prv s') (bs @ at_pos l ps # Elem n # map Elem qs)"
    using circ_rotate [of "nxt s'" "prv s'" bs "at_pos l ps # Elem n # map Elem qs"] by simp
  moreover have "bs @ at_pos l ps # Elem n # map Elem qs = ring_of l (ps @ n # qs)"
    using arg_cong [OF bs(1), of "\<lambda>z. z @ Elem n # map Elem qs"] by simp
  ultimately show ?thesis by simp
qed

lemma unlink_ring:
  assumes c: "circ (nxt s) (prv s) (ring_of l (ps @ n # qs))"
    and s': "s' = unlink (at_pos l ps) (after_pos l qs) s"
  shows "circ (nxt s') (prv s') (ring_of l (ps @ qs))"
proof -
  obtain bs where bs: "ring_of l ps = bs @ [at_pos l ps]"
    "circ (nxt s) (prv s) (at_pos l ps # Elem n # map Elem qs @ bs)" by (rule ring_at_pos [OF c]) simp
  have "hd ((map Elem qs @ bs) @ [at_pos l ps]) = after_pos l qs"
    using arg_cong [OF bs(1), of hd] by (cases qs) (auto simp: hd_append)
  then have "circ (nxt s') (prv s') (at_pos l ps # map Elem qs @ bs)"
    unfolding s' using bs(2) by (intro unlink_circ) (simp_all only:)
  then have "circ (nxt s') (prv s') (bs @ at_pos l ps # map Elem qs)"
    using circ_rotate [of "nxt s'" "prv s'" bs "at_pos l ps # map Elem qs"] by simp
  moreover have "bs @ at_pos l ps # map Elem qs = ring_of l (ps @ qs)"
    using arg_cong [OF bs(1), of "\<lambda>z. z @ map Elem qs"] by simp
  ultimately show ?thesis by simp
qed

lemma pos_in_ring: "at_pos l ps \<in> set (ring_of l (ps @ qs)) \<and> after_pos l qs \<in> set (ring_of l (ps @ qs))"
proof
  show "at_pos l ps \<in> set (ring_of l (ps @ qs))" using last_in_set [of "ring_of l ps"] by (auto simp: at_pos_def)
  show "after_pos l qs \<in> set (ring_of l (ps @ qs))" by (cases qs) auto
qed

end
