(* ===== verification/Container_List_Ops.thy ===== *)
theory Container_List_Ops
  imports Container_List_Inv
begin

section \<open>List operations refine sequence operations\<close>

text \<open>
  The abstract state has, for every list, the sequence of its elements, the values of the elements
  and the number of the next element. Every operation of container/list is shown to return and to
  act on the abstract state as an operation on sequences.
\<close>

record 'v lists =
  seqs :: "nat \<Rightarrow> nat list"
  vals :: "nat \<Rightarrow> 'v"
  alloc :: nat

definition list_abs :: "'v store \<Rightarrow> 'v lists \<Rightarrow> bool" where
  "list_abs s A \<longleftrightarrow> list_inv s (seqs A) \<and> (\<forall>e. vals A e = el_Value (elem s (Elem e))) \<and> alloc A = fresh s"

definition spec_put :: "nat \<Rightarrow> nat list \<Rightarrow> nat list \<Rightarrow> 'v \<Rightarrow> 'v lists \<Rightarrow> 'v lists" where
  "spec_put l ps qs v A =
     A\<lparr>seqs := (seqs A)(l := ps @ alloc A # qs), vals := (vals A)(alloc A := v), alloc := Suc (alloc A)\<rparr>"

definition spec_set :: "nat \<Rightarrow> nat list \<Rightarrow> 'v lists \<Rightarrow> 'v lists" where
  "spec_set l xs A = A\<lparr>seqs := (seqs A)(l := xs)\<rparr>"

lemma spec_fields [simp]:
  "seqs (spec_put l ps qs v A) = (seqs A)(l := ps @ alloc A # qs)"
  "vals (spec_put l ps qs v A) = (vals A)(alloc A := v)" "alloc (spec_put l ps qs v A) = Suc (alloc A)"
  "seqs (spec_set l xs A) = (seqs A)(l := xs)" "vals (spec_set l xs A) = vals A" "alloc (spec_set l xs A) = alloc A"
  by (simp_all add: spec_put_def spec_set_def)

lemma spec_set_id [simp]: "spec_set l (seqs A l) A = A"
  by (simp add: spec_set_def)

lemma abs_inv: "list_abs s A \<Longrightarrow> list_inv s (seqs A)"
  by (simp add: list_abs_def)

lemma abs_ring: "list_abs s A \<Longrightarrow> nxt s (Root l) \<noteq> None \<Longrightarrow> circ (nxt s) (prv s) (ring_of l (seqs A l))"
  by (rule inv_circ [OF abs_inv])

lemma abs_owner: "list_abs s A \<Longrightarrow> owner s (Elem e) = Some l \<longleftrightarrow> e \<in> set (seqs A l)"
  by (simp add: list_abs_def list_inv_def)

lemma abs_used: "list_abs s A \<Longrightarrow> e \<in> set (seqs A l) \<Longrightarrow> nxt s (Root l) \<noteq> None"
  by (rule inv_used [OF abs_inv])

lemma abs_len: "list_abs s A \<Longrightarrow> len s l = int (length (seqs A l))"
  using inv_repr [OF abs_inv, of s A l] by (simp add: list_repr_def)

lemma abs_fresh: "list_abs s A \<Longrightarrow> e \<in> set (seqs A l) \<Longrightarrow> e < alloc A"
  by (auto simp: list_abs_def list_inv_def)

lemma abs_val: "list_abs s A \<Longrightarrow> el_Value (elem s (Elem e)) = vals A e"
  by (simp add: list_abs_def)

lemma abs_unowned: "list_abs s A \<Longrightarrow> owner s (Elem (alloc A)) = None"
  using abs_fresh [of s A "alloc A"] abs_owner [of s A "alloc A"] by (cases "owner s (Elem (alloc A))") auto

lemma abs_distinct: "list_abs s A \<Longrightarrow> distinct (seqs A l)"
proof (cases "seqs A l")
  case (Cons e es)
  assume "list_abs s A"
  then have "circ (nxt s) (prv s) (ring_of l (seqs A l))" by (intro abs_ring abs_used [of s A e]) (auto simp: Cons)
  then show ?thesis by (simp add: circ_def distinct_map)
qed simp

subsection \<open>The three pointer operations\<close>

lemma insertValue_abs:
  assumes abs: "list_abs s A" and used: "nxt s (Root l) \<noteq> None" and pos: "seqs A l = ps @ qs"
  shows "\<exists>s'. insertValue l v (Some (at_pos l ps)) s = Some (Elem (alloc A), s') \<and> list_abs s' (spec_put l ps qs v A)"
proof -
  let ?n = "alloc A"
  define t where "t = snd (new_elem v s)"
  let ?a = "at_pos l ps" and ?b = "after_pos l qs"
  define s' where "s' = add_len l 1 (set_owner (Elem ?n) (Some l) (link_after (Elem ?n) ?a ?b t))"
  have n: "fresh s = ?n" "?n \<notin> set (ps @ qs)" "owner s (Elem ?n) = None"
    using abs abs_fresh [OF abs, of ?n l] abs_unowned [OF abs] pos by (auto simp: list_abs_def)
  have t: "elem t x = (if x = Elem ?n then \<lparr>el_next = None, el_prev = None, el_list = None, el_Value = v\<rparr> else elem s x)"
    "len t = len s" "fresh t = Suc ?n" for x
    by (simp_all add: t_def new_elem_def Let_def n(1))
  have ne: "?a \<noteq> Elem ?n" "?b \<noteq> Elem ?n" using n(2) pos_in_ring [of l ps qs] by auto
  have c: "circ (nxt t) (prv t) (ring_of l (ps @ qs))"
    using abs_ring [OF abs used] n(2) unfolding pos by (subst circ_cong [where nx = "nxt s" and pr = "prv s"]) (auto simp: t)
  have "insertValue l v (Some ?a) s = Some (Elem ?n, s')"
    using insert_elem_eq [OF circ_nxt_at [OF c] ne(1), of l] by (simp add: insertValue_def new_elem_def Let_def t_def s'_def n(1))
  moreover have "list_inv s' ((seqs A)(l := ps @ ?n # qs))"
  proof (rule list_inv_update [OF abs_inv [OF abs]])
    show "circ (nxt s') (prv s') (ring_of l (ps @ ?n # qs))"
      unfolding s'_def using link_after_ring [OF c n(2) refl] by simp
    show "len s' = (len s)(l := int (length (ps @ ?n # qs)))" using abs_len [OF abs, of l] by (simp add: s'_def t pos algebra_simps)
    show "nxt s' x = nxt s x \<and> prv s' x = prv s x" if "x \<notin> set (ring_of l (seqs A l))" "x \<notin> set (ring_of l (ps @ ?n # qs))" for x
      using that link_after_frame [of x "Elem ?n" ?a ?b t] pos_in_ring [of l ps qs] by (auto simp: s'_def t pos)
    show "owner s' (Elem e) = (if e \<in> set (ps @ ?n # qs) then Some l else if e \<in> set (seqs A l) then None else owner s (Elem e))" for e
      using abs_owner [OF abs, of e l] by (auto simp: s'_def t pos)
  qed (use n abs_fresh [OF abs, of _ l] in \<open>auto simp: pos s'_def t less_Suc_eq\<close>)
  moreover have "el_Value (elem s' x) = (if x = Elem ?n then v else el_Value (elem s x))" "fresh s' = Suc ?n" for x
    by (simp_all add: s'_def t)
  ultimately show ?thesis using abs by (auto simp: list_abs_def)
qed

lemma remove_abs:
  assumes abs: "list_abs s A" and pos: "seqs A l = ps @ e # qs"
  shows "\<exists>s'. remove_elem l (Elem e) s = Some s' \<and> list_abs s' (spec_set l (ps @ qs) A)"
proof -
  let ?a = "at_pos l ps" and ?b = "after_pos l qs"
  define s' where "s' = add_len l (- 1) (set_owner (Elem e) None (set_prv (Elem e) None (set_nxt (Elem e) None (unlink ?a ?b s))))"
  have used: "nxt s (Root l) \<noteq> None" using abs_used [OF abs, of e l] pos by simp
  have c: "circ (nxt s) (prv s) (ring_of l (ps @ e # qs))" using abs_ring [OF abs used] pos by simp
  have e: "e \<notin> set (ps @ qs)" using abs_distinct [OF abs, of l] by (simp add: pos)
  have ne: "?a \<noteq> Elem e" "?b \<noteq> Elem e" using e pos_in_ring [of l ps qs] by auto
  have "prv s (Elem e) = Some ?a" "nxt s (Elem e) = Some ?b"
    using circ_prv_after [of _ _ l ps "e # qs"] circ_nxt_at [of _ _ l "ps @ [e]" qs] c by auto
  then have "remove_elem l (Elem e) s = Some s'" unfolding s'_def using ne(1) by (rule remove_elem_eq)
  moreover have "list_inv s' ((seqs A)(l := ps @ qs))"
  proof (rule list_inv_update [OF abs_inv [OF abs]])
    show "circ (nxt s') (prv s') (ring_of l (ps @ qs))"
      using unlink_ring [OF c refl] e
      by (subst circ_cong [where nx = "nxt (unlink ?a ?b s)" and pr = "prv (unlink ?a ?b s)"]) (auto simp: s'_def)
    show "nxt s' x = nxt s x \<and> prv s' x = prv s x" if "x \<notin> set (ring_of l (seqs A l))" for x
      using that unlink_frame [of x ?a ?b s] pos_in_ring [of l ps qs] by (auto simp: s'_def pos)
  qed (use abs_fresh [OF abs, of _ l] abs_owner [OF abs, of _ l] abs_len [OF abs, of l] abs e in
      \<open>auto simp: s'_def pos list_abs_def\<close>)
  ultimately show ?thesis using abs by (auto simp: list_abs_def s'_def)
qed

lemma move_abs:
  assumes abs: "list_abs s A" and pos: "seqs A l = ps @ e # qs" and new: "ps @ qs = ps' @ qs'"
  shows "\<exists>s'. move (Elem e) (Some (at_pos l ps')) s = Some s' \<and> list_abs s' (spec_set l (ps' @ e # qs') A)"
proof -
  let ?a = "at_pos l ps" and ?b = "after_pos l qs" and ?c = "at_pos l ps'" and ?d = "after_pos l qs'"
  define t where "t = unlink ?a ?b s"
  define s' where "s' = link_after (Elem e) ?c ?d t"
  have used: "nxt s (Root l) \<noteq> None" using abs_used [OF abs, of e l] pos by simp
  have c: "circ (nxt s) (prv s) (ring_of l (ps @ e # qs))" using abs_ring [OF abs used] pos by simp
  have e: "e \<notin> set (ps @ qs)" using abs_distinct [OF abs, of l] by (simp add: pos)
  have ne: "?a \<noteq> Elem e" "?c \<noteq> Elem e" using e pos_in_ring [of l ps qs] pos_in_ring [of l ps' qs'] new by auto
  have set: "set ps \<union> set qs = set ps' \<union> set qs'" using arg_cong [OF new, of set] by simp
  have ct: "circ (nxt t) (prv t) (ring_of l (ps' @ qs'))" using unlink_ring [OF c refl] new by (simp only: t_def)
  have "prv s (Elem e) = Some ?a" "nxt s (Elem e) = Some ?b"
    using circ_prv_after [of _ _ l ps "e # qs"] circ_nxt_at [of _ _ l "ps @ [e]" qs] c by auto
  then have "move (Elem e) (Some ?c) s = Some s'"
    unfolding s'_def t_def using ne circ_nxt_at [OF ct] unfolding t_def by (rule move_eq)
  moreover have "list_inv s' ((seqs A)(l := ps' @ e # qs'))"
  proof (rule list_inv_update [OF abs_inv [OF abs]])
    show "circ (nxt s') (prv s') (ring_of l (ps' @ e # qs'))"
      using link_after_ring [OF ct _ s'_def] e new by simp
    show "nxt s' x = nxt s x \<and> prv s' x = prv s x" if "x \<notin> set (ring_of l (seqs A l))" for x
    proof -
      have "x \<notin> {Elem e, ?c, ?d}" "x \<notin> {?a, ?b}"
        using that pos_in_ring [of l ps qs] pos_in_ring [of l ps' qs'] set unfolding pos by auto
      then show ?thesis
        using link_after_frame [of x "Elem e" ?c ?d t] unlink_frame [of x ?a ?b s] by (simp add: s'_def t_def)
    qed
    show "len s' = (len s)(l := int (length (ps' @ e # qs')))"
      using abs_len [OF abs, of l] arg_cong [OF new, of length] by (auto simp: s'_def t_def pos fun_eq_iff)
  qed (use abs_fresh [OF abs, of _ l] abs_owner [OF abs, of _ l] abs set in \<open>auto simp: s'_def t_def pos list_abs_def\<close>)
  ultimately show ?thesis using abs by (auto simp: list_abs_def s'_def t_def)
qed

end
