(* ===== verification/Container_List_Spec.thy ===== *)
theory Container_List_Spec
  imports Container_List_Ops
begin

section \<open>The exported operations of container/list\<close>

text \<open>
  What each exported operation does to the sequence of its list, and the lemmas that the code does
  it. \<open>before m xs\<close> is the part of \<open>xs\<close> before \<open>m\<close> and \<open>behind m xs\<close> the part after it.
\<close>

abbreviation before :: "'a \<Rightarrow> 'a list \<Rightarrow> 'a list" where "before m xs \<equiv> takeWhile (\<lambda>x. x \<noteq> m) xs"
abbreviation behind :: "'a \<Rightarrow> 'a list \<Rightarrow> 'a list" where "behind m xs \<equiv> tl (dropWhile (\<lambda>x. x \<noteq> m) xs)"

lemma before_behind: "m \<notin> set ps \<Longrightarrow> before m (ps @ m # qs) = ps \<and> behind m (ps @ m # qs) = qs"
  by (induction ps) auto

lemma split_at:
  assumes "m \<in> set xs" "distinct xs"
  shows "xs = before m xs @ m # behind m xs \<and> remove1 m xs = before m xs @ behind m xs"
proof -
  obtain ps qs where "xs = ps @ m # qs" using split_list [OF assms(1)] by blast
  moreover from this have "m \<notin> set ps" using assms(2) by simp
  ultimately show ?thesis using before_behind [of m ps qs] by (simp add: remove1_append)
qed

definition spec_PushFront :: "nat \<Rightarrow> 'v \<Rightarrow> 'v lists \<Rightarrow> 'v lists" where
  "spec_PushFront l v A = spec_put l [] (seqs A l) v A"

definition spec_PushBack :: "nat \<Rightarrow> 'v \<Rightarrow> 'v lists \<Rightarrow> 'v lists" where
  "spec_PushBack l v A = spec_put l (seqs A l) [] v A"

definition spec_InsertBefore :: "nat \<Rightarrow> 'v \<Rightarrow> nat \<Rightarrow> 'v lists \<Rightarrow> 'v lists" where
  "spec_InsertBefore l v m A = spec_put l (before m (seqs A l)) (m # behind m (seqs A l)) v A"

definition spec_InsertAfter :: "nat \<Rightarrow> 'v \<Rightarrow> nat \<Rightarrow> 'v lists \<Rightarrow> 'v lists" where
  "spec_InsertAfter l v m A = spec_put l (before m (seqs A l) @ [m]) (behind m (seqs A l)) v A"

definition spec_Remove :: "nat \<Rightarrow> nat \<Rightarrow> 'v lists \<Rightarrow> 'v lists" where
  "spec_Remove l e A = spec_set l (remove1 e (seqs A l)) A"

definition spec_MoveToFront :: "nat \<Rightarrow> nat \<Rightarrow> 'v lists \<Rightarrow> 'v lists" where
  "spec_MoveToFront l e A = spec_set l (e # remove1 e (seqs A l)) A"

definition spec_MoveToBack :: "nat \<Rightarrow> nat \<Rightarrow> 'v lists \<Rightarrow> 'v lists" where
  "spec_MoveToBack l e A = spec_set l (remove1 e (seqs A l) @ [e]) A"

definition spec_MoveBefore :: "nat \<Rightarrow> nat \<Rightarrow> nat \<Rightarrow> 'v lists \<Rightarrow> 'v lists" where
  "spec_MoveBefore l e m A =
     (let ys = remove1 e (seqs A l) in spec_set l (before m ys @ e # m # behind m ys) A)"

definition spec_MoveAfter :: "nat \<Rightarrow> nat \<Rightarrow> nat \<Rightarrow> 'v lists \<Rightarrow> 'v lists" where
  "spec_MoveAfter l e m A =
     (let ys = remove1 e (seqs A l) in spec_set l (before m ys @ m # e # behind m ys) A)"

subsection \<open>Initialisation\<close>

lemma Init_empty:
  assumes "list_abs s A" "seqs A l = []"
  shows "list_abs (Init l s) A \<and> nxt (Init l s) (Root l) = Some (Root l)"
proof -
  have "list_inv (Init l s) ((seqs A)(l := []))"
    by (rule list_inv_update [OF abs_inv [OF assms(1)]])
      (auto simp: Init_def Let_def circ_def linked_def assms)
  then show ?thesis using assms by (auto simp: list_abs_def Init_def Let_def fun_upd_idem)
qed

lemma zero_List_empty:
  assumes "list_abs s A" "seqs A l = []"
  shows "list_abs (zero_List l s) A"
proof -
  have "list_repr (zero_List l s) l' (seqs A l')" for l'
  proof (cases "l' = l")
    case True
    then show ?thesis using assms(2) by (simp add: list_repr_def zero_List_def Let_def)
  next
    case False
    then have "circ (nxt (zero_List l s)) (prv (zero_List l s)) (ring_of l' (seqs A l')) \<longleftrightarrow>
      circ (nxt s) (prv s) (ring_of l' (seqs A l'))"
      by (intro circ_cong) (auto simp: zero_List_def Let_def)
    then show ?thesis
      using False inv_repr [OF abs_inv [OF assms(1)], of l'] by (simp add: list_repr_def zero_List_def Let_def)
  qed
  then show ?thesis using assms by (simp add: list_abs_def list_inv_def) (simp add: zero_List_def Let_def)
qed

lemma lazyInit_abs: "list_abs s A \<Longrightarrow> list_abs (lazyInit l s) A \<and> nxt (lazyInit l s) (Root l) \<noteq> None"
proof (cases "nxt s (Root l)")
  case None
  assume abs: "list_abs s A"
  then have "seqs A l = []" using inv_repr [OF abs_inv [OF abs], of l] None by (simp add: list_repr_def)
  then show ?thesis using Init_empty [OF abs] None by (simp add: lazyInit_def)
qed (simp add: lazyInit_def)

subsection \<open>Neighbours\<close>

lemma abs_pos:
  assumes abs: "list_abs s A" and x: "seqs A l = ps @ x # qs"
  shows "owner s (Elem x) = Some l" "nxt s (Elem x) = Some (after_pos l qs)" "prv s (Elem x) = Some (at_pos l ps)"
proof -
  show "owner s (Elem x) = Some l" using abs_owner [OF abs, of x l] x by simp
  have "x \<in> set (seqs A l)" using x by simp
  then have c: "circ (nxt s) (prv s) (ring_of l (ps @ x # qs))"
    using abs_ring [OF abs abs_used [OF abs, of x l]] by (simp only: x)
  show "nxt s (Elem x) = Some (after_pos l qs)" using circ_nxt_at [of _ _ l "ps @ [x]" qs] c by simp
  show "prv s (Elem x) = Some (at_pos l ps)" using circ_prv_after [of _ _ l ps "x # qs"] c by simp
qed

lemma abs_root:
  assumes abs: "list_abs s A" and used: "nxt s (Root l) \<noteq> None"
  shows "nxt s (Root l) = Some (after_pos l (seqs A l))" "prv s (Root l) = Some (at_pos l (seqs A l))"
  using circ_nxt_at [of "nxt s" "prv s" l "[]" "seqs A l"] circ_prv_after [of "nxt s" "prv s" l "seqs A l" "[]"]
    abs_ring [OF abs used] by simp_all

lemma abs_Next:
  assumes "list_abs s A" "seqs A l = ps @ x # qs"
  shows "Next s (Elem x) = (if qs = [] then None else Some (Elem (hd qs)))"
  using abs_pos [OF assms] by (cases qs) (simp_all add: Next_def)

lemma abs_Prev:
  assumes "list_abs s A" "seqs A l = ps @ x # qs"
  shows "Prev s (Elem x) = (if ps = [] then None else Some (Elem (last ps)))"
  using abs_pos [OF assms] by (cases ps rule: rev_cases) (simp_all add: Prev_def)

lemma abs_Front: "list_abs s A \<Longrightarrow> Front l s = (if seqs A l = [] then None else Some (Elem (hd (seqs A l))))"
  using abs_len [of s A l] abs_root [of s A l] abs_used [of s A "hd (seqs A l)" l]
  by (cases "seqs A l") (auto simp: Front_def)

lemma abs_Back: "list_abs s A \<Longrightarrow> Back l s = (if seqs A l = [] then None else Some (Elem (last (seqs A l))))"
  using abs_len [of s A l] abs_root [of s A l] abs_used [of s A "last (seqs A l)" l]
  by (cases "seqs A l" rule: rev_cases) (auto simp: Back_def)

subsection \<open>Insertions\<close>

lemma PushFront_abs:
  assumes "list_abs s A"
  shows "\<exists>s'. PushFront l v s = Some (Elem (alloc A), s') \<and> list_abs s' (spec_PushFront l v A)"
  using insertValue_abs [of "lazyInit l s" A l "[]" "seqs A l" v] lazyInit_abs [OF assms, of l]
  by (simp add: PushFront_def spec_PushFront_def Let_def)

lemma PushBack_abs:
  assumes "list_abs s A"
  shows "\<exists>s'. PushBack l v s = Some (Elem (alloc A), s') \<and> list_abs s' (spec_PushBack l v A)"
  using insertValue_abs [of "lazyInit l s" A l "seqs A l" "[]" v] lazyInit_abs [OF assms, of l]
    abs_root(2) [of "lazyInit l s" A l]
  by (simp add: PushBack_def spec_PushBack_def Let_def)

lemma InsertBefore_abs:
  assumes abs: "list_abs s A" and m: "m \<in> set (seqs A l)"
  shows "\<exists>s'. InsertBefore l v (Elem m) s = Some (Some (Elem (alloc A)), s') \<and> list_abs s' (spec_InsertBefore l v m A)"
proof -
  have pos: "seqs A l = before m (seqs A l) @ m # behind m (seqs A l)"
    using split_at [OF m abs_distinct [OF abs]] by blast
  show ?thesis
    using insertValue_abs [OF abs abs_used [OF abs m] pos, of v] abs_pos [OF abs pos]
    by (auto simp: InsertBefore_def spec_InsertBefore_def)
qed

lemma InsertAfter_abs:
  assumes abs: "list_abs s A" and m: "m \<in> set (seqs A l)"
  shows "\<exists>s'. InsertAfter l v (Elem m) s = Some (Some (Elem (alloc A)), s') \<and> list_abs s' (spec_InsertAfter l v m A)"
proof -
  have pos: "seqs A l = before m (seqs A l) @ m # behind m (seqs A l)"
    using split_at [OF m abs_distinct [OF abs]] by blast
  then have pos': "seqs A l = (before m (seqs A l) @ [m]) @ behind m (seqs A l)" by simp
  show ?thesis
    using insertValue_abs [OF abs abs_used [OF abs m] pos', of v] abs_pos [OF abs pos]
    by (auto simp: InsertAfter_def spec_InsertAfter_def)
qed

subsection \<open>Removal and moves\<close>

lemma Remove_abs:
  assumes abs: "list_abs s A" and e: "e \<in> set (seqs A l)"
  shows "\<exists>s'. Remove l (Elem e) s = Some (vals A e, s') \<and> list_abs s' (spec_Remove l e A)"
proof -
  note sp = split_at [OF e abs_distinct [OF abs]]
  obtain s' where "remove_elem l (Elem e) s = Some s'" "list_abs s' (spec_Remove l e A)"
    using remove_abs [OF abs conjunct1 [OF sp]] sp by (auto simp: spec_Remove_def)
  then show ?thesis using abs_owner [OF abs, of e l] e by (auto simp: Remove_def list_abs_def spec_Remove_def)
qed

text \<open>A move to the position \<open>ps' / qs'\<close> of the list without the element.\<close>

lemma move_to:
  assumes abs: "list_abs s A" and e: "e \<in> set (seqs A l)" and new: "remove1 e (seqs A l) = ps' @ qs'"
  shows "\<exists>s'. move (Elem e) (Some (at_pos l ps')) s = Some s' \<and> list_abs s' (spec_set l (ps' @ e # qs') A)"
  using move_abs [OF abs, of l "before e (seqs A l)" e "behind e (seqs A l)" ps' qs']
    split_at [OF e abs_distinct [OF abs]] new by simp

lemma MoveToFront_abs:
  assumes abs: "list_abs s A" and e: "e \<in> set (seqs A l)"
  shows "\<exists>s'. MoveToFront l (Elem e) s = Some s' \<and> list_abs s' (spec_MoveToFront l e A)"
proof (cases "nxt s (Root l) = Some (Elem e)")
  case True
  then obtain es where "seqs A l = e # es"
    using abs_root(1) [OF abs abs_used [OF abs e]] by (cases "seqs A l") auto
  then have "spec_MoveToFront l e A = spec_set l (seqs A l) A" by (simp add: spec_MoveToFront_def)
  then show ?thesis using True abs by (simp add: MoveToFront_def)
next
  case False
  then show ?thesis using move_to [OF abs e, of "[]" "remove1 e (seqs A l)"] abs_owner [OF abs, of e l] e
    by (simp add: MoveToFront_def spec_MoveToFront_def)
qed

lemma MoveToBack_abs:
  assumes abs: "list_abs s A" and e: "e \<in> set (seqs A l)"
  shows "\<exists>s'. MoveToBack l (Elem e) s = Some s' \<and> list_abs s' (spec_MoveToBack l e A)"
proof -
  obtain es z where z: "seqs A l = es @ [z]" using e by (cases "seqs A l" rule: rev_cases) auto
  have root: "prv s (Root l) = Some (Elem z)" using abs_root(2) [OF abs abs_used [OF abs e]] z by simp
  have d: "distinct (es @ [z])" using abs_distinct [OF abs, of l] z by simp
  show ?thesis
  proof (cases "z = e")
    case True
    then have "spec_MoveToBack l e A = spec_set l (seqs A l) A" using d by (simp add: spec_MoveToBack_def z remove1_append)
    then show ?thesis using True abs root by (simp add: MoveToBack_def)
  next
    case False
    then have "e \<in> set es" using e z by auto
    then have "remove1 e (seqs A l) = (remove1 e es @ [z]) @ []" using z by (simp add: remove1_append)
    from move_to [OF abs e this] show ?thesis using root False abs_owner [OF abs, of e l] e z \<open>e \<in> set es\<close>
      by (simp add: MoveToBack_def spec_MoveToBack_def remove1_append)
  qed
qed

lemma remove1_mem: "m \<in> set xs \<Longrightarrow> m \<noteq> e \<Longrightarrow> m \<in> set (remove1 e xs)"
  by (simp add: in_set_remove1)

lemma remove1_split:
  assumes "distinct (ps @ m # qs)" "e \<noteq> m"
  shows "remove1 e (ps @ m # qs) = remove1 e ps @ m # remove1 e qs"
proof (cases "e \<in> set ps")
  case True
  then have "remove1 e qs = qs" using assms(1) by (intro remove1_idem) auto
  then show ?thesis using True by (simp add: remove1_append)
qed (use assms(2) in \<open>simp add: remove1_append remove1_idem\<close>)

lemma MoveAfter_abs:
  assumes abs: "list_abs s A" and e: "e \<in> set (seqs A l)" and m: "m \<in> set (seqs A l)" "e \<noteq> m"
  shows "\<exists>s'. MoveAfter l (Elem e) (Elem m) s = Some s' \<and> list_abs s' (spec_MoveAfter l e m A)"
proof -
  let ?ys = "remove1 e (seqs A l)"
  have "?ys = (before m ?ys @ [m]) @ behind m ?ys"
    using split_at [of m ?ys] remove1_mem [of m _ e] m distinct_remove1 [OF abs_distinct [OF abs]] by simp
  from move_to [OF abs e this] show ?thesis
    using abs_owner [OF abs, of e l] abs_owner [OF abs, of m l] e m
    by (simp add: MoveAfter_def spec_MoveAfter_def Let_def)
qed

text \<open>Before the mark there may be the element itself; then nothing is moved.\<close>

lemma MoveBefore_abs:
  assumes abs: "list_abs s A" and e: "e \<in> set (seqs A l)" and m: "m \<in> set (seqs A l)" "e \<noteq> m"
  shows "\<exists>s'. MoveBefore l (Elem e) (Elem m) s = Some s' \<and> list_abs s' (spec_MoveBefore l e m A)"
proof -
  let ?xs = "seqs A l"
  have pos: "?xs = before m ?xs @ m # behind m ?xs" and mp: "m \<notin> set (before m ?xs)"
    using split_at [OF m(1) abs_distinct [OF abs]] by (auto dest: set_takeWhileD)
  define ps qs where "ps = before m ?xs" and "qs = behind m ?xs"
  have xs: "?xs = ps @ m # qs" "m \<notin> set ps" "distinct (ps @ m # qs)"
    using pos mp abs_distinct [OF abs, of l] unfolding ps_def qs_def by simp_all
  have code: "MoveBefore l (Elem e) (Elem m) s = move (Elem e) (Some (at_pos l ps)) s"
    using abs_pos [OF abs xs(1)] abs_owner [OF abs, of e l] e m by (simp add: MoveBefore_def)
  have rem: "remove1 e ?xs = remove1 e ps @ m # remove1 e qs" using remove1_split [OF xs(3) m(2)] xs(1) by simp
  have spec: "spec_MoveBefore l e m A = spec_set l (remove1 e ps @ e # m # remove1 e qs) A"
  proof -
    have "m \<notin> set (remove1 e ps)" using xs(2) notin_set_remove1 by fast
    then show ?thesis using rem before_behind [of m "remove1 e ps" "remove1 e qs"] by (simp add: spec_MoveBefore_def Let_def)
  qed
  show ?thesis
  proof (cases "at_pos l ps = Elem e")
    case True
    then obtain ps' where ps': "ps = ps' @ [e]" by (cases ps rule: rev_cases) auto
    then have "spec_MoveBefore l e m A = A"
      using spec xs spec_set_id [of l A] by (simp add: remove1_append remove1_idem)
    then show ?thesis using True code abs by (simp add: move_def)
  next
    case False
    have "at_pos l (remove1 e ps) = at_pos l ps"
      using False by (cases ps rule: rev_cases) (auto simp: remove1_append simp flip: append_Cons)
    then show ?thesis using move_to [OF abs e rem] code spec by simp
  qed
qed

end
