(* ===== verification/Container_List_Props.thy ===== *)
theory Container_List_Props
  imports Container_List_Spec
begin

section \<open>Copying lists\<close>

text \<open>
  \<open>PushBackList\<close> and \<open>PushFrontList\<close> walk over the other list while they insert copies; the other
  list may be the list itself, which then grows during the walk, away from the part still to be
  copied.
\<close>

definition contents :: "nat \<Rightarrow> 'v lists \<Rightarrow> 'v list" where
  "contents l A = map (vals A) (seqs A l)"

lemma put_vals:
  "list_abs s A \<Longrightarrow> xs = seqs A l' \<Longrightarrow> map (vals (spec_put l ps qs v A)) xs = map (vals A) xs"
  using abs_fresh [of s A _ l'] by (auto simp: map_eq_conv)

lemma contents_PushBack:
  "list_abs s A \<Longrightarrow> contents l (spec_PushBack l v A) = contents l A @ [v]"
  using put_vals [of s A "seqs A l" l l "seqs A l" "[]" v] by (simp add: contents_def spec_PushBack_def)

lemma contents_PushFront:
  "list_abs s A \<Longrightarrow> contents l (spec_PushFront l v A) = v # contents l A"
  using put_vals [of s A "seqs A l" l l "[]" "seqs A l" v] by (simp add: contents_def spec_PushFront_def)

lemma contents_other:
  "list_abs s A \<Longrightarrow> l' \<noteq> l \<Longrightarrow> contents l' (spec_put l ps qs v A) = contents l' A"
  using put_vals [of s A "seqs A l'" l' l ps qs v] by (simp add: contents_def)

lemma abs_insert_back:
  assumes "list_abs s A" "nxt s (Root l) \<noteq> None"
  shows "\<exists>s'. insertValue l v (prv s (Root l)) s = Some (Elem (alloc A), s') \<and> list_abs s' (spec_PushBack l v A) \<and>
    nxt s' (Root l) \<noteq> None"
proof -
  obtain s' where s': "insertValue l v (Some (at_pos l (seqs A l))) s = Some (Elem (alloc A), s')"
    "list_abs s' (spec_PushBack l v A)"
    using insertValue_abs [OF assms, of "seqs A l" "[]" v] by (auto simp: spec_PushBack_def)
  moreover have "nxt s' (Root l) \<noteq> None"
    using abs_used [OF s'(2), of "alloc A" l] by (simp add: spec_PushBack_def)
  ultimately show ?thesis using abs_root(2) [OF assms] by simp
qed

lemma abs_insert_front:
  assumes "list_abs s A" "nxt s (Root l) \<noteq> None"
  shows "\<exists>s'. insertValue l v (Some (Root l)) s = Some (Elem (alloc A), s') \<and> list_abs s' (spec_PushFront l v A) \<and>
    nxt s' (Root l) \<noteq> None"
proof -
  obtain s' where s': "insertValue l v (Some (Root l)) s = Some (Elem (alloc A), s')" "list_abs s' (spec_PushFront l v A)"
    using insertValue_abs [OF assms, of "[]" "seqs A l" v] by (auto simp: spec_PushFront_def)
  moreover have "nxt s' (Root l) \<noteq> None"
    using abs_used [OF s'(2), of "alloc A" l] by (simp add: spec_PushFront_def)
  ultimately show ?thesis by simp
qed

lemma push_back_loop_abs:
  assumes "list_abs s A" "nxt s (Root l) \<noteq> None" "seqs A other = done @ rem @ extra"
    "rem \<noteq> [] \<Longrightarrow> e = Some (Elem (hd rem))"
  shows "\<exists>s'. push_back_loop l (length rem) e s = Some s' \<and> list_abs s' (fold (spec_PushBack l) (map (vals A) rem) A)"
  using assms
proof (induction rem arbitrary: s A "done" extra e)
  case (Cons x rem)
  let ?A = "spec_PushBack l (vals A x) A"
  obtain t where t: "insertValue l (vals A x) (prv s (Root l)) s = Some (Elem (alloc A), t)"
    "list_abs t ?A" "nxt t (Root l) \<noteq> None"
    using abs_insert_back [OF Cons.prems(1,2)] by blast
  define extra' where "extra' = (if other = l then extra @ [alloc A] else extra)"
  have seqs: "seqs ?A other = (done @ [x]) @ rem @ extra'"
    using Cons.prems(3) by (auto simp: spec_PushBack_def extra'_def)
  have vals: "map (vals ?A) rem = map (vals A) rem"
    using abs_fresh [OF Cons.prems(1), of _ other] Cons.prems(3) by (auto simp: spec_PushBack_def)
  have "rem \<noteq> [] \<Longrightarrow> Next t (Elem x) = Some (Elem (hd rem))"
    using abs_Next [OF t(2), of other "done" x "rem @ extra'"] seqs by simp
  from Cons.IH [OF t(2,3) seqs this] show ?case
    using Cons.prems(4) t(1) vals by (simp add: abs_val [OF Cons.prems(1)])
qed simp

lemma push_front_loop_abs:
  assumes "list_abs s A" "nxt s (Root l) \<noteq> None" "seqs A other = extra @ rev rem @ done"
    "rem \<noteq> [] \<Longrightarrow> e = Some (Elem (hd rem))"
  shows "\<exists>s'. push_front_loop l (length rem) e s = Some s' \<and> list_abs s' (fold (spec_PushFront l) (map (vals A) rem) A)"
  using assms
proof (induction rem arbitrary: s A "done" extra e)
  case (Cons x rem)
  let ?A = "spec_PushFront l (vals A x) A"
  obtain t where t: "insertValue l (vals A x) (Some (Root l)) s = Some (Elem (alloc A), t)"
    "list_abs t ?A" "nxt t (Root l) \<noteq> None"
    using abs_insert_front [OF Cons.prems(1,2)] by blast
  define extra' where "extra' = (if other = l then alloc A # extra else extra)"
  have seqs: "seqs ?A other = extra' @ rev rem @ x # done"
    using Cons.prems(3) by (auto simp: spec_PushFront_def extra'_def)
  have vals: "map (vals ?A) rem = map (vals A) rem"
    using abs_fresh [OF Cons.prems(1), of _ other] Cons.prems(3) by (auto simp: spec_PushFront_def)
  have "rem \<noteq> [] \<Longrightarrow> Prev t (Elem x) = Some (Elem (hd rem))"
    using abs_Prev [OF t(2), of other "extra' @ rev rem" x "done"] seqs by (simp add: last_rev)
  from Cons.IH [OF t(2,3) seqs this] show ?case
    using Cons.prems(4) t(1) vals by (simp add: abs_val [OF Cons.prems(1)])
qed simp

lemma contents_fold_back:
  "contents l (fold (spec_PushBack l) vs A) = contents l A @ vs" if "list_abs s A"
  using that
proof (induction vs arbitrary: s A)
  case (Cons v vs)
  obtain t where "list_abs t (spec_PushBack l v A)" using PushBack_abs [OF Cons.prems] by blast
  then show ?case using Cons.IH contents_PushBack [OF Cons.prems] by simp
qed simp

lemma contents_fold_front:
  "contents l (fold (spec_PushFront l) vs A) = rev vs @ contents l A" if "list_abs s A"
  using that
proof (induction vs arbitrary: s A)
  case (Cons v vs)
  obtain t where "list_abs t (spec_PushFront l v A)" using PushFront_abs [OF Cons.prems] by blast
  then show ?case using Cons.IH contents_PushFront [OF Cons.prems] by simp
qed simp

section \<open>Properties\<close>

text \<open>A sample store: a zero list 0 to which two values were pushed.\<close>

definition zero_store :: "int store" where
  "zero_store = \<lparr>elem = \<lambda>_. \<lparr>el_next = None, el_prev = None, el_list = None, el_Value = 0\<rparr>, len = \<lambda>_. 0, fresh = 0\<rparr>"

definition zero_lists :: "int lists" where
  "zero_lists = \<lparr>seqs = \<lambda>_. [], vals = \<lambda>_. 0, alloc = 0\<rparr>"

definition two_lists :: "int lists" where
  "two_lists = spec_PushBack 0 20 (spec_PushBack 0 10 zero_lists)"

lemma zero_abs: "list_abs zero_store zero_lists"
  by (simp add: list_abs_def list_inv_def list_repr_def zero_store_def zero_lists_def)

lemma two_abs: "\<exists>s. list_abs s two_lists"
proof -
  obtain s where "list_abs s (spec_PushBack 0 10 zero_lists)" using PushBack_abs [OF zero_abs] by blast
  then show ?thesis using PushBack_abs [of s _ 0 20] unfolding two_lists_def by blast
qed

lemma two_seqs: "seqs two_lists 0 = [0, 1]"
  by (simp add: two_lists_def spec_PushBack_def zero_lists_def)

text \<open>
  C25. The insertions of container/list return, give the new element, and act on the sequences as
  stated: at the front, at the back, before or after a mark of the list. With a mark that is not in
  the list, \<open>InsertBefore\<close> and \<open>InsertAfter\<close> return nil and change nothing.
\<close>

theorem list_insertions:
  assumes "list_abs s A"
  shows "(\<exists>s'. PushFront l v s = Some (Elem (alloc A), s') \<and> list_abs s' (spec_PushFront l v A)) \<and>
    (\<exists>s'. PushBack l v s = Some (Elem (alloc A), s') \<and> list_abs s' (spec_PushBack l v A)) \<and>
    (if m \<in> set (seqs A l)
     then (\<exists>s'. InsertBefore l v (Elem m) s = Some (Some (Elem (alloc A)), s') \<and> list_abs s' (spec_InsertBefore l v m A)) \<and>
          (\<exists>s'. InsertAfter l v (Elem m) s = Some (Some (Elem (alloc A)), s') \<and> list_abs s' (spec_InsertAfter l v m A))
     else InsertBefore l v (Elem m) s = Some (None, s) \<and> InsertAfter l v (Elem m) s = Some (None, s))"
proof (cases "m \<in> set (seqs A l)")
  case True
  then show ?thesis
    using PushFront_abs [OF assms] PushBack_abs [OF assms] InsertBefore_abs [OF assms True] InsertAfter_abs [OF assms True]
    by simp
next
  case False
  then show ?thesis
    using PushFront_abs [OF assms] PushBack_abs [OF assms] abs_owner [OF assms, of m l]
    by (simp add: InsertBefore_def InsertAfter_def)
qed

theorem list_insertions_witness:
  "\<exists>s s'. InsertBefore 0 15 (Elem 1) s = Some (Some (Elem 2), s') \<and> list_abs s' (spec_InsertBefore 0 15 1 two_lists) \<and>
     contents 0 (spec_InsertBefore 0 15 1 two_lists) = [10, 15, 20]"
proof -
  obtain s where s: "list_abs s two_lists" using two_abs by blast
  have "contents 0 (spec_InsertBefore 0 15 1 two_lists) = [10, 15, 20]" "alloc two_lists = 2"
    by (simp_all add: contents_def spec_InsertBefore_def two_seqs) (simp_all add: two_lists_def spec_PushBack_def zero_lists_def)
  then show ?thesis using list_insertions [OF s, of 0 15 1] by (auto simp: two_seqs)
qed

text \<open>
  C26. The moves of container/list return and act on the sequences as stated; moving an element
  relative to itself, or with an element or a mark of another list, changes nothing.
\<close>

theorem list_moves:
  assumes "list_abs s A"
  shows "(if e \<in> set (seqs A l)
     then (\<exists>s'. MoveToFront l (Elem e) s = Some s' \<and> list_abs s' (spec_MoveToFront l e A)) \<and>
          (\<exists>s'. MoveToBack l (Elem e) s = Some s' \<and> list_abs s' (spec_MoveToBack l e A))
     else MoveToFront l (Elem e) s = Some s \<and> MoveToBack l (Elem e) s = Some s) \<and>
    (if e \<in> set (seqs A l) \<and> m \<in> set (seqs A l) \<and> e \<noteq> m
     then (\<exists>s'. MoveBefore l (Elem e) (Elem m) s = Some s' \<and> list_abs s' (spec_MoveBefore l e m A)) \<and>
          (\<exists>s'. MoveAfter l (Elem e) (Elem m) s = Some s' \<and> list_abs s' (spec_MoveAfter l e m A))
     else MoveBefore l (Elem e) (Elem m) s = Some s \<and> MoveAfter l (Elem e) (Elem m) s = Some s)"
proof -
  note own = abs_owner [OF assms, of _ l]
  show ?thesis
  proof (cases "e \<in> set (seqs A l)")
    case True
    show ?thesis
      using True MoveToFront_abs [OF assms True] MoveToBack_abs [OF assms True] MoveBefore_abs [OF assms True, of m]
        MoveAfter_abs [OF assms True, of m] own [of m]
      by (cases "m \<in> set (seqs A l) \<and> e \<noteq> m") (auto simp: MoveBefore_def MoveAfter_def)
  qed (use own [of e] in \<open>simp add: MoveToFront_def MoveToBack_def MoveBefore_def MoveAfter_def\<close>)
qed

theorem list_moves_witness:
  "\<exists>s s'. MoveBefore 0 (Elem 1) (Elem 0) s = Some s' \<and> list_abs s' (spec_MoveBefore 0 1 0 two_lists) \<and>
     contents 0 (spec_MoveBefore 0 1 0 two_lists) = [20, 10]"
proof -
  obtain s where s: "list_abs s two_lists" using two_abs by blast
  have "contents 0 (spec_MoveBefore 0 1 0 two_lists) = [20, 10]"
    by (simp add: contents_def spec_MoveBefore_def two_seqs Let_def) (simp add: two_lists_def spec_PushBack_def zero_lists_def)
  then show ?thesis using list_moves [OF s, of 1 0 0] by (auto simp: two_seqs)
qed

text \<open>
  What \<open>Init\<close> does to a list, in use or not, without reference to the marks of the elements it drops.
\<close>

definition cleared :: "nat \<Rightarrow> 'v store \<Rightarrow> bool" where
  "cleared l t \<longleftrightarrow>
     nxt t (Root l) = Some (Root l) \<and> prv t (Root l) = Some (Root l) \<and> Len l t = 0 \<and> Front l t = None \<and> Back l t = None"

lemma cleared_Init: "cleared l (Init l s)"
  by (simp add: cleared_def Init_def Let_def Len_def Front_def Back_def)

lemma Init_other:
  assumes "list_abs s A" and "l' \<noteq> l"
  shows "list_repr (Init l s) l' (seqs A l')"
proof -
  have "circ (nxt (Init l s)) (prv (Init l s)) (ring_of l' (seqs A l')) \<longleftrightarrow> circ (nxt s) (prv s) (ring_of l' (seqs A l'))"
    using assms(2) by (intro circ_cong) (auto simp: Init_def Let_def)
  then show ?thesis
    using assms(2) inv_repr [OF abs_inv [OF assms(1)], of l'] by (simp add: list_repr_def Init_def Let_def)
qed

lemma cleared_PushBack:
  assumes "cleared l t"
  shows "\<exists>u. PushBack l v t = Some (Elem (fresh t), u) \<and> list_repr u l [fresh t] \<and> el_Value (elem u (Elem (fresh t))) = v"
  using assms
  by (auto simp: cleared_def PushBack_def insertValue_def new_elem_def lazyInit_def Let_def insert_elem_def Len_def
      list_repr_def circ_def linked_def)

text \<open>
  C27. \<open>Remove\<close> returns the value of the element and takes it out of its list; with an element of
  no list or of another list it only returns the value. \<open>Init\<close> initialises or clears its list, whether it was
  in use or not: its sentinel points to itself, the length is 0, there is no front and no back, and
  a value pushed next becomes its only element; the other lists and all values stay as they were. \<open>Init\<close> of an
  empty list and \<open>New\<close> make a list that the other theorems apply to. (The elements that \<open>Init\<close> drops from a
  list in use keep their mark; \<open>Init_keeps_owner\<close> below shows the effect.)
\<close>

theorem list_removal:
  assumes "list_abs s A"
  shows "(\<exists>s'. Remove l (Elem e) s = Some (vals A e, s') \<and>
       (if e \<in> set (seqs A l) then list_abs s' (spec_Remove l e A) else s' = s)) \<and>
    (let t = Init l s in
       nxt t (Root l) = Some (Root l) \<and> prv t (Root l) = Some (Root l) \<and>
       Len l t = 0 \<and> Front l t = None \<and> Back l t = None \<and>
       (\<exists>u. PushBack l v t = Some (Elem (alloc A), u) \<and> list_repr u l [alloc A] \<and> el_Value (elem u (Elem (alloc A))) = v) \<and>
       (\<forall>l'. l' \<noteq> l \<longrightarrow> list_repr t l' (seqs A l')) \<and> (\<forall>e. el_Value (elem t (Elem e)) = vals A e)) \<and>
    (seqs A l = [] \<longrightarrow> list_abs (Init l s) A \<and> list_abs (New l s) A \<and>
       nxt (New l s) (Root l) = Some (Root l) \<and> prv (New l s) (Root l) = Some (Root l) \<and> Len l (New l s) = 0)"
proof (intro conjI impI)
  show "\<exists>s'. Remove l (Elem e) s = Some (vals A e, s') \<and>
       (if e \<in> set (seqs A l) then list_abs s' (spec_Remove l e A) else s' = s)"
  proof (cases "e \<in> set (seqs A l)")
    case False
    then show ?thesis using abs_owner [OF assms, of e l] abs_val [OF assms, of e] by (simp add: Remove_def)
  qed (use Remove_abs [OF assms, of e l] in simp)
  have "fresh (Init l s) = alloc A" "el_Value (elem (Init l s) (Elem e)) = vals A e" for e
    using assms by (simp_all add: list_abs_def Init_def Let_def)
  then show "let t = Init l s in
       nxt t (Root l) = Some (Root l) \<and> prv t (Root l) = Some (Root l) \<and>
       Len l t = 0 \<and> Front l t = None \<and> Back l t = None \<and>
       (\<exists>u. PushBack l v t = Some (Elem (alloc A), u) \<and> list_repr u l [alloc A] \<and> el_Value (elem u (Elem (alloc A))) = v) \<and>
       (\<forall>l'. l' \<noteq> l \<longrightarrow> list_repr t l' (seqs A l')) \<and> (\<forall>e. el_Value (elem t (Elem e)) = vals A e)"
    using cleared_Init [of l s] cleared_PushBack [OF cleared_Init [of l s], of v] Init_other [OF assms]
    by (simp add: Let_def cleared_def)
  assume e: "seqs A l = []"
  show "list_abs (Init l s) A" using Init_empty [OF assms e] by blast
  show "list_abs (New l s) A" using Init_empty [OF zero_List_empty [OF assms e] e] by (simp add: New_def)
  show "nxt (New l s) (Root l) = Some (Root l)" "prv (New l s) (Root l) = Some (Root l)" "Len l (New l s) = 0"
    using cleared_Init [of l "zero_List l s"] by (simp_all add: New_def cleared_def)
qed

theorem list_removal_witness:
  "\<exists>s s'. Remove 0 (Elem 0) s = Some (10, s') \<and> list_abs s' (spec_Remove 0 0 two_lists) \<and>
     contents 0 (spec_Remove 0 0 two_lists) = [20] \<and> list_abs (New 1 s) two_lists \<and>
     Len 0 s = 2 \<and> Len 0 (Init 0 s) = 0 \<and> Front 0 (Init 0 s) = None"
proof -
  obtain s where s: "list_abs s two_lists" using two_abs by blast
  have "contents 0 (spec_Remove 0 0 two_lists) = [20]" "vals two_lists 0 = 10" "seqs two_lists 1 = []"
    by (simp_all add: contents_def spec_Remove_def two_seqs) (simp_all add: two_lists_def spec_PushBack_def zero_lists_def)
  moreover have "Len 0 s = 2" using abs_len [OF s, of 0] by (simp add: Len_def two_seqs)
  ultimately show ?thesis
    using list_removal [OF s, of 0 0 0] list_removal [OF s, of 1 0 0] by (auto simp: two_seqs Let_def)
qed

lemma copies_all:
  assumes "list_abs s A"
  shows "let B = fold (spec_PushBack l) (contents other A) A; F = fold (spec_PushFront l) (rev (contents other A)) A in
    (\<exists>s'. PushBackList l other s = Some s' \<and> list_abs s' B) \<and> contents l B = contents l A @ contents other A \<and>
    (\<exists>s'. PushFrontList l other s = Some s' \<and> list_abs s' F) \<and> contents l F = contents other A @ contents l A"
proof -
  let ?s = "lazyInit l s"
  have abs: "list_abs ?s A" and used: "nxt ?s (Root l) \<noteq> None" using lazyInit_abs [OF assms] by blast+
  have n: "nat (Len other ?s) = length (seqs A other)" using abs_len [OF abs] by (simp add: Len_def)
  obtain s1 where s1: "PushBackList l other s = Some s1" "list_abs s1 (fold (spec_PushBack l) (contents other A) A)"
    using push_back_loop_abs [OF abs used, of other "[]" "seqs A other" "[]" "Front other ?s"] abs_Front [OF abs, of other] n
    by (auto simp: PushBackList_def Let_def contents_def)
  obtain s2 where s2: "PushFrontList l other s = Some s2" "list_abs s2 (fold (spec_PushFront l) (rev (contents other A)) A)"
    using push_front_loop_abs [OF abs used, of other "[]" "rev (seqs A other)" "[]" "Back other ?s"] abs_Back [OF abs, of other] n
    by (auto simp: PushFrontList_def Let_def contents_def hd_rev rev_map)
  show ?thesis
    using s1 s2 contents_fold_back [OF abs, of l "contents other A"] contents_fold_front [OF abs, of l "rev (contents other A)"]
    by (auto simp: Let_def)
qed

lemma traversal_all:
  assumes "list_abs s A"
  shows "let xs = seqs A l; n = length xs in
    Len l s = int n \<and>
    Front l s = (if n = 0 then None else Some (Elem (xs ! 0))) \<and>
    Back l s = (if n = 0 then None else Some (Elem (xs ! (n - 1)))) \<and>
    (\<forall>i<n. Next s (Elem (xs ! i)) = (if i + 1 < n then Some (Elem (xs ! (i + 1))) else None) \<and>
           Prev s (Elem (xs ! i)) = (if 0 < i then Some (Elem (xs ! (i - 1))) else None)) \<and>
    ((\<forall>l'. e \<notin> set (seqs A l')) \<longrightarrow> Next s (Elem e) = None \<and> Prev s (Elem e) = None)"
proof -
  let ?xs = "seqs A l"
  have nb: "Next s (Elem (?xs ! i)) = (if i + 1 < length ?xs then Some (Elem (?xs ! (i + 1))) else None) \<and>
    Prev s (Elem (?xs ! i)) = (if 0 < i then Some (Elem (?xs ! (i - 1))) else None)" if "i < length ?xs" for i
  proof -
    have "?xs = take i ?xs @ ?xs ! i # drop (Suc i) ?xs" using id_take_nth_drop [OF that] .
    from abs_Next [OF assms this] abs_Prev [OF assms this] show ?thesis
      using that by (auto simp: hd_drop_conv_nth last_conv_nth min_def)
  qed
  have out: "Next s (Elem e) = None \<and> Prev s (Elem e) = None" if "\<forall>l'. e \<notin> set (seqs A l')"
    using abs_owner [OF assms, of e] that by (cases "owner s (Elem e)") (auto simp: Next_def Prev_def)
  show ?thesis
    using abs_len [OF assms, of l] abs_Front [OF assms, of l] abs_Back [OF assms, of l] nb out
    by (simp add: Let_def Len_def hd_conv_nth last_conv_nth)
qed

text \<open>
  C28. \<open>PushBackList\<close> and \<open>PushFrontList\<close> return, and put copies of the values of the other list
  at the end and at the beginning, in order; the other list may be the list itself. \<open>Front\<close>,
  \<open>Next\<close>, \<open>Back\<close>, \<open>Prev\<close> and \<open>Len\<close> read the sequence of a list in both directions; an element
  that is in no list has no neighbours.
\<close>

theorem list_copies_and_traversal:
  assumes "list_abs s A"
  shows "(let B = fold (spec_PushBack l) (contents other A) A; F = fold (spec_PushFront l) (rev (contents other A)) A in
    (\<exists>s'. PushBackList l other s = Some s' \<and> list_abs s' B) \<and> contents l B = contents l A @ contents other A \<and>
    (\<exists>s'. PushFrontList l other s = Some s' \<and> list_abs s' F) \<and> contents l F = contents other A @ contents l A) \<and>
    (let xs = seqs A l; n = length xs in
    Len l s = int n \<and>
    Front l s = (if n = 0 then None else Some (Elem (xs ! 0))) \<and>
    Back l s = (if n = 0 then None else Some (Elem (xs ! (n - 1)))) \<and>
    (\<forall>i<n. Next s (Elem (xs ! i)) = (if i + 1 < n then Some (Elem (xs ! (i + 1))) else None) \<and>
           Prev s (Elem (xs ! i)) = (if 0 < i then Some (Elem (xs ! (i - 1))) else None)) \<and>
    ((\<forall>l'. e \<notin> set (seqs A l')) \<longrightarrow> Next s (Elem e) = None \<and> Prev s (Elem e) = None))"
  by (rule conjI [OF copies_all [OF assms] traversal_all [OF assms]])

theorem list_copies_and_traversal_witness:
  "(\<exists>s s' A'. PushBackList 0 0 s = Some s' \<and> list_abs s' A' \<and> contents 0 A' = [10, 20, 10, 20 :: int]) \<and>
   (\<exists>s :: int store. Front 0 s = Some (Elem 0) \<and> Next s (Elem 0) = Some (Elem 1) \<and> Next s (Elem 1) = None \<and>
     Len 0 s = 2 \<and> (\<exists>A. list_abs s A))"
proof -
  obtain s where s: "list_abs s two_lists" using two_abs by blast
  note w = list_copies_and_traversal [OF s, of 0 0 0]
  have "contents 0 two_lists = [10, 20]"
    by (simp add: contents_def two_seqs) (simp add: two_lists_def spec_PushBack_def zero_lists_def)
  then have "\<exists>s s' A'. PushBackList 0 0 s = Some s' \<and> list_abs s' A' \<and> contents 0 A' = [10, 20, 10, 20 :: int]"
    using conjunct1 [OF w] by (auto simp: Let_def)
  moreover have "\<forall>i<2. Next s (Elem ([0, 1] ! i)) = (if i + 1 < 2 then Some (Elem ([0, 1] ! (i + 1))) else None)"
    "Front 0 s = Some (Elem 0)" "Len 0 s = 2"
    using conjunct2 [OF w] by (simp_all add: two_seqs Let_def numeral_2_eq_2)
  from this(1) [rule_format, of 0] this(1) [rule_format, of 1] this(2,3) s
  have "\<exists>s :: int store. Front 0 s = Some (Elem 0) \<and> Next s (Elem 0) = Some (Elem 1) \<and> Next s (Elem 1) = None \<and>
     Len 0 s = 2 \<and> (\<exists>A. list_abs s A)" by auto
  ultimately show ?thesis by blast
qed

text \<open>
  \<open>Init\<close> on a list that is in use leaves its elements marked as elements of the list, so that a
  later \<open>Remove\<close> of such an element makes the length negative.
\<close>

lemma Init_keeps_owner:
  "\<exists>s e s'. PushBack 0 7 zero_store = Some (e, s) \<and> Remove 0 e (Init 0 s) = Some (7, s') \<and> Len 0 s' = - 1 \<and>
     Front 0 s' = Some (Root 0)"
  by (simp add: PushBack_def insertValue_def new_elem_def lazyInit_def Let_def insert_elem_def zero_store_def Init_def
      Remove_def remove_elem_def Len_def Front_def set_nxt_def set_prv_def set_owner_def add_len_def)

end
