(* ===== verification/Element_List.thy ===== *)
theory Element_List
  imports Container_List_Props
begin

section \<open>The contract of container/list for its clients\<close>

text \<open>
  The clients net/http (\<open>connLRU\<close>) and crypto/tls (\<open>lruSessionCache\<close>) keep a list in order of use
  beside a map from keys to list elements. The locale states what they rely on: a store represents
  a list of elements with their values, and the operations act on that list. The lemmas of the
  locale follow the list and the index together.
\<close>

definition indexes :: "('k \<Rightarrow> 'e option) \<Rightarrow> ('v \<Rightarrow> 'k) \<Rightarrow> ('e \<times> 'v) list \<Rightarrow> bool" where
  "indexes m key xs \<longleftrightarrow> distinct (map (key \<circ> snd) xs) \<and>
     (\<forall>k e. m k = Some e \<longleftrightarrow> (\<exists>v. (e, v) \<in> set xs \<and> key v = k))"

lemma indexes_keys: "indexes m key xs \<Longrightarrow> m k = None \<longleftrightarrow> k \<notin> (key \<circ> snd) ` set xs"
proof -
  assume ix: "indexes m key xs"
  have "m k \<noteq> None \<longleftrightarrow> (\<exists>e v. (e, v) \<in> set xs \<and> key v = k)" using ix by (simp add: indexes_def)
  then show ?thesis by force
qed

lemma indexes_mem: "indexes m key xs \<Longrightarrow> (e, v) \<in> set xs \<Longrightarrow> m (key v) = Some e"
  by (auto simp: indexes_def)

lemma indexes_lookup: "indexes m key xs \<Longrightarrow> m k = Some e \<Longrightarrow> \<exists>v. (e, v) \<in> set xs \<and> key v = k"
  by (simp add: indexes_def)

lemma indexes_add:
  assumes "indexes m key xs" "m (key v) = None"
  shows "indexes (m(key v \<mapsto> e)) key ((e, v) # xs)"
proof -
  have new: "key w \<noteq> key v" if "(e', w) \<in> set xs" for e' w
    using indexes_mem [OF assms(1) that] assms(2) by auto
  then have "key v \<notin> set (map (key \<circ> snd) xs)" by force
  then show ?thesis using assms(1) new unfolding indexes_def by auto
qed

lemma indexes_delete:
  assumes "indexes m key (ps @ (e, v) # qs)"
  shows "indexes (m(key v := None)) key (ps @ qs)"
proof -
  have d: "distinct (map (key \<circ> snd) (ps @ (e, v) # qs))" using assms by (simp add: indexes_def)
  have "(m(key v := None)) k = Some e' \<longleftrightarrow> (\<exists>w. (e', w) \<in> set (ps @ qs) \<and> key w = k)" for k e'
  proof (cases "k = key v")
    case True
    then show ?thesis using d by force
  next
    case False
    then have "m k = Some e' \<longleftrightarrow> (\<exists>w. (e', w) \<in> set (ps @ (e, v) # qs) \<and> key w = k)"
      using assms by (simp add: indexes_def)
    then show ?thesis using False by auto
  qed
  then show ?thesis using d by (simp add: indexes_def)
qed

lemma indexes_touch: "indexes m key (ps @ x # qs) \<Longrightarrow> indexes m key (x # ps @ qs)"
  unfolding indexes_def by (auto simp: image_iff)

lemma indexes_cong:
  assumes "indexes m key xs" and same: "\<And>v. v \<in> snd ` set xs \<Longrightarrow> key' v = key v"
  shows "indexes m key' xs"
proof -
  have "map (key' \<circ> snd) xs = map (key \<circ> snd) xs" using same by simp
  moreover have "(\<exists>w. (e, w) \<in> set xs \<and> key' w = k) \<longleftrightarrow> (\<exists>w. (e, w) \<in> set xs \<and> key w = k)" for e k
    using same by force
  ultimately show ?thesis using assms(1) unfolding indexes_def by (simp only: simp_thms)
qed

lemma indexes_rename:
  assumes ix: "indexes m key (ps @ (e, v) # qs)" and v: "v \<notin> snd ` set (ps @ qs)" and k: "m k = None"
  shows "indexes ((m(key v := None))(k \<mapsto> e)) (key(v := k)) ((e, v) # ps @ qs)"
proof -
  let ?m = "m(key v := None)" and ?key = "key(v := k)"
  have "indexes ?m ?key (ps @ qs)" by (rule indexes_cong [OF indexes_delete [OF ix]]) (use v in auto)
  moreover have "?m (?key v) = None" using k by simp
  ultimately have "indexes (?m(?key v \<mapsto> e)) ?key ((e, v) # ps @ qs)" by (rule indexes_add)
  then show ?thesis by simp
qed

locale element_list =
  fixes rep :: "'s \<Rightarrow> ('e \<times> 'v) list \<Rightarrow> bool"
    and push_front :: "'v \<Rightarrow> 's \<Rightarrow> ('e \<times> 's) option"
    and last_elem :: "'s \<Rightarrow> 'e option"
    and remove :: "'e \<Rightarrow> 's \<Rightarrow> ('v \<times> 's) option"
    and to_front :: "'e \<Rightarrow> 's \<Rightarrow> 's option"
    and value_of :: "'s \<Rightarrow> 'e \<Rightarrow> 'v"
    and length_of :: "'s \<Rightarrow> int"
  assumes push_front: "rep s xs \<Longrightarrow> \<exists>e s'. push_front v s = Some (e, s') \<and> rep s' ((e, v) # xs)"
    and last_elem: "rep s xs \<Longrightarrow> last_elem s = (if xs = [] then None else Some (fst (last xs)))"
    and remove: "rep s (ps @ (e, v) # qs) \<Longrightarrow> \<exists>s'. remove e s = Some (v, s') \<and> rep s' (ps @ qs)"
    and to_front: "rep s (ps @ (e, v) # qs) \<Longrightarrow> \<exists>s'. to_front e s = Some s' \<and> rep s' ((e, v) # ps @ qs)"
    and value_of: "rep s xs \<Longrightarrow> (e, v) \<in> set xs \<Longrightarrow> value_of s e = v"
    and length_of: "rep s xs \<Longrightarrow> length_of s = int (length xs)"
begin

definition tracks :: "'s \<Rightarrow> ('k \<Rightarrow> 'e option) \<Rightarrow> ('v \<Rightarrow> 'k) \<Rightarrow> ('e \<times> 'v) list \<Rightarrow> bool" where
  "tracks s m key xs \<longleftrightarrow> rep s xs \<and> indexes m key xs"

lemma lookup:
  assumes "tracks s m key xs" "m k = Some e"
  obtains ps v qs where "xs = ps @ (e, v) # qs" "key v = k" "k \<notin> (key \<circ> snd) ` set (ps @ qs)" "value_of s e = v"
proof -
  obtain v where v: "(e, v) \<in> set xs" "key v = k" using assms indexes_lookup unfolding tracks_def by metis
  then obtain ps qs where xs: "xs = ps @ (e, v) # qs" by (meson split_list)
  moreover have "distinct (map (key \<circ> snd) xs)" using assms(1) by (simp add: tracks_def indexes_def)
  then have "k \<notin> (key \<circ> snd) ` set (ps @ qs)" using v(2) by (auto simp: xs)
  ultimately show thesis using that v value_of assms(1) unfolding tracks_def by metis
qed

lemma add:
  assumes "tracks s m key xs" "m (key v) = None"
  shows "\<exists>e s'. push_front v s = Some (e, s') \<and> tracks s' (m(key v \<mapsto> e)) key ((e, v) # xs)"
  using push_front [of s xs v] indexes_add [of m key xs v] assms unfolding tracks_def by metis

lemma add_fresh:
  assumes "tracks s m key xs" "m k = None" "v \<notin> snd ` set xs"
  shows "\<exists>e s'. push_front v s = Some (e, s') \<and> tracks s' (m(k \<mapsto> e)) (key(v := k)) ((e, v) # xs)"
proof -
  have "indexes m (key(v := k)) xs" by (rule indexes_cong [of m key]) (use assms in \<open>auto simp: tracks_def\<close>)
  then show ?thesis using add [of s m "key(v := k)" xs v] assms by (simp add: tracks_def)
qed

lemma drop:
  assumes "tracks s m key (ps @ (e, v) # qs)"
  shows "\<exists>s'. remove e s = Some (v, s') \<and> tracks s' (m(key v := None)) key (ps @ qs)"
  using remove [of s ps e v qs] indexes_delete [of m key ps e v qs] assms unfolding tracks_def by metis

lemma touch:
  assumes "tracks s m key (ps @ (e, v) # qs)"
  shows "\<exists>s'. to_front e s = Some s' \<and> tracks s' m key ((e, v) # ps @ qs)"
  using to_front [of s ps e v qs] indexes_touch [of m key ps "(e, v)" qs] assms unfolding tracks_def by metis

lemma reuse:
  assumes "tracks s m key (ps @ (e, v) # qs)" "v \<notin> snd ` set (ps @ qs)" "m k = None"
  shows "\<exists>s'. to_front e s = Some s' \<and> tracks s' ((m(key v := None))(k \<mapsto> e)) (key(v := k)) ((e, v) # ps @ qs)"
  using to_front [of s ps e v qs] indexes_rename [of m key ps e v qs k] assms unfolding tracks_def by metis

lemma oldest:
  assumes "tracks s m key (xs @ [(e, v)])"
  shows "last_elem s = Some e \<and> value_of s e = v"
  using assms last_elem [of s "xs @ [(e, v)]"] value_of [of s "xs @ [(e, v)]" e v] by (simp add: tracks_def)

end

subsection \<open>container/list keeps the contract\<close>

definition list_rep :: "nat \<Rightarrow> 'v store \<Rightarrow> (addr \<times> 'v) list \<Rightarrow> bool" where
  "list_rep l s xs \<longleftrightarrow> (\<exists>A. list_abs s A \<and> xs = map (\<lambda>e. (Elem e, vals A e)) (seqs A l))"

lemma list_rep_New: "list_rep nl s [] \<Longrightarrow> list_rep nl (New nl s) []"
  using Init_empty [OF zero_List_empty] by (fastforce simp: list_rep_def New_def)

lemma list_rep_split:
  assumes "list_abs s A" "map (\<lambda>e. (Elem e, vals A e)) (seqs A l) = ps @ (a, v) # qs"
  obtains xs e ys where "seqs A l = xs @ e # ys" "a = Elem e" "v = vals A e" "e \<in> set (seqs A l)"
    "ps @ qs = map (\<lambda>e. (Elem e, vals A e)) (remove1 e (seqs A l))"
proof -
  obtain xs e ys where x: "seqs A l = xs @ e # ys" "ps = map (\<lambda>e. (Elem e, vals A e)) xs" "a = Elem e" "v = vals A e"
    "qs = map (\<lambda>e. (Elem e, vals A e)) ys"
    using assms(2) by (auto simp: map_eq_append_conv map_eq_Cons_conv)
  moreover have "e \<notin> set xs" using abs_distinct [OF assms(1), of l] x(1) by simp
  ultimately show thesis using that by (simp add: remove1_append)
qed

interpretation el: element_list "list_rep l" "PushFront l" "Back l" "Remove l" "MoveToFront l"
  "\<lambda>s e. el_Value (elem s e)" "Len l" for l
proof unfold_locales
  show "\<exists>e s'. PushFront l v s = Some (e, s') \<and> list_rep l s' ((e, v) # xs)" if rep: "list_rep l s xs"
    for s :: "'v store" and xs v
  proof -
    obtain A where A: "list_abs s A" "xs = map (\<lambda>e. (Elem e, vals A e)) (seqs A l)" using rep by (auto simp: list_rep_def)
    obtain s' where s': "PushFront l v s = Some (Elem (alloc A), s')" "list_abs s' (spec_PushFront l v A)"
      using PushFront_abs [OF A(1)] by blast
    have "(Elem (alloc A), v) # xs = map (\<lambda>e. (Elem e, vals (spec_PushFront l v A) e)) (seqs (spec_PushFront l v A) l)"
      using abs_fresh [OF A(1), of _ l] by (auto simp: A(2) spec_PushFront_def)
    then have "list_rep l s' ((Elem (alloc A), v) # xs)" unfolding list_rep_def using s'(2) by (intro exI conjI)
    then show ?thesis using s'(1) by blast
  qed
  show "Back l s = (if xs = [] then None else Some (fst (last xs)))" if rep: "list_rep l s xs" for s :: "'v store" and xs
  proof -
    obtain A where "list_abs s A" "xs = map (\<lambda>e. (Elem e, vals A e)) (seqs A l)" using rep by (auto simp: list_rep_def)
    then show ?thesis using abs_Back [of s A l] by (cases "seqs A l" rule: rev_cases) simp_all
  qed
  show "\<exists>s'. Remove l a s = Some (v, s') \<and> list_rep l s' (ps @ qs)" if rep: "list_rep l s (ps @ (a, v) # qs)"
    for s :: "'v store" and ps a v qs
  proof -
    obtain A where A: "list_abs s A" "map (\<lambda>e. (Elem e, vals A e)) (seqs A l) = ps @ (a, v) # qs"
      using rep by (auto simp: list_rep_def)
    then obtain e where e: "a = Elem e" "v = vals A e" "e \<in> set (seqs A l)"
      "ps @ qs = map (\<lambda>e. (Elem e, vals A e)) (remove1 e (seqs A l))" by (blast elim: list_rep_split)
    then show ?thesis using Remove_abs [OF A(1) e(3)] by (auto simp: list_rep_def spec_Remove_def intro!: exI [of _ "spec_Remove l e A"])
  qed
  show "\<exists>s'. MoveToFront l a s = Some s' \<and> list_rep l s' ((a, v) # ps @ qs)" if rep: "list_rep l s (ps @ (a, v) # qs)"
    for s :: "'v store" and ps a v qs
  proof -
    obtain A where A: "list_abs s A" "map (\<lambda>e. (Elem e, vals A e)) (seqs A l) = ps @ (a, v) # qs"
      using rep by (auto simp: list_rep_def)
    then obtain e where e: "a = Elem e" "v = vals A e" "e \<in> set (seqs A l)"
      "ps @ qs = map (\<lambda>e. (Elem e, vals A e)) (remove1 e (seqs A l))" by (blast elim: list_rep_split)
    then show ?thesis using MoveToFront_abs [OF A(1) e(3)]
      by (auto simp: list_rep_def spec_MoveToFront_def intro!: exI [of _ "spec_MoveToFront l e A"])
  qed
  show "el_Value (elem s a) = v" if "list_rep l s xs" "(a, v) \<in> set xs" for s :: "'v store" and xs a v
    using that abs_val by (fastforce simp: list_rep_def)
  show "Len l s = int (length xs)" if "list_rep l s xs" for s :: "'v store" and xs
    using that abs_len by (auto simp: list_rep_def Len_def)
qed

end
