(* ===== verification/Http_ConnLRU.thy ===== *)
theory Http_ConnLRU
  imports Element_List
begin

section \<open>The idle connections of net/http in order of use\<close>

text \<open>
  \<open>connLRU\<close> of net/http/transport.go. Connections are numbers (pointers); the map is empty while it
  is nil, which reading and deleting cannot tell apart. The list number \<open>nl\<close> is the one that
  \<open>list.New\<close> allocates at the first \<open>add\<close>. A panic is \<open>None\<close>.
\<close>

record connLRU =
  ll :: "nat option"
  lru_m :: "nat \<rightharpoonup> addr"
  lru_lists :: "nat store"

definition connLRU_add :: "nat \<Rightarrow> nat \<Rightarrow> connLRU \<Rightarrow> connLRU option" where
  "connLRU_add nl pc cl =
     do { let cl = (if ll cl = None then cl\<lparr>ll := Some nl, lru_m := Map.empty, lru_lists := New nl (lru_lists cl)\<rparr> else cl);
          l \<leftarrow> ll cl;
          (ele, s) \<leftarrow> PushFront l pc (lru_lists cl);
          if lru_m cl pc \<noteq> None then None
          else Some (cl\<lparr>lru_lists := s, lru_m := (lru_m cl)(pc \<mapsto> ele)\<rparr>) }"

definition connLRU_removeOldest :: "connLRU \<Rightarrow> (nat \<times> connLRU) option" where
  "connLRU_removeOldest cl =
     do { l \<leftarrow> ll cl;
          ele \<leftarrow> Back l (lru_lists cl);
          let pc = el_Value (elem (lru_lists cl) ele);
          (_, s) \<leftarrow> Remove l ele (lru_lists cl);
          Some (pc, cl\<lparr>lru_lists := s, lru_m := (lru_m cl)(pc := None)\<rparr>) }"

definition connLRU_remove :: "nat \<Rightarrow> connLRU \<Rightarrow> connLRU option" where
  "connLRU_remove pc cl =
     (case lru_m cl pc of
        None \<Rightarrow> Some cl
      | Some ele \<Rightarrow>
          do { l \<leftarrow> ll cl;
               (_, s) \<leftarrow> Remove l ele (lru_lists cl);
               Some (cl\<lparr>lru_lists := s, lru_m := (lru_m cl)(pc := None)\<rparr>) })"

definition connLRU_len :: "connLRU \<Rightarrow> int" where
  "connLRU_len cl = int (card (dom (lru_m cl)))"

text \<open>The connections, the last added first.\<close>

definition conn_abs :: "nat \<Rightarrow> connLRU \<Rightarrow> nat list \<Rightarrow> bool" where
  "conn_abs nl cl xs \<longleftrightarrow>
     (case ll cl of
        None \<Rightarrow> xs = [] \<and> lru_m cl = Map.empty \<and> list_rep nl (lru_lists cl) []
      | Some l \<Rightarrow> \<exists>ys. el.tracks l (lru_lists cl) (lru_m cl) (\<lambda>pc. pc) ys \<and> xs = map snd ys)"

lemma tracks_conns: "el.tracks l s m (\<lambda>pc. pc) ys \<Longrightarrow> m pc \<noteq> None \<longleftrightarrow> pc \<in> set (map snd ys)"
  using indexes_keys [of m "\<lambda>pc. pc" ys pc] by (auto simp: el.tracks_def image_iff)

lemma tracks_distinct: "el.tracks l s m (\<lambda>pc. pc) ys \<Longrightarrow> distinct (map snd ys)"
  by (simp add: el.tracks_def indexes_def comp_def)

lemma add_ready:
  assumes "el.tracks l (lru_lists cl) (lru_m cl) (\<lambda>pc. pc) ys" "ll cl = Some l" "pc \<notin> set (map snd ys)"
  shows "\<exists>cl'. connLRU_add nl pc cl = Some cl' \<and> conn_abs nl cl' (pc # map snd ys)"
proof -
  have m: "lru_m cl pc = None" using tracks_conns [OF assms(1), of pc] assms(3) by blast
  obtain e s where "PushFront l pc (lru_lists cl) = Some (e, s)"
    "el.tracks l s ((lru_m cl)(pc \<mapsto> e)) (\<lambda>pc. pc) ((e, pc) # ys)"
    using el.add [OF assms(1) m] by blast
  then show ?thesis using assms(2) m by (force simp: connLRU_add_def conn_abs_def)
qed

lemma add_dup:
  assumes "el.tracks l (lru_lists cl) (lru_m cl) (\<lambda>pc. pc) ys" "ll cl = Some l" "pc \<in> set (map snd ys)"
  shows "connLRU_add nl pc cl = None"
  using tracks_conns [OF assms(1), of pc] assms(2,3)
  by (cases "PushFront l pc (lru_lists cl)") (auto simp: connLRU_add_def)

lemma connLRU_add_abs:
  assumes "conn_abs nl cl xs"
  shows "if pc \<in> set xs then connLRU_add nl pc cl = None
    else \<exists>cl'. connLRU_add nl pc cl = Some cl' \<and> conn_abs nl cl' (pc # xs)"
proof (cases "ll cl")
  case None
  let ?cl = "cl\<lparr>ll := Some nl, lru_m := Map.empty, lru_lists := New nl (lru_lists cl)\<rparr>"
  have "connLRU_add nl pc cl = connLRU_add nl pc ?cl" using None by (simp add: connLRU_add_def)
  moreover have "el.tracks nl (lru_lists ?cl) (lru_m ?cl) (\<lambda>pc. pc) []"
    using assms None list_rep_New [of nl "lru_lists cl"] by (simp add: conn_abs_def el.tracks_def indexes_def)
  from add_ready [OF this, of pc nl] have "\<exists>cl'. connLRU_add nl pc ?cl = Some cl' \<and> conn_abs nl cl' [pc]" by simp
  moreover have "xs = []" using assms None by (simp add: conn_abs_def)
  ultimately show ?thesis by simp
next
  case (Some l)
  then show ?thesis using assms add_ready [of l cl _ pc nl] add_dup [of l cl _ pc nl] by (auto simp: conn_abs_def)
qed

lemma connLRU_removeOldest_abs:
  assumes "conn_abs nl cl xs"
  shows "if xs = [] then connLRU_removeOldest cl = None
    else \<exists>cl'. connLRU_removeOldest cl = Some (last xs, cl') \<and> conn_abs nl cl' (butlast xs)"
proof (cases "ll cl")
  case None
  then show ?thesis using assms by (simp add: conn_abs_def connLRU_removeOldest_def)
next
  case (Some l)
  then obtain ys where ys: "el.tracks l (lru_lists cl) (lru_m cl) (\<lambda>pc. pc) ys" "xs = map snd ys"
    using assms by (auto simp: conn_abs_def)
  show ?thesis
  proof (cases ys rule: rev_cases)
    case Nil
    then have "Back l (lru_lists cl) = None" using ys(1) el.last_elem [of l "lru_lists cl" "[]"] by (simp add: el.tracks_def)
    then show ?thesis using Nil ys(2) Some by (simp add: connLRU_removeOldest_def)
  next
    case (snoc zs z)
    obtain e pc where z: "z = (e, pc)" by (cases z)
    have "Back l (lru_lists cl) = Some e \<and> el_Value (elem (lru_lists cl) e) = pc"
      using ys(1) unfolding snoc z by (rule el.oldest)
    moreover obtain s where "Remove l e (lru_lists cl) = Some (pc, s)" "el.tracks l s ((lru_m cl)(pc := None)) (\<lambda>pc. pc) zs"
      using el.drop [of l "lru_lists cl" "lru_m cl" "\<lambda>pc. pc" zs e pc "[]"] ys(1) snoc z by auto
    ultimately show ?thesis using Some snoc z ys(2) by (auto simp: connLRU_removeOldest_def conn_abs_def)
  qed
qed

lemma connLRU_remove_abs:
  assumes "conn_abs nl cl xs"
  shows "\<exists>cl'. connLRU_remove pc cl = Some cl' \<and> conn_abs nl cl' (remove1 pc xs)"
proof (cases "ll cl")
  case None
  then show ?thesis using assms by (simp add: conn_abs_def connLRU_remove_def)
next
  case (Some l)
  then obtain ys where ys: "el.tracks l (lru_lists cl) (lru_m cl) (\<lambda>pc. pc) ys" "xs = map snd ys"
    using assms by (auto simp: conn_abs_def)
  show ?thesis
  proof (cases "lru_m cl pc")
    case None
    then have "pc \<notin> set xs" using tracks_conns [OF ys(1), of pc] ys(2) by simp
    then show ?thesis using None assms by (simp add: connLRU_remove_def remove1_idem)
  next
    case (Some e)
    obtain ps qs where p: "ys = ps @ (e, pc) # qs" "pc \<notin> snd ` set (ps @ qs)"
      by (rule el.lookup [OF ys(1) Some]) (simp add: comp_def)
    obtain s where "Remove l e (lru_lists cl) = Some (pc, s)" "el.tracks l s ((lru_m cl)(pc := None)) (\<lambda>pc. pc) (ps @ qs)"
      using el.drop [OF ys(1) [unfolded p(1)]] by blast
    moreover have "remove1 pc xs = map snd (ps @ qs)" using p(2) ys(2) by (auto simp: p(1) remove1_append)
    ultimately show ?thesis using Some \<open>ll cl = Some l\<close> by (auto simp: connLRU_remove_def conn_abs_def)
  qed
qed

lemma connLRU_len_abs: "conn_abs nl cl xs \<Longrightarrow> connLRU_len cl = int (length xs)"
proof (cases "ll cl")
  case (Some l)
  assume "conn_abs nl cl xs"
  then obtain ys where ys: "el.tracks l (lru_lists cl) (lru_m cl) (\<lambda>pc. pc) ys" "xs = map snd ys"
    using Some by (auto simp: conn_abs_def)
  then have "dom (lru_m cl) = set xs" using tracks_conns [OF ys(1)] by (auto simp: dom_def)
  then show ?thesis using distinct_card [OF tracks_distinct [OF ys(1)]] ys(2) by (simp add: connLRU_len_def)
qed (simp add: conn_abs_def connLRU_len_def)

text \<open>
  C29. The operations of \<open>connLRU\<close> keep a sequence of distinct connections, the last added first:
  \<open>add\<close> puts a new connection first and panics for one that is present, \<open>removeOldest\<close> returns and
  drops the last one and panics if there is none, \<open>remove\<close> drops the given one, \<open>len\<close> counts them.
\<close>

theorem connLRU_correct:
  assumes "conn_abs nl cl xs"
  shows "(if pc \<in> set xs then connLRU_add nl pc cl = None
          else \<exists>cl'. connLRU_add nl pc cl = Some cl' \<and> conn_abs nl cl' (pc # xs)) \<and>
    (if xs = [] then connLRU_removeOldest cl = None
     else \<exists>cl'. connLRU_removeOldest cl = Some (last xs, cl') \<and> conn_abs nl cl' (butlast xs)) \<and>
    (\<exists>cl'. connLRU_remove pc cl = Some cl' \<and> conn_abs nl cl' (remove1 pc xs)) \<and>
    connLRU_len cl = int (length xs)"
  using connLRU_add_abs [OF assms] connLRU_removeOldest_abs [OF assms] connLRU_remove_abs [OF assms]
    connLRU_len_abs [OF assms] by blast

theorem connLRU_correct_witness:
  "let cl = \<lparr>ll = None, lru_m = Map.empty, lru_lists =
       \<lparr>elem = \<lambda>_. \<lparr>el_next = None, el_prev = None, el_list = None, el_Value = 0\<rparr>, len = \<lambda>_. 0, fresh = 0\<rparr>\<rparr>
   in conn_abs 0 cl [] \<and> (\<exists>cl'. connLRU_add 0 5 cl = Some cl' \<and> conn_abs 0 cl' [5])"
proof -
  let ?s = "\<lparr>elem = \<lambda>_. \<lparr>el_next = None, el_prev = None, el_list = None, el_Value = 0\<rparr>, len = \<lambda>_. 0, fresh = 0\<rparr> :: nat store"
  have "list_abs ?s \<lparr>seqs = \<lambda>_. [], vals = \<lambda>_. 0, alloc = 0\<rparr>"
    by (simp add: list_abs_def list_inv_def list_repr_def)
  then have "list_rep 0 ?s []" unfolding list_rep_def by (intro exI conjI) (assumption, simp)
  then have "conn_abs 0 \<lparr>ll = None, lru_m = Map.empty, lru_lists = ?s\<rparr> []" by (simp add: conn_abs_def)
  with connLRU_correct [OF this, of 5] show ?thesis by simp
qed

end
