(* ===== verification/Tls_Session_Cache.thy ===== *)
theory Tls_Session_Cache
  imports Element_List
begin

section \<open>The client session cache of crypto/tls\<close>

text \<open>
  \<open>lruSessionCache\<close> of crypto/tls/common.go. The list holds pointers to entries (numbers), which
  the code updates in place; \<open>entries\<close> is their store. Sessions are pointers as well, nil is
  \<open>None\<close>. \<open>Put\<close> and \<open>Get\<close> run under the mutex of the cache, so that each is one step. A panic is the
  result \<open>None\<close>.
\<close>

record 'st lruSessionCacheEntry =
  sessionKey :: string
  entry_state :: "'st option"

record 'st lruSessionCache =
  cache_m :: "string \<rightharpoonup> addr"
  cache_q :: nat
  capacity :: int
  cache_lists :: "nat store"
  entries :: "nat \<Rightarrow> 'st lruSessionCacheEntry"
  next_entry :: nat

text \<open>\<open>q\<close> is the number of the list that \<open>list.New\<close> allocates, the rest is the heap.\<close>

definition NewLRUClientSessionCache ::
  "int \<Rightarrow> nat \<Rightarrow> nat store \<Rightarrow> (nat \<Rightarrow> 'st lruSessionCacheEntry) \<Rightarrow> nat \<Rightarrow> 'st lruSessionCache" where
  "NewLRUClientSessionCache cap q ls es n =
     (let cap = (if cap < 1 then 64 else cap)
      in \<lparr>cache_m = Map.empty, cache_q = q, capacity = cap, cache_lists = New q ls, entries = es, next_entry = n\<rparr>)"

definition cache_Put :: "string \<Rightarrow> 'st option \<Rightarrow> 'st lruSessionCache \<Rightarrow> 'st lruSessionCache option" where
  "cache_Put key cs c =
     (case cache_m c key of
        Some el \<Rightarrow>
          if cs = None then
            do { (_, s) \<leftarrow> Remove (cache_q c) el (cache_lists c);
                 Some (c\<lparr>cache_lists := s, cache_m := (cache_m c)(key := None)\<rparr>) }
          else
            do { let entry = el_Value (elem (cache_lists c) el);
                 let c = c\<lparr>entries := (entries c)(entry := (entries c entry)\<lparr>entry_state := cs\<rparr>)\<rparr>;
                 s \<leftarrow> MoveToFront (cache_q c) el (cache_lists c);
                 Some (c\<lparr>cache_lists := s\<rparr>) }
      | None \<Rightarrow>
          if Len (cache_q c) (cache_lists c) < capacity c then
            do { let entry = next_entry c;
                 let c = c\<lparr>entries := (entries c)(entry := \<lparr>sessionKey = key, entry_state = cs\<rparr>), next_entry := entry + 1\<rparr>;
                 (el, s) \<leftarrow> PushFront (cache_q c) entry (cache_lists c);
                 Some (c\<lparr>cache_lists := s, cache_m := (cache_m c)(key \<mapsto> el)\<rparr>) }
          else
            do { el \<leftarrow> Back (cache_q c) (cache_lists c);
                 let entry = el_Value (elem (cache_lists c) el);
                 let c = c\<lparr>cache_m := (cache_m c)(sessionKey (entries c entry) := None)\<rparr>;
                 let c = c\<lparr>entries := (entries c)(entry := (entries c entry)\<lparr>sessionKey := key\<rparr>)\<rparr>;
                 let c = c\<lparr>entries := (entries c)(entry := (entries c entry)\<lparr>entry_state := cs\<rparr>)\<rparr>;
                 s \<leftarrow> MoveToFront (cache_q c) el (cache_lists c);
                 Some (c\<lparr>cache_lists := s, cache_m := (cache_m c)(key \<mapsto> el)\<rparr>) })"

definition cache_Get :: "string \<Rightarrow> 'st lruSessionCache \<Rightarrow> (('st option \<times> bool) \<times> 'st lruSessionCache) option" where
  "cache_Get key c =
     (case cache_m c key of
        Some el \<Rightarrow>
          do { s \<leftarrow> MoveToFront (cache_q c) el (cache_lists c);
               let c = c\<lparr>cache_lists := s\<rparr>;
               Some ((entry_state (entries c (el_Value (elem s el))), True), c) }
      | None \<Rightarrow> Some ((None, False), c))"

subsection \<open>The abstract cache\<close>

text \<open>
  The sessions with their keys, the most recently used first. \<open>spec_Put\<close> is what the comments promise: the
  session nil removes the key, any other session is put in front, and if that makes the cache exceed
  its capacity the least recently used session goes.
\<close>

abbreviation without :: "'k \<Rightarrow> ('k \<times> 'v) list \<Rightarrow> ('k \<times> 'v) list" where
  "without k xs \<equiv> filter (\<lambda>x. fst x \<noteq> k) xs"

definition spec_Put :: "int \<Rightarrow> string \<Rightarrow> 'st option \<Rightarrow> (string \<times> 'st option) list \<Rightarrow> (string \<times> 'st option) list" where
  "spec_Put cap k cs xs =
     (if cs = None then without k xs
      else let ys = (k, cs) # without k xs in if int (length ys) \<le> cap then ys else butlast ys)"

definition spec_Get :: "string \<Rightarrow> (string \<times> 'st option) list \<Rightarrow> ('st option \<times> bool) \<times> (string \<times> 'st option) list" where
  "spec_Get k xs =
     (case map_of xs k of None \<Rightarrow> ((None, False), xs) | Some st \<Rightarrow> ((st, True), (k, st) # without k xs))"

definition cache_key :: "'st lruSessionCache \<Rightarrow> nat \<Rightarrow> string" where
  "cache_key c p = sessionKey (entries c p)"

definition session_of :: "'st lruSessionCache \<Rightarrow> addr \<times> nat \<Rightarrow> string \<times> 'st option" where
  "session_of c x = (cache_key c (snd x), entry_state (entries c (snd x)))"

definition cache_wf :: "'st lruSessionCache \<Rightarrow> (addr \<times> nat) list \<Rightarrow> bool" where
  "cache_wf c ys \<longleftrightarrow> el.tracks (cache_q c) (cache_lists c) (cache_m c) (cache_key c) ys \<and> distinct (map snd ys) \<and>
     (\<forall>p\<in>snd ` set ys. p < next_entry c) \<and> 1 \<le> capacity c \<and> int (length ys) \<le> capacity c"

definition cache_abs :: "'st lruSessionCache \<Rightarrow> (string \<times> 'st option) list \<Rightarrow> bool" where
  "cache_abs c xs \<longleftrightarrow> (\<exists>ys. cache_wf c ys \<and> xs = map (session_of c) ys)"

lemma cache_keys: "cache_wf c ys \<Longrightarrow> cache_m c k \<noteq> None \<longleftrightarrow> k \<in> fst ` set (map (session_of c) ys)"
  using indexes_keys [of "cache_m c" "cache_key c" ys k]
  by (auto simp: cache_wf_def el.tracks_def session_of_def image_iff)

lemma without_split:
  assumes "k \<notin> (cache_key c \<circ> snd) ` set (ps @ qs)" "cache_key c p = k"
  shows "without k (map (session_of c) (ps @ (e, p) # qs)) = map (session_of c) (ps @ qs)"
proof -
  have "without k (map (session_of c) zs) = map (session_of c) zs" if "set zs \<subseteq> set (ps @ qs)" for zs
    using that assms(1) by (intro filter_True) (auto simp: session_of_def image_iff)
  then show ?thesis using assms(2) by (simp add: session_of_def)
qed

lemma session_of_cong:
  "(\<And>x. x \<in> set ys \<Longrightarrow> entries c' (snd x) = entries c (snd x)) \<Longrightarrow> map (session_of c') ys = map (session_of c) ys"
  by (simp add: session_of_def cache_key_def)

subsection \<open>The branches of the operations\<close>

lemma cache_lookup:
  assumes wf: "cache_wf c ys" and m: "cache_m c k = Some e"
  obtains ps p qs where "ys = ps @ (e, p) # qs" "cache_key c p = k" "p \<notin> snd ` set (ps @ qs)"
    "el_Value (elem (cache_lists c) e) = p" "without k (map (session_of c) ys) = map (session_of c) (ps @ qs)"
proof -
  have t: "el.tracks (cache_q c) (cache_lists c) (cache_m c) (cache_key c) ys" using wf by (simp add: cache_wf_def)
  obtain ps p qs where p: "ys = ps @ (e, p) # qs" "cache_key c p = k" "k \<notin> (cache_key c \<circ> snd) ` set (ps @ qs)"
    "el_Value (elem (cache_lists c) e) = p" by (rule el.lookup [OF t m])
  moreover have "p \<notin> snd ` set (ps @ qs)" using wf p(1) by (auto simp: cache_wf_def)
  ultimately show thesis using that without_split [OF p(3,2), of e] by blast
qed

lemma Put_remove:
  assumes wf: "cache_wf c ys" and m: "cache_m c k = Some e"
  shows "\<exists>c'. cache_Put k None c = Some c' \<and> cache_abs c' (without k (map (session_of c) ys)) \<and> capacity c' = capacity c"
proof -
  obtain ps p qs where p: "ys = ps @ (e, p) # qs" "cache_key c p = k"
    "without k (map (session_of c) ys) = map (session_of c) (ps @ qs)" by (rule cache_lookup [OF wf m]) blast
  obtain s where s: "Remove (cache_q c) e (cache_lists c) = Some (p, s)"
    "el.tracks (cache_q c) s ((cache_m c)(k := None)) (cache_key c) (ps @ qs)"
    using el.drop [of "cache_q c" "cache_lists c" "cache_m c" "cache_key c" ps e p qs] wf p by (auto simp: cache_wf_def)
  let ?c = "c\<lparr>cache_lists := s, cache_m := (cache_m c)(k := None)\<rparr>"
  have key: "cache_key ?c = cache_key c" "session_of ?c = session_of c" by (simp_all add: fun_eq_iff cache_key_def session_of_def)
  have "cache_wf ?c (ps @ qs)" using wf s(2) p(1) by (auto simp: cache_wf_def key)
  then have "cache_abs ?c (map (session_of c) (ps @ qs))" unfolding cache_abs_def using key(2) by metis
  then show ?thesis using m s(1) p(3) by (simp add: cache_Put_def)
qed

lemma Put_update:
  assumes wf: "cache_wf c ys" and m: "cache_m c k = Some e" and cs: "cs \<noteq> None"
  shows "\<exists>c'. cache_Put k cs c = Some c' \<and> cache_abs c' ((k, cs) # without k (map (session_of c) ys)) \<and> capacity c' = capacity c"
proof -
  obtain ps p qs where p: "ys = ps @ (e, p) # qs" "cache_key c p = k" "p \<notin> snd ` set (ps @ qs)"
    "el_Value (elem (cache_lists c) e) = p" "without k (map (session_of c) ys) = map (session_of c) (ps @ qs)"
    by (rule cache_lookup [OF wf m])
  obtain s where s: "MoveToFront (cache_q c) e (cache_lists c) = Some s"
    "el.tracks (cache_q c) s (cache_m c) (cache_key c) ((e, p) # ps @ qs)"
    using el.touch [of "cache_q c" "cache_lists c" "cache_m c" "cache_key c" ps e p qs] wf p(1) by (auto simp: cache_wf_def)
  let ?c = "c\<lparr>entries := (entries c)(p := (entries c p)\<lparr>entry_state := cs\<rparr>), cache_lists := s\<rparr>"
  have key: "cache_key ?c = cache_key c" by (simp add: fun_eq_iff cache_key_def)
  have "cache_wf ?c ((e, p) # ps @ qs)" using wf s(2) p(1,3) by (auto simp: cache_wf_def key)
  moreover have "map (session_of ?c) ((e, p) # ps @ qs) = (k, cs) # map (session_of c) (ps @ qs)"
    using session_of_cong [of "ps @ qs" ?c c] p(2,3) by (force simp: session_of_def key)
  ultimately have "cache_abs ?c ((k, cs) # map (session_of c) (ps @ qs))" unfolding cache_abs_def by metis
  moreover obtain st where "cs = Some st" using cs by blast
  ultimately show ?thesis using m s(1) p(4,5) by (simp add: cache_Put_def)
qed

lemma Put_new:
  assumes wf: "cache_wf c ys" and m: "cache_m c k = None" and room: "int (length ys) < capacity c"
  shows "\<exists>c'. cache_Put k cs c = Some c' \<and> cache_abs c' ((k, cs) # map (session_of c) ys) \<and> capacity c' = capacity c"
proof -
  let ?p = "next_entry c"
  have p: "?p \<notin> snd ` set ys" using wf by (auto simp: cache_wf_def)
  have t: "el.tracks (cache_q c) (cache_lists c) (cache_m c) (cache_key c) ys" using wf by (simp add: cache_wf_def)
  obtain e s where s: "PushFront (cache_q c) ?p (cache_lists c) = Some (e, s)"
    "el.tracks (cache_q c) s ((cache_m c)(k \<mapsto> e)) ((cache_key c)(?p := k)) ((e, ?p) # ys)"
    using el.add_fresh [OF t m p] by blast
  let ?c = "c\<lparr>entries := (entries c)(?p := \<lparr>sessionKey = k, entry_state = cs\<rparr>), next_entry := Suc ?p, cache_lists := s,
    cache_m := (cache_m c)(k \<mapsto> e)\<rparr>"
  have key: "cache_key ?c = (cache_key c)(?p := k)" by (simp add: fun_eq_iff cache_key_def)
  have len: "Len (cache_q c) (cache_lists c) = int (length ys)"
    using t el.length_of [of "cache_q c" "cache_lists c" ys] by (simp add: el.tracks_def)
  have "cache_wf ?c ((e, ?p) # ys)" using wf s(2) p room by (auto simp: cache_wf_def key less_Suc_eq)
  moreover have "map (session_of ?c) ((e, ?p) # ys) = (k, cs) # map (session_of c) ys"
    using session_of_cong [of ys ?c c] p by (force simp: session_of_def cache_key_def)
  ultimately have "cache_abs ?c ((k, cs) # map (session_of c) ys)" unfolding cache_abs_def by metis
  then show ?thesis using m s(1) room len by (simp add: cache_Put_def Let_def)
qed

lemma Put_evict:
  assumes wf: "cache_wf c ys" and m: "cache_m c k = None" and full: "\<not> int (length ys) < capacity c"
  shows "\<exists>c'. cache_Put k cs c = Some c' \<and> cache_abs c' ((k, cs) # butlast (map (session_of c) ys)) \<and> capacity c' = capacity c"
proof -
  have t: "el.tracks (cache_q c) (cache_lists c) (cache_m c) (cache_key c) ys" using wf by (simp add: cache_wf_def)
  obtain zs e p where ys: "ys = zs @ [(e, p)]"
    using wf full by (cases ys rule: rev_cases) (auto simp: cache_wf_def)
  have p: "p \<notin> snd ` set zs" using wf ys by (auto simp: cache_wf_def)
  have old: "Back (cache_q c) (cache_lists c) = Some e" "el_Value (elem (cache_lists c) e) = p"
    using el.oldest [OF t [unfolded ys]] by simp_all
  obtain s where s: "MoveToFront (cache_q c) e (cache_lists c) = Some s"
    "el.tracks (cache_q c) s (((cache_m c)(cache_key c p := None))(k \<mapsto> e)) ((cache_key c)(p := k)) ((e, p) # zs)"
    using el.reuse [of "cache_q c" "cache_lists c" "cache_m c" "cache_key c" zs e p "[]" k] t p m by (auto simp: ys)
  let ?c = "c\<lparr>entries := (entries c)(p := (entries c p)\<lparr>sessionKey := k, entry_state := cs\<rparr>), cache_lists := s,
    cache_m := ((cache_m c)(cache_key c p := None))(k \<mapsto> e)\<rparr>"
  have key: "cache_key ?c = (cache_key c)(p := k)" by (simp add: fun_eq_iff cache_key_def)
  have len: "Len (cache_q c) (cache_lists c) = int (length ys)"
    using t el.length_of [of "cache_q c" "cache_lists c" ys] by (simp add: el.tracks_def)
  have "cache_wf ?c ((e, p) # zs)" using wf s(2) p by (auto simp: cache_wf_def key ys)
  moreover have "map (session_of ?c) ((e, p) # zs) = (k, cs) # butlast (map (session_of c) ys)"
    using session_of_cong [of zs ?c c] p by (force simp: session_of_def cache_key_def ys)
  ultimately have "cache_abs ?c ((k, cs) # butlast (map (session_of c) ys))" unfolding cache_abs_def by metis
  then show ?thesis using m s(1) old full len by (simp add: cache_Put_def cache_key_def)
qed

lemma Get_abs:
  assumes wf: "cache_wf c ys"
  shows "\<exists>c'. cache_Get k c = Some (fst (spec_Get k (map (session_of c) ys)), c') \<and>
    cache_abs c' (snd (spec_Get k (map (session_of c) ys))) \<and> capacity c' = capacity c"
proof (cases "cache_m c k")
  case None
  then have "map_of (map (session_of c) ys) k = None" using cache_keys [OF wf, of k] by (auto simp: map_of_eq_None_iff)
  then show ?thesis using None wf by (auto simp: cache_Get_def spec_Get_def cache_abs_def)
next
  case (Some e)
  obtain ps p qs where p: "ys = ps @ (e, p) # qs" "cache_key c p = k"
    "el_Value (elem (cache_lists c) e) = p" "without k (map (session_of c) ys) = map (session_of c) (ps @ qs)"
    by (rule cache_lookup [OF wf Some])
  obtain s where s: "MoveToFront (cache_q c) e (cache_lists c) = Some s"
    "el.tracks (cache_q c) s (cache_m c) (cache_key c) ((e, p) # ps @ qs)"
    using el.touch [of "cache_q c" "cache_lists c" "cache_m c" "cache_key c" ps e p qs] wf p(1) by (auto simp: cache_wf_def)
  let ?c = "c\<lparr>cache_lists := s\<rparr>"
  have key: "cache_key ?c = cache_key c" "session_of ?c = session_of c" by (simp_all add: fun_eq_iff cache_key_def session_of_def)
  have val: "el_Value (elem s e) = p" using s(2) el.value_of [of "cache_q c" s _ e p] by (auto simp: el.tracks_def)
  have "cache_wf ?c ((e, p) # ps @ qs)" using wf s(2) p(1) by (auto simp: cache_wf_def key)
  moreover have st: "session_of c (e, p) = (k, entry_state (entries c p))" using p(2) by (simp add: session_of_def)
  ultimately have abs: "cache_abs ?c ((k, entry_state (entries c p)) # map (session_of c) (ps @ qs))"
    unfolding cache_abs_def using key(2) by (metis list.simps(9))
  have "distinct (map fst (map (session_of c) ys))"
    using wf by (simp add: cache_wf_def el.tracks_def indexes_def session_of_def comp_def)
  then have "map_of (map (session_of c) ys) k = Some (entry_state (entries c p))"
    using st by (intro map_of_is_SomeI) (auto simp: p(1))
  then show ?thesis using Some s(1) val abs p(4) by (simp add: cache_Get_def spec_Get_def)
qed

subsection \<open>Properties\<close>

lemma spec_Put_absent:
  assumes "k \<notin> fst ` set xs" "cs \<noteq> None" "1 \<le> cap"
  shows "spec_Put cap k cs xs = (if int (length xs) < cap then (k, cs) # xs else (k, cs) # butlast xs)"
proof -
  have "without k xs = xs" using assms(1) by (intro filter_True) auto
  then show ?thesis using assms(2,3) by (auto simp: spec_Put_def)
qed

lemma spec_Put_present:
  assumes "k \<in> fst ` set xs" "cs \<noteq> None" "int (length xs) \<le> cap"
  shows "spec_Put cap k cs xs = (k, cs) # without k xs"
proof -
  have "length (without k xs) < length xs" using assms(1) by (auto intro: length_filter_less)
  then show ?thesis using assms(2,3) by (simp add: spec_Put_def)
qed

text \<open>
  C30. \<open>Put\<close> and \<open>Get\<close> of the session cache return and act on the sequence of sessions as their comments
  say: \<open>Put\<close> of a session moves or adds it to the front and, in a full cache, drops the least recently used
  one; \<open>Put\<close> of nil for a key that is in the cache removes its entry; \<open>Get\<close> finds the session of its key
  and moves it to the front. The cache never exceeds its capacity, what was put is found by the next
  \<open>Get\<close>, and what was removed is not. (\<open>Put\<close> of nil for a key that is not in the cache is left out here;
  \<open>Put_nil_absent\<close> below shows what it does.)
\<close>

theorem session_cache_correct:
  assumes "cache_abs c xs"
  shows "(cs \<noteq> None \<or> k \<in> fst ` set xs \<longrightarrow>
      (\<exists>c'. cache_Put k cs c = Some c' \<and> cache_abs c' (spec_Put (capacity c) k cs xs) \<and> capacity c' = capacity c)) \<and>
    (\<exists>c'. cache_Get k c = Some (fst (spec_Get k xs), c') \<and> cache_abs c' (snd (spec_Get k xs)) \<and> capacity c' = capacity c) \<and>
    int (length xs) \<le> capacity c \<and>
    fst (spec_Get k (spec_Put (capacity c) k (Some st) xs)) = (Some st, True) \<and>
    fst (spec_Get k (spec_Put (capacity c) k None xs)) = (None, False)"
proof -
  obtain ys where wf: "cache_wf c ys" and xs: "xs = map (session_of c) ys" using assms by (auto simp: cache_abs_def)
  have cap: "int (length xs) \<le> capacity c" "1 \<le> capacity c" using wf xs by (simp_all add: cache_wf_def)
  have "\<exists>c'. cache_Put k cs c = Some c' \<and> cache_abs c' (spec_Put (capacity c) k cs xs) \<and> capacity c' = capacity c"
    if cs: "cs \<noteq> None \<or> k \<in> fst ` set xs"
  proof (cases "cache_m c k")
    case None
    then have "k \<notin> fst ` set xs" using cache_keys [OF wf, of k] xs by blast
    then show ?thesis
      using Put_new [OF wf None, of cs] Put_evict [OF wf None, of cs] spec_Put_absent [of k xs cs "capacity c"] cs cap(2)
      by (auto simp: xs)
  next
    case (Some e)
    then have "k \<in> fst ` set xs" using cache_keys [OF wf, of k] xs by blast
    then show ?thesis
      using Put_remove [OF wf Some] Put_update [OF wf Some, of cs] spec_Put_present [of k xs cs "capacity c"] cap(1)
      by (cases "cs = None") (simp_all add: spec_Put_def xs)
  qed
  moreover have "fst (spec_Get k (spec_Put (capacity c) k (Some st) xs)) = (Some st, True)"
  proof -
    have "hd (spec_Put (capacity c) k (Some st) xs) = (k, Some st) \<and> spec_Put (capacity c) k (Some st) xs \<noteq> []"
      using cap(2) by (auto simp: spec_Put_def Let_def)
    then show ?thesis by (cases "spec_Put (capacity c) k (Some st) xs") (simp_all add: spec_Get_def)
  qed
  moreover have "fst (spec_Get k (spec_Put (capacity c) k None xs)) = (None, False)"
  proof -
    have "map_of (without k xs) k = None" by (auto simp: map_of_eq_None_iff)
    then show ?thesis by (simp add: spec_Put_def spec_Get_def)
  qed
  ultimately show ?thesis using Get_abs [OF wf, of k] xs cap(1) by simp
qed

lemma NewLRUClientSessionCache_abs:
  "list_rep q ls [] \<Longrightarrow> cache_abs (NewLRUClientSessionCache cap q ls es n) [] \<and> 1 \<le> capacity (NewLRUClientSessionCache cap q ls es n)"
  using list_rep_New [of q ls]
  by (auto simp: cache_abs_def cache_wf_def NewLRUClientSessionCache_def Let_def el.tracks_def indexes_def)

definition empty_heap :: "nat store" where
  "empty_heap = \<lparr>elem = \<lambda>_. \<lparr>el_next = None, el_prev = None, el_list = None, el_Value = 0\<rparr>, len = \<lambda>_. 0, fresh = 0\<rparr>"

lemma empty_heap_rep: "list_rep 0 empty_heap []"
proof -
  have "list_abs empty_heap \<lparr>seqs = \<lambda>_. [], vals = \<lambda>_. 0, alloc = 0\<rparr>"
    by (simp add: list_abs_def list_inv_def list_repr_def empty_heap_def)
  then show ?thesis unfolding list_rep_def by (intro exI conjI) (assumption, simp)
qed

theorem session_cache_correct_witness:
  "let c = NewLRUClientSessionCache 1 0 empty_heap (\<lambda>_. \<lparr>sessionKey = [], entry_state = None\<rparr>) 0
   in cache_abs c [] \<and> (\<exists>c'. cache_Put ''a'' (Some (7 :: int)) c = Some c' \<and> cache_abs c' [(''a'', Some 7)])"
proof -
  define c where "c = NewLRUClientSessionCache 1 0 empty_heap (\<lambda>_. \<lparr>sessionKey = [], entry_state = None :: int option\<rparr>) 0"
  have c: "cache_abs c []" "capacity c = 1"
    using NewLRUClientSessionCache_abs [OF empty_heap_rep] unfolding c_def
    by (blast, simp add: NewLRUClientSessionCache_def)
  show ?thesis
    using session_cache_correct [OF c(1), of "Some 7" "''a''" 7] c by (auto simp: spec_Put_def c_def Let_def)
qed

text \<open>
  \<open>Put\<close> with the session nil and an absent key does not leave the cache as it is: it adds an entry
  for the key, which \<open>Get\<close> reports as present, and in a full cache drops another session.
\<close>

lemma Put_nil_absent:
  assumes "cache_abs c xs" "k \<notin> fst ` set xs" "int (length xs) = capacity c"
  shows "\<exists>c'. cache_Put k None c = Some c' \<and> cache_abs c' ((k, None) # butlast xs)"
proof -
  obtain ys where wf: "cache_wf c ys" and xs: "xs = map (session_of c) ys" using assms(1) by (auto simp: cache_abs_def)
  have "cache_m c k = None" using cache_keys [OF wf, of k] assms(2) xs by blast
  then show ?thesis using Put_evict [OF wf, of k None] assms(3) xs by auto
qed

end
