(* ===== verification/Container_Ring.thy ===== *)
theory Container_Ring
  imports Circular
begin

section \<open>Rings (container/ring)\<close>

text \<open>
  Ring elements are numbered; a pointer is an optional number. Operations on a zero element
  (\<open>next\<close> is nil) initialise it, so that also \<open>Next\<close> and \<open>Prev\<close> return a store. Following nil
  panics, which is \<open>None\<close> as the result of an operation; the loops of \<open>Len\<close> and \<open>Do\<close> are also
  \<open>None\<close> when they do not end.
\<close>

record 'v ring_store =
  r_next :: "nat \<Rightarrow> nat option"
  r_prev :: "nat \<Rightarrow> nat option"
  r_Value :: "nat \<Rightarrow> 'v"
  r_fresh :: nat

definition put_next :: "nat \<Rightarrow> nat option \<Rightarrow> 'v ring_store \<Rightarrow> 'v ring_store" where
  "put_next r p h = h\<lparr>r_next := (r_next h)(r := p)\<rparr>"

definition put_prev :: "nat \<Rightarrow> nat option \<Rightarrow> 'v ring_store \<Rightarrow> 'v ring_store" where
  "put_prev r p h = h\<lparr>r_prev := (r_prev h)(r := p)\<rparr>"

lemma put_fields [simp]:
  "r_next (put_next r p h) = (r_next h)(r := p)" "r_prev (put_next r p h) = r_prev h"
  "r_next (put_prev r p h) = r_next h" "r_prev (put_prev r p h) = (r_prev h)(r := p)"
  "r_Value (put_next r p h) = r_Value h" "r_Value (put_prev r p h) = r_Value h"
  "r_fresh (put_next r p h) = r_fresh h" "r_fresh (put_prev r p h) = r_fresh h"
  by (simp_all add: put_next_def put_prev_def)

subsection \<open>The code\<close>

definition ring_init :: "nat \<Rightarrow> 'v ring_store \<Rightarrow> nat option \<times> 'v ring_store" where
  "ring_init r h = (let h = put_next r (Some r) h; h = put_prev r (Some r) h in (Some r, h))"

definition ring_Next :: "nat \<Rightarrow> 'v ring_store \<Rightarrow> nat option \<times> 'v ring_store" where
  "ring_Next r h = (if r_next h r = None then ring_init r h else (r_next h r, h))"

definition ring_Prev :: "nat \<Rightarrow> 'v ring_store \<Rightarrow> nat option \<times> 'v ring_store" where
  "ring_Prev r h = (if r_next h r = None then ring_init r h else (r_prev h r, h))"

text \<open>The loops of \<open>Move\<close>: the given field is followed the given number of times.\<close>

fun follow :: "(nat \<Rightarrow> nat option) \<Rightarrow> nat \<Rightarrow> nat option \<Rightarrow> nat option option" where
  "follow f 0 p = Some p"
| "follow f (Suc n) p = do { r \<leftarrow> p; follow f n (f r) }"

definition ring_Move :: "nat \<Rightarrow> int \<Rightarrow> 'v ring_store \<Rightarrow> (nat option \<times> 'v ring_store) option" where
  "ring_Move r n h =
     (if r_next h r = None then Some (ring_init r h)
      else
        do { p \<leftarrow> (if n < 0 then follow (r_prev h) (nat (- n)) (Some r)
                   else if n > 0 then follow (r_next h) (nat n) (Some r)
                   else Some (Some r));
             Some (p, h) })"

text \<open>\<open>new_ring p\<close> is the allocation \<open>&Ring{prev: p}\<close>; \<open>zero\<close> is the zero value.\<close>

definition new_ring :: "'v \<Rightarrow> nat option \<Rightarrow> 'v ring_store \<Rightarrow> nat \<times> 'v ring_store" where
  "new_ring zero p h =
     (let q = r_fresh h
      in (q, h\<lparr>r_next := (r_next h)(q := None), r_prev := (r_prev h)(q := p), r_Value := (r_Value h)(q := zero),
               r_fresh := q + 1\<rparr>))"

fun ring_New_loop :: "'v \<Rightarrow> nat \<Rightarrow> nat \<Rightarrow> 'v ring_store \<Rightarrow> nat \<times> 'v ring_store" where
  "ring_New_loop zero 0 p h = (p, h)"
| "ring_New_loop zero (Suc k) p h =
     (case new_ring zero (Some p) h of (q, h) \<Rightarrow> let h = put_next p (Some q) h in ring_New_loop zero k q h)"

definition ring_New :: "'v \<Rightarrow> int \<Rightarrow> 'v ring_store \<Rightarrow> nat option \<times> 'v ring_store" where
  "ring_New zero n h =
     (if n \<le> 0 then (None, h)
      else
        (case new_ring zero None h of (r, h) \<Rightarrow>
         case ring_New_loop zero (nat (n - 1)) r h of (p, h) \<Rightarrow>
           let h = put_next p (Some r) h; h = put_prev r (Some p) h in (Some r, h)))"

definition ring_Link :: "nat \<Rightarrow> nat option \<Rightarrow> 'v ring_store \<Rightarrow> (nat option \<times> 'v ring_store) option" where
  "ring_Link r s h =
     (case ring_Next r h of (n, h) \<Rightarrow>
      case s of
        None \<Rightarrow> Some (n, h)
      | Some s' \<Rightarrow>
          (case ring_Prev s' h of (p, h) \<Rightarrow>
           do { let h = put_next r s h;
                let h = put_prev s' (Some r) h;
                n' \<leftarrow> n;
                let h = put_prev n' p h;
                p' \<leftarrow> p;
                let h = put_next p' n h;
                Some (n, h) }))"

text \<open>The sum \<open>n + 1\<close> of a 64-bit int.\<close>

definition int_succ :: "int \<Rightarrow> int" where
  "int_succ n = (if n = 2 ^ 63 - 1 then - (2 ^ 63) else n + 1)"

definition ring_Unlink :: "nat \<Rightarrow> int \<Rightarrow> 'v ring_store \<Rightarrow> (nat option \<times> 'v ring_store) option" where
  "ring_Unlink r n h =
     (if n \<le> 0 then Some (None, h)
      else do { (s, h) \<leftarrow> ring_Move r (int_succ n) h; ring_Link r s h })"

partial_function (option) ring_Len_loop :: "(nat \<Rightarrow> nat option) \<Rightarrow> nat \<Rightarrow> nat option \<Rightarrow> int \<Rightarrow> int option" where
  "ring_Len_loop nx r p n = (if p = Some r then Some n else do { q \<leftarrow> p; ring_Len_loop nx r (nx q) (n + 1) })"

definition ring_Len :: "nat option \<Rightarrow> 'v ring_store \<Rightarrow> (int \<times> 'v ring_store) option" where
  "ring_Len r h =
     (case r of
        None \<Rightarrow> Some (0, h)
      | Some r \<Rightarrow>
          (case ring_Next r h of (p, h) \<Rightarrow> do { n \<leftarrow> ring_Len_loop (r_next h) r p 1; Some (n, h) }))"

text \<open>The function given to \<open>Do\<close> acts on a state of its own and not on the ring.\<close>

partial_function (option) ring_Do_loop ::
  "(nat \<Rightarrow> nat option) \<Rightarrow> (nat \<Rightarrow> 'v) \<Rightarrow> ('v \<Rightarrow> 's \<Rightarrow> 's) \<Rightarrow> nat \<Rightarrow> nat option \<Rightarrow> 's \<Rightarrow> 's option" where
  "ring_Do_loop nx val f r p st =
     (if p = Some r then Some st else do { q \<leftarrow> p; ring_Do_loop nx val f r (nx q) (f (val q) st) })"

definition ring_Do :: "nat option \<Rightarrow> ('v \<Rightarrow> 's \<Rightarrow> 's) \<Rightarrow> 's \<Rightarrow> 'v ring_store \<Rightarrow> ('s \<times> 'v ring_store) option" where
  "ring_Do r f st h =
     (case r of
        None \<Rightarrow> Some (st, h)
      | Some r \<Rightarrow>
          (let st = f (r_Value h r) st
           in case ring_Next r h of (p, h) \<Rightarrow>
                do { st \<leftarrow> ring_Do_loop (r_next h) (r_Value h) f r p st; Some (st, h) }))"

end
