(* ===== verification/Container_Ring_Props.thy ===== *)
theory Container_Ring_Props
  imports Container_Ring
begin

section \<open>Rings are circles\<close>

text \<open>
  \<open>ring_at h r as\<close>: the ring of \<open>r\<close> has the elements \<open>r # as\<close> in forward order, or it is a single
  zero element.
\<close>

definition ring_at :: "'v ring_store \<Rightarrow> nat \<Rightarrow> nat list \<Rightarrow> bool" where
  "ring_at h r as \<longleftrightarrow> circ (r_next h) (r_prev h) (r # as) \<or> (r_next h r = None \<and> as = [])"

definition ring_set :: "nat \<Rightarrow> 'v ring_store \<Rightarrow> 'v ring_store" where
  "ring_set r h = (if r_next h r = None then snd (ring_init r h) else h)"

lemma ring_set_fields [simp]: "r_Value (ring_set r h) = r_Value h" "r_fresh (ring_set r h) = r_fresh h"
  by (simp_all add: ring_set_def ring_init_def Let_def)

lemma ring_set_frame: "x \<noteq> r \<Longrightarrow> r_next (ring_set r h) x = r_next h x \<and> r_prev (ring_set r h) x = r_prev h x"
  by (simp add: ring_set_def ring_init_def Let_def)

lemma ring_set_circ: "ring_at h r as \<Longrightarrow> circ (r_next (ring_set r h)) (r_prev (ring_set r h)) (r # as)"
proof (cases "r_next h r")
  case None
  assume "ring_at h r as"
  moreover have "\<not> circ (r_next h) (r_prev h) (r # as)" using None circ_next by fastforce
  ultimately have "as = []" by (auto simp: ring_at_def)
  then show ?thesis using None by (simp add: ring_set_def ring_init_def Let_def circ_def linked_def)
qed (auto simp: ring_at_def ring_set_def)

lemma ring_Next_eq: "ring_at h r as \<Longrightarrow> ring_Next r h = (Some (hd (as @ [r])), ring_set r h)"
  using ring_set_circ [of h r as] circ_next [of "r_next (ring_set r h)" "r_prev (ring_set r h)" r as]
  by (auto simp: ring_Next_def ring_set_def ring_init_def Let_def split: if_splits)

lemma ring_Prev_eq: "ring_at h r as \<Longrightarrow> ring_Prev r h = (Some (last (r # as)), ring_set r h)"
  using ring_set_circ [of h r as] circ_prev [of "r_next (ring_set r h)" "r_prev (ring_set r h)" r as]
  by (auto simp: ring_Prev_def ring_set_def ring_init_def Let_def split: if_splits)

subsection \<open>Moving\<close>

lemma follow_circ:
  assumes "circ nx pr xs" "xs \<noteq> []"
  shows "follow nx n (Some (hd xs)) = Some (Some (xs ! (n mod length xs)))"
proof -
  have "follow nx n (Some (hd ys)) = Some (Some (hd (rotate n ys)))" if "circ nx pr ys" "ys \<noteq> []" for ys
    using that
  proof (induction n arbitrary: ys)
    case (Suc n)
    obtain y zs where ys: "ys = y # zs" using Suc.prems(2) by (cases ys) auto
    have c: "circ nx pr (rotate1 ys)" using circ_rotate_n [of nx pr 1 ys] Suc.prems(1) by simp
    have "nx y = Some (hd (rotate1 ys))" using circ_next Suc.prems(1) by (simp add: ys)
    then show ?case using Suc.IH [OF c] ys by (simp add: rotate1_rotate_swap)
  qed simp
  then show ?thesis using assms hd_rotate_conv_nth [OF assms(2)] by simp
qed

lemma rev_index:
  assumes "m < Suc (length as)"
  shows "(r # rev as) ! m = (r # as) ! ((Suc (length as) - m) mod Suc (length as))"
proof (cases m)
  case (Suc k)
  then have "Suc (length as) - m = Suc (length as - Suc k)" using assms by simp
  then show ?thesis using Suc assms by (simp add: rev_nth)
qed simp

lemma ring_Move_eq:
  assumes "ring_at h r as"
  shows "ring_Move r n h = Some (Some ((r # as) ! nat (n mod int (length (r # as)))), ring_set r h)"
proof (cases "r_next h r")
  case None
  then have "as = []" using assms circ_next [of "r_next h" "r_prev h" r as] by (auto simp: ring_at_def)
  then show ?thesis using None by (simp add: ring_Move_def ring_set_def ring_init_def Let_def)
next
  case (Some x)
  let ?L = "length (r # as)"
  have c: "circ (r_next h) (r_prev h) (r # as)" using assms Some by (simp add: ring_at_def)
  have "circ (r_prev h) (r_next h) (rev as @ [r])" using circ_rev [of "r_prev h" "r_next h" "r # as"] c by simp
  then have c': "circ (r_prev h) (r_next h) (r # rev as)"
    using circ_rotate [of "r_prev h" "r_next h" "[r]" "rev as"] by simp
  have fwd: "follow (r_next h) (nat n) (Some r) = Some (Some ((r # as) ! nat (n mod int ?L)))" if "0 \<le> n"
    using follow_circ [OF c, of "nat n"] that by (simp add: nat_mod_distrib nat_add_distrib)
  have bwd: "follow (r_prev h) (nat (- n)) (Some r) = Some (Some ((r # as) ! nat (n mod int ?L)))" if "n < 0"
  proof -
    let ?m = "nat (- n) mod ?L"
    have "n mod int ?L = (- int ?m) mod int ?L" using that by (simp add: zmod_int mod_minus_eq del: length_Cons)
    also have "\<dots> = (int ?L - int ?m) mod int ?L" by (metis minus_mod_self1 diff_0 mod_diff_left_eq mod_self)
    also have "\<dots> = int ((?L - ?m) mod ?L)" by (simp add: zmod_int of_nat_diff)
    finally have "nat (n mod int ?L) = (?L - ?m) mod ?L" by simp
    then show ?thesis using follow_circ [OF c', of "nat (- n)"] rev_index [of ?m as r] by simp
  qed
  show ?thesis using Some fwd bwd by (auto simp: ring_Move_def ring_set_def)
qed

subsection \<open>Visiting all elements\<close>

declare ring_Len_loop.simps [simp del] ring_Do_loop.simps [simp del]

lemma ring_Len_loop_eq:
  assumes "links nx pr (xs @ [r])" "r \<notin> set xs"
  shows "ring_Len_loop nx r (Some (hd (xs @ [r]))) n = Some (n + int (length xs))"
  using assms
proof (induction xs arbitrary: n)
  case (Cons x xs)
  then have "nx x = Some (hd (xs @ [r]))" by (cases xs) (auto simp: linked_def)
  then show ?case using Cons.IH [of "n + 1"] Cons.prems by (subst ring_Len_loop.simps) (cases xs; auto)
qed (simp add: ring_Len_loop.simps)

lemma ring_Do_loop_eq:
  assumes "links nx pr (xs @ [r])" "r \<notin> set xs"
  shows "ring_Do_loop nx val f r (Some (hd (xs @ [r]))) st = Some (fold f (map val xs) st)"
  using assms
proof (induction xs arbitrary: st)
  case (Cons x xs)
  then have "nx x = Some (hd (xs @ [r]))" by (cases xs) (auto simp: linked_def)
  then show ?case using Cons.IH [of "f (val x) st"] Cons.prems by (subst ring_Do_loop.simps) (cases xs; auto)
qed (simp add: ring_Do_loop.simps)

lemma circ_rest: "circ nx pr (r # as) \<Longrightarrow> links nx pr (as @ [r]) \<and> r \<notin> set as"
  by (cases as) (auto simp: circ_def)

lemma ring_Len_eq: "ring_at h r as \<Longrightarrow> ring_Len (Some r) h = Some (int (length (r # as)), ring_set r h)"
  using ring_Len_loop_eq [of _ _ as r 1] circ_rest [OF ring_set_circ [of h r as]]
  by (auto simp: ring_Len_def ring_Next_eq)

lemma ring_Do_eq:
  "ring_at h r as \<Longrightarrow> ring_Do (Some r) f st h = Some (fold f (map (r_Value h) (r # as)) st, ring_set r h)"
  using ring_Do_loop_eq [of _ _ as r "r_Value h" f "f (r_Value h r) st"] circ_rest [OF ring_set_circ [of h r as]]
  by (auto simp: ring_Do_def ring_Next_eq)

subsection \<open>Linking\<close>

text \<open>Elements outside of a set keep their pointers, and all keep their values.\<close>

definition ring_frame :: "nat set \<Rightarrow> 'v ring_store \<Rightarrow> 'v ring_store \<Rightarrow> bool" where
  "ring_frame X h h' \<longleftrightarrow> (\<forall>x. x \<notin> X \<longrightarrow> r_next h' x = r_next h x \<and> r_prev h' x = r_prev h x) \<and> r_Value h' = r_Value h"

lemma ring_set_other: "ring_at h s bs \<Longrightarrow> r \<notin> set (s # bs) \<Longrightarrow> ring_at (ring_set r h) s bs"
proof -
  assume "ring_at h s bs" and r: "r \<notin> set (s # bs)"
  moreover have "circ (r_next (ring_set r h)) (r_prev (ring_set r h)) (s # bs) \<longleftrightarrow> circ (r_next h) (r_prev h) (s # bs)"
    by (rule circ_cong, rule ring_set_frame) (use r in auto)
  ultimately show ?thesis using ring_set_frame [of s r h] r by (auto simp: ring_at_def)
qed

definition relink :: "nat \<Rightarrow> nat \<Rightarrow> nat \<Rightarrow> nat \<Rightarrow> 'v ring_store \<Rightarrow> 'v ring_store" where
  "relink r s n p h = put_next p (Some n) (put_prev n (Some p) (put_prev s (Some r) (put_next r (Some s) h)))"

lemma ring_Link_eq:
  assumes "ring_at h r as" "ring_at (ring_set r h) s bs"
  shows "ring_Link r (Some s) h =
    Some (Some (hd (as @ [r])), relink r s (hd (as @ [r])) (last (s # bs)) (ring_set s (ring_set r h)))"
  using ring_Next_eq [OF assms(1)] ring_Prev_eq [OF assms(2)] by (simp add: ring_Link_def relink_def Let_def)

lemma relink_circ [simp]:
  "r_next (relink r s n p h) = (r_next h)(r := Some s, p := Some n)"
  "r_prev (relink r s n p h) = (r_prev h)(s := Some r, n := Some p)"
  "r_Value (relink r s n p h) = r_Value h"
  by (simp_all add: relink_def)

lemma relink_frame: "{r, s, n, p} \<subseteq> X \<Longrightarrow> ring_frame X h (relink r s n p (ring_set s (ring_set r h)))"
  using ring_set_frame [of _ s "ring_set r h"] ring_set_frame [of _ r h] by (auto simp: ring_frame_def)

lemma hd_in_ring: "hd (as @ [r]) \<in> set (r # as)" and last_in_ring: "last (r # as) \<in> set (r # as)"
proof -
  show "hd (as @ [r]) \<in> set (r # as)" by (cases as) auto
  show "last (r # as) \<in> set (r # as)" by (rule last_in_set) simp
qed

lemma ring_Link_two:
  assumes r: "ring_at h r as" and s: "ring_at h s bs" and d: "set (r # as) \<inter> set (s # bs) = {}"
  shows "\<exists>h'. ring_Link r (Some s) h = Some (Some (hd (as @ [r])), h') \<and> ring_at h' r (s # bs @ as) \<and>
    ring_frame (set (r # as) \<union> set (s # bs)) h h'"
proof -
  let ?n = "hd (as @ [r])" and ?p = "last (s # bs)"
  let ?h = "ring_set s (ring_set r h)"
  have s': "ring_at (ring_set r h) s bs" using ring_set_other [OF s, of r] d by auto
  have "circ (r_next ?h) (r_prev ?h) (r # as) \<longleftrightarrow> circ (r_next (ring_set r h)) (r_prev (ring_set r h)) (r # as)"
    by (rule circ_cong, rule ring_set_frame) (use d in auto)
  then have cr: "circ (r_next ?h) (r_prev ?h) (r # as)" using ring_set_circ [OF r] by simp
  have "circ (r_next (relink r s ?n ?p ?h)) (r_prev (relink r s ?n ?p ?h)) (r # s # bs @ as)"
    by (rule circ_join [OF cr ring_set_circ [OF s'] d refl refl relink_circ(1,2)])
  moreover have "ring_frame (set (r # as) \<union> set (s # bs)) h (relink r s ?n ?p ?h)"
    using hd_in_ring [of as r] last_in_ring [of s bs] by (intro relink_frame) auto
  ultimately show ?thesis using ring_Link_eq [OF r s'] unfolding ring_at_def by blast
qed

lemma ring_at_circ: "ring_at h r as \<Longrightarrow> as \<noteq> [] \<Longrightarrow> ring_set r h = h \<and> circ (r_next h) (r_prev h) (r # as)"
proof -
  assume "ring_at h r as" "as \<noteq> []"
  then have c: "circ (r_next h) (r_prev h) (r # as)" by (auto simp: ring_at_def)
  then show ?thesis using circ_next [OF c] by (simp add: ring_set_def)
qed

lemma ring_Link_same:
  assumes r: "ring_at h r (us @ s # vs)"
  shows "\<exists>h'. ring_Link r (Some s) h = Some (Some (hd (us @ [s])), h') \<and> ring_at h' r (s # vs) \<and>
    (us \<noteq> [] \<longrightarrow> ring_at h' (hd us) (tl us)) \<and> ring_frame (set (r # us @ s # vs)) h h'"
proof -
  let ?n = "hd (us @ [s])" and ?p = "last (r # us)"
  have h: "ring_set r h = h" and c: "circ (r_next h) (r_prev h) (r # us @ s # vs)" using ring_at_circ [OF r] by auto
  have cs: "circ (r_next h) (r_prev h) (s # vs @ r # us)"
    using c circ_rotate [of _ _ "r # us" "s # vs"] by simp
  then have s: "ring_at (ring_set r h) s (vs @ r # us)" "ring_set s h = h"
    using ring_at_circ [of h s "vs @ r # us"] by (simp_all add: h ring_at_def)
  have "ring_Link r (Some s) h = Some (Some ?n, relink r s ?n ?p h)"
    using ring_Link_eq [OF r s(1)] s(2) h by (cases us) simp_all
  moreover have "circ (r_next (relink r s ?n ?p h)) (r_prev (relink r s ?n ?p h)) (r # s # vs) \<and>
    circ (r_next (relink r s ?n ?p h)) (r_prev (relink r s ?n ?p h)) us"
    by (rule circ_cut [OF c refl refl relink_circ(1,2)])
  moreover have "ring_frame (set (r # us @ s # vs)) h (relink r s ?n ?p h)"
    using relink_frame [of r s ?n ?p "set (r # us @ s # vs)" h] hd_in_ring [of us s] last_in_ring [of r us] s(2) h by auto
  ultimately show ?thesis unfolding ring_at_def by (cases us) auto
qed

lemma ring_Link_self:
  assumes r: "ring_at h r us"
  shows "\<exists>h'. ring_Link r (Some r) h = Some (Some (hd (us @ [r])), h') \<and> ring_at h' r [] \<and>
    (us \<noteq> [] \<longrightarrow> ring_at h' (hd us) (tl us)) \<and> ring_frame (set (r # us)) h h'"
proof -
  let ?n = "hd (us @ [r])" and ?p = "last (r # us)" and ?h = "ring_set r h"
  have c: "circ (r_next ?h) (r_prev ?h) (r # us)" by (rule ring_set_circ [OF r])
  have h: "ring_set r ?h = ?h" using circ_next [OF c] by (simp add: ring_set_def)
  have "ring_Link r (Some r) h = Some (Some ?n, relink r r ?n ?p ?h)"
    using ring_Link_eq [OF r, of r us] c h by (simp add: ring_at_def)
  moreover have "circ (r_next (relink r r ?n ?p ?h)) (r_prev (relink r r ?n ?p ?h)) [r] \<and>
    circ (r_next (relink r r ?n ?p ?h)) (r_prev (relink r r ?n ?p ?h)) us"
    by (rule circ_cut_self [OF c refl refl relink_circ(1,2)])
  moreover have "ring_frame (set (r # us)) h (relink r r ?n ?p ?h)"
    using relink_frame [of r r ?n ?p "set (r # us)" h] hd_in_ring [of us r] last_in_ring [of r us] h by auto
  ultimately show ?thesis unfolding ring_at_def by (cases us) auto
qed

lemma ring_Unlink_eq:
  assumes r: "ring_at h r as" and n: "0 < n" "n < 2 ^ 63 - 1" and k: "k = nat (n mod int (length (r # as)))"
  shows "\<exists>h'. ring_Unlink r n h = Some (Some (hd (as @ [r])), h') \<and> ring_at h' r (drop k as) \<and>
    (0 < k \<longrightarrow> ring_at h' (hd as) (tl (take k as))) \<and> ring_frame (set (r # as)) h h'"
proof -
  let ?L = "length (r # as)"
  have kL: "k < ?L" using k by (simp add: nat_less_iff)
  have "nat ((n + 1) mod int ?L) = Suc k mod ?L"
    using n k by (simp add: nat_mod_distrib nat_add_distrib mod_Suc_eq del: length_Cons)
  then have mv: "ring_Move r (int_succ n) h = Some (Some ((r # as) ! (Suc k mod ?L)), ring_set r h)"
    using ring_Move_eq [OF r, of "n + 1"] n by (simp add: int_succ_def del: length_Cons)
  let ?h = "ring_set r h"
  have r': "ring_at ?h r as" using ring_set_circ [OF r] by (simp add: ring_at_def)
  have fr: "ring_frame (set (r # as)) ?h h' \<Longrightarrow> ring_frame (set (r # as)) h h'" for h'
    using ring_set_frame [of _ r h] by (auto simp: ring_frame_def)
  show ?thesis
  proof (cases "Suc k < ?L")
    case True
    then have as: "as = take k as @ as ! k # drop (Suc k) as" by (simp add: id_take_nth_drop)
    then have "ring_at ?h r (take k as @ as ! k # drop (Suc k) as)" using r' by simp
    from ring_Link_same [OF this] obtain h' where h': "ring_Link r (Some (as ! k)) ?h = Some (Some (hd (take k as @ [as ! k])), h')"
      "ring_at h' r (as ! k # drop (Suc k) as)" "take k as \<noteq> [] \<longrightarrow> ring_at h' (hd (take k as)) (tl (take k as))"
      "ring_frame (set (r # as)) ?h h'" using as by (metis (no_types, lifting))
    moreover have "hd (take k as @ [as ! k]) = hd (as @ [r])" using True by (cases as; cases k) auto
    moreover have "as ! k # drop (Suc k) as = drop k as" using True by (simp add: Cons_nth_drop_Suc)
    moreover have "0 < k \<Longrightarrow> take k as \<noteq> [] \<and> hd (take k as) = hd as" using True by auto
    ultimately show ?thesis using mv n fr True by (auto simp: ring_Unlink_def)
  next
    case False
    then have "k = length as" using kL by simp
    then show ?thesis using ring_Link_self [OF r'] mv n fr by (auto simp: ring_Unlink_def)
  qed
qed

subsection \<open>Creating rings\<close>

lemma ring_New_loop_eq:
  assumes "links (r_next h) (r_prev h) [a..<r_fresh h]" "a \<le> p" "r_fresh h = Suc p"
  shows "\<exists>h'. ring_New_loop z k p h = (p + k, h') \<and> r_fresh h' = Suc (p + k) \<and>
    links (r_next h') (r_prev h') [a..<r_fresh h'] \<and>
    (\<forall>x<a. r_next h' x = r_next h x \<and> r_prev h' x = r_prev h x) \<and>
    (\<forall>x<r_fresh h. r_Value h' x = r_Value h x) \<and> (\<forall>x\<ge>r_fresh h. x < r_fresh h' \<longrightarrow> r_Value h' x = z)"
  using assms
proof (induction k arbitrary: p h)
  case (Suc k)
  let ?q = "Suc p"
  define t where "t = put_next p (Some ?q) (snd (new_ring z (Some p) h))"
  have t: "r_next t = (r_next h)(?q := None, p := Some ?q)" "r_prev t = (r_prev h)(?q := Some p)"
    "r_Value t = (r_Value h)(?q := z)" "r_fresh t = Suc ?q"
    by (simp_all add: t_def new_ring_def Let_def Suc.prems(3))
  have "links (r_next t) (r_prev t) [a..<?q]"
  proof (rule links_segment [of "r_next h" "r_prev h"])
    show "links (r_next h) (r_prev h) [a..<?q]" using Suc.prems(1,3) by simp
  qed (use Suc.prems(2) in \<open>auto simp: t\<close>)
  moreover have "linked (r_next t) (r_prev t) p ?q" by (simp add: linked_def t)
  ultimately have "links (r_next t) (r_prev t) ([a..<?q] @ [?q])"
    using Suc.prems(2) by (subst links_app) auto
  then have l: "links (r_next t) (r_prev t) [a..<r_fresh t]" using Suc.prems(2) by (simp add: t(4))
  obtain h' where h': "ring_New_loop z k ?q t = (?q + k, h')" "r_fresh h' = Suc (?q + k)"
    "links (r_next h') (r_prev h') [a..<r_fresh h']"
    "\<forall>x<a. r_next h' x = r_next t x \<and> r_prev h' x = r_prev t x"
    "\<forall>x<r_fresh t. r_Value h' x = r_Value t x" "\<forall>x\<ge>r_fresh t. x < r_fresh h' \<longrightarrow> r_Value h' x = z"
    using Suc.IH [OF l] Suc.prems(2) by (auto simp: t(4))
  have "ring_New_loop z (Suc k) p h = (p + Suc k, h')"
    using h'(1) by (simp add: t_def new_ring_def Let_def Suc.prems(3))
  moreover have "\<forall>x\<ge>r_fresh h. x < r_fresh h' \<longrightarrow> r_Value h' x = z"
    using h'(5,6) by (auto simp: t Suc.prems(3) not_less_eq_eq le_Suc_eq) (metis Suc_leI le_neq_implies_less lessI not_less_eq)
  ultimately show ?case
    using h'(2-5) Suc.prems(2,3) by (intro exI [of _ h']) (auto simp: t)
qed (auto intro!: exI)

lemma ring_New_eq:
  assumes n: "0 < n"
  shows "\<exists>h'. ring_New z n h = (Some (r_fresh h), h') \<and>
    ring_at h' (r_fresh h) [Suc (r_fresh h)..<r_fresh h + nat n] \<and>
    (\<forall>x<r_fresh h. r_next h' x = r_next h x \<and> r_prev h' x = r_prev h x \<and> r_Value h' x = r_Value h x) \<and>
    (\<forall>x\<in>{r_fresh h..<r_fresh h + nat n}. r_Value h' x = z)"
proof -
  let ?a = "r_fresh h"
  define t where "t = snd (new_ring z None h)"
  have t: "r_next t = (r_next h)(?a := None)" "r_prev t = (r_prev h)(?a := None)"
    "r_Value t = (r_Value h)(?a := z)" "r_fresh t = Suc ?a"
    by (simp_all add: t_def new_ring_def Let_def)
  let ?p = "?a + nat (n - 1)"
  have p: "Suc ?p = ?a + nat n" using n by simp
  obtain h' where h': "ring_New_loop z (nat (n - 1)) ?a t = (?p, h')" "r_fresh h' = Suc ?p"
    "links (r_next h') (r_prev h') [?a..<Suc ?p]"
    "\<forall>x<?a. r_next h' x = r_next t x \<and> r_prev h' x = r_prev t x"
    "\<forall>x<Suc ?a. r_Value h' x = r_Value t x" "\<forall>x\<ge>Suc ?a. x < Suc ?p \<longrightarrow> r_Value h' x = z"
    using ring_New_loop_eq [of t ?a ?a z "nat (n - 1)"] by (auto simp: t(4))
  define h2 where "h2 = put_prev ?a (Some ?p) (put_next ?p (Some ?a) h')"
  have l: "links (r_next h2) (r_prev h2) [?a..<Suc ?p]"
    by (rule links_segment [OF h'(3)]) (simp_all add: h2_def hd_upt last_upt del: upt_Suc)
  have "linked (r_next h2) (r_prev h2) ?p ?a" by (simp add: linked_def h2_def)
  then have "circ (r_next h2) (r_prev h2) [?a..<Suc ?p]" using l by (simp add: circ_iff hd_upt last_upt del: upt_Suc)
  then have "ring_at h2 ?a [Suc ?a..<Suc ?p]" by (simp add: ring_at_def upt_conv_Cons del: upt_Suc)
  moreover have "ring_New z n h = (Some ?a, h2)"
    using h'(1) n by (simp add: ring_New_def t_def new_ring_def Let_def h2_def)
  moreover have "\<forall>x<?a. r_next h2 x = r_next h x \<and> r_prev h2 x = r_prev h x \<and> r_Value h2 x = r_Value h x"
    using h'(4,5) by (auto simp: h2_def t)
  moreover have "\<forall>x\<in>{?a..<Suc ?p}. r_Value h2 x = z"
  proof
    fix x assume "x \<in> {?a..<Suc ?p}"
    then show "r_Value h2 x = z" using h'(5,6) by (cases "x = ?a") (simp_all add: h2_def t)
  qed
  ultimately show ?thesis unfolding p by blast
qed

section \<open>Properties\<close>

text \<open>
  C31. On a ring, \<open>Next\<close>, \<open>Prev\<close>, \<open>Move\<close>, \<open>Len\<close> and \<open>Do\<close> return and read the circle: \<open>Move n\<close> goes to the
  element \<open>n\<close> places ahead (back for negative \<open>n\<close>) modulo the length, \<open>Do\<close> visits every element once
  in forward order. They change a zero element only, into a ring of its own.
\<close>

theorem ring_traversal:
  assumes "ring_at h r as"
  shows "let L = int (length (r # as)); h' = ring_set r h in
    ring_Next r h = (Some (hd (as @ [r])), h') \<and> ring_Prev r h = (Some (last (r # as)), h') \<and>
    ring_Move r n h = Some (Some ((r # as) ! nat (n mod L)), h') \<and> ring_Len (Some r) h = Some (L, h') \<and>
    ring_Do (Some r) f st h = Some (fold f (map (r_Value h) (r # as)) st, h') \<and>
    ring_at h' r as \<and> ring_frame {r} h h'"
  using ring_Next_eq [OF assms] ring_Prev_eq [OF assms] ring_Move_eq [OF assms] ring_Len_eq [OF assms]
    ring_Do_eq [OF assms] ring_set_circ [OF assms] ring_set_frame [of _ r h]
  by (simp add: Let_def ring_at_def ring_frame_def)

text \<open>A sample store: a ring of three elements and a zero element.\<close>

definition sample_rings :: "int ring_store" where
  "sample_rings = \<lparr>r_next = [0 \<mapsto> 1, 1 \<mapsto> 2, 2 \<mapsto> 0], r_prev = [0 \<mapsto> 2, 1 \<mapsto> 0, 2 \<mapsto> 1], r_Value = int, r_fresh = 4\<rparr>"

lemma sample_ring_at: "ring_at sample_rings 0 [1, 2]" "ring_at sample_rings 3 []"
  by (simp_all add: ring_at_def sample_rings_def circ_def linked_def)

theorem ring_traversal_witness:
  "\<exists>h. ring_Move 0 (- 1) sample_rings = Some (Some 2, h) \<and> ring_Len (Some 0) sample_rings = Some (3, h) \<and>
     ring_Do (Some 0) (\<lambda>v vs. vs @ [v]) [] sample_rings = Some ([0, 1, 2], h)"
  using ring_traversal [OF sample_ring_at(1), of "- 1" "\<lambda>v vs. vs @ [v]" "[]"]
  by (auto simp: Let_def sample_rings_def)

lemma linking_all:
  assumes "ring_at h r as"
  shows "(ring_at h s bs \<and> set (r # as) \<inter> set (s # bs) = {} \<longrightarrow>
      (\<exists>h'. ring_Link r (Some s) h = Some (Some (hd (as @ [r])), h') \<and> ring_at h' r (s # bs @ as) \<and>
         ring_frame (set (r # as) \<union> set (s # bs)) h h')) \<and>
    (as = us @ s # vs \<longrightarrow>
      (\<exists>h'. ring_Link r (Some s) h = Some (Some (hd (as @ [r])), h') \<and> ring_at h' r (s # vs) \<and>
         (us \<noteq> [] \<longrightarrow> ring_at h' (hd us) (tl us)) \<and> ring_frame (set (r # as)) h h')) \<and>
    (\<exists>h'. ring_Link r (Some r) h = Some (Some (hd (as @ [r])), h') \<and> ring_at h' r [] \<and>
         (as \<noteq> [] \<longrightarrow> ring_at h' (hd as) (tl as)) \<and> ring_frame (set (r # as)) h h') \<and>
    ring_Link r None h = Some (Some (hd (as @ [r])), ring_set r h)"
proof -
  have "hd (us @ [s]) = hd (as @ [r])" if "as = us @ s # vs" using that by (cases us) auto
  then show ?thesis
    using ring_Link_two [OF assms, of s bs] ring_Link_same [of h r us s vs] ring_Link_self [OF assms] ring_Next_eq [OF assms] assms
    by (auto simp: ring_Link_def)
qed

lemma create_unlink_all:
  assumes "ring_at h r as" "n < 2 ^ 63 - 1"
  shows "if n \<le> 0 then ring_New z n h = (None, h) \<and> ring_Unlink r n h = Some (None, h)
    else let k = nat (n mod int (length (r # as))); a = r_fresh h in
      (\<exists>h'. ring_New z n h = (Some a, h') \<and> ring_at h' a [Suc a..<a + nat n] \<and>
         (\<forall>x<a. r_next h' x = r_next h x \<and> r_prev h' x = r_prev h x \<and> r_Value h' x = r_Value h x) \<and>
         (\<forall>x\<in>{a..<a + nat n}. r_Value h' x = z)) \<and>
      (\<exists>h'. ring_Unlink r n h = Some (Some (hd (as @ [r])), h') \<and> ring_at h' r (drop k as) \<and>
         (0 < k \<longrightarrow> ring_at h' (hd as) (tl (take k as))) \<and> ring_frame (set (r # as)) h h')"
  using ring_New_eq [of n z h] ring_Unlink_eq [OF assms(1) _ assms(2) refl]
  by (simp add: Let_def ring_New_def ring_Unlink_def del: length_Cons)

text \<open>
  C32. \<open>Link\<close> returns the old successor of \<open>r\<close>. Linked with an element of another ring it inserts
  that ring after \<open>r\<close>; linked with an element of the same ring it removes the elements in between
  (all others, when linked with itself), which form a ring; nil changes nothing. Elements outside of the
  rings keep their pointers, and all elements their values. \<open>New\<close> makes a ring of \<open>n\<close> new elements with
  zero values and leaves the others alone (nil for \<open>n \<le> 0\<close>); \<open>Unlink n\<close> removes \<open>n mod Len\<close> elements
  after \<open>r\<close>, which form a ring, and returns the old successor (nil for \<open>n \<le> 0\<close>).
\<close>

theorem ring_linking:
  assumes "ring_at h r as"
  shows "((ring_at h s bs \<and> set (r # as) \<inter> set (s # bs) = {} \<longrightarrow>
      (\<exists>h'. ring_Link r (Some s) h = Some (Some (hd (as @ [r])), h') \<and> ring_at h' r (s # bs @ as) \<and>
         ring_frame (set (r # as) \<union> set (s # bs)) h h')) \<and>
    (as = us @ s # vs \<longrightarrow>
      (\<exists>h'. ring_Link r (Some s) h = Some (Some (hd (as @ [r])), h') \<and> ring_at h' r (s # vs) \<and>
         (us \<noteq> [] \<longrightarrow> ring_at h' (hd us) (tl us)) \<and> ring_frame (set (r # as)) h h')) \<and>
    (\<exists>h'. ring_Link r (Some r) h = Some (Some (hd (as @ [r])), h') \<and> ring_at h' r [] \<and>
         (as \<noteq> [] \<longrightarrow> ring_at h' (hd as) (tl as)) \<and> ring_frame (set (r # as)) h h') \<and>
    ring_Link r None h = Some (Some (hd (as @ [r])), ring_set r h)) \<and>
    (n < 2 ^ 63 - 1 \<longrightarrow> (if n \<le> 0 then ring_New z n h = (None, h) \<and> ring_Unlink r n h = Some (None, h)
    else let k = nat (n mod int (length (r # as))); a = r_fresh h in
      (\<exists>h'. ring_New z n h = (Some a, h') \<and> ring_at h' a [Suc a..<a + nat n] \<and>
         (\<forall>x<a. r_next h' x = r_next h x \<and> r_prev h' x = r_prev h x \<and> r_Value h' x = r_Value h x) \<and>
         (\<forall>x\<in>{a..<a + nat n}. r_Value h' x = z)) \<and>
      (\<exists>h'. ring_Unlink r n h = Some (Some (hd (as @ [r])), h') \<and> ring_at h' r (drop k as) \<and>
         (0 < k \<longrightarrow> ring_at h' (hd as) (tl (take k as))) \<and> ring_frame (set (r # as)) h h')))"
  by (rule conjI [OF linking_all [OF assms] impI [OF create_unlink_all [OF assms]]])

theorem ring_linking_witness:
  "(\<exists>h'. ring_Link 0 (Some 3) sample_rings = Some (Some 1, h') \<and> ring_at h' 0 [3, 1, 2]) \<and>
   (\<exists>h'. ring_Link 0 (Some 2) sample_rings = Some (Some 1, h') \<and> ring_at h' 0 [2] \<and> ring_at h' 1 []) \<and>
   (\<exists>h'. ring_Unlink 0 4 sample_rings = Some (Some 1, h') \<and> ring_at h' 0 [2] \<and> ring_at h' 1 []) \<and>
   (\<exists>h'. ring_New 0 4 sample_rings = (Some 4, h') \<and> ring_at h' 4 [5, 6, 7])"
  using conjunct1 [OF ring_linking [OF sample_ring_at(1), of 3 "[]" "[]" "[]"]]
    conjunct1 [OF ring_linking [OF sample_ring_at(1), of 2 "[]" "[1]" "[]"]]
    conjunct2 [OF ring_linking [OF sample_ring_at(1), of 3 "[]" "[]" "[]" 4 0]] sample_ring_at(2)
  by (auto simp: Let_def sample_rings_def upt_rec)

end
