(* ===== verification/Spec2Isabelle.thy ===== *)
theory Spec2Isabelle
  imports
    Chan_Props Sort_Props Container_Heap Utf8_Top Utf16_Props Math_Bits_Props Strconv_Props
    Hash_Adler32 Hash_Fnv_Props Path_Props Path_Match_Props Sync_Once
    Http_ConnLRU Tls_Session_Cache Container_Ring_Props
begin

text \<open>
  Verification of core packages of the Go library and runtime in libgo.

  \<^bold>\<open>The program.\<close> The repository holds a Go front end in C++ (src/go) and the Go run-time and standard
  library in Go (src/libgo/go). This development models Go code of the library: the channels of the
  runtime, which goroutines communicate by; the mutex and \<open>Once\<close> of package sync; the data structures and algorithms that other packages
  are built on (sorting, heaps, lists, rings); the conversions between text, integers and bytes; paths and their patterns; the bit
  arithmetic and the hashes; and three clients of these in other packages (the action queue
  of the go command, the idle connections of net/http, the session cache of crypto/tls), so that
  the contracts are used as well as proved.

  \<^bold>\<open>How code is modelled.\<close> A Go function is a definition with its name (with a prefix where a name
  occurs in several packages). State is passed explicitly: a record for a struct, a store of records
  with addresses where the code shares objects through pointers. A panic is \<open>None\<close>, or \<open>Panic\<close> of the
  type \<open>outcome\<close> of \<open>Go_Prelude\<close> where panics with messages, runtime throws and parking are told
  apart. Errors that Go returns are values (\<open>NumError\<close>, \<open>Inl\<close>). Unsigned integers are words of their
  width; the code that computes with \<open>int\<close> indices uses numbers, with wrap-around written out where
  it can occur; the width of \<open>int\<close> and \<open>uint\<close>, where it matters, is an argument (32 or 64).

  \<^bold>\<open>Loops.\<close> A loop is a recursive function. Where its end is evident from the data, the termination is
  proved with a measure. \<open>dequeue\<close> and the two loops of \<open>closechan\<close>, which follow pointers, and the loops
  of \<open>ring.Len\<close>, \<open>ring.Do\<close> and \<open>path.Clean\<close> are partial functions into options, and so are the loops of \<open>Stable\<close>
  (rotation, sorting of blocks, merge passes); the theorems state that they return. No definition
  uses fuel.

  \<^bold>\<open>Goroutines.\<close> Where goroutines run at the same time, each has a program counter with its local
  variables, and an inductive relation (\<open>chan_run\<close>, \<open>mutex_reachable\<close>,
  \<open>once_reachable\<close>) has the states of all runs, with any goroutine taking the next step. A step is the
  code between two accesses to shared state that other goroutines can observe: a critical section
  of the channel lock, or one atomic instruction of the mutex.

  \<^bold>\<open>Theories and sources.\<close>

  \<^item> \<open>Go_Prelude\<close>: the type of results, bytes, shared collections of rules and lemmas.

  \<^item> \<open>Chan_Waitq\<close> (wait queues), \<open>Chan\<close> (make, send, receive, close): runtime/chan.go and the parts of
    runtime/proc.go and runtime2.go it uses. The locale \<open>waiter_queue\<close> is the contract of the queues. The
    code between taking and releasing the lock of a channel is one step; an operation that parks is
    continued by \<open>chansend_wake\<close> or \<open>chanrecv_wake\<close>. \<open>Chan_Inv\<close> has the invariant of the runtime state,
    \<open>Chan_Refine\<close> an abstract channel (a bounded queue with blocked senders and receivers) and the
    proof that sends and receives implement it, \<open>Chan_System\<close> the same for closing and for the code
    after a park, \<open>Chan_Runs\<close> the system of all goroutines as an inductive relation, with histories of what was
    sent and received that are read off the results of the code and the memory before and after a step.
    \<open>Chan_Props\<close>: the invariant
    holds in every run (C1), values are received in the order they were sent (C2), the three operations
    refine the abstract channel (C3 to C5), no run reaches a throw (C6), the size computation
    of \<open>makechan\<close> (C7).

  \<^item> \<open>Sort_Model\<close>, \<open>Sort_Stable\<close> (code of sort/sort.go and search.go over an interface), \<open>Sort_Laws\<close> (the locales \<open>sort_interface\<close> and \<open>sort_order\<close>: what a
    collection promises), \<open>Sort_Pivot\<close>, \<open>Sort_Quick\<close>, \<open>Sort_Correct\<close>, \<open>Sort_Merge\<close>, \<open>Sort_Stable_Correct\<close>,
    \<open>Sort_Props\<close>: \<open>Sort\<close> and \<open>Slice\<close> sort (C8), \<open>Stable\<close> and
    \<open>SliceStable\<close> return and sort stably (C9), the slice types (C10), binary search (C11).

  \<^item> \<open>Container_Heap\<close>: container/heap over the locale \<open>heap_interface\<close>, an extension of \<open>sort_order\<close> (C12), and
    its client, the action queue of cmd/go (C13).

  \<^item> \<open>Utf8\<close>, \<open>Utf8_Props\<close>, \<open>Utf8_Codec\<close>, \<open>Utf8_Top\<close>: unicode/utf8 and runtime/utf8.go against a
    reference by arithmetic on code points: round trip, validity, agreement of the two implementations,
    partial runes (C14 to C17). \<open>Utf16\<close>, \<open>Utf16_Props\<close>: unicode/utf16 (C33).

  \<^item> \<open>Math_Bits\<close> with \<open>Math_Bits_Laws\<close>, \<open>Math_Bits_Order\<close>, \<open>Math_Bits_Arith\<close>, \<open>Math_Bits_Ones\<close>, \<open>Math_Bits_Props\<close>:
    math/bits with its tables: counts, rotations and reversals (C18), sums and products of double
    width (C19), division (C20).

  \<^item> \<open>Strconv\<close>, \<open>Strconv_Format\<close>, \<open>Strconv_Parse\<close>, \<open>Strconv_Props\<close>: strconv/itoa.go, atoi.go, atob.go on both
    word sizes: formatting (C21), parsing with its errors (C22), round trip (C23), signed parsing and the fast path of
    \<open>Atoi\<close> (C24), each against digits and prefixes stated without the tables of the code; underscores are modelled but in
    no theorem. Lemmas \<open>ParseInt_one_bit\<close> and \<open>ParseUint_range_first\<close> record where the code departs
    from its comments.

  \<^item> \<open>Circular\<close> (circles of pointers, cutting and joining them), \<open>Container_List\<close> (code of
    container/list), \<open>Container_List_Inv\<close> (a store represents a family of lists), \<open>Container_List_Ops\<close>
    and \<open>Container_List_Spec\<close> (every operation acts as one on sequences), \<open>Container_List_Props\<close>:
    insertions, moves, removal, copies of lists, also of a list into itself, traversal (C25 to C28);
    \<open>Init\<close> is covered for lists in use as well; \<open>Init_keeps_owner\<close> shows what it leaves behind in their
    elements.

  \<^item> \<open>Element_List\<close>: the contract of container/list for clients that keep a map from keys to elements, as
    the locale \<open>element_list\<close>, and its interpretation. \<open>Http_ConnLRU\<close> (net/http, C29) and
    \<open>Tls_Session_Cache\<close> (crypto/tls, C30) rest on it; \<open>Put_nil_absent\<close> shows where \<open>Put\<close> departs from
    its comment.

  \<^item> \<open>Container_Ring\<close>, \<open>Container_Ring_Props\<close>: container/ring: traversal (C31), \<open>Link\<close> joins or splits rings,
    \<open>New\<close> and \<open>Unlink\<close> (C32).

  \<^item> \<open>Hash_State\<close> (the contract of package hash as the locale \<open>streaming_hash\<close>, bytes of words),
    \<open>Hash_Adler32\<close> (hash/adler32, C34), \<open>Hash_Fnv\<close>, \<open>Hash_Fnv_Props\<close> (hash/fnv, C35): seven interpretations of
    the locale; the 32-bit sums of Adler-32 do not overflow between reductions, and the 128-bit FNV hashes
    multiply modulo \<open>2 ^ 128\<close> with \<open>bits.Mul64\<close>.

  \<^item> \<open>Path\<close> (code of path/path.go), \<open>Path_Clean\<close> (the loop of \<open>Clean\<close> simulates a stack of elements),
    \<open>Path_Props\<close>: \<open>Clean\<close> is the normalisation of the elements, idempotent and without an index out of
    range; the other functions in terms of the elements (C36).

  \<^item> \<open>Path_Match\<close> (code of path/match.go), \<open>Path_Match_Ref\<close> (the documented pattern language: terms, a parser
    and what a sequence of terms accepts), \<open>Path_Match_Scan\<close> (cutting a pattern into chunks at its stars),
    \<open>Path_Match_Props\<close>: what \<open>Match\<close> answers, and which patterns it refuses (C37), where a star of the reference stands for
    characters and the code searches bytes. \<open>match_inside_rune\<close> and
    \<open>match_first_only\<close> record where the code departs from its comment.

  \<^item> \<open>Sync_Mutex\<close>: sync/mutex.go, one definition per piece of code up to the next access to the shared words,
    over the 32-bit word \<open>state\<close>; the semaphore is the counter that sync/runtime.go documents, and
    any goroutine that waits may take a count (the order of the queue and \<open>handoff\<close> only restrict which one does, so
    the runs with them are among those that C38 and C40 quantify over); spinning and the clock answer anything.
    \<open>Sync_Mutex_Inv\<close>: the word as flags and a number of waiters, and the invariant that relates it to the program
    counters; \<open>Sync_Mutex_Live\<close>: from every reachable state with a goroutine in \<open>Lock\<close> there is a way on;
    \<open>Sync_Mutex_Props\<close>: mutual exclusion, no throw (C38), no lost wake-up (C39). The number of goroutines is
    bounded by \<open>2 ^ 28\<close>, what the 29 bits for waiters hold in a signed word.

  \<^item> \<open>Sync_Once\<close>: sync/once.go on top of the steps of the mutex: \<open>f\<close> is started at most once and has
    finished when a call of \<open>Do\<close> returns (C40).

  \<^bold>\<open>Assumptions in the statements.\<close> Collections that are sorted have to satisfy the laws of their
    locale (a strict weak order, \<open>Swap\<close> exchanges two elements), and are small enough for the indices not to
    overflow (fewer than \<open>2 ^ 30\<close> elements suffice). In the channel model a goroutine owns the
    memory its element pointers point to while it is parked. Operations of lists and rings are called with
    pointers that are not nil, as their comments require. The mutexes around the methods of the
    session cache and of the connection list make each method one step. In the model of the mutex a goroutine
    calls \<open>Unlock\<close> only while the mutex is held, fewer than \<open>2 ^ 28\<close> goroutines use it, atomic operations are
    sequentially consistent and the race detector is off.

  \<^bold>\<open>Not modelled.\<close> The front end in C++; memory management, scheduling, signals and select of the runtime
    (concurrent code over raw memory), of which the mutex uses the semaphore by its documented contract only;
    \<open>RWMutex\<close>, \<open>WaitGroup\<close>, \<open>Cond\<close>, \<open>Pool\<close> and \<open>Map\<close> of sync; floating-point conversions and
    quoting of strconv; the networking, cryptographic, operating-system and reflection packages but
    for the parts named above; vendored packages; tests. Next in line would be select on the channel model,
    the readers-writer lock on the model of the mutex, and the encodings (base64, varints, the JSON scanner).
\<close>

end
